(* ===== verification/HC_Prelude.thy ===== *)
theory HC_Prelude
  imports Main "HOL-Library.Word" "HOL-Library.Monad_Syntax" "HOL-Library.Sublist"
begin

unbundle bit_operations_syntax

text \<open>
  Shared vocabulary of the development.

  Machine types. \<open>unsigned long\<close> is a 64 bit word, \<open>u8\<close>, \<open>u16\<close> and \<open>u32\<close> are words of
  their width (\<^verbatim>\<open>include/common.h\<close>); a C \<open>int\<close> that only counts, indexes or carries a
  return code is an \<open>int\<close>.

  Undefined behaviour. A definition whose C code can read or write outside an object returns
  an \<open>option\<close>: \<open>None\<close> is that fault, \<open>Some r\<close> a run that ends with result \<open>r\<close>. The codes
  the program itself returns (\<open>0\<close>, \<open>-1\<close>, \<open>HC_ERR_EXISTS\<close>, \<dots>) are values inside \<open>Some\<close>.

  Buffers. A \<open>char\<close> buffer is the list of its bytes up to some point; every later byte of it
  is NUL. A zeroed buffer is \<open>[]\<close>. \<open>cstr\<close> reads the C string a buffer holds. The capacity of
  a buffer is written at the place that writes to it.
\<close>

named_theorems hc_limits \<open>the sizes of buffers and tables\<close>
named_theorems hc_codes \<open>the numbers of result codes\<close>

type_synonym u8 = "8 word"
type_synonym u16 = "16 word"
type_synonym u32 = "32 word"
type_synonym ulong = "64 word"
type_synonym buf = "char list"

section \<open>Bytes and buffers\<close>

abbreviation NUL :: char where
  "NUL \<equiv> CHR 0x00"

definition cstr :: "buf \<Rightarrow> string" where
  "cstr b = takeWhile (\<lambda>c. c \<noteq> NUL) b"

text \<open>Overwriting the first \<open>length s\<close> bytes of a buffer.\<close>

definition buf_put :: "buf \<Rightarrow> string \<Rightarrow> buf" where
  "buf_put b s = s @ drop (length s) b"

text \<open>A string that C can hold: it has no NUL inside.\<close>

definition is_cstr :: "string \<Rightarrow> bool" where
  "is_cstr s \<longleftrightarrow> NUL \<notin> set s"

definition ord :: "char \<Rightarrow> nat" where
  "ord c = of_char c"

lemma cstr_Nil [simp]: "cstr [] = []"
  by (simp add: cstr_def)

lemma cstr_is_cstr [simp]: "is_cstr (cstr b)"
  by (auto simp: cstr_def is_cstr_def dest: set_takeWhileD)

lemma is_cstr_Nil [simp]: "is_cstr []"
  by (simp add: is_cstr_def)

lemma is_cstr_append [simp]: "is_cstr (s @ t) \<longleftrightarrow> is_cstr s \<and> is_cstr t"
  by (auto simp: is_cstr_def)

lemma is_cstr_Cons [simp]: "is_cstr (c # s) \<longleftrightarrow> c \<noteq> NUL \<and> is_cstr s"
  by (auto simp: is_cstr_def)

lemma cstr_id [simp]: "is_cstr s \<Longrightarrow> cstr s = s"
  by (auto simp: cstr_def is_cstr_def takeWhile_eq_all_conv)

lemma cstr_append_NUL [simp]: "is_cstr s \<Longrightarrow> cstr (s @ NUL # t) = s"
  by (auto simp: cstr_def is_cstr_def takeWhile_append)

lemma length_cstr_le: "length (cstr b) \<le> length b"
  by (simp add: cstr_def length_takeWhile_le)

lemma buf_put_Nil [simp]: "buf_put [] s = s"
  by (simp add: buf_put_def)

lemma buf_put_full: "length b \<le> length s \<Longrightarrow> buf_put b s = s"
  by (simp add: buf_put_def)

section \<open>Lists, options\<close>

lemma takeWhile_drop_append:
  "takeWhile P xs @ drop (length (takeWhile P xs)) xs = xs"
  by (simp add: dropWhile_eq_drop [symmetric])

lemma bind_Some_conv: "Option.bind m f = Some y \<longleftrightarrow> (\<exists>x. m = Some x \<and> f x = Some y)"
  by (cases m) auto

lemma option_bind_mono_case:
  "(case m of None \<Rightarrow> None | Some x \<Rightarrow> f x) = Option.bind m f"
  by (cases m) auto

text \<open>The first index below \<open>n\<close>, from \<open>i\<close> on, that satisfies \<open>P\<close>: the shape of the
  program's linear searches over its arrays.\<close>

function find_from :: "(nat \<Rightarrow> bool) \<Rightarrow> nat \<Rightarrow> nat \<Rightarrow> nat option" where
  "find_from P i n = (if i < n then if P i then Some i else find_from P (Suc i) n else None)"
  by pat_completeness auto
termination
  by (relation "measure (\<lambda>(P, i, n). n - i)") auto

declare find_from.simps [simp del]

lemma all_from_Suc:
  "(\<forall>j. i \<le> j \<and> j < n \<longrightarrow> Q j) \<longleftrightarrow> (i < n \<longrightarrow> Q i) \<and> (\<forall>j. Suc i \<le> j \<and> j < n \<longrightarrow> Q j)"
  for i n :: nat
  by (auto simp: Suc_le_eq) (metis le_neq_implies_less)

lemma find_from_None_iff: "find_from P i n = None \<longleftrightarrow> (\<forall>j. i \<le> j \<and> j < n \<longrightarrow> \<not> P j)"
proof (induction P i n rule: find_from.induct)
  case (1 P i n)
  then show ?case
    by (subst all_from_Suc, subst find_from.simps) auto
qed

lemma find_from_SomeD:
  "find_from P i n = Some k \<Longrightarrow> i \<le> k \<and> k < n \<and> P k \<and> (\<forall>j. i \<le> j \<and> j < k \<longrightarrow> \<not> P j)"
proof (induction P i n rule: find_from.induct)
  case (1 P i n)
  from "1.prems" have "i < n"
    by (simp add: find_from.simps [of P i n] split: if_splits)
  show ?case
  proof (cases "P i")
    case True
    with "1.prems" \<open>i < n\<close> show ?thesis by (auto simp: find_from.simps [of P i n])
  next
    case False
    with "1.prems" \<open>i < n\<close> have "find_from P (Suc i) n = Some k"
      by (simp add: find_from.simps [of P i n])
    with "1.IH" \<open>i < n\<close> False have
      "Suc i \<le> k \<and> k < n \<and> P k \<and> (\<forall>j. Suc i \<le> j \<and> j < k \<longrightarrow> \<not> P j)" by blast
    with False show ?thesis by (simp add: all_from_Suc [of i k])
  qed
qed

lemma find_from_cong:
  "(\<And>j. i \<le> j \<Longrightarrow> j < n \<Longrightarrow> P j = Q j) \<Longrightarrow> find_from P i n = find_from Q i n"
proof (induction P i n rule: find_from.induct)
  case (1 P i n)
  then show ?case
    by (subst (1 2) find_from.simps) simp
qed

lemma find_from_eqI:
  assumes "i \<le> k" and "k < n" and "P k" and "\<And>j. i \<le> j \<Longrightarrow> j < k \<Longrightarrow> \<not> P j"
  shows "find_from P i n = Some k"
proof (cases "find_from P i n")
  case None
  with assms show ?thesis by (auto simp: find_from_None_iff)
next
  case (Some m)
  from find_from_SomeD [OF Some] assms show ?thesis
    by (metis Some linorder_less_linear)
qed

end
