(* ===== verification/C_String.thy ===== *)
theory C_String
  imports HC_Prelude
begin

text \<open>
  The part of the C library's string and number functions that the program uses. A pointer
  into a string is the suffix that starts there; NULL is \<open>None\<close>. \<open>atoi\<close> outside the range
  of \<open>int\<close> is undefined in C and is \<open>None\<close> here.
\<close>

section \<open>Searching and comparing\<close>

fun strstr :: "string \<Rightarrow> string \<Rightarrow> string option" where
  "strstr [] n = (if n = [] then Some [] else None)"
| "strstr (c # cs) n = (if take (length n) (c # cs) = n then Some (c # cs) else strstr cs n)"

definition contains :: "string \<Rightarrow> string \<Rightarrow> bool" where
  "contains h n \<longleftrightarrow> strstr h n \<noteq> None"

fun strchr :: "string \<Rightarrow> char \<Rightarrow> string option" where
  "strchr [] x = None"
| "strchr (c # cs) x = (if c = x then Some (c # cs) else strchr cs x)"

text \<open>\<open>strncmp(a, b, n) == 0\<close> for strings without NUL.\<close>

definition strncmp_eq :: "string \<Rightarrow> string \<Rightarrow> nat \<Rightarrow> bool" where
  "strncmp_eq a b n \<longleftrightarrow> take n a = take n b"

lemma strstr_SomeD: "strstr h n = Some s \<Longrightarrow> \<exists>pre. h = pre @ s \<and> take (length n) s = n"
proof (induction h)
  case Nil
  then show ?case by (simp split: if_splits)
next
  case (Cons c cs)
  then show ?case
    by (cases "take (length n) (c # cs) = n") (auto intro: exI [of _ "c # pre" for pre])
qed

lemma strstr_length: "strstr h n = Some s \<Longrightarrow> length s \<le> length h"
  by (drule strstr_SomeD) auto

lemma strstr_needle_length: "strstr h n = Some s \<Longrightarrow> length n \<le> length s"
  by (drule strstr_SomeD) (metis length_take min.cobounded1)

lemma strstr_set: "strstr h n = Some s \<Longrightarrow> set s \<subseteq> set h"
  by (drule strstr_SomeD) auto

lemma strstr_is_cstr: "strstr h n = Some s \<Longrightarrow> is_cstr h \<Longrightarrow> is_cstr s"
  by (auto simp: is_cstr_def dest: strstr_set)

lemma strstr_split: "strstr h n = Some s \<Longrightarrow> \<exists>pre post. h = pre @ n @ post \<and> s = n @ post"
  by (drule strstr_SomeD) (metis append_take_drop_id)

lemma strstr_prefix: "strstr (n @ post) n = Some (n @ post)"
proof (cases "n @ post")
  case (Cons a l)
  then have "take (length n) (a # l) = n" by (metis append_eq_conv_conj)
  with Cons show ?thesis by simp
qed simp

lemma strstr_occurs: "strstr (pre @ n @ post) n \<noteq> None"
  by (induction pre) (simp_all add: strstr_prefix)

lemma contains_iff: "contains h n \<longleftrightarrow> (\<exists>pre post. h = pre @ n @ post)"
  unfolding contains_def by (metis not_Some_eq strstr_occurs strstr_split)

lemma contains_append1: "contains h n \<Longrightarrow> contains (h @ t) n"
  by (auto simp: contains_iff) (metis append.assoc)

lemma contains_append2: "contains t n \<Longrightarrow> contains (h @ t) n"
  by (auto simp: contains_iff) (metis append.assoc)

lemma contains_refl_prefix: "contains (n @ t) n"
  by (auto simp: contains_iff intro: exI [of _ "[]"])

lemma strchr_SomeD: "strchr h x = Some s \<Longrightarrow> \<exists>pre post. h = pre @ x # post \<and> s = x # post \<and> x \<notin> set pre"
proof (induction h)
  case (Cons c cs)
  then show ?case
    by (cases "c = x") (auto intro: exI [of _ "c # pre" for pre])
qed simp

lemma strchr_None_iff: "strchr h x = None \<longleftrightarrow> x \<notin> set h"
  by (induction h) auto

section \<open>Character classes\<close>

definition isdigit :: "char \<Rightarrow> bool" where
  "isdigit c \<longleftrightarrow> 48 \<le> ord c \<and> ord c \<le> 57"

definition isupper :: "char \<Rightarrow> bool" where
  "isupper c \<longleftrightarrow> 65 \<le> ord c \<and> ord c \<le> 90"

definition islower :: "char \<Rightarrow> bool" where
  "islower c \<longleftrightarrow> 97 \<le> ord c \<and> ord c \<le> 122"

definition isalnum :: "char \<Rightarrow> bool" where
  "isalnum c \<longleftrightarrow> isdigit c \<or> isupper c \<or> islower c"

definition isspace :: "char \<Rightarrow> bool" where
  "isspace c \<longleftrightarrow> ord c = 32 \<or> (9 \<le> ord c \<and> ord c \<le> 13)"

lemmas char_class_defs = isdigit_def isupper_def islower_def isalnum_def isspace_def ord_def

lemma ord_inject [simp]: "ord a = ord b \<longleftrightarrow> a = b"
  by (simp add: ord_def)

lemma ord_less [simp]: "ord c < 256"
  by (simp add: ord_def)

lemma char_of_ord [simp]: "char_of (ord c) = c"
  by (simp add: ord_def)

lemma ord_char_of [simp]: "ord (char_of n) = n mod 256"
  by (simp add: ord_def)

section \<open>Numbers\<close>

definition INT_MAX :: int where "INT_MAX = 2147483647"
definition INT_MIN :: int where "INT_MIN = - 2147483648"

definition in_int :: "int \<Rightarrow> bool" where
  "in_int n \<longleftrightarrow> INT_MIN \<le> n \<and> n \<le> INT_MAX"

definition dec_val :: "string \<Rightarrow> nat" where
  "dec_val s = foldl (\<lambda>n c. 10 * n + (ord c - 48)) 0 s"

definition atoi :: "string \<Rightarrow> int option" where
  "atoi s = (let t = dropWhile isspace s;
                 (neg, u) = (case t of [] \<Rightarrow> (False, [])
                             | c # r \<Rightarrow> if c = CHR ''-'' then (True, r)
                                       else if c = CHR ''+'' then (False, r) else (False, t));
                 n = int (dec_val (takeWhile isdigit u));
                 v = (if neg then - n else n)
             in if in_int v then Some v else None)"

text \<open>C's \<open>%\<close> truncates towards zero.\<close>

definition c_mod :: "int \<Rightarrow> int \<Rightarrow> int" where
  "c_mod a b = sgn a * (\<bar>a\<bar> mod \<bar>b\<bar>)"

fun base_digits :: "nat \<Rightarrow> nat \<Rightarrow> nat list" where
  "base_digits b n = (if b \<le> 1 \<or> n < b then [n] else base_digits b (n div b) @ [n mod b])"

declare base_digits.simps [simp del]

definition digit_char :: "nat \<Rightarrow> char" where
  "digit_char d = (if d < 10 then char_of (48 + d) else char_of (55 + d))"

definition digit_char_lower :: "nat \<Rightarrow> char" where
  "digit_char_lower d = (if d < 10 then char_of (48 + d) else char_of (87 + d))"

text \<open>\<open>%d\<close>, \<open>%X\<close> and \<open>%x\<close> of \<open>sprintf\<close>; the last two print the 32 bit pattern.\<close>

definition fmt_d :: "int \<Rightarrow> string" where
  "fmt_d n = (if n < 0 then CHR ''-'' # map digit_char (base_digits 10 (nat (- n)))
              else map digit_char (base_digits 10 (nat n)))"

definition fmt_X :: "int \<Rightarrow> string" where
  "fmt_X n = map digit_char (base_digits 16 (nat (n mod 4294967296)))"

definition fmt_x :: "int \<Rightarrow> string" where
  "fmt_x n = map digit_char_lower (base_digits 16 (nat (n mod 4294967296)))"

lemma base_digits_less: "1 < b \<Longrightarrow> \<forall>d \<in> set (base_digits b n). d < b"
proof (induction b n rule: base_digits.induct)
  case (1 b n)
  then show ?case
    by (cases "n < b") (auto simp: base_digits.simps [of b n])
qed

lemma base_digits_not_Nil: "base_digits b n \<noteq> []"
  by (subst base_digits.simps) simp

lemma base_digits_single: "n < b \<Longrightarrow> base_digits b n = [n]"
  by (subst base_digits.simps) simp

lemma base_digits_double: "1 < b \<Longrightarrow> b \<le> n \<Longrightarrow> n < b * b \<Longrightarrow> base_digits b n = [n div b, n mod b]"
  by (subst base_digits.simps) (simp add: base_digits_single less_mult_imp_div_less)

lemma ord_digit_char: "d < 10 \<Longrightarrow> ord (digit_char d) = 48 + d"
  by (simp add: digit_char_def)

lemma dec_val_snoc: "dec_val (s @ [c]) = 10 * dec_val s + (ord c - 48)"
  by (simp add: dec_val_def)

lemma dec_val_base_digits: "dec_val (map digit_char (base_digits 10 n)) = n"
proof (induction n rule: less_induct)
  case (less n)
  show ?case
  proof (cases "n < 10")
    case True
    then show ?thesis
      by (simp add: base_digits_single dec_val_def ord_digit_char)
  next
    case False
    then have "base_digits 10 n = base_digits 10 (n div 10) @ [n mod 10]"
      by (subst base_digits.simps) simp
    with less [of "n div 10"] False show ?thesis
      by (simp add: dec_val_snoc ord_digit_char)
  qed
qed

lemma isdigit_digit_char: "d < 10 \<Longrightarrow> isdigit (digit_char d)"
  by (simp add: isdigit_def ord_digit_char)

lemma all_isdigit_dec: "\<forall>c \<in> set (map digit_char (base_digits 10 n)). isdigit c"
  using base_digits_less [of 10 n] by (auto simp: isdigit_digit_char)

lemma isdigit_not_space_sign: "isdigit c \<Longrightarrow> \<not> isspace c \<and> c \<noteq> CHR ''-'' \<and> c \<noteq> CHR ''+''"
  by (auto simp: char_class_defs)

lemma atoi_digits:
  assumes "s \<noteq> []" and "\<forall>c \<in> set s. isdigit c" and "int (dec_val s) \<le> INT_MAX"
    and "t = [] \<or> \<not> isdigit (hd t)"
  shows "atoi (s @ t) = Some (int (dec_val s))"
proof -
  obtain c r where s: "s = c # r" using assms(1) by (cases s) auto
  with assms(2) have c: "\<not> isspace c" "c \<noteq> CHR ''-''" "c \<noteq> CHR ''+''"
    by (auto dest: isdigit_not_space_sign)
  have tw: "takeWhile isdigit (s @ t) = s"
    using assms(2,4) by (cases t) (auto simp: takeWhile_append)
  from s c have "dropWhile isspace (s @ t) = s @ t" by simp
  with s c tw assms(3) show ?thesis
    by (simp add: atoi_def Let_def in_int_def INT_MIN_def INT_MAX_def)
qed

text \<open>Printing with \<open>%d\<close> and reading back with \<open>atoi\<close>.\<close>

lemma atoi_fmt_d: "0 \<le> n \<Longrightarrow> n \<le> INT_MAX \<Longrightarrow> atoi (fmt_d n) = Some n"
  using atoi_digits [of "map digit_char (base_digits 10 (nat n))" "[]"]
  by (simp add: fmt_d_def base_digits_not_Nil all_isdigit_dec dec_val_base_digits)

end
