(* ===== verification/Res_Types.thy ===== *)
theory Res_Types
  imports C_String
begin

text \<open>
  The data model of the resource list, from \<^verbatim>\<open>include/sc_resource.h\<close>, \<^verbatim>\<open>include/common.h\<close> and
  \<^verbatim>\<open>include/sc_header.h\<close>: the enums as datatypes, the structs as records, the flag macros on
  64 bit words and the inline predicates. A pointer to an element of \<open>rl->mgmt\<close> or
  \<open>rl->ctnt\<close> is its index, NULL is \<open>None\<close>; the free-list link that the code keeps in
  \<open>common.id\<close> is a real address (\<^verbatim>\<open>Res_Pool.thy\<close>). The member \<open>rwlock\<close> of
  \<open>sc_res_info_mgmt_t\<close> is never used by the code and has no field here.
\<close>

section \<open>Result codes and limits\<close>

definition HC_SUCCESS :: int where "HC_SUCCESS = 0"
definition HC_ERR_INVALID :: int where "HC_ERR_INVALID = - 3"
definition HC_ERR_INTERNAL :: int where "HC_ERR_INTERNAL = - 4"
definition HC_ERR_EXISTS :: int where "HC_ERR_EXISTS = - 6"

declare HC_SUCCESS_def [hc_codes] HC_ERR_INVALID_def [hc_codes] HC_ERR_INTERNAL_def [hc_codes] HC_ERR_EXISTS_def [hc_codes]

definition HTTP_URL_PREFIX :: string where "HTTP_URL_PREFIX = ''http://''"
definition HTTP_URL_PRE_LEN :: nat where "HTTP_URL_PRE_LEN = 7"
definition HTTP_URL_MAX_LEN :: nat where "HTTP_URL_MAX_LEN = 600"
definition BUFFER_LEN :: nat where "BUFFER_LEN = 1024"
definition RESP_BUF_LEN :: nat where "RESP_BUF_LEN = 32768"
definition MAX_HOST_NAME_LEN :: nat where "MAX_HOST_NAME_LEN = 32"

definition SC_RES_INFO_NUM_MAX_MGMT :: nat where "SC_RES_INFO_NUM_MAX_MGMT = 1024"
definition SC_RES_INFO_NUM_MAX_CTNT :: nat where "SC_RES_INFO_NUM_MAX_CTNT = 4096"
definition SC_RES_LOCAL_PATH_MAX_LEN :: nat where "SC_RES_LOCAL_PATH_MAX_LEN = 256"

definition SC_NGX_ROOT_PATH :: string where "SC_NGX_ROOT_PATH = ''/usr/local/hot-cache/''"
definition SC_NGX_ROOT_PATH_LEN :: nat where "SC_NGX_ROOT_PATH_LEN = length SC_NGX_ROOT_PATH"

declare HTTP_URL_PRE_LEN_def [hc_limits] HTTP_URL_MAX_LEN_def [hc_limits] BUFFER_LEN_def [hc_limits]
  RESP_BUF_LEN_def [hc_limits] MAX_HOST_NAME_LEN_def [hc_limits] SC_RES_INFO_NUM_MAX_MGMT_def [hc_limits]
  SC_RES_INFO_NUM_MAX_CTNT_def [hc_limits] SC_RES_LOCAL_PATH_MAX_LEN_def [hc_limits]

section \<open>Enums and structs\<close>

datatype sc_res_gen =
    SC_RES_GEN_T_CONTENT
  | SC_RES_GEN_T_ORIGIN
  | SC_RES_GEN_T_NORMAL
  | SC_RES_GEN_T_CTRL_LD
  | SC_RES_GEN_T_MAX

datatype sc_res_site =
    SC_RES_SITE_YOUKU
  | SC_RES_SITE_SOHU
  | SC_RES_SITE_MAX

datatype sc_res_mime =
    SC_RES_MIME_TEXT_HTML
  | SC_RES_MIME_TEXT_M3U8
  | SC_RES_MIME_VIDEO_FLV
  | SC_RES_MIME_VIDEO_MP4
  | SC_RES_MIME_NOT_CARE
  | SC_RES_MIME_TYPE_MAX

text \<open>The zero of each enum is what \<open>memset(p, 0, \<dots>)\<close> leaves in a field of it.\<close>

instantiation sc_res_gen :: zero
begin
definition zero_sc_res_gen :: sc_res_gen where "0 = SC_RES_GEN_T_CONTENT"
instance ..
end

instantiation sc_res_site :: zero
begin
definition zero_sc_res_site :: sc_res_site where "0 = SC_RES_SITE_YOUKU"
instance ..
end

instantiation sc_res_mime :: zero
begin
definition zero_sc_res_mime :: sc_res_mime where "0 = SC_RES_MIME_TEXT_HTML"
instance ..
end

lemmas enum_zero = zero_sc_res_gen_def zero_sc_res_site_def zero_sc_res_mime_def

record sc_res_info =
  ri_id :: ulong
  ri_flag :: ulong
  ri_gen :: sc_res_gen
  ri_site :: sc_res_site
  ri_mime :: sc_res_mime
  ri_url :: buf

record sc_res_info_mgmt =
  mg_common :: sc_res_info
  child_cnt :: ulong
  child :: "nat option"

record sc_res_info_ctnt =
  ct_common :: sc_res_info
  parent :: "nat option"
  siblings :: "nat option"
  localpath :: buf

record sc_res_list =
  rl_addr :: ulong
  mgmt_cnt :: int
  mgmt :: "nat \<Rightarrow> sc_res_info_mgmt"
  mgmt_free :: ulong
  ctnt_cnt :: int
  ctnt :: "nat \<Rightarrow> sc_res_info_ctnt"
  ctnt_free :: ulong

definition zero_info :: sc_res_info where
  "zero_info = \<lparr>ri_id = 0, ri_flag = 0, ri_gen = 0, ri_site = 0, ri_mime = 0, ri_url = []\<rparr>"

definition zero_mgmt :: sc_res_info_mgmt where
  "zero_mgmt = \<lparr>mg_common = zero_info, child_cnt = 0, child = None\<rparr>"

definition zero_ctnt :: sc_res_info_ctnt where
  "zero_ctnt = \<lparr>ct_common = zero_info, parent = None, siblings = None, localpath = []\<rparr>"

lemmas zero_defs = zero_info_def zero_mgmt_def zero_ctnt_def enum_zero

section \<open>Kind, site and type predicates\<close>

text \<open>Each takes a pointer in the code and answers 0 for NULL.\<close>

fun sc_res_gen_is_normal :: "sc_res_info option \<Rightarrow> bool" where
  "sc_res_gen_is_normal (Some ri) = (ri_gen ri = SC_RES_GEN_T_NORMAL)"
| "sc_res_gen_is_normal None = False"

fun sc_res_gen_is_origin :: "sc_res_info option \<Rightarrow> bool" where
  "sc_res_gen_is_origin (Some ri) = (ri_gen ri = SC_RES_GEN_T_ORIGIN)"
| "sc_res_gen_is_origin None = False"

fun sc_res_gen_is_ctrl_ld :: "sc_res_info option \<Rightarrow> bool" where
  "sc_res_gen_is_ctrl_ld (Some ri) = (ri_gen ri = SC_RES_GEN_T_CTRL_LD)"
| "sc_res_gen_is_ctrl_ld None = False"

fun sc_res_gen_is_content :: "sc_res_info option \<Rightarrow> bool" where
  "sc_res_gen_is_content (Some ri) = (ri_gen ri = SC_RES_GEN_T_CONTENT)"
| "sc_res_gen_is_content None = False"

definition sc_res_info_is_mgmt :: "sc_res_info option \<Rightarrow> bool" where
  "sc_res_info_is_mgmt ri \<longleftrightarrow>
     sc_res_gen_is_origin ri \<or> sc_res_gen_is_ctrl_ld ri \<or> sc_res_gen_is_normal ri"

definition sc_res_info_is_ctnt :: "sc_res_info option \<Rightarrow> bool" where
  "sc_res_info_is_ctnt ri \<longleftrightarrow> sc_res_gen_is_content ri"

fun sc_res_site_obtain :: "sc_res_info option \<Rightarrow> sc_res_site" where
  "sc_res_site_obtain (Some ri) = ri_site ri"
| "sc_res_site_obtain None = SC_RES_SITE_MAX"

definition sc_res_site_is_youku :: "sc_res_info option \<Rightarrow> bool" where
  "sc_res_site_is_youku ri \<longleftrightarrow> sc_res_site_obtain ri = SC_RES_SITE_YOUKU"

definition sc_res_site_is_sohu :: "sc_res_info option \<Rightarrow> bool" where
  "sc_res_site_is_sohu ri \<longleftrightarrow> sc_res_site_obtain ri = SC_RES_SITE_SOHU"

definition sc_res_site_inherit :: "sc_res_info_mgmt \<Rightarrow> sc_res_info_ctnt \<Rightarrow> sc_res_info_ctnt" where
  "sc_res_site_inherit par ch =
     ch\<lparr>ct_common := (ct_common ch)\<lparr>ri_site := sc_res_site_obtain (Some (mg_common par))\<rparr>\<rparr>"

lemmas kind_defs = sc_res_info_is_mgmt_def sc_res_info_is_ctnt_def sc_res_site_is_youku_def
  sc_res_site_is_sohu_def

lemma not_mgmt_and_ctnt: "\<not> (sc_res_info_is_mgmt ri \<and> sc_res_info_is_ctnt ri)"
  by (cases ri) (auto simp: kind_defs)

section \<open>Control flags\<close>

definition SC_RES_FLAG_STORED :: ulong where "SC_RES_FLAG_STORED = 0x100"
definition SC_RES_FLAG_D_FAIL :: ulong where "SC_RES_FLAG_D_FAIL = 0x200"
definition SC_RES_FLAG_I_FAIL :: ulong where "SC_RES_FLAG_I_FAIL = 0x400"
definition SC_RES_FLAG_NOTIFY :: ulong where "SC_RES_FLAG_NOTIFY = 0x800"

definition sc_res_flag_set_d_fail :: "sc_res_info \<Rightarrow> sc_res_info" where
  "sc_res_flag_set_d_fail ri = ri\<lparr>ri_flag := ri_flag ri OR SC_RES_FLAG_D_FAIL\<rparr>"

definition sc_res_flag_set_i_fail :: "sc_res_info \<Rightarrow> sc_res_info" where
  "sc_res_flag_set_i_fail ri = ri\<lparr>ri_flag := ri_flag ri OR SC_RES_FLAG_I_FAIL\<rparr>"

definition sc_res_flag_set_stored :: "sc_res_info \<Rightarrow> sc_res_info" where
  "sc_res_flag_set_stored ri = ri\<lparr>ri_flag := ri_flag ri OR SC_RES_FLAG_STORED\<rparr>"

definition sc_res_flag_set_notify :: "sc_res_info \<Rightarrow> sc_res_info" where
  "sc_res_flag_set_notify ri = ri\<lparr>ri_flag := ri_flag ri OR SC_RES_FLAG_NOTIFY\<rparr>"

definition sc_res_flag_unset_d_fail :: "sc_res_info \<Rightarrow> sc_res_info" where
  "sc_res_flag_unset_d_fail ri = ri\<lparr>ri_flag := ri_flag ri AND ((NOT 0) XOR SC_RES_FLAG_D_FAIL)\<rparr>"

definition sc_res_flag_unset_i_fail :: "sc_res_info \<Rightarrow> sc_res_info" where
  "sc_res_flag_unset_i_fail ri = ri\<lparr>ri_flag := ri_flag ri AND ((NOT 0) XOR SC_RES_FLAG_I_FAIL)\<rparr>"

definition sc_res_flag_is_d_fail :: "sc_res_info \<Rightarrow> bool" where
  "sc_res_flag_is_d_fail ri \<longleftrightarrow> ri_flag ri AND SC_RES_FLAG_D_FAIL \<noteq> 0"

definition sc_res_flag_is_i_fail :: "sc_res_info \<Rightarrow> bool" where
  "sc_res_flag_is_i_fail ri \<longleftrightarrow> ri_flag ri AND SC_RES_FLAG_I_FAIL \<noteq> 0"

definition sc_res_flag_is_stored :: "sc_res_info \<Rightarrow> bool" where
  "sc_res_flag_is_stored ri \<longleftrightarrow> ri_flag ri AND SC_RES_FLAG_STORED \<noteq> 0"

definition sc_res_flag_is_notify :: "sc_res_info \<Rightarrow> bool" where
  "sc_res_flag_is_notify ri \<longleftrightarrow> ri_flag ri AND SC_RES_FLAG_NOTIFY \<noteq> 0"

lemma flag_exp:
  "SC_RES_FLAG_STORED = 2 ^ 8" "SC_RES_FLAG_D_FAIL = 2 ^ 9"
  "SC_RES_FLAG_I_FAIL = 2 ^ 10" "SC_RES_FLAG_NOTIFY = 2 ^ 11"
  by (simp_all add: SC_RES_FLAG_STORED_def SC_RES_FLAG_D_FAIL_def SC_RES_FLAG_I_FAIL_def
      SC_RES_FLAG_NOTIFY_def)

lemma flag_bits:
  "sc_res_flag_is_stored ri \<longleftrightarrow> bit (ri_flag ri) 8"
  "sc_res_flag_is_d_fail ri \<longleftrightarrow> bit (ri_flag ri) 9"
  "sc_res_flag_is_i_fail ri \<longleftrightarrow> bit (ri_flag ri) 10"
  "sc_res_flag_is_notify ri \<longleftrightarrow> bit (ri_flag ri) 11"
  by (simp_all only: sc_res_flag_is_stored_def sc_res_flag_is_d_fail_def sc_res_flag_is_i_fail_def
      sc_res_flag_is_notify_def flag_exp and_exp_eq_0_iff_not_bit not_not)

lemmas flag_updates = sc_res_flag_set_d_fail_def sc_res_flag_set_i_fail_def
  sc_res_flag_set_stored_def sc_res_flag_set_notify_def sc_res_flag_unset_d_fail_def
  sc_res_flag_unset_i_fail_def

text \<open>The four flags do not interfere: what each update does to each flag.\<close>

lemma flag_set [simp]:
  "sc_res_flag_is_stored (sc_res_flag_set_stored ri)"
  "sc_res_flag_is_d_fail (sc_res_flag_set_stored ri) = sc_res_flag_is_d_fail ri"
  "sc_res_flag_is_i_fail (sc_res_flag_set_stored ri) = sc_res_flag_is_i_fail ri"
  "sc_res_flag_is_notify (sc_res_flag_set_stored ri) = sc_res_flag_is_notify ri"
  "sc_res_flag_is_stored (sc_res_flag_set_d_fail ri) = sc_res_flag_is_stored ri"
  "sc_res_flag_is_d_fail (sc_res_flag_set_d_fail ri)"
  "sc_res_flag_is_i_fail (sc_res_flag_set_d_fail ri) = sc_res_flag_is_i_fail ri"
  "sc_res_flag_is_notify (sc_res_flag_set_d_fail ri) = sc_res_flag_is_notify ri"
  "sc_res_flag_is_stored (sc_res_flag_set_i_fail ri) = sc_res_flag_is_stored ri"
  "sc_res_flag_is_d_fail (sc_res_flag_set_i_fail ri) = sc_res_flag_is_d_fail ri"
  "sc_res_flag_is_i_fail (sc_res_flag_set_i_fail ri)"
  "sc_res_flag_is_notify (sc_res_flag_set_i_fail ri) = sc_res_flag_is_notify ri"
  "sc_res_flag_is_stored (sc_res_flag_set_notify ri) = sc_res_flag_is_stored ri"
  "sc_res_flag_is_d_fail (sc_res_flag_set_notify ri) = sc_res_flag_is_d_fail ri"
  "sc_res_flag_is_i_fail (sc_res_flag_set_notify ri) = sc_res_flag_is_i_fail ri"
  "sc_res_flag_is_notify (sc_res_flag_set_notify ri)"
  by (simp_all add: flag_bits flag_updates flag_exp bit_simps)

lemma flag_unset [simp]:
  "sc_res_flag_is_stored (sc_res_flag_unset_d_fail ri) = sc_res_flag_is_stored ri"
  "\<not> sc_res_flag_is_d_fail (sc_res_flag_unset_d_fail ri)"
  "sc_res_flag_is_i_fail (sc_res_flag_unset_d_fail ri) = sc_res_flag_is_i_fail ri"
  "sc_res_flag_is_notify (sc_res_flag_unset_d_fail ri) = sc_res_flag_is_notify ri"
  "sc_res_flag_is_stored (sc_res_flag_unset_i_fail ri) = sc_res_flag_is_stored ri"
  "sc_res_flag_is_d_fail (sc_res_flag_unset_i_fail ri) = sc_res_flag_is_d_fail ri"
  "\<not> sc_res_flag_is_i_fail (sc_res_flag_unset_i_fail ri)"
  "sc_res_flag_is_notify (sc_res_flag_unset_i_fail ri) = sc_res_flag_is_notify ri"
  by (simp_all add: flag_bits flag_updates flag_exp bit_simps)

lemma flag_zero [simp]:
  "ri_flag ri = 0 \<Longrightarrow> \<not> sc_res_flag_is_stored ri \<and> \<not> sc_res_flag_is_d_fail ri
     \<and> \<not> sc_res_flag_is_i_fail ri \<and> \<not> sc_res_flag_is_notify ri"
  by (simp add: flag_bits)

lemma flag_other_fields [simp]:
  "sc_res_flag_is_stored (ri\<lparr>ri_url := u\<rparr>) = sc_res_flag_is_stored ri"
  "sc_res_flag_is_d_fail (ri\<lparr>ri_url := u\<rparr>) = sc_res_flag_is_d_fail ri"
  "sc_res_flag_is_i_fail (ri\<lparr>ri_url := u\<rparr>) = sc_res_flag_is_i_fail ri"
  "sc_res_flag_is_notify (ri\<lparr>ri_url := u\<rparr>) = sc_res_flag_is_notify ri"
  by (simp_all add: flag_bits)

lemma flag_only [simp]:
  "ri_id (sc_res_flag_set_d_fail ri) = ri_id ri" "ri_gen (sc_res_flag_set_d_fail ri) = ri_gen ri"
  "ri_id (sc_res_flag_set_i_fail ri) = ri_id ri" "ri_gen (sc_res_flag_set_i_fail ri) = ri_gen ri"
  "ri_id (sc_res_flag_set_stored ri) = ri_id ri" "ri_gen (sc_res_flag_set_stored ri) = ri_gen ri"
  "ri_id (sc_res_flag_set_notify ri) = ri_id ri" "ri_gen (sc_res_flag_set_notify ri) = ri_gen ri"
  "ri_id (sc_res_flag_unset_d_fail ri) = ri_id ri" "ri_gen (sc_res_flag_unset_d_fail ri) = ri_gen ri"
  "ri_id (sc_res_flag_unset_i_fail ri) = ri_id ri" "ri_gen (sc_res_flag_unset_i_fail ri) = ri_gen ri"
  by (simp_all add: flag_updates)

lemma flag_only_url [simp]:
  "ri_url (sc_res_flag_set_d_fail ri) = ri_url ri" "ri_url (sc_res_flag_set_i_fail ri) = ri_url ri"
  "ri_url (sc_res_flag_set_stored ri) = ri_url ri" "ri_url (sc_res_flag_set_notify ri) = ri_url ri"
  "ri_url (sc_res_flag_unset_d_fail ri) = ri_url ri" "ri_url (sc_res_flag_unset_i_fail ri) = ri_url ri"
  by (simp_all add: flag_updates)

section \<open>File path of a stored resource\<close>

definition sc_res_map_to_file_path :: "sc_res_info_ctnt option \<Rightarrow> nat \<Rightarrow> int \<times> string" where
  "sc_res_map_to_file_path c len =
     (case c of None \<Rightarrow> (- 1, [])
      | Some ct \<Rightarrow>
          if len \<le> length (cstr (localpath ct)) + SC_NGX_ROOT_PATH_LEN then (- 1, [])
          else (0, SC_NGX_ROOT_PATH @ cstr (localpath ct)))"

lemma sc_res_map_to_file_path_fits:
  "sc_res_map_to_file_path c len = (0, p) \<Longrightarrow> length p < len"
  by (auto simp: sc_res_map_to_file_path_def SC_NGX_ROOT_PATH_LEN_def split: option.splits if_splits)

end
