(* ===== verification/Res_Url.thy ===== *)
theory Res_Url
  imports Res_Types
begin

text \<open>
  URLs and local paths: the string functions of \<^verbatim>\<open>snooping_client/sc_resource.c\<close>,
  \<^verbatim>\<open>sc_youku.c\<close> and \<^verbatim>\<open>sc_sohu.c\<close> that recognise a site, turn a URL into the path its
  resource is stored under, recover the URL from a path at start-up, and normalise a
  request to the origin URL a resource is filed under. An output buffer is an argument (its
  old bytes) and a result (its new bytes).
\<close>

section \<open>Copying a URL\<close>

definition strip_http :: "string \<Rightarrow> string" where
  "strip_http s = (if strncmp_eq s HTTP_URL_PREFIX HTTP_URL_PRE_LEN then drop HTTP_URL_PRE_LEN s else s)"

text \<open>
  \<open>sc_res_copy_url\<close> writes no terminator: the result keeps whatever the destination held
  after the copied bytes. Copying more bytes than the buffer has is a fault; the code notices
  it only afterwards and logs it.
\<close>

definition sc_res_copy_url :: "buf \<Rightarrow> string \<Rightarrow> nat \<Rightarrow> bool \<Rightarrow> buf option" where
  "sc_res_copy_url url o_url len with_para =
     (let start = strip_http o_url;
          copied = (if with_para then start else takeWhile (\<lambda>c. c \<noteq> CHR ''?'') start)
      in if length copied \<le> len then Some (buf_put url copied) else None)"

lemma strip_http_length: "length (strip_http s) \<le> length s"
  by (simp add: strip_http_def)

lemma strip_http_is_cstr [simp]: "is_cstr s \<Longrightarrow> is_cstr (strip_http s)"
  by (auto simp: strip_http_def is_cstr_def dest: in_set_dropD)

lemma sc_res_copy_url_zeroed:
  "length u \<le> len \<Longrightarrow> sc_res_copy_url [] u len True = Some (strip_http u)"
  using strip_http_length [of u] by (simp add: sc_res_copy_url_def)

section \<open>MIME type from the suffix\<close>

definition sc_res_mime_type_obtain :: "string \<Rightarrow> bool \<Rightarrow> sc_res_mime option" where
  "sc_res_mime_type_obtain str care_type =
     (if \<not> care_type then Some SC_RES_MIME_NOT_CARE
      else let len = length str in
        if len < 3 then Some SC_RES_MIME_TYPE_MAX
        else let p = drop (len - 3) str in
          if strncmp_eq p ''flv'' 3 then Some SC_RES_MIME_VIDEO_FLV
          else if strncmp_eq p ''mp4'' 3 then Some SC_RES_MIME_VIDEO_MP4
          else if len < 4 then None
          else let q = drop (len - 4) str in
            if strncmp_eq q ''html'' 4 then Some SC_RES_MIME_TEXT_HTML
            else if strncmp_eq q ''m3u8'' 4 then Some SC_RES_MIME_TEXT_M3U8
            else Some SC_RES_MIME_TYPE_MAX)"

section \<open>Site tests\<close>

definition sc_url_is_yk :: "string \<Rightarrow> bool" where
  "sc_url_is_yk url \<longleftrightarrow> contains url ''youku''"

definition sc_url_is_sohu :: "string \<Rightarrow> bool" where
  "sc_url_is_sohu url \<longleftrightarrow> contains url ''sohu''"

definition sc_url_is_sohu_file_url :: "string \<Rightarrow> bool" where
  "sc_url_is_sohu_file_url url \<longleftrightarrow> contains url ''?file=/''"

definition sc_res_info_permit_adding :: "string \<Rightarrow> bool" where
  "sc_res_info_permit_adding url \<longleftrightarrow>
     sc_url_is_yk url \<or> sc_url_is_sohu url \<or> sc_url_is_sohu_file_url url"

definition sc_yk_is_local_path :: "string \<Rightarrow> bool" where
  "sc_yk_is_local_path lp =
     (if contains lp ''youku_''
      then if contains lp ''valf'' then False
           else if contains lp ''ad_api_'' then False else True
      else False)"

definition sc_sohu_is_local_path :: "string \<Rightarrow> bool" where
  "sc_sohu_is_local_path lp \<longleftrightarrow> contains lp ''_file=_''"

lemmas site_tests = sc_url_is_yk_def sc_url_is_sohu_def sc_url_is_sohu_file_url_def
  sc_res_info_permit_adding_def

lemma contains_length: "contains h n \<Longrightarrow> length n \<le> length h"
  by (auto simp: contains_iff)

lemma permit_length: "sc_res_info_permit_adding url \<Longrightarrow> 4 \<le> length url"
  by (auto simp: site_tests dest!: contains_length)

lemma mime_type_safe:
  assumes "length str \<noteq> 3" shows "\<exists>m. sc_res_mime_type_obtain str care = Some m"
  using assms by (auto simp: sc_res_mime_type_obtain_def Let_def)

lemma permit_mime_safe:
  "sc_res_info_permit_adding url \<Longrightarrow> \<exists>m. sc_res_mime_type_obtain url care = Some m"
  by (rule mime_type_safe) (auto dest: permit_length)

section \<open>URL to local path\<close>

fun lp_default_loop :: "bool \<Rightarrow> string \<Rightarrow> string" where
  "lp_default_loop first_slash [] = []"
| "lp_default_loop first_slash (c # cs) =
     (if c = CHR ''?'' then []
      else if first_slash \<and> c = CHR ''.'' then CHR ''_'' # lp_default_loop first_slash cs
      else if c = CHR ''/''
      then if first_slash then c # lp_default_loop False cs
           else CHR ''_'' # lp_default_loop first_slash cs
      else c # lp_default_loop first_slash cs)"

definition sc_res_url_to_local_path_default :: "string \<Rightarrow> buf \<Rightarrow> nat \<Rightarrow> int \<times> buf" where
  "sc_res_url_to_local_path_default url local_path len =
     (if len \<le> length url then (- 1, local_path)
      else (0, buf_put local_path (lp_default_loop True url @ [NUL])))"

definition sc_yk_url_to_local_path :: "string \<Rightarrow> buf \<Rightarrow> nat \<Rightarrow> int \<times> buf" where
  "sc_yk_url_to_local_path url local_path len = sc_res_url_to_local_path_default url local_path len"

fun lp_sohu_loop :: "bool \<Rightarrow> string \<Rightarrow> string" where
  "lp_sohu_loop first_slash [] = []"
| "lp_sohu_loop first_slash (c # cs) =
     (if first_slash \<and> c = CHR ''.'' then CHR ''_'' # lp_sohu_loop first_slash cs
      else if c = CHR ''/''
      then if first_slash then c # lp_sohu_loop False cs
           else CHR ''_'' # lp_sohu_loop first_slash cs
      else if c = CHR ''?'' then CHR ''_'' # lp_sohu_loop first_slash cs
      else c # lp_sohu_loop first_slash cs)"

definition sc_sohu_file_url_to_local_path :: "string \<Rightarrow> buf \<Rightarrow> nat \<Rightarrow> int \<times> buf" where
  "sc_sohu_file_url_to_local_path file_url local_path len =
     (if \<not> sc_url_is_sohu_file_url file_url then (- 1, local_path)
      else if len \<le> length file_url then (- 1, local_path)
      else (0, buf_put local_path (lp_sohu_loop True file_url @ [NUL])))"

section \<open>Local path back to URL\<close>

fun recover_loop :: "bool \<Rightarrow> string \<Rightarrow> string" where
  "recover_loop meet_slash [] = []"
| "recover_loop meet_slash (c # cs) =
     (if c = CHR ''/'' then CHR ''/'' # recover_loop True cs
      else if c = CHR ''_''
      then (if \<not> meet_slash then CHR ''.'' else CHR ''/'') # recover_loop meet_slash cs
      else c # recover_loop meet_slash cs)"

definition sohu_file_tag :: string where
  "sohu_file_tag = ''ipad/file=/''"

definition fix_sohu_tag :: "string \<Rightarrow> string" where
  "fix_sohu_tag u = (case strstr u sohu_file_tag of
      None \<Rightarrow> u
    | Some s \<Rightarrow> u[length u - length s + 4 := CHR ''?''])"

definition sc_res_recover_url_from_local_path :: "string \<Rightarrow> buf \<Rightarrow> int \<times> buf" where
  "sc_res_recover_url_from_local_path local_path url =
     (if HTTP_URL_MAX_LEN \<le> length local_path then (- 1, url)
      else (0, buf_put url (fix_sohu_tag (recover_loop False local_path) @ [NUL])))"

section \<open>Paths that are a bare video id\<close>

fun last_slash :: "string \<Rightarrow> nat \<Rightarrow> nat option" where
  "last_slash [] i = None"
| "last_slash (c # cs) i = (case last_slash cs (Suc i) of
      Some k \<Rightarrow> Some k
    | None \<Rightarrow> if c = CHR ''/'' then Some i else None)"

text \<open>
  The backward search for \<open>/\<close> reads the byte before \<open>uri_start\<close> when there is none. That
  byte exists when the path starts inside \<open>local_path\<close> (after the root path) and is a fault
  otherwise. \<open>vid\<close> is then \<open>uri_start\<close> itself if the byte is a slash.
\<close>

definition uri_start :: "string \<Rightarrow> string" where
  "uri_start lp = (if contains lp SC_NGX_ROOT_PATH then drop SC_NGX_ROOT_PATH_LEN lp else lp)"

definition pure_vid_check :: "string \<Rightarrow> nat \<Rightarrow> bool" where
  "pure_vid_check u n =
     (if length (drop n u) \<noteq> 70 then False
      else length (filter (\<lambda>c. c = CHR ''/'') (take n u)) = 1)"

definition sc_yk_is_local_path_pure_vid :: "string \<Rightarrow> bool option" where
  "sc_yk_is_local_path_pure_vid lp =
     (let u = uri_start lp in
      if length u < 70 + 8 then Some False
      else case last_slash u 0 of
        Some k \<Rightarrow> Some (pure_vid_check u (Suc k))
      | None \<Rightarrow>
          if contains lp SC_NGX_ROOT_PATH
          then Some (if lp ! (SC_NGX_ROOT_PATH_LEN - 1) \<noteq> CHR ''/'' then False
                     else pure_vid_check u 0)
          else None)"

definition yk_std_tag :: string where
  "yk_std_tag = ''youku_67731242A093F822806A633329_''"

text \<open>\<open>std_path\<close> is the zeroed buffer its caller passes.\<close>

definition sc_yk_trans_vid_to_std_path :: "string \<Rightarrow> nat \<Rightarrow> (int \<times> buf) option" where
  "sc_yk_trans_vid_to_std_path vid_path path_len =
     do {
       pure \<leftarrow> sc_yk_is_local_path_pure_vid vid_path;
       if \<not> pure then Some (- 1, [])
       else if path_len \<le> length vid_path + length yk_std_tag then Some (- 1, [])
       else do {
         let u = uri_start vid_path;
         let std = (if contains vid_path SC_NGX_ROOT_PATH then SC_NGX_ROOT_PATH else []);
         rest \<leftarrow> strchr u (CHR ''/'');
         let vid = tl rest;
         Some (0, std @ take (length u - length vid) u @ yk_std_tag @ vid)
       }
     }"

section \<open>Origin URLs\<close>

definition yk_tags :: "string list" where
  "yk_tags = [''v_show/id_'', ''&video_id='', ''&id='', ''&vid='', ''&local_vid='']"

text \<open>
  The \<open>for\<close> loop with its \<open>goto generate\<close> and the \<open>goto again\<close> back into the loop: a tag
  whose identifier does not have 13 characters is passed over like a tag that is absent.
\<close>

fun yk_origin_loop :: "string list \<Rightarrow> string \<Rightarrow> string option" where
  "yk_origin_loop [] req = None"
| "yk_origin_loop (t # ts) req = (case strstr req t of
      None \<Rightarrow> yk_origin_loop ts req
    | Some s \<Rightarrow>
        let v = takeWhile isalnum (drop (length t) s) in
        if length v \<noteq> 13 then yk_origin_loop ts req else Some v)"

definition sc_yk_gen_origin_url :: "string \<Rightarrow> buf \<Rightarrow> int \<times> buf" where
  "sc_yk_gen_origin_url req origin = (case yk_origin_loop yk_tags req of
      None \<Rightarrow> (- 1, origin)
    | Some v \<Rightarrow> (0, buf_put origin (''v.youku.com/v_show/id_'' @ v @ ''.html'' @ [NUL])))"

definition sohu_tag1 :: string where "sohu_tag1 = ''hot.vrs.sohu.com/ipad''"
definition sohu_tag2 :: string where "sohu_tag2 = ''my.tv.sohu.com/ipad/''"

text \<open>
  The name is copied into \<open>buf[HTTP_URL_MAX_LEN]\<close> and then printed after its tag into
  \<open>origin_url[HTTP_URL_MAX_LEN]\<close>; both overflow when it is too long.
\<close>

definition sohu_origin_print :: "string \<Rightarrow> string \<Rightarrow> buf \<Rightarrow> (int \<times> buf) option" where
  "sohu_origin_print tag start origin =
     (let name = takeWhile (\<lambda>c. c \<noteq> CHR ''?'') (drop (length tag) start) in
      if HTTP_URL_MAX_LEN \<le> length name then None
      else if HTTP_URL_MAX_LEN \<le> length tag + length name then None
      else Some (0, buf_put origin (tag @ name @ [NUL])))"

definition sc_sohu_gen_origin_url :: "string \<Rightarrow> buf \<Rightarrow> (int \<times> buf) option" where
  "sc_sohu_gen_origin_url req origin =
     (case strstr req sohu_tag1 of
        Some start \<Rightarrow> if \<not> contains start ''.m3u8'' then Some (- 1, origin)
                     else sohu_origin_print sohu_tag1 start origin
      | None \<Rightarrow>
          (case strstr req sohu_tag2 of
             Some start \<Rightarrow> if \<not> contains start ''.m3u8'' then Some (- 1, origin)
                          else sohu_origin_print sohu_tag2 start origin
           | None \<Rightarrow> Some (- 1, origin)))"

definition sc_res_gen_origin_url :: "string \<Rightarrow> buf \<Rightarrow> (int \<times> buf) option" where
  "sc_res_gen_origin_url req origin =
     (if sc_url_is_yk req then Some (sc_yk_gen_origin_url req origin)
      else if sc_url_is_sohu req then sc_sohu_gen_origin_url req origin
      else Some (- 1, origin))"

section \<open>Facts about the path functions\<close>

lemma set_lp_default: "set (lp_default_loop f u) \<subseteq> set u \<union> {CHR ''_''}"
  by (induction f u rule: lp_default_loop.induct) auto

lemma set_lp_sohu: "set (lp_sohu_loop f u) \<subseteq> set u \<union> {CHR ''_''}"
  by (induction f u rule: lp_sohu_loop.induct) auto

lemma is_cstr_lp [simp]:
  "is_cstr u \<Longrightarrow> is_cstr (lp_default_loop f u)" "is_cstr u \<Longrightarrow> is_cstr (lp_sohu_loop f u)"
  using set_lp_default [of f u] set_lp_sohu [of f u] by (auto simp: is_cstr_def)

lemma length_lp_default: "length (lp_default_loop f u) \<le> length u"
  by (induction f u rule: lp_default_loop.induct) auto

lemma length_lp_sohu: "length (lp_sohu_loop f u) = length u"
  by (induction f u rule: lp_sohu_loop.induct) auto

lemma is_cstr_recover [simp]: "is_cstr lp \<Longrightarrow> is_cstr (recover_loop m lp)"
  by (induction m lp rule: recover_loop.induct) auto

lemma is_cstr_fix [simp]: "is_cstr u \<Longrightarrow> is_cstr (fix_sohu_tag u)"
  using set_update_subset_insert [of u _ "CHR ''?''"]
  by (auto simp: fix_sohu_tag_def is_cstr_def split: option.splits)

text \<open>Inside the first component no dot survives; after it no slash does.\<close>

lemma lp_no_slash: "CHR ''/'' \<notin> set (lp_default_loop False u)" "CHR ''/'' \<notin> set (lp_sohu_loop False u)"
  by (induction u) auto

definition confined :: "string \<Rightarrow> bool" where
  "confined p \<longleftrightarrow> CHR ''.'' \<notin> set (takeWhile (\<lambda>c. c \<noteq> CHR ''/'') p)
                 \<and> length (filter (\<lambda>c. c = CHR ''/'') p) \<le> 1"

lemma filter_none: "x \<notin> set xs \<Longrightarrow> filter (\<lambda>c. c = x) xs = []"
  by (induction xs) auto

lemma confined_lp_default: "confined (lp_default_loop True u)"
  by (induction u) (auto simp: confined_def filter_none lp_no_slash)

lemma confined_lp_sohu: "confined (lp_sohu_loop True u)"
  by (induction u) (auto simp: confined_def filter_none lp_no_slash)

lemma recover_lp_default:
  "CHR ''_'' \<notin> set u \<Longrightarrow> CHR ''?'' \<notin> set u \<Longrightarrow> recover_loop (\<not> f) (lp_default_loop f u) = u"
  by (induction f u rule: lp_default_loop.induct) auto

lemma fix_sohu_tag_none: "\<not> contains u sohu_file_tag \<Longrightarrow> fix_sohu_tag u = u"
  by (simp add: fix_sohu_tag_def contains_def)

lemma lp_sohu_eq_default:
  "CHR ''?'' \<notin> set u \<Longrightarrow> lp_sohu_loop f u = lp_default_loop f u"
  by (induction f u rule: lp_sohu_loop.induct) auto

lemma lp_sohu_append_host:
  "CHR ''/'' \<notin> set h \<Longrightarrow> lp_sohu_loop True (h @ t) = lp_sohu_loop True h @ lp_sohu_loop True t"
  by (induction h) auto

lemma recover_append_host:
  "CHR ''/'' \<notin> set h \<Longrightarrow> recover_loop False (h @ t) = recover_loop False h @ recover_loop False t"
  by (induction h) auto

lemma recover_lp_sohu:
  assumes "CHR ''/'' \<notin> set h" and "CHR ''_'' \<notin> set h" and "CHR ''?'' \<notin> set h"
    and "CHR ''_'' \<notin> set r" and "CHR ''?'' \<notin> set r"
  shows "recover_loop False (lp_sohu_loop True (h @ ''/ipad?file=/'' @ r)) = h @ ''/ipad/file=/'' @ r"
proof -
  have h: "lp_sohu_loop True h = lp_default_loop True h" and r: "lp_sohu_loop False r = lp_default_loop False r"
    using assms by (auto intro: lp_sohu_eq_default)
  have nh: "CHR ''/'' \<notin> set (lp_default_loop True h)"
    using set_lp_default [of True h] assms(1) by auto
  show ?thesis
    using recover_lp_default [of h True] recover_lp_default [of r False] assms
    by (simp add: lp_sohu_append_host recover_append_host h r nh)
qed

lemma sohu_tag_not_early:
  assumes "CHR ''/'' \<notin> set h" and "h \<noteq> []"
  shows "take (length sohu_file_tag) (h @ ''/ipad/file=/'' @ r) \<noteq> sohu_file_tag"
proof
  assume eq: "take (length sohu_file_tag) (h @ ''/ipad/file=/'' @ r) = sohu_file_tag"
  have len: "length sohu_file_tag = 11" by (simp add: sohu_file_tag_def)
  have at: "i < 11 \<Longrightarrow> (h @ ''/ipad/file=/'' @ r) ! i = sohu_file_tag ! i" for i
    by (metis eq len nth_take)
  have nin: "i < length h \<Longrightarrow> h ! i \<noteq> CHR ''/''" for i
    using assms(1) nth_mem by metis
  show False
  proof (cases "4 < length h")
    case True
    with at [of 4] nin [of 4] show False by (simp add: nth_append sohu_file_tag_def)
  next
    case False
    then have "length h = 0 \<or> length h = 1 \<or> length h = 2 \<or> length h = 3 \<or> length h = 4" by arith
    then show False
      using at [of "length h"] at [of 5] assms(2)
      by (auto simp: nth_append sohu_file_tag_def)
  qed
qed

lemma strstr_sohu_tag:
  "CHR ''/'' \<notin> set h \<Longrightarrow> strstr (h @ ''/ipad/file=/'' @ r) sohu_file_tag = Some (''ipad/file=/'' @ r)"
proof (induction h)
  case Nil
  show ?case by (simp add: sohu_file_tag_def)
next
  case (Cons c h)
  have "take (length sohu_file_tag) (c # h @ ''/ipad/file=/'' @ r) \<noteq> sohu_file_tag"
    using sohu_tag_not_early [OF Cons.prems] by simp
  with Cons show ?case by (simp only: append_Cons strstr.simps if_False list.set insert_iff) simp
qed

lemma fix_sohu_tag_file_url:
  assumes "CHR ''/'' \<notin> set h"
  shows "fix_sohu_tag (h @ ''/ipad/file=/'' @ r) = h @ ''/ipad?file=/'' @ r"
  using strstr_sohu_tag [OF assms, of r] by (simp add: fix_sohu_tag_def list_update_append)

section \<open>Facts about origin URLs\<close>

lemma yk_origin_loop_SomeD:
  "yk_origin_loop ts req = Some v \<Longrightarrow> length v = 13 \<and> (\<forall>c \<in> set v. isalnum c)"
  by (induction ts) (auto simp: Let_def split: option.splits if_splits dest: set_takeWhileD)

lemma alnum_is_cstr: "\<forall>c \<in> set v. isalnum c \<Longrightarrow> is_cstr v"
  by (auto simp: is_cstr_def char_class_defs)

lemma yk_origin_self:
  assumes "length v = 13" and "\<forall>c \<in> set v. isalnum c"
  shows "yk_origin_loop yk_tags (''v.youku.com/v_show/id_'' @ v @ ''.html'') = Some v"
proof -
  have tw: "takeWhile isalnum (v @ ''.html'') = v"
    using assms(2) by (simp add: takeWhile_append isalnum_def isdigit_def isupper_def islower_def ord_def)
  have "strstr (''v.youku.com/v_show/id_'' @ v @ ''.html'') ''v_show/id_'' = Some (''v_show/id_'' @ v @ ''.html'')"
    by simp
  with tw assms(1) show ?thesis by (simp add: yk_tags_def)
qed

lemma sohu_origin_print_safe:
  assumes "length start < HTTP_URL_MAX_LEN" and "length tag \<le> length start"
  shows "\<exists>b. sohu_origin_print tag start origin = Some (0, b)"
proof -
  have "length tag + length (takeWhile (\<lambda>c. c \<noteq> CHR ''?'') (drop (length tag) start)) \<le> length start"
    using assms(2) length_takeWhile_le [of "\<lambda>c. c \<noteq> CHR ''?''" "drop (length tag) start"] by simp
  with assms(1) show ?thesis by (simp add: sohu_origin_print_def Let_def)
qed

lemma sohu_origin_safe:
  assumes "length req < HTTP_URL_MAX_LEN"
  shows "\<exists>r. sc_sohu_gen_origin_url req origin = Some r"
proof -
  have "\<exists>r. sohu_origin_print tag start origin = Some r" if "strstr req tag = Some start" for tag start
    using sohu_origin_print_safe [of start tag origin] strstr_length [OF that]
      strstr_needle_length [OF that] assms by auto
  then show ?thesis by (auto simp: sc_sohu_gen_origin_url_def split: option.splits)
qed

section \<open>Properties\<close>

text \<open>C33. Round trip for Youku: the path a file is stored under, read back at the next start
  with \<open>sc_res_recover_url_from_local_path\<close>, gives the URL the resource had, for every URL
  that has no underscore and no parameters and fits the path buffer.\<close>

theorem youku_path_roundtrip:
  assumes "is_cstr url" and "CHR ''_'' \<notin> set url" and "CHR ''?'' \<notin> set url"
    and "\<not> contains url sohu_file_tag" and "length url < SC_RES_LOCAL_PATH_MAX_LEN"
    and "sc_yk_url_to_local_path url [] SC_RES_LOCAL_PATH_MAX_LEN = (r, lp)"
    and "sc_res_recover_url_from_local_path (cstr lp) [] = (r', b)"
  shows "r = 0 \<and> r' = 0 \<and> cstr b = url"
proof -
  have lp: "r = 0" "cstr lp = lp_default_loop True url"
    using assms(1,5,6) by (auto simp: sc_yk_url_to_local_path_def sc_res_url_to_local_path_default_def)
  have "recover_loop False (lp_default_loop True url) = url"
    using recover_lp_default [OF assms(2,3), of True] by simp
  with assms(1,4,5,7) lp length_lp_default [of True url] show ?thesis
    by (auto simp: sc_res_recover_url_from_local_path_def fix_sohu_tag_none hc_limits)
qed

theorem youku_path_roundtrip_witness:
  "cstr (snd (sc_res_recover_url_from_local_path
      (cstr (snd (sc_yk_url_to_local_path ''101.226.245.141/youku/657F3/03-A.mp4'' [] 256))) []))
   = ''101.226.245.141/youku/657F3/03-A.mp4''"
proof -
  let ?u = "''101.226.245.141/youku/657F3/03-A.mp4''"
  have nt: "\<not> contains ?u sohu_file_tag" by (simp add: contains_def sohu_file_tag_def)
  show ?thesis
    using youku_path_roundtrip [of ?u "fst (sc_yk_url_to_local_path ?u [] SC_RES_LOCAL_PATH_MAX_LEN)"
        "snd (sc_yk_url_to_local_path ?u [] SC_RES_LOCAL_PATH_MAX_LEN)"
        "fst (sc_res_recover_url_from_local_path
           (cstr (snd (sc_yk_url_to_local_path ?u [] SC_RES_LOCAL_PATH_MAX_LEN))) [])"
        "snd (sc_res_recover_url_from_local_path
           (cstr (snd (sc_yk_url_to_local_path ?u [] SC_RES_LOCAL_PATH_MAX_LEN))) [])"] nt
    by (simp add: hc_limits)
qed

text \<open>C34. Round trip for the file URLs of Sohu that have the shape \<open>host/ipad?file=/f\<close>, with no slash in
  the host, no other \<open>?\<close>, no underscore anywhere and fewer than 256 characters: the URL is stored under
  a path in which \<open>?\<close> and every later slash are underscores, and the recovery at the next start puts
  the slashes and the question mark back.\<close>

theorem sohu_path_roundtrip:
  assumes "url = h @ ''/ipad?file=/'' @ f" and "is_cstr url" and "CHR ''/'' \<notin> set h"
    and "CHR ''_'' \<notin> set url" and "CHR ''?'' \<notin> set h" and "CHR ''?'' \<notin> set f"
    and "length url < SC_RES_LOCAL_PATH_MAX_LEN"
    and "sc_sohu_file_url_to_local_path url [] SC_RES_LOCAL_PATH_MAX_LEN = (r, lp)"
    and "sc_res_recover_url_from_local_path (cstr lp) [] = (r', b)"
  shows "r = 0 \<and> r' = 0 \<and> cstr b = url"
proof -
  have isf: "sc_url_is_sohu_file_url url"
    unfolding sc_url_is_sohu_file_url_def contains_iff assms(1)
    by (rule exI [of _ "h @ ''/ipad''"], rule exI [of _ f]) simp
  have lp: "r = 0" "cstr lp = lp_sohu_loop True url"
    using assms(2,7,8) isf by (auto simp: sc_sohu_file_url_to_local_path_def)
  have "recover_loop False (lp_sohu_loop True url) = h @ ''/ipad/file=/'' @ f"
    using recover_lp_sohu [of h f] assms(1,3-6) by auto
  then have fx: "fix_sohu_tag (recover_loop False (lp_sohu_loop True url)) = url"
    using fix_sohu_tag_file_url [OF assms(3), of f] assms(1) by simp
  with assms(2,7,9) lp length_lp_sohu [of True url] show ?thesis
    by (auto simp: sc_res_recover_url_from_local_path_def hc_limits)
qed

theorem sohu_path_roundtrip_witness:
  "cstr (snd (sc_res_recover_url_from_local_path
      (cstr (snd (sc_sohu_file_url_to_local_path ''220.181.61.212/ipad?file=/109/193/XKU.mp4'' [] 256))) []))
   = ''220.181.61.212/ipad?file=/109/193/XKU.mp4''"
proof -
  let ?u = "''220.181.61.212/ipad?file=/109/193/XKU.mp4''"
  show ?thesis
    using sohu_path_roundtrip [of ?u "''220.181.61.212''" "''109/193/XKU.mp4''"
        "fst (sc_sohu_file_url_to_local_path ?u [] SC_RES_LOCAL_PATH_MAX_LEN)"
        "snd (sc_sohu_file_url_to_local_path ?u [] SC_RES_LOCAL_PATH_MAX_LEN)"
        "fst (sc_res_recover_url_from_local_path
           (cstr (snd (sc_sohu_file_url_to_local_path ?u [] SC_RES_LOCAL_PATH_MAX_LEN))) [])"
        "snd (sc_res_recover_url_from_local_path
           (cstr (snd (sc_sohu_file_url_to_local_path ?u [] SC_RES_LOCAL_PATH_MAX_LEN))) [])"]
    by (simp add: hc_limits)
qed



text \<open>Requests for one Youku video are filed under one origin URL: a generated origin URL
  is \<open>v.youku.com/v_show/id_\<close>, thirteen letters or digits and \<open>.html\<close>, and generating from
  it again gives the same URL.\<close>

lemma yk_origin_canonical:
  assumes "sc_yk_gen_origin_url req [] = (0, b)"
  shows "\<exists>v. cstr b = ''v.youku.com/v_show/id_'' @ v @ ''.html'' \<and> length v = 13
           \<and> (\<forall>c \<in> set v. isalnum c) \<and> sc_yk_gen_origin_url (cstr b) [] = (0, b)"
proof -
  from assms obtain v where v: "yk_origin_loop yk_tags req = Some v"
    and b: "b = ''v.youku.com/v_show/id_'' @ v @ ''.html'' @ [NUL]"
    by (auto simp: sc_yk_gen_origin_url_def split: option.splits)
  from yk_origin_loop_SomeD [OF v] have 13: "length v = 13" and al: "\<forall>c \<in> set v. isalnum c"
    by auto
  have cb: "cstr b = ''v.youku.com/v_show/id_'' @ v @ ''.html''"
    using cstr_append_NUL [of "''v.youku.com/v_show/id_'' @ v @ ''.html''" "[]"] alnum_is_cstr [OF al]
    by (simp add: b)
  have "sc_yk_gen_origin_url (cstr b) [] = (0, b)"
    unfolding cb sc_yk_gen_origin_url_def yk_origin_self [OF 13 al] by (simp add: b)
  with cb 13 al show ?thesis by blast
qed

text \<open>C38. Memory safety of the origin-URL generator: on every request shorter than
  \<open>HTTP_URL_MAX_LEN\<close> it returns, and the URL it prints fits the caller's buffer of that size,
  terminator included; a Sohu request whose name is longer overruns the buffers.\<close>

theorem origin_url_bounds:
  "(length req < HTTP_URL_MAX_LEN \<longrightarrow>
     (\<exists>r b. sc_res_gen_origin_url req [] = Some (r, b) \<and> length b \<le> HTTP_URL_MAX_LEN))
   \<and> (HTTP_URL_MAX_LEN \<le> length n \<and> CHR ''?'' \<notin> set n \<longrightarrow>
       sc_sohu_gen_origin_url (sohu_tag1 @ n @ ''.m3u8'') [] = None)"
proof (intro conjI impI)
  assume len: "length req < HTTP_URL_MAX_LEN"
  then obtain r b where s: "sc_sohu_gen_origin_url req [] = Some (r, b)"
    using sohu_origin_safe [of req "[]"] by auto
  then have "length b \<le> HTTP_URL_MAX_LEN"
    by (auto simp: sc_sohu_gen_origin_url_def sohu_origin_print_def Let_def split: option.splits if_splits)
  moreover have "length (snd (sc_yk_gen_origin_url req [])) \<le> HTTP_URL_MAX_LEN"
    by (auto simp: sc_yk_gen_origin_url_def hc_limits dest!: yk_origin_loop_SomeD split: option.splits)
  ultimately show "\<exists>r b. sc_res_gen_origin_url req [] = Some (r, b) \<and> length b \<le> HTTP_URL_MAX_LEN"
    using s by (cases "sc_yk_gen_origin_url req []") (auto simp: sc_res_gen_origin_url_def)
next
  assume n: "HTTP_URL_MAX_LEN \<le> length n \<and> CHR ''?'' \<notin> set n"
  then have "length n \<le> length (takeWhile (\<lambda>c. c \<noteq> CHR ''?'') (n @ ''.m3u8''))"
    by (subst takeWhile_append2) auto
  with n have "sohu_origin_print sohu_tag1 (sohu_tag1 @ n @ ''.m3u8'') [] = None"
    by (simp add: sohu_origin_print_def)
  moreover have "contains (sohu_tag1 @ n @ ''.m3u8'') ''.m3u8''"
    unfolding contains_iff by (rule exI [of _ "sohu_tag1 @ n"], rule exI [of _ "[]"]) simp
  ultimately show "sc_sohu_gen_origin_url (sohu_tag1 @ n @ ''.m3u8'') [] = None"
    by (simp add: sc_sohu_gen_origin_url_def strstr_prefix)
qed

theorem origin_url_bounds_witness:
  "(\<exists>r b. sc_res_gen_origin_url ''my.tv.sohu.com/ipad/1.m3u8'' [] = Some (r, b) \<and> length b \<le> 600)
   \<and> sc_sohu_gen_origin_url (sohu_tag1 @ replicate 600 (CHR ''a'') @ ''.m3u8'') [] = None"
  using origin_url_bounds [of "''my.tv.sohu.com/ipad/1.m3u8''" "replicate 600 (CHR ''a'')"]
  by (simp add: hc_limits)

end
