(* ===== verification/Os_World.thy ===== *)
theory Os_World
  imports C_String
begin

text \<open>
  The operating system as a parameter. The program's system calls (sockets, files, memory,
  clock) are not code of the repository: they are the functions of a record \<open>'w os\<close> over an
  arbitrary state \<open>'w\<close> of the outside world, which every operation that makes a system call
  takes and returns. What the properties rely on is named here (\<open>os_recv_ok\<close>,
  \<open>os_recvfrom_ok\<close>: a receive delivers at most as many bytes as asked for and reports their
  number). \<open>scripted\<close> is an instance that answers from a script, for the witnesses.

  Byte order: the program runs on a little-endian host; \<open>htons\<close> and \<open>ntohs\<close> swap the bytes.
\<close>

record 'w os =
  os_socket :: "'w \<Rightarrow> int \<times> 'w"
  os_connect :: "int \<Rightarrow> string \<Rightarrow> 'w \<Rightarrow> int \<times> 'w"
  os_bind :: "int \<Rightarrow> string \<Rightarrow> 'w \<Rightarrow> int \<times> 'w"
  os_listen :: "int \<Rightarrow> int \<Rightarrow> 'w \<Rightarrow> int \<times> 'w"
  os_close :: "int \<Rightarrow> 'w \<Rightarrow> 'w"
  os_send :: "int \<Rightarrow> string \<Rightarrow> 'w \<Rightarrow> int \<times> 'w"
  os_recv :: "int \<Rightarrow> nat \<Rightarrow> 'w \<Rightarrow> (int \<times> buf) \<times> 'w"
  os_sendto :: "int \<Rightarrow> string \<Rightarrow> buf \<Rightarrow> 'w \<Rightarrow> int \<times> 'w"
  os_recvfrom :: "int \<Rightarrow> nat \<Rightarrow> 'w \<Rightarrow> (int \<times> buf \<times> string) \<times> 'w"
  os_sleep :: "nat \<Rightarrow> 'w \<Rightarrow> 'w"
  os_getaddrinfo :: "string \<Rightarrow> 'w \<Rightarrow> string list option \<times> 'w"
  os_rename :: "string \<Rightarrow> string \<Rightarrow> 'w \<Rightarrow> int \<times> 'w"
  os_remove :: "string \<Rightarrow> 'w \<Rightarrow> int \<times> 'w"
  os_write_file :: "string \<Rightarrow> string \<Rightarrow> 'w \<Rightarrow> bool \<times> 'w"
  os_malloc :: "nat \<Rightarrow> 'w \<Rightarrow> bool \<times> 'w"
  os_rand :: "'w \<Rightarrow> nat \<times> 'w"
  os_shmget :: "'w \<Rightarrow> int \<times> 'w"
  os_shmat :: "int \<Rightarrow> 'w \<Rightarrow> ulong \<times> 'w"
  os_shmctl :: "int \<Rightarrow> 'w \<Rightarrow> int \<times> 'w"

definition os_recv_ok :: "'w os \<Rightarrow> bool" where
  "os_recv_ok os \<longleftrightarrow> (\<forall>fd n w r d w'. os_recv os fd n w = ((r, d), w') \<longrightarrow>
     r \<le> int n \<and> (0 \<le> r \<longrightarrow> int (length d) = r))"

definition os_recvfrom_ok :: "'w os \<Rightarrow> bool" where
  "os_recvfrom_ok os \<longleftrightarrow> (\<forall>fd n w r d a w'. os_recvfrom os fd n w = ((r, d, a), w') \<longrightarrow>
     r \<le> int n \<and> (0 \<le> r \<longrightarrow> int (length d) = r))"

section \<open>Bytes of a packet\<close>

definition byte_at :: "buf \<Rightarrow> nat \<Rightarrow> char" where
  "byte_at b i = (if i < length b then b ! i else NUL)"

definition get_u8 :: "buf \<Rightarrow> nat \<Rightarrow> u8" where
  "get_u8 b i = of_nat (ord (byte_at b i))"

definition get_u16 :: "buf \<Rightarrow> nat \<Rightarrow> u16" where
  "get_u16 b i = of_nat (ord (byte_at b i) + 256 * ord (byte_at b (i + 1)))"

definition get_u32 :: "buf \<Rightarrow> nat \<Rightarrow> u32" where
  "get_u32 b i = of_nat (ord (byte_at b i) + 256 * ord (byte_at b (i + 1))
      + 65536 * ord (byte_at b (i + 2)) + 16777216 * ord (byte_at b (i + 3)))"

definition bytes_u8 :: "u8 \<Rightarrow> buf" where
  "bytes_u8 w = [char_of (unat w)]"

definition bytes_u16 :: "u16 \<Rightarrow> buf" where
  "bytes_u16 w = [char_of (unat w mod 256), char_of (unat w div 256)]"

definition bytes_u32 :: "u32 \<Rightarrow> buf" where
  "bytes_u32 w = [char_of (unat w mod 256), char_of (unat w div 256 mod 256),
                  char_of (unat w div 65536 mod 256), char_of (unat w div 16777216)]"

text \<open>Writing bytes at an offset; a gap after the known bytes is NUL.\<close>

definition put_bytes :: "buf \<Rightarrow> nat \<Rightarrow> buf \<Rightarrow> buf" where
  "put_bytes b off d = take off (b @ replicate off NUL) @ d @ drop (off + length d) b"

definition htons :: "u16 \<Rightarrow> u16" where
  "htons w = of_nat (256 * (unat w mod 256) + unat w div 256)"

abbreviation ntohs :: "u16 \<Rightarrow> u16" where
  "ntohs \<equiv> htons"

lemma unat_u16_less: "unat (w :: u16) < 65536"
  using unsigned_less [of w] by simp

lemma unat_u32_less: "unat (w :: u32) < 4294967296"
  using unsigned_less [of w] by simp

lemma unat_u8_less: "unat (w :: u8) < 256"
  using unsigned_less [of w] by simp

lemma unat_htons: "unat (htons w) = 256 * (unat w mod 256) + unat w div 256"
proof -
  have "256 * (unat w mod 256) + unat w div 256 < 65536"
    using unat_u16_less [of w] by auto
  then show ?thesis
    by (simp add: htons_def unsigned_of_nat take_bit_nat_eq_self del: of_nat_add of_nat_mult)
qed

lemma htons_htons [simp]: "htons (htons w) = w"
proof -
  have "unat w div 256 < 256" using unat_u16_less [of w] by auto
  then have "unat (htons (htons w)) = unat w"
    by (simp add: unat_htons)
  then show ?thesis by (simp add: word_unat_eq_iff)
qed

lemma get_bytes_u8: "get_u8 (bytes_u8 w @ r) 0 = w"
  using unat_u8_less [of w] by (simp add: get_u8_def bytes_u8_def byte_at_def)

lemma get_bytes_u16: "get_u16 (bytes_u16 w @ r) 0 = w"
proof -
  have "unat w div 256 < 256" using unat_u16_less [of w] by auto
  moreover have "unat w mod 256 + 256 * (unat w div 256) = unat w" by simp
  ultimately have "of_nat (unat w mod 256 + 256 * (unat w div 256)) = w"
    by (simp del: of_nat_add of_nat_mult)
  with \<open>unat w div 256 < 256\<close> show ?thesis
    by (simp add: get_u16_def bytes_u16_def byte_at_def del: of_nat_add of_nat_mult)
qed

lemma base256_digits:
  "n mod 256 + 256 * (n div 256 mod 256) + 65536 * (n div 65536 mod 256)
     + 16777216 * (n div 16777216) = (n :: nat)"
proof -
  define a b c where "a = n div 256" and "b = a div 256" and "c = b div 256"
  have "n = 256 * a + n mod 256" "a = 256 * b + a mod 256" "b = 256 * c + b mod 256"
    by (simp_all add: a_def b_def c_def)
  moreover have "n div 65536 = b" "n div 16777216 = c"
    by (simp_all add: a_def b_def c_def div_mult2_eq [symmetric])
  ultimately show ?thesis unfolding a_def [symmetric] by simp
qed

lemma get_bytes_u32: "get_u32 (bytes_u32 w @ r) 0 = w"
proof -
  have "unat w div 16777216 < 256" using unat_u32_less [of w] by auto
  moreover have "of_nat (unat w mod 256 + 256 * (unat w div 256 mod 256)
      + 65536 * (unat w div 65536 mod 256) + 16777216 * (unat w div 16777216)) = w"
    unfolding base256_digits by simp
  ultimately show ?thesis
    by (simp add: get_u32_def bytes_u32_def byte_at_def numeral_2_eq_2 numeral_3_eq_3
        del: of_nat_add of_nat_mult)
qed

section \<open>A scripted world\<close>

text \<open>
  The world is the list of answers still to be received and the log of what was sent. Every
  call succeeds; \<open>recv\<close> and \<open>recvfrom\<close> deliver the next answer, cut to the size asked for,
  and fail when there is none.
\<close>

record script =
  answers :: "buf list"
  sent :: "buf list"
  opened :: int
  closed :: int

definition script_recv :: "nat \<Rightarrow> script \<Rightarrow> (int \<times> buf) \<times> script" where
  "script_recv n w = (case answers w of
      [] \<Rightarrow> ((- 1, []), w)
    | a # as \<Rightarrow> ((int (length (take n a)), take n a), w\<lparr>answers := as\<rparr>))"

definition scripted :: "script os" where
  "scripted = \<lparr>
     os_socket = (\<lambda>w. (3, w\<lparr>opened := opened w + 1\<rparr>)),
     os_connect = (\<lambda>fd a w. (0, w)),
     os_bind = (\<lambda>fd a w. (0, w)),
     os_listen = (\<lambda>fd q w. (0, w)),
     os_close = (\<lambda>fd w. w\<lparr>closed := closed w + 1\<rparr>),
     os_send = (\<lambda>fd d w. (int (length d), w\<lparr>sent := sent w @ [d]\<rparr>)),
     os_recv = (\<lambda>fd n w. script_recv n w),
     os_sendto = (\<lambda>fd a d w. (int (length d), w\<lparr>sent := sent w @ [d]\<rparr>)),
     os_recvfrom = (\<lambda>fd n w. (case script_recv n w of ((r, d), w') \<Rightarrow> ((r, d, ''peer''), w'))),
     os_sleep = (\<lambda>n w. w),
     os_getaddrinfo = (\<lambda>h w. (Some [h], w)),
     os_rename = (\<lambda>a b w. (0, w)),
     os_remove = (\<lambda>a w. (0, w)),
     os_write_file = (\<lambda>p d w. (True, w)),
     os_malloc = (\<lambda>n w. (True, w)),
     os_rand = (\<lambda>w. (0, w)),
     os_shmget = (\<lambda>w. (7, w)),
     os_shmat = (\<lambda>i w. (0x7f0000000000, w)),
     os_shmctl = (\<lambda>i w. (0, w))\<rparr>"

lemma scripted_recv_ok: "os_recv_ok scripted"
  by (auto simp: os_recv_ok_def scripted_def script_recv_def split: list.splits)

lemma scripted_recvfrom_ok: "os_recvfrom_ok scripted"
  by (auto simp: os_recvfrom_ok_def scripted_def script_recv_def split: list.splits prod.splits)

end
