(* ===== verification/Res_Pool.thy ===== *)
theory Res_Pool
  imports Res_Url Os_World
begin

text \<open>
  The two slot allocators of \<^verbatim>\<open>snooping_client/sc_resource.c\<close>: \<open>sc_res_list_alloc_and_init\<close>,
  \<open>sc_res_info_get_mgmt\<close>, \<open>sc_res_info_get_ctnt\<close> and \<open>sc_res_info_put\<close>. A free slot keeps
  the address of the next free slot in \<open>common.id\<close>, a used one its index; the last free slot
  holds \<open>INVALID_PTR\<close>. The addresses are the machine's: slot \<open>i\<close> of \<open>mgmt\<close> is at offset
  \<open>8 + 704 i\<close> of the shared segment and slot \<open>i\<close> of \<open>ctnt\<close> at \<open>720920 + 904 i\<close> (the sizes of
  \<open>sc_res_info_mgmt_t\<close> and \<open>sc_res_info_ctnt_t\<close> on a 64 bit host). Following a link that is
  not the address of a slot is a fault.

  What a pool promises is the locale \<open>slot_pool\<close>; its interpretations are the three ways to
  get a management slot and the one to get a content slot.
\<close>

section \<open>Addresses\<close>

definition INVALID_PTR :: ulong where "INVALID_PTR = - 1"

definition SIZEOF_MGMT :: nat where "SIZEOF_MGMT = 704"
definition SIZEOF_CTNT :: nat where "SIZEOF_CTNT = 904"
definition SC_RES_SHARE_MEM_SIZE :: nat where "SC_RES_SHARE_MEM_SIZE = 4423712"

definition mgmt_base :: "sc_res_list \<Rightarrow> ulong" where
  "mgmt_base rl = rl_addr rl + 8"

definition ctnt_base :: "sc_res_list \<Rightarrow> ulong" where
  "ctnt_base rl = rl_addr rl + 720920"

definition mgmt_ptr :: "sc_res_list \<Rightarrow> nat \<Rightarrow> ulong" where
  "mgmt_ptr rl i = mgmt_base rl + of_nat (i * SIZEOF_MGMT)"

definition ctnt_ptr :: "sc_res_list \<Rightarrow> nat \<Rightarrow> ulong" where
  "ctnt_ptr rl i = ctnt_base rl + of_nat (i * SIZEOF_CTNT)"

text \<open>The slot an address points to.\<close>

definition slot_of :: "ulong \<Rightarrow> nat \<Rightarrow> nat \<Rightarrow> ulong \<Rightarrow> nat option" where
  "slot_of base sz cap p =
     (let off = unat (p - base) in
      if off mod sz = 0 \<and> off div sz < cap then Some (off div sz) else None)"

definition mgmt_slot :: "sc_res_list \<Rightarrow> ulong \<Rightarrow> nat option" where
  "mgmt_slot rl p = slot_of (mgmt_base rl) SIZEOF_MGMT SC_RES_INFO_NUM_MAX_MGMT p"

definition ctnt_slot :: "sc_res_list \<Rightarrow> ulong \<Rightarrow> nat option" where
  "ctnt_slot rl p = slot_of (ctnt_base rl) SIZEOF_CTNT SC_RES_INFO_NUM_MAX_CTNT p"

text \<open>The segment is attached above the first page and below the kernel half.\<close>

definition shm_ok :: "ulong \<Rightarrow> bool" where
  "shm_ok a \<longleftrightarrow> 4096 \<le> unat a \<and> unat a + SC_RES_SHARE_MEM_SIZE < 2 ^ 63"

section \<open>Creating the list\<close>

definition sc_res_list_destroy_and_uninit :: "'w os \<Rightarrow> int \<Rightarrow> 'w \<Rightarrow> int \<times> 'w" where
  "sc_res_list_destroy_and_uninit os shmid w =
     (case os_shmctl os shmid w of (r, w1) \<Rightarrow> if r < 0 then (- 1, w1) else (0, w1))"

definition sc_res_list_alloc_share_mem :: "'w os \<Rightarrow> 'w \<Rightarrow> (int \<times> ulong) \<times> 'w" where
  "sc_res_list_alloc_share_mem os w =
     (case os_shmget os w of (shmid, w1) \<Rightarrow>
        if shmid < 0 then ((- 1, 0), w1)
        else case os_shmat os shmid w1 of (p, w2) \<Rightarrow>
          if p = INVALID_PTR
          then ((- 1, 0), snd (sc_res_list_destroy_and_uninit os shmid w2))
          else ((shmid, p), w2))"

definition zero_list :: "ulong \<Rightarrow> sc_res_list" where
  "zero_list a = \<lparr>rl_addr = a, mgmt_cnt = 0, mgmt = (\<lambda>_. zero_mgmt), mgmt_free = 0,
                  ctnt_cnt = 0, ctnt = (\<lambda>_. zero_ctnt), ctnt_free = 0\<rparr>"

definition set_mgmt_id :: "nat \<Rightarrow> ulong \<Rightarrow> sc_res_list \<Rightarrow> sc_res_list" where
  "set_mgmt_id i v rl = rl\<lparr>mgmt := (mgmt rl)(i :=
     (mgmt rl i)\<lparr>mg_common := (mg_common (mgmt rl i))\<lparr>ri_id := v\<rparr>\<rparr>)\<rparr>"

definition set_ctnt_id :: "nat \<Rightarrow> ulong \<Rightarrow> sc_res_list \<Rightarrow> sc_res_list" where
  "set_ctnt_id i v rl = rl\<lparr>ctnt := (ctnt rl)(i :=
     (ctnt rl i)\<lparr>ct_common := (ct_common (ctnt rl i))\<lparr>ri_id := v\<rparr>\<rparr>)\<rparr>"

text \<open>The two loops \<open>for (i = 1; i < MAX; i++)\<close>.\<close>

fun link_mgmt :: "nat \<Rightarrow> sc_res_list \<Rightarrow> sc_res_list" where
  "link_mgmt 0 rl = set_mgmt_id 0 INVALID_PTR rl"
| "link_mgmt (Suc i) rl = (let rl' = link_mgmt i rl in set_mgmt_id (Suc i) (mgmt_ptr rl' i) rl')"

fun link_ctnt :: "nat \<Rightarrow> sc_res_list \<Rightarrow> sc_res_list" where
  "link_ctnt 0 rl = set_ctnt_id 0 INVALID_PTR rl"
| "link_ctnt (Suc i) rl = (let rl' = link_ctnt i rl in set_ctnt_id (Suc i) (ctnt_ptr rl' i) rl')"

definition init_list :: "ulong \<Rightarrow> sc_res_list" where
  "init_list a =
     (let rl = link_mgmt (SC_RES_INFO_NUM_MAX_MGMT - 1) (zero_list a);
          rl = rl\<lparr>mgmt_free := mgmt_ptr rl (SC_RES_INFO_NUM_MAX_MGMT - 1)\<rparr>;
          rl = link_ctnt (SC_RES_INFO_NUM_MAX_CTNT - 1) rl
      in rl\<lparr>ctnt_free := ctnt_ptr rl (SC_RES_INFO_NUM_MAX_CTNT - 1)\<rparr>)"

definition sc_res_list_alloc_and_init :: "'w os \<Rightarrow> 'w \<Rightarrow> (int \<times> sc_res_list option) \<times> 'w" where
  "sc_res_list_alloc_and_init os w =
     (case sc_res_list_alloc_share_mem os w of ((ret, a), w1) \<Rightarrow>
        if ret < 0 then ((- 1, None), w1) else ((ret, Some (init_list a)), w1))"

section \<open>Getting a slot\<close>

definition sc_res_info_get_mgmt :: "sc_res_list \<Rightarrow> (nat option \<times> sc_res_list) option" where
  "sc_res_info_get_mgmt rl =
     (if mgmt_free rl = INVALID_PTR then Some (None, rl)
      else do {
        i \<leftarrow> mgmt_slot rl (mgmt_free rl);
        let rl1 = rl\<lparr>mgmt_free := ri_id (mg_common (mgmt rl i)), mgmt_cnt := mgmt_cnt rl + 1\<rparr>;
        let idx = (mgmt_ptr rl i - mgmt_base rl) div of_nat SIZEOF_MGMT;
        let m = zero_mgmt\<lparr>mg_common := zero_info\<lparr>ri_id := idx\<rparr>\<rparr>;
        Some (Some i, rl1\<lparr>mgmt := (mgmt rl1)(i := m)\<rparr>)
      })"

definition set_mgmt_gen :: "nat \<Rightarrow> sc_res_gen \<Rightarrow> sc_res_list \<Rightarrow> sc_res_list" where
  "set_mgmt_gen i g rl = rl\<lparr>mgmt := (mgmt rl)(i :=
     (mgmt rl i)\<lparr>mg_common := (mg_common (mgmt rl i))\<lparr>ri_gen := g\<rparr>\<rparr>)\<rparr>"

definition get_mgmt_as :: "sc_res_gen \<Rightarrow> sc_res_list \<Rightarrow> (nat option \<times> sc_res_list) option" where
  "get_mgmt_as g rl = do {
     (r, rl1) \<leftarrow> sc_res_info_get_mgmt rl;
     Some (r, case r of None \<Rightarrow> rl1 | Some i \<Rightarrow> set_mgmt_gen i g rl1)
   }"

definition sc_res_info_get_mgmt_origin :: "sc_res_list \<Rightarrow> (nat option \<times> sc_res_list) option" where
  "sc_res_info_get_mgmt_origin rl = get_mgmt_as SC_RES_GEN_T_ORIGIN rl"

definition sc_res_info_get_mgmt_normal :: "sc_res_list \<Rightarrow> (nat option \<times> sc_res_list) option" where
  "sc_res_info_get_mgmt_normal rl = get_mgmt_as SC_RES_GEN_T_NORMAL rl"

definition sc_res_info_get_mgmt_ctrl_ld :: "sc_res_list \<Rightarrow> (nat option \<times> sc_res_list) option" where
  "sc_res_info_get_mgmt_ctrl_ld rl = get_mgmt_as SC_RES_GEN_T_CTRL_LD rl"

definition sc_res_info_get_ctnt :: "sc_res_list \<Rightarrow> (nat option \<times> sc_res_list) option" where
  "sc_res_info_get_ctnt rl =
     (if ctnt_free rl = INVALID_PTR then Some (None, rl)
      else do {
        i \<leftarrow> ctnt_slot rl (ctnt_free rl);
        let rl1 = rl\<lparr>ctnt_free := ri_id (ct_common (ctnt rl i)), ctnt_cnt := ctnt_cnt rl + 1\<rparr>;
        let idx = (ctnt_ptr rl i - ctnt_base rl) div of_nat SIZEOF_CTNT;
        let c = zero_ctnt\<lparr>ct_common := zero_info\<lparr>ri_id := idx, ri_gen := SC_RES_GEN_T_CONTENT\<rparr>\<rparr>;
        Some (Some i, rl1\<lparr>ctnt := (ctnt rl1)(i := c)\<rparr>)
      })"

section \<open>Giving a slot back\<close>

text \<open>A pointer to the common part of a management or of a content entry. The code decides by
  \<open>gen\<close> which of the two it points to; acting on the wrong kind of memory is a fault.\<close>

datatype ri_ptr = RiMgmt nat | RiCtnt nat

fun ri_at :: "sc_res_list \<Rightarrow> ri_ptr \<Rightarrow> sc_res_info" where
  "ri_at rl (RiMgmt i) = mg_common (mgmt rl i)"
| "ri_at rl (RiCtnt i) = ct_common (ctnt rl i)"

fun put_mgmt_slot :: "sc_res_list \<Rightarrow> ri_ptr \<Rightarrow> sc_res_list option" where
  "put_mgmt_slot rl (RiMgmt i) = Some (rl\<lparr>
     mgmt := (mgmt rl)(i := zero_mgmt\<lparr>mg_common := zero_info\<lparr>ri_id := mgmt_free rl\<rparr>\<rparr>),
     mgmt_free := mgmt_ptr rl i, mgmt_cnt := mgmt_cnt rl - 1\<rparr>)"
| "put_mgmt_slot rl (RiCtnt i) = None"

fun put_ctnt_slot :: "sc_res_list \<Rightarrow> ri_ptr \<Rightarrow> sc_res_list option" where
  "put_ctnt_slot rl (RiCtnt i) = Some (rl\<lparr>
     ctnt := (ctnt rl)(i := zero_ctnt\<lparr>ct_common := zero_info\<lparr>ri_id := ctnt_free rl\<rparr>\<rparr>),
     ctnt_free := ctnt_ptr rl i, ctnt_cnt := ctnt_cnt rl - 1\<rparr>)"
| "put_ctnt_slot rl (RiMgmt i) = None"

definition sc_res_info_put :: "sc_res_list \<Rightarrow> ri_ptr option \<Rightarrow> sc_res_list option" where
  "sc_res_info_put rl ri = (case ri of
      None \<Rightarrow> Some rl
    | Some p \<Rightarrow>
        if sc_res_info_is_mgmt (Some (ri_at rl p))
        then if mgmt_cnt rl = 0 then Some rl else put_mgmt_slot rl p
        else if sc_res_info_is_ctnt (Some (ri_at rl p))
        then if ctnt_cnt rl = 0 then Some rl else put_ctnt_slot rl p
        else Some rl)"

section \<open>Address arithmetic\<close>

lemmas addr_defs = mgmt_base_def ctnt_base_def mgmt_ptr_def ctnt_ptr_def SIZEOF_MGMT_def
  SIZEOF_CTNT_def SC_RES_SHARE_MEM_SIZE_def shm_ok_def

lemma unat_of_nat_less: "n < 2 ^ 64 \<Longrightarrow> unat (of_nat n :: ulong) = n"
  by (simp add: unsigned_of_nat take_bit_nat_eq_self)

lemma unat_plus_of_nat:
  "unat a + n < 2 ^ 64 \<Longrightarrow> unat (a + of_nat n :: ulong) = unat a + n"
  by (simp add: unat_word_ariths unat_of_nat_less)

lemma mgmt_ptr_plus: "mgmt_ptr rl i = rl_addr rl + of_nat (8 + i * SIZEOF_MGMT)"
  by (simp add: mgmt_ptr_def mgmt_base_def)

lemma ctnt_ptr_plus: "ctnt_ptr rl i = rl_addr rl + of_nat (720920 + i * SIZEOF_CTNT)"
  by (simp add: ctnt_ptr_def ctnt_base_def)

lemma unat_mgmt_ptr:
  "shm_ok (rl_addr rl) \<Longrightarrow> i < SC_RES_INFO_NUM_MAX_MGMT \<Longrightarrow>
     unat (mgmt_ptr rl i) = unat (rl_addr rl) + 8 + i * SIZEOF_MGMT"
  unfolding mgmt_ptr_plus
  by (subst unat_plus_of_nat) (auto simp: addr_defs hc_limits)

lemma unat_ctnt_ptr:
  "shm_ok (rl_addr rl) \<Longrightarrow> i < SC_RES_INFO_NUM_MAX_CTNT \<Longrightarrow>
     unat (ctnt_ptr rl i) = unat (rl_addr rl) + 720920 + i * SIZEOF_CTNT"
  unfolding ctnt_ptr_plus
  by (subst unat_plus_of_nat) (auto simp: addr_defs hc_limits)

lemma ptr_valid:
  assumes "shm_ok (rl_addr rl)"
  shows "i < SC_RES_INFO_NUM_MAX_MGMT \<Longrightarrow> mgmt_ptr rl i \<noteq> INVALID_PTR"
    and "j < SC_RES_INFO_NUM_MAX_CTNT \<Longrightarrow> ctnt_ptr rl j \<noteq> INVALID_PTR"
proof -
  have inv: "unat INVALID_PTR = 2 ^ 64 - 1" by (simp add: INVALID_PTR_def unsigned_minus_1_eq_mask mask_eq_exp_minus_1)
  show "i < SC_RES_INFO_NUM_MAX_MGMT \<Longrightarrow> mgmt_ptr rl i \<noteq> INVALID_PTR"
    using assms unat_mgmt_ptr [OF assms, of i] inv
    by (auto simp: shm_ok_def SC_RES_SHARE_MEM_SIZE_def SIZEOF_MGMT_def hc_limits)
  show "j < SC_RES_INFO_NUM_MAX_CTNT \<Longrightarrow> ctnt_ptr rl j \<noteq> INVALID_PTR"
    using assms unat_ctnt_ptr [OF assms, of j] inv
    by (auto simp: shm_ok_def SC_RES_SHARE_MEM_SIZE_def SIZEOF_CTNT_def hc_limits)
qed

lemma slot_of_ptr:
  assumes "i < cap" and "0 < sz" and "cap * sz < 2 ^ 64"
  shows "slot_of base sz cap (base + of_nat (i * sz)) = Some i"
proof -
  have "i * sz < 2 ^ 64" using assms by (meson le_less_trans less_imp_le_nat mult_le_mono1)
  then have "unat (base + of_nat (i * sz) - base) = i * sz"
    by (simp add: unat_of_nat_less del: of_nat_mult)
  with assms show ?thesis by (simp add: slot_of_def)
qed

lemma mgmt_slot_ptr [simp]: "i < SC_RES_INFO_NUM_MAX_MGMT \<Longrightarrow> mgmt_slot rl (mgmt_ptr rl i) = Some i"
  unfolding mgmt_slot_def mgmt_ptr_def by (rule slot_of_ptr) (auto simp: hc_limits SIZEOF_MGMT_def)

lemma ctnt_slot_ptr [simp]: "i < SC_RES_INFO_NUM_MAX_CTNT \<Longrightarrow> ctnt_slot rl (ctnt_ptr rl i) = Some i"
  unfolding ctnt_slot_def ctnt_ptr_def by (rule slot_of_ptr) (auto simp: hc_limits SIZEOF_CTNT_def)

lemma index_of_ptr:
  "i < SC_RES_INFO_NUM_MAX_MGMT \<Longrightarrow> (mgmt_ptr rl i - mgmt_base rl) div of_nat SIZEOF_MGMT = of_nat i"
  "j < SC_RES_INFO_NUM_MAX_CTNT \<Longrightarrow> (ctnt_ptr rl j - ctnt_base rl) div of_nat SIZEOF_CTNT = of_nat j"
  by (simp_all add: mgmt_ptr_def ctnt_ptr_def word_unat_eq_iff unat_div unat_of_nat_less
      SIZEOF_MGMT_def SIZEOF_CTNT_def hc_limits del: of_nat_mult)

section \<open>Free lists\<close>

text \<open>\<open>free_chain next addr p fl\<close>: starting from the link \<open>p\<close> and following \<open>next\<close>, the free
  slots are \<open>fl\<close>, and the last one holds \<open>INVALID_PTR\<close>.\<close>

fun free_chain :: "(nat \<Rightarrow> ulong) \<Rightarrow> (nat \<Rightarrow> ulong) \<Rightarrow> ulong \<Rightarrow> nat list \<Rightarrow> bool" where
  "free_chain nxt addr p [] = (p = INVALID_PTR)"
| "free_chain nxt addr p (i # fl) = (p = addr i \<and> free_chain nxt addr (nxt i) fl)"

definition mgmt_pool :: "sc_res_list \<Rightarrow> nat list \<Rightarrow> bool" where
  "mgmt_pool rl fl \<longleftrightarrow> shm_ok (rl_addr rl) \<and>
     free_chain (\<lambda>i. ri_id (mg_common (mgmt rl i))) (mgmt_ptr rl) (mgmt_free rl) fl \<and>
     distinct fl \<and> set fl \<subseteq> {..<SC_RES_INFO_NUM_MAX_MGMT} \<and>
     mgmt_cnt rl = int SC_RES_INFO_NUM_MAX_MGMT - int (length fl)"

definition ctnt_pool :: "sc_res_list \<Rightarrow> nat list \<Rightarrow> bool" where
  "ctnt_pool rl fl \<longleftrightarrow> shm_ok (rl_addr rl) \<and>
     free_chain (\<lambda>i. ri_id (ct_common (ctnt rl i))) (ctnt_ptr rl) (ctnt_free rl) fl \<and>
     distinct fl \<and> set fl \<subseteq> {..<SC_RES_INFO_NUM_MAX_CTNT} \<and>
     ctnt_cnt rl = int SC_RES_INFO_NUM_MAX_CTNT - int (length fl)"

lemma free_chain_cong:
  "(\<And>i. i \<in> set fl \<Longrightarrow> n i = n' i) \<Longrightarrow> free_chain n a p fl = free_chain n' a p fl"
  by (induction fl arbitrary: p) auto

lemma free_chain_skip [simp]:
  "k \<notin> set fl \<Longrightarrow> free_chain (\<lambda>i. ri_id (mg_common (if i = k then x else g i))) a p fl
     = free_chain (\<lambda>i. ri_id (mg_common (g i))) a p fl"
  "k \<notin> set fl \<Longrightarrow> free_chain (\<lambda>i. ri_id (ct_common (if i = k then y else h i))) a p fl
     = free_chain (\<lambda>i. ri_id (ct_common (h i))) a p fl"
  by (rule free_chain_cong; auto)+

lemma mgmt_ptr_cong [simp]:
  "mgmt_ptr (rl\<lparr>mgmt_free := x\<rparr>) = mgmt_ptr rl" "mgmt_ptr (rl\<lparr>mgmt_cnt := c\<rparr>) = mgmt_ptr rl"
  "mgmt_ptr (rl\<lparr>mgmt := m\<rparr>) = mgmt_ptr rl" "mgmt_ptr (rl\<lparr>ctnt_free := x\<rparr>) = mgmt_ptr rl"
  "mgmt_ptr (rl\<lparr>ctnt_cnt := c\<rparr>) = mgmt_ptr rl" "mgmt_ptr (rl\<lparr>ctnt := k\<rparr>) = mgmt_ptr rl"
  by (auto simp: mgmt_ptr_def mgmt_base_def)

lemma ctnt_ptr_cong [simp]:
  "ctnt_ptr (rl\<lparr>mgmt_free := x\<rparr>) = ctnt_ptr rl" "ctnt_ptr (rl\<lparr>mgmt_cnt := c\<rparr>) = ctnt_ptr rl"
  "ctnt_ptr (rl\<lparr>mgmt := m\<rparr>) = ctnt_ptr rl" "ctnt_ptr (rl\<lparr>ctnt_free := x\<rparr>) = ctnt_ptr rl"
  "ctnt_ptr (rl\<lparr>ctnt_cnt := c\<rparr>) = ctnt_ptr rl" "ctnt_ptr (rl\<lparr>ctnt := k\<rparr>) = ctnt_ptr rl"
  by (auto simp: ctnt_ptr_def ctnt_base_def)

text \<open>Getting a management slot takes the head of the free list.\<close>

definition fresh_mgmt :: "nat \<Rightarrow> sc_res_gen \<Rightarrow> sc_res_info_mgmt" where
  "fresh_mgmt i g = zero_mgmt\<lparr>mg_common := zero_info\<lparr>ri_id := of_nat i, ri_gen := g\<rparr>\<rparr>"

definition fresh_ctnt :: "nat \<Rightarrow> sc_res_info_ctnt" where
  "fresh_ctnt i = zero_ctnt\<lparr>ct_common := zero_info\<lparr>ri_id := of_nat i\<rparr>\<rparr>"

lemma get_mgmt_as_Nil: "mgmt_pool rl [] \<Longrightarrow> get_mgmt_as g rl = Some (None, rl)"
  by (simp add: get_mgmt_as_def sc_res_info_get_mgmt_def mgmt_pool_def)

lemma get_mgmt_as_Cons:
  assumes "mgmt_pool rl (i # fl)"
  shows "get_mgmt_as g rl = Some (Some i, rl\<lparr>mgmt_free := ri_id (mg_common (mgmt rl i)),
      mgmt_cnt := mgmt_cnt rl + 1, mgmt := (mgmt rl)(i := fresh_mgmt i g)\<rparr>)"
proof -
  from assms have i: "i < SC_RES_INFO_NUM_MAX_MGMT" and f: "mgmt_free rl = mgmt_ptr rl i"
    and a: "shm_ok (rl_addr rl)" by (auto simp: mgmt_pool_def)
  with ptr_valid(1) [OF a i] index_of_ptr(1) [OF i, of rl] show ?thesis
    by (simp add: get_mgmt_as_def sc_res_info_get_mgmt_def set_mgmt_gen_def fresh_mgmt_def)
qed

lemma get_ctnt_Nil: "ctnt_pool rl [] \<Longrightarrow> sc_res_info_get_ctnt rl = Some (None, rl)"
  by (simp add: sc_res_info_get_ctnt_def ctnt_pool_def)

lemma get_ctnt_Cons:
  assumes "ctnt_pool rl (i # fl)"
  shows "sc_res_info_get_ctnt rl = Some (Some i, rl\<lparr>ctnt_free := ri_id (ct_common (ctnt rl i)),
      ctnt_cnt := ctnt_cnt rl + 1, ctnt := (ctnt rl)(i := fresh_ctnt i)\<rparr>)"
proof -
  from assms have i: "i < SC_RES_INFO_NUM_MAX_CTNT" and f: "ctnt_free rl = ctnt_ptr rl i"
    and a: "shm_ok (rl_addr rl)" by (auto simp: ctnt_pool_def)
  with ptr_valid(2) [OF a i] index_of_ptr(2) [OF i, of rl] show ?thesis
    by (simp add: sc_res_info_get_ctnt_def fresh_ctnt_def zero_info_def enum_zero)
qed

lemma mgmt_pool_get:
  "mgmt_pool rl (i # fl) \<Longrightarrow> mgmt_pool (rl\<lparr>mgmt_free := ri_id (mg_common (mgmt rl i)),
      mgmt_cnt := mgmt_cnt rl + 1, mgmt := (mgmt rl)(i := m)\<rparr>) fl"
  by (auto simp: mgmt_pool_def)

lemma ctnt_pool_get:
  "ctnt_pool rl (i # fl) \<Longrightarrow> ctnt_pool (rl\<lparr>ctnt_free := ri_id (ct_common (ctnt rl i)),
      ctnt_cnt := ctnt_cnt rl + 1, ctnt := (ctnt rl)(i := c)\<rparr>) fl"
  by (auto simp: ctnt_pool_def)

lemma length_free_less:
  assumes "distinct fl" and "set fl \<subseteq> {..<n}" and "i < n" and "i \<notin> set fl"
  shows "length fl < n"
proof -
  have "set fl \<subset> {..<n}" using assms(2-4) by auto
  then have "card (set fl) < n" using psubset_card_mono [of "{..<n}" "set fl"] by simp
  with assms(1) show ?thesis by (simp add: distinct_card)
qed

lemma put_mgmt_eq:
  assumes "mgmt_pool rl fl" and "i < SC_RES_INFO_NUM_MAX_MGMT" and "i \<notin> set fl"
    and "sc_res_info_is_mgmt (Some (mg_common (mgmt rl i)))"
  shows "sc_res_info_put rl (Some (RiMgmt i)) = put_mgmt_slot rl (RiMgmt i)"
proof -
  from assms(1-3) length_free_less [of fl SC_RES_INFO_NUM_MAX_MGMT i]
  have "mgmt_cnt rl \<noteq> 0" by (auto simp: mgmt_pool_def)
  with assms(4) show ?thesis by (simp add: sc_res_info_put_def)
qed

lemma put_ctnt_eq:
  assumes "ctnt_pool rl fl" and "i < SC_RES_INFO_NUM_MAX_CTNT" and "i \<notin> set fl"
    and "sc_res_info_is_ctnt (Some (ct_common (ctnt rl i)))"
  shows "sc_res_info_put rl (Some (RiCtnt i)) = put_ctnt_slot rl (RiCtnt i)"
proof -
  from assms(1-3) length_free_less [of fl SC_RES_INFO_NUM_MAX_CTNT i]
  have "ctnt_cnt rl \<noteq> 0" by (auto simp: ctnt_pool_def)
  with assms(4) not_mgmt_and_ctnt [of "Some (ct_common (ctnt rl i))"] show ?thesis
    by (auto simp: sc_res_info_put_def)
qed

lemma mgmt_pool_put:
  assumes "mgmt_pool rl fl" and "i < SC_RES_INFO_NUM_MAX_MGMT" and "i \<notin> set fl"
    and "put_mgmt_slot rl (RiMgmt i) = Some rl'"
  shows "mgmt_pool rl' (i # fl)"
  using assms by (auto simp: mgmt_pool_def)

lemma ctnt_pool_put:
  assumes "ctnt_pool rl fl" and "i < SC_RES_INFO_NUM_MAX_CTNT" and "i \<notin> set fl"
    and "put_ctnt_slot rl (RiCtnt i) = Some rl'"
  shows "ctnt_pool rl' (i # fl)"
  using assms by (auto simp: ctnt_pool_def)

section \<open>The initial free lists\<close>

lemma link_addr [simp]:
  "rl_addr (link_mgmt n rl) = rl_addr rl" "rl_addr (link_ctnt n rl) = rl_addr rl"
  by (induction n) (auto simp: set_mgmt_id_def set_ctnt_id_def Let_def)

lemma link_ptr [simp]:
  "mgmt_ptr (link_mgmt n rl) = mgmt_ptr rl" "ctnt_ptr (link_ctnt n rl) = ctnt_ptr rl"
  "mgmt_ptr (link_ctnt n rl) = mgmt_ptr rl" "ctnt_ptr (link_mgmt n rl) = ctnt_ptr rl"
  by (auto simp: mgmt_ptr_def ctnt_ptr_def mgmt_base_def ctnt_base_def)

lemma link_frame [simp]:
  "ctnt (link_mgmt n rl) = ctnt rl" "mgmt_cnt (link_mgmt n rl) = mgmt_cnt rl"
  "ctnt_cnt (link_mgmt n rl) = ctnt_cnt rl" "mgmt (link_ctnt n rl) = mgmt rl"
  "mgmt_free (link_ctnt n rl) = mgmt_free rl" "mgmt_cnt (link_ctnt n rl) = mgmt_cnt rl"
  "ctnt_cnt (link_ctnt n rl) = ctnt_cnt rl"
  by (induction n) (auto simp: set_mgmt_id_def set_ctnt_id_def Let_def)

lemma link_mgmt_at:
  "mgmt (link_mgmt n rl) k = (if k \<le> n then (mgmt rl k)\<lparr>mg_common := (mg_common (mgmt rl k))
      \<lparr>ri_id := if k = 0 then INVALID_PTR else mgmt_ptr rl (k - 1)\<rparr>\<rparr> else mgmt rl k)"
  by (induction n) (auto simp: set_mgmt_id_def Let_def)

lemma link_ctnt_at:
  "ctnt (link_ctnt n rl) k = (if k \<le> n then (ctnt rl k)\<lparr>ct_common := (ct_common (ctnt rl k))
      \<lparr>ri_id := if k = 0 then INVALID_PTR else ctnt_ptr rl (k - 1)\<rparr>\<rparr> else ctnt rl k)"
  by (induction n) (auto simp: set_ctnt_id_def Let_def)

lemma downward_chain:
  assumes "nxt 0 = INVALID_PTR" and "\<And>j. j < n \<Longrightarrow> nxt (Suc j) = addr j"
  shows "k \<le> n \<Longrightarrow> free_chain nxt addr (addr k) (rev [0..<Suc k])"
proof (induction k)
  case 0
  then show ?case using assms(1) by simp
next
  case (Suc k)
  then show ?case using assms(2) [of k] by simp
qed

lemma init_mgmt_pool:
  assumes "shm_ok a" shows "mgmt_pool (init_list a) (rev [0..<SC_RES_INFO_NUM_MAX_MGMT])"
proof -
  let ?n = "SC_RES_INFO_NUM_MAX_MGMT - 1"
  have n: "SC_RES_INFO_NUM_MAX_MGMT = Suc ?n" by (simp add: hc_limits)
  have "free_chain (\<lambda>i. ri_id (mg_common (mgmt (link_mgmt ?n (zero_list a)) i)))
      (mgmt_ptr (zero_list a)) (mgmt_ptr (zero_list a) ?n) (rev [0..<Suc ?n])"
    by (rule downward_chain [of _ ?n]) (simp_all add: link_mgmt_at)
  with assms show ?thesis
    unfolding mgmt_pool_def init_list_def Let_def using n by (auto simp: zero_list_def)
qed

lemma init_ctnt_pool:
  assumes "shm_ok a" shows "ctnt_pool (init_list a) (rev [0..<SC_RES_INFO_NUM_MAX_CTNT])"
proof -
  let ?n = "SC_RES_INFO_NUM_MAX_CTNT - 1"
  let ?r = "(link_mgmt (SC_RES_INFO_NUM_MAX_MGMT - 1) (zero_list a))
      \<lparr>mgmt_free := mgmt_ptr (zero_list a) (SC_RES_INFO_NUM_MAX_MGMT - 1)\<rparr>"
  have n: "SC_RES_INFO_NUM_MAX_CTNT = Suc ?n" by (simp add: hc_limits)
  have "free_chain (\<lambda>i. ri_id (ct_common (ctnt (link_ctnt ?n ?r) i)))
      (ctnt_ptr ?r) (ctnt_ptr ?r ?n) (rev [0..<Suc ?n])"
    by (rule downward_chain [of _ ?n]) (simp_all add: link_ctnt_at)
  with assms show ?thesis
    unfolding ctnt_pool_def init_list_def Let_def using n by (auto simp: zero_list_def)
qed

section \<open>The contract of a pool\<close>

text \<open>\<open>pool s fl\<close>: the free slots of \<open>s\<close> are \<open>fl\<close>, next one first. \<open>ready s i\<close>: slot \<open>i\<close> is
  marked as an entry of the pool's kind, which is what giving it back looks at.\<close>

locale slot_pool =
  fixes pool :: "'s \<Rightarrow> nat list \<Rightarrow> bool"
    and get :: "'s \<Rightarrow> (nat option \<times> 's) option"
    and put :: "'s \<Rightarrow> nat \<Rightarrow> 's option"
    and ready :: "'s \<Rightarrow> nat \<Rightarrow> bool"
    and cap :: nat
  assumes pool_wf: "pool s fl \<Longrightarrow> distinct fl \<and> set fl \<subseteq> {..<cap}"
    and get_empty: "pool s [] \<Longrightarrow> get s = Some (None, s)"
    and get_slot: "pool s (i # fl) \<Longrightarrow> \<exists>s'. get s = Some (Some i, s') \<and> pool s' fl \<and> ready s' i
                     \<and> (\<forall>j. j \<noteq> i \<longrightarrow> ready s' j = ready s j)"
    and put_slot: "pool s fl \<Longrightarrow> i < cap \<Longrightarrow> i \<notin> set fl \<Longrightarrow> ready s i \<Longrightarrow>
                     \<exists>s'. put s i = Some s' \<and> pool s' (i # fl) \<and> (\<forall>j. j \<noteq> i \<longrightarrow> ready s' j = ready s j)"
begin

text \<open>\<open>n\<close> slots one after the other.\<close>

fun get_many :: "nat \<Rightarrow> 's \<Rightarrow> (nat list \<times> 's) option" where
  "get_many 0 s = Some ([], s)"
| "get_many (Suc n) s = do {
     (r, s1) \<leftarrow> get s;
     (case r of None \<Rightarrow> Some ([], s1)
      | Some i \<Rightarrow> do { (is, s2) \<leftarrow> get_many n s1; Some (i # is, s2) })
   }"

lemma get_many_take:
  "pool s fl \<Longrightarrow> \<exists>s'. get_many n s = Some (take n fl, s') \<and> pool s' (drop n fl)"
proof (induction n arbitrary: s fl)
  case 0
  then show ?case by simp
next
  case (Suc n)
  show ?case
  proof (cases fl)
    case Nil
    with Suc.prems get_empty show ?thesis by simp
  next
    case (Cons i fl')
    from get_slot [of s i fl'] Suc.prems Cons obtain s1
      where s1: "get s = Some (Some i, s1)" "pool s1 fl'" by blast
    from Suc.IH [OF s1(2)] s1(1) Cons show ?thesis by auto
  qed
qed

lemma get_many_distinct:
  "pool s fl \<Longrightarrow> get_many n s = Some (is, s') \<Longrightarrow>
     distinct is \<and> set is \<subseteq> {..<cap} \<and> length is = min n (length fl) \<and> pool s' (drop n fl)"
  using get_many_take [of s fl n] pool_wf [of s fl] set_take_subset [of n fl] by auto

lemma exhausted_iff: "pool s fl \<Longrightarrow> (\<exists>s'. get s = Some (None, s')) \<longleftrightarrow> fl = []"
  using get_empty get_slot by (cases fl) fastforce+

lemma put_get: 
  assumes "pool s (i # fl)" and "get s = Some (Some k, s1)" and "put s1 k = Some s2"
  shows "k = i \<and> pool s1 fl \<and> pool s2 (i # fl)"
proof -
  from get_slot [OF assms(1)] assms(2) have k: "k = i" "pool s1 fl" "ready s1 i" by auto
  moreover from pool_wf [OF assms(1)] have "i < cap" "i \<notin> set fl" by auto
  ultimately show ?thesis using put_slot [of s1 fl i] assms(3) by auto
qed

lemma get_total: "pool s fl \<Longrightarrow> \<exists>r s'. get s = Some (r, s')"
  using get_empty get_slot by (cases fl) fastforce+

end

definition mgmt_ready :: "sc_res_list \<Rightarrow> nat \<Rightarrow> bool" where
  "mgmt_ready rl i \<longleftrightarrow> sc_res_info_is_mgmt (Some (mg_common (mgmt rl i)))"

definition ctnt_ready :: "sc_res_list \<Rightarrow> nat \<Rightarrow> bool" where
  "ctnt_ready rl i \<longleftrightarrow> sc_res_info_is_ctnt (Some (ct_common (ctnt rl i)))"

lemma mgmt_pool_laws:
  assumes "g \<in> {SC_RES_GEN_T_ORIGIN, SC_RES_GEN_T_NORMAL, SC_RES_GEN_T_CTRL_LD}"
  shows "slot_pool mgmt_pool (get_mgmt_as g) (\<lambda>rl i. sc_res_info_put rl (Some (RiMgmt i)))
           mgmt_ready SC_RES_INFO_NUM_MAX_MGMT"
proof unfold_locales
  fix rl fl assume "mgmt_pool rl fl"
  then show "distinct fl \<and> set fl \<subseteq> {..<SC_RES_INFO_NUM_MAX_MGMT}" by (simp add: mgmt_pool_def)
next
  fix rl assume "mgmt_pool rl []"
  then show "get_mgmt_as g rl = Some (None, rl)" by (rule get_mgmt_as_Nil)
next
  fix rl i fl assume p: "mgmt_pool rl (i # fl)"
  from assms mgmt_pool_get [OF p] show "\<exists>s'. get_mgmt_as g rl = Some (Some i, s') \<and> mgmt_pool s' fl
      \<and> mgmt_ready s' i \<and> (\<forall>j. j \<noteq> i \<longrightarrow> mgmt_ready s' j = mgmt_ready rl j)"
    by (auto simp: get_mgmt_as_Cons [OF p] mgmt_ready_def fresh_mgmt_def kind_defs)
next
  fix rl fl i
  assume a: "mgmt_pool rl fl" "i < SC_RES_INFO_NUM_MAX_MGMT" "i \<notin> set fl" "mgmt_ready rl i"
  then have "sc_res_info_put rl (Some (RiMgmt i)) = put_mgmt_slot rl (RiMgmt i)"
    using put_mgmt_eq by (simp add: mgmt_ready_def)
  with mgmt_pool_put [OF a(1-3)] show "\<exists>s'. sc_res_info_put rl (Some (RiMgmt i)) = Some s' \<and>
      mgmt_pool s' (i # fl) \<and> (\<forall>j. j \<noteq> i \<longrightarrow> mgmt_ready s' j = mgmt_ready rl j)"
    by (auto simp: mgmt_ready_def)
qed

interpretation origin_pool: slot_pool mgmt_pool sc_res_info_get_mgmt_origin
  "\<lambda>rl i. sc_res_info_put rl (Some (RiMgmt i))" mgmt_ready SC_RES_INFO_NUM_MAX_MGMT
  using mgmt_pool_laws [of SC_RES_GEN_T_ORIGIN]
  by (simp add: sc_res_info_get_mgmt_origin_def [abs_def])

interpretation normal_pool: slot_pool mgmt_pool sc_res_info_get_mgmt_normal
  "\<lambda>rl i. sc_res_info_put rl (Some (RiMgmt i))" mgmt_ready SC_RES_INFO_NUM_MAX_MGMT
  using mgmt_pool_laws [of SC_RES_GEN_T_NORMAL]
  by (simp add: sc_res_info_get_mgmt_normal_def [abs_def])

interpretation ctrl_ld_pool: slot_pool mgmt_pool sc_res_info_get_mgmt_ctrl_ld
  "\<lambda>rl i. sc_res_info_put rl (Some (RiMgmt i))" mgmt_ready SC_RES_INFO_NUM_MAX_MGMT
  using mgmt_pool_laws [of SC_RES_GEN_T_CTRL_LD]
  by (simp add: sc_res_info_get_mgmt_ctrl_ld_def [abs_def])

interpretation content_pool: slot_pool ctnt_pool sc_res_info_get_ctnt
  "\<lambda>rl i. sc_res_info_put rl (Some (RiCtnt i))" ctnt_ready SC_RES_INFO_NUM_MAX_CTNT
proof unfold_locales
  fix rl fl assume "ctnt_pool rl fl"
  then show "distinct fl \<and> set fl \<subseteq> {..<SC_RES_INFO_NUM_MAX_CTNT}" by (simp add: ctnt_pool_def)
next
  fix rl assume "ctnt_pool rl []"
  then show "sc_res_info_get_ctnt rl = Some (None, rl)" by (rule get_ctnt_Nil)
next
  fix rl i fl assume p: "ctnt_pool rl (i # fl)"
  from ctnt_pool_get [OF p] show "\<exists>s'. sc_res_info_get_ctnt rl = Some (Some i, s') \<and> ctnt_pool s' fl
      \<and> ctnt_ready s' i \<and> (\<forall>j. j \<noteq> i \<longrightarrow> ctnt_ready s' j = ctnt_ready rl j)"
    by (auto simp: get_ctnt_Cons [OF p] ctnt_ready_def fresh_ctnt_def zero_defs kind_defs)
next
  fix rl fl i
  assume a: "ctnt_pool rl fl" "i < SC_RES_INFO_NUM_MAX_CTNT" "i \<notin> set fl" "ctnt_ready rl i"
  then have "sc_res_info_put rl (Some (RiCtnt i)) = put_ctnt_slot rl (RiCtnt i)"
    using put_ctnt_eq by (simp add: ctnt_ready_def)
  with ctnt_pool_put [OF a(1-3)] show "\<exists>s'. sc_res_info_put rl (Some (RiCtnt i)) = Some s' \<and>
      ctnt_pool s' (i # fl) \<and> (\<forall>j. j \<noteq> i \<longrightarrow> ctnt_ready s' j = ctnt_ready rl j)"
    by (auto simp: ctnt_ready_def)
qed

section \<open>Properties\<close>

text \<open>The list holds as many origins as its array has slots: taking management slots from a
  fresh list gives \<open>min n 1024\<close> of them, no two the same, each inside the array, and the
  allocator never follows a bad link.\<close>

lemma origin_slots_from_init:
  assumes "shm_ok a"
  shows "\<exists>is rl. origin_pool.get_many n (init_list a) = Some (is, rl) \<and> distinct is
           \<and> set is \<subseteq> {..<SC_RES_INFO_NUM_MAX_MGMT} \<and> length is = min n SC_RES_INFO_NUM_MAX_MGMT"
  using origin_pool.get_many_take [OF init_mgmt_pool [OF assms], of n]
    origin_pool.get_many_distinct [OF init_mgmt_pool [OF assms], of n] by fastforce

text \<open>Content slots likewise: 4096 of them, then NULL.\<close>

lemma ctnt_slots_from_init:
  assumes "shm_ok a"
  shows "\<exists>is rl. content_pool.get_many n (init_list a) = Some (is, rl) \<and> distinct is
           \<and> set is \<subseteq> {..<SC_RES_INFO_NUM_MAX_CTNT} \<and> length is = min n SC_RES_INFO_NUM_MAX_CTNT"
  using content_pool.get_many_take [OF init_ctnt_pool [OF assms], of n]
    content_pool.get_many_distinct [OF init_ctnt_pool [OF assms], of n] by fastforce

text \<open>Giving a slot back undoes taking it: after \<open>sc_res_info_get_ctnt\<close> and
  \<open>sc_res_info_put\<close> of the slot the free list and the counter are what they were.\<close>

lemma ctnt_get_put:
  assumes "ctnt_pool rl (i # fl)" and "sc_res_info_get_ctnt rl = Some (Some k, rl1)"
    and "sc_res_info_put rl1 (Some (RiCtnt k)) = Some rl2"
  shows "k = i \<and> ctnt_pool rl1 fl \<and> ctnt_pool rl2 (i # fl) \<and> ctnt_cnt rl2 = ctnt_cnt rl"
  using content_pool.put_get [OF assms] assms(1) by (auto simp: ctnt_pool_def)

end
