(* ===== verification/Snooping_Wire.thy ===== *)
theory Snooping_Wire
  imports Res_Url Os_World
begin

text \<open>
  The datagrams between the client and the Snooping module: the packet structs of
  \<^verbatim>\<open>include/http-snooping.h\<close> and, of \<^verbatim>\<open>snooping_client/sc_snooping.c\<close>, the reply to a request
  (\<open>sc_snooping_resp_to_sp\<close>) and the two actions the client initiates (\<open>sc_snooping_do_add\<close>,
  \<open>sc_snooping_do_del\<close>). A packet is the bytes of its struct: \<open>session_id\<close> at offset 0,
  \<open>sp2c_action\<close>, \<open>c2sp_action\<close> or \<open>status\<close> at 4, \<open>url_len\<close> at 8, the URL at 10, and two bytes
  of padding at the end of the 612.
\<close>

section \<open>Packets\<close>

definition HTTP_SP_URL_LEN_MAX :: nat where "HTTP_SP_URL_LEN_MAX = 600"
definition SIZEOF_PKT :: nat where "SIZEOF_PKT = 612"
definition SC_SNOOPING_SND_RCV_BUF_LEN :: nat where "SC_SNOOPING_SND_RCV_BUF_LEN = 1024"
definition SC_SNOOP_MOD_DEFAULT_IP_ADDR :: string where "SC_SNOOP_MOD_DEFAULT_IP_ADDR = ''20.0.0.1:10000''"

definition HTTP_C2SP_ACTION_ADD :: u8 where "HTTP_C2SP_ACTION_ADD = 3"
definition HTTP_C2SP_ACTION_DELETE :: u8 where "HTTP_C2SP_ACTION_DELETE = 4"
definition HTTP_SP_STATUS_OK :: u8 where "HTTP_SP_STATUS_OK = 0"
definition HTTP_SP_STATUS_DEFAULT_ERROR :: u8 where "HTTP_SP_STATUS_DEFAULT_ERROR = 1"
definition HTTP_SP2C_ACTION_PARSE :: u8 where "HTTP_SP2C_ACTION_PARSE = 1"
definition HTTP_SP2C_ACTION_DOWN :: u8 where "HTTP_SP2C_ACTION_DOWN = 2"
definition HTTP_SP2C_ACTION_GETNEXT :: u8 where "HTTP_SP2C_ACTION_GETNEXT = 3"

lemmas wire_codes = HTTP_SP_URL_LEN_MAX_def SIZEOF_PKT_def SC_SNOOPING_SND_RCV_BUF_LEN_def
  HTTP_C2SP_ACTION_ADD_def HTTP_C2SP_ACTION_DELETE_def HTTP_SP_STATUS_OK_def
  HTTP_SP_STATUS_DEFAULT_ERROR_def HTTP_SP2C_ACTION_PARSE_def HTTP_SP2C_ACTION_DOWN_def
  HTTP_SP2C_ACTION_GETNEXT_def

definition pkt_session_id :: "buf \<Rightarrow> u32" where "pkt_session_id b = get_u32 b 0"
definition pkt_action :: "buf \<Rightarrow> u8" where "pkt_action b = get_u8 b 4"
definition pkt_status :: "buf \<Rightarrow> u8" where "pkt_status b = get_u8 b 4"
definition pkt_url_len :: "buf \<Rightarrow> u16" where "pkt_url_len b = get_u16 b 8"
definition pkt_url_data :: "buf \<Rightarrow> string" where "pkt_url_data b = cstr (drop 10 b)"

definition set_pkt_byte4 :: "u8 \<Rightarrow> buf \<Rightarrow> buf" where "set_pkt_byte4 v b = put_bytes b 4 (bytes_u8 v)"
definition set_pkt_url_len :: "u16 \<Rightarrow> buf \<Rightarrow> buf" where "set_pkt_url_len v b = put_bytes b 8 (bytes_u16 v)"

text \<open>The first 612 bytes of the buffer a packet was built in.\<close>

definition pkt_bytes :: "buf \<Rightarrow> buf" where
  "pkt_bytes b = take SIZEOF_PKT (b @ replicate SIZEOF_PKT NUL)"

section \<open>Replying to a request\<close>

text \<open>The reply is built in the request's own memory; the third component is that memory
  afterwards.\<close>

definition sc_snooping_resp_to_sp ::
  "'w os \<Rightarrow> int \<Rightarrow> string \<Rightarrow> buf \<Rightarrow> u8 \<Rightarrow> 'w \<Rightarrow> (int \<times> buf) \<times> 'w" where
  "sc_snooping_resp_to_sp os sockfd sa req status w =
     (if status \<noteq> HTTP_SP_STATUS_OK \<and> status \<noteq> HTTP_SP_STATUS_DEFAULT_ERROR then ((- 1, req), w)
      else
        let old = pkt_action req;
            resp = set_pkt_byte4 status req;
            resp = set_pkt_url_len (htons (pkt_url_len resp)) resp
        in case os_sendto os sockfd sa (pkt_bytes resp) w of (nsend, w1) \<Rightarrow>
          let req1 = set_pkt_url_len (ntohs (pkt_url_len resp)) resp;
              req2 = set_pkt_byte4 old req1
          in if nsend < 0 then ((- 1, req2), w1) else ((0, req2), w1))"

section \<open>Actions of the client\<close>

definition c2sp_req_pkt :: "u32 \<Rightarrow> u8 \<Rightarrow> string \<Rightarrow> buf option" where
  "c2sp_req_pkt sid act url = do {
     usr_data \<leftarrow> sc_res_copy_url [] url HTTP_SP_URL_LEN_MAX True;
     Some (bytes_u32 sid @ bytes_u8 act @ replicate 3 NUL
             @ bytes_u16 (htons (of_nat (length url))) @ usr_data)
   }"

definition sc_snooping_initiate_action ::
  "'w os \<Rightarrow> u8 \<Rightarrow> u32 \<Rightarrow> string \<Rightarrow> 'w \<Rightarrow> (int \<times> 'w) option" where
  "sc_snooping_initiate_action os act sid url w =
     (if act \<noteq> HTTP_C2SP_ACTION_ADD \<and> act \<noteq> HTTP_C2SP_ACTION_DELETE then Some (- 1, w)
      else case os_socket os w of (sockfd, w1) \<Rightarrow>
        if sockfd < 0 then Some (- 1, w1)
        else do {
          req \<leftarrow> c2sp_req_pkt sid act url;
          case os_sendto os sockfd SC_SNOOP_MOD_DEFAULT_IP_ADDR (pkt_bytes req) w1 of (nsend, w2) \<Rightarrow>
            if nsend < 0 then Some (- 1, os_close os sockfd w2)
            else case os_recvfrom os sockfd SC_SNOOPING_SND_RCV_BUF_LEN w2 of ((nrecv, res, _), w3) \<Rightarrow>
              let err = (if nrecv < 0 then - 1
                         else if pkt_session_id res \<noteq> sid then - 1
                         else if pkt_status res = HTTP_SP_STATUS_OK then 0 else - 1)
              in Some (err, os_close os sockfd w3)
        })"

definition sc_snooping_do_add :: "'w os \<Rightarrow> u32 \<Rightarrow> string \<Rightarrow> 'w \<Rightarrow> (int \<times> 'w) option" where
  "sc_snooping_do_add os sid url w = sc_snooping_initiate_action os HTTP_C2SP_ACTION_ADD sid url w"

definition sc_snooping_do_del :: "'w os \<Rightarrow> u32 \<Rightarrow> string \<Rightarrow> 'w \<Rightarrow> (int \<times> 'w) option" where
  "sc_snooping_do_del os sid url w = sc_snooping_initiate_action os HTTP_C2SP_ACTION_DELETE sid url w"

section \<open>Reading a packet back\<close>

lemma byte_at_append: "byte_at (a @ b) i = (if i < length a then a ! i else byte_at b (i - length a))"
  by (auto simp: byte_at_def nth_append)

lemma get_u8_skip: "length a = n \<Longrightarrow> get_u8 (a @ b) n = get_u8 b 0"
  by (simp add: get_u8_def byte_at_append)

lemma get_u16_skip: "length a = n \<Longrightarrow> get_u16 (a @ b) n = get_u16 b 0"
  by (simp add: get_u16_def byte_at_append)

lemma byte_at_pkt_bytes [simp]: "i < SIZEOF_PKT \<Longrightarrow> byte_at (pkt_bytes b) i = byte_at b i"
  by (auto simp: byte_at_def pkt_bytes_def nth_append)

lemma length_pkt_bytes [simp]: "length (pkt_bytes b) = SIZEOF_PKT"
  by (simp add: pkt_bytes_def)

lemma length_bytes [simp]: "length (bytes_u8 a) = 1" "length (bytes_u16 b) = 2" "length (bytes_u32 c) = 4"
  by (simp_all add: bytes_u8_def bytes_u16_def bytes_u32_def)

lemma pkt_fields_bytes [simp]:
  "pkt_session_id (pkt_bytes b) = pkt_session_id b" "pkt_action (pkt_bytes b) = pkt_action b"
  "pkt_status (pkt_bytes b) = pkt_status b" "pkt_url_len (pkt_bytes b) = pkt_url_len b"
  by (simp_all add: pkt_session_id_def pkt_action_def pkt_status_def pkt_url_len_def get_u32_def
      get_u16_def get_u8_def SIZEOF_PKT_def)

lemma cstr_append_zeros: "cstr (a @ replicate n NUL) = cstr a"
  by (induction a) (auto simp: cstr_def takeWhile_replicate)

lemma pkt_url_data_bytes:
  "length b \<le> SIZEOF_PKT \<Longrightarrow> pkt_url_data (pkt_bytes b) = pkt_url_data b"
proof -
  assume l: "length b \<le> SIZEOF_PKT"
  then have "pkt_bytes b = b @ replicate (SIZEOF_PKT - length b) NUL"
    by (simp add: pkt_bytes_def)
  with cstr_append_zeros show ?thesis
    by (auto simp: pkt_url_data_def)
qed

lemma c2sp_req_fields:
  assumes "c2sp_req_pkt sid act url = Some b"
  shows "pkt_session_id b = sid" "pkt_action b = act" "pkt_url_len b = htons (of_nat (length url))"
    and "drop 10 b = strip_http url" "length b \<le> SIZEOF_PKT"
proof -
  from assms have b: "b = bytes_u32 sid @ bytes_u8 act @ replicate 3 NUL
      @ bytes_u16 (htons (of_nat (length url))) @ strip_http url"
    and l: "length (strip_http url) \<le> HTTP_SP_URL_LEN_MAX"
    by (auto simp: c2sp_req_pkt_def sc_res_copy_url_def Let_def split: if_splits)
  show "pkt_session_id b = sid" by (simp add: b pkt_session_id_def get_bytes_u32)
  show "pkt_action b = act"
    unfolding b pkt_action_def by (subst get_u8_skip) (simp_all add: get_bytes_u8)
  have "get_u16 ((bytes_u32 sid @ bytes_u8 act @ replicate 3 NUL) @
      (bytes_u16 (htons (of_nat (length url))) @ strip_http url)) 8 = htons (of_nat (length url))"
    by (subst get_u16_skip) (simp_all add: get_bytes_u16)
  then show "pkt_url_len b = htons (of_nat (length url))"
    by (simp add: b pkt_url_len_def)
  show "drop 10 b = strip_http url" by (simp add: b)
  show "length b \<le> SIZEOF_PKT" using l by (simp add: b wire_codes)
qed

section \<open>Writing fields in place\<close>

lemma bytes_get_u8: "bytes_u8 (get_u8 (c # r) 0) = [c]"
  using ord_less [of c] by (simp add: bytes_u8_def get_u8_def byte_at_def unsigned_of_nat take_bit_nat_eq_self)

lemma bytes_get_u16: "bytes_u16 (get_u16 (x # y # r) 0) = [x, y]"
proof -
  have "ord x + 256 * ord y < 65536" using ord_less [of x] ord_less [of y] by linarith
  then have "unat (get_u16 (x # y # r) 0) = ord x + 256 * ord y"
    by (simp add: get_u16_def byte_at_def unsigned_of_nat take_bit_nat_eq_self del: of_nat_add of_nat_mult)
  with ord_less [of x] show ?thesis by (simp add: bytes_u16_def)
qed

lemma set_pkt_byte4_at: "length a = 4 \<Longrightarrow> set_pkt_byte4 v (a @ c # r) = a @ bytes_u8 v @ r"
  by (simp add: set_pkt_byte4_def put_bytes_def)

lemma set_pkt_url_len_at: "length a = 8 \<Longrightarrow> set_pkt_url_len v (a @ x # y # r) = a @ bytes_u16 v @ r"
  by (simp add: set_pkt_url_len_def put_bytes_def)

lemma pkt_split:
  assumes "10 \<le> length b"
  obtains a c p x y r where "b = a @ c # p @ x # y # r" "length a = 4" "length p = 3"
proof -
  have "b = take 4 b @ b ! 4 # take 3 (drop 5 b) @ b ! 8 # b ! 9 # drop 10 b"
  proof -
    have "drop 4 b = b ! 4 # drop 5 b" "drop 8 b = b ! 8 # b ! 9 # drop 10 b"
      using assms Cons_nth_drop_Suc [of 4 b] Cons_nth_drop_Suc [of 8 b] Cons_nth_drop_Suc [of 9 b] by auto
    moreover have "drop 5 b = take 3 (drop 5 b) @ drop 8 b"
      using append_take_drop_id [of 3 "drop 5 b"] by simp
    ultimately show ?thesis by (metis append_take_drop_id)
  qed
  with assms show ?thesis by (intro that [of "take 4 b" "b ! 4" "take 3 (drop 5 b)"]) auto
qed

lemma pkt_fields_at:
  assumes "length a = 4" and "length p = 3"
  shows "pkt_action (a @ c # p @ x # y # r) = get_u8 [c] 0"
    and "pkt_url_len (a @ c # p @ x # y # r) = get_u16 [x, y] 0"
    and "set_pkt_byte4 v (a @ c # p @ x # y # r) = a @ bytes_u8 v @ p @ x # y # r"
    and "set_pkt_url_len u (a @ c # p @ x # y # r) = a @ c # p @ bytes_u16 u @ r"
  using assms set_pkt_byte4_at [of a v c "p @ x # y # r"] set_pkt_url_len_at [of "a @ c # p" u x y r]
    get_u8_skip [of a 4 "c # p @ x # y # r"] get_u16_skip [of "a @ c # p" 8 "x # y # r"]
  by (simp_all add: pkt_action_def pkt_url_len_def get_u8_def get_u16_def byte_at_def)

lemma bytes_u8_Cons: "bytes_u8 v = [char_of (unat v)]"
  by (simp add: bytes_u8_def)

lemma bytes_u16_ex: "\<exists>x y. bytes_u16 v = [x, y]"
  by (simp add: bytes_u16_def)

lemma get_bytes_ids [simp]: "get_u16 (bytes_u16 v) 0 = v" "get_u8 (bytes_u8 u) 0 = u"
  using get_bytes_u16 [of v "[]"] get_bytes_u8 [of u "[]"] by simp_all

lemma pkt_set_get:
  assumes "10 \<le> length b"
  shows "pkt_url_len (set_pkt_url_len v b) = v"
    and "set_pkt_url_len u (set_pkt_url_len v b) = set_pkt_url_len u b"
    and "set_pkt_url_len (pkt_url_len b) b = b"
    and "pkt_url_len (set_pkt_byte4 s b) = pkt_url_len b"
    and "set_pkt_byte4 t (set_pkt_byte4 s b) = set_pkt_byte4 t b"
    and "set_pkt_byte4 (pkt_action b) b = b"
    and "set_pkt_url_len v (set_pkt_byte4 s b) = set_pkt_byte4 s (set_pkt_url_len v b)"
    and "pkt_action (set_pkt_url_len v b) = pkt_action b"
proof -
  obtain a c p x y r where b: "b = a @ c # p @ x # y # r" "length a = 4" "length p = 3"
    using pkt_split [OF assms] by blast
  obtain x' y' where v: "bytes_u16 v = [x', y']" using bytes_u16_ex by blast
  note fs = pkt_fields_at [OF b(2,3)]
  have g: "get_u16 [x', y'] 0 = v" using get_bytes_ids(1) [of v] v by simp
  show "pkt_url_len (set_pkt_url_len v b) = v" by (simp add: b(1) fs v g)
  show "set_pkt_url_len u (set_pkt_url_len v b) = set_pkt_url_len u b" by (simp add: b(1) fs v)
  show "set_pkt_url_len (pkt_url_len b) b = b"
    using bytes_get_u16 [of x y "[]"] by (simp add: b(1) fs)
  show "pkt_url_len (set_pkt_byte4 s b) = pkt_url_len b" by (simp add: b(1) fs bytes_u8_Cons)
  show "set_pkt_byte4 t (set_pkt_byte4 s b) = set_pkt_byte4 t b" by (simp add: b(1) fs bytes_u8_Cons)
  show "set_pkt_byte4 (pkt_action b) b = b" using bytes_get_u8 [of c "[]"] by (simp add: b(1) fs)
  show "set_pkt_url_len v (set_pkt_byte4 s b) = set_pkt_byte4 s (set_pkt_url_len v b)"
    by (simp add: b(1) fs bytes_u8_Cons v)
  show "pkt_action (set_pkt_url_len v b) = pkt_action b" by (simp add: b(1) fs v)
qed

lemma length_set_pkt [simp]:
  "10 \<le> length b \<Longrightarrow> length (set_pkt_url_len v b) = length b"
  "10 \<le> length b \<Longrightarrow> length (set_pkt_byte4 s b) = length b"
  by (simp_all add: set_pkt_url_len_def set_pkt_byte4_def put_bytes_def)

section \<open>Properties\<close>

text \<open>C32. What the Snooping module reads from an ADD or DELETE request is what the client put
  there: 612 bytes that carry the session id in host order, the action, the length of the URL in
  network order and the URL without its scheme, for every URL that fits the packet.\<close>

theorem c2sp_packet_roundtrip:
  assumes "is_cstr url" and "length url \<le> HTTP_SP_URL_LEN_MAX"
  shows "\<exists>b. c2sp_req_pkt sid act url = Some b \<and> length (pkt_bytes b) = SIZEOF_PKT
           \<and> pkt_session_id (pkt_bytes b) = sid \<and> pkt_action (pkt_bytes b) = act
           \<and> unat (ntohs (pkt_url_len (pkt_bytes b))) = length url
           \<and> pkt_url_data (pkt_bytes b) = strip_http url"
proof -
  from assms(2) strip_http_length [of url] obtain b where b: "c2sp_req_pkt sid act url = Some b"
    by (auto simp: c2sp_req_pkt_def sc_res_copy_url_def Let_def)
  note fs = c2sp_req_fields [OF b]
  have "pkt_url_data b = strip_http url"
    using assms(1) fs(4) by (simp add: pkt_url_data_def)
  moreover have "unat (of_nat (length url) :: u16) = length url"
    using assms(2) by (simp add: unsigned_of_nat take_bit_nat_eq_self wire_codes)
  ultimately show ?thesis using b fs pkt_url_data_bytes [OF fs(5)] by auto
qed

theorem c2sp_packet_roundtrip_witness:
  "\<exists>b. c2sp_req_pkt 7 HTTP_C2SP_ACTION_ADD ''http://1.2.3.4/youku/a.flv'' = Some b
      \<and> pkt_url_data (pkt_bytes b) = ''1.2.3.4/youku/a.flv'' \<and> pkt_session_id (pkt_bytes b) = 7"
  using c2sp_packet_roundtrip [of "''http://1.2.3.4/youku/a.flv''" 7 HTTP_C2SP_ACTION_ADD]
  by (auto simp: wire_codes strip_http_def strncmp_eq_def HTTP_URL_PREFIX_def hc_limits)

text \<open>The reply to a request is the request with only its action byte replaced by the
  status: the received datagram \<open>d\<close>, whose \<open>url_len\<close> the server has turned to host order, is
  sent back with the same session id, the same bytes of \<open>url_len\<close> and the same URL, and the
  request in memory is left as it was, although the reply is built on top of it.\<close>

lemma resp_echoes_request:
  assumes "SIZEOF_PKT \<le> length d" and "req = set_pkt_url_len (ntohs (pkt_url_len d)) d"
    and "status = HTTP_SP_STATUS_OK \<or> status = HTTP_SP_STATUS_DEFAULT_ERROR"
    and "os_sendto os sockfd sa (pkt_bytes (set_pkt_byte4 status d)) w = (n, w1)"
  shows "sc_snooping_resp_to_sp os sockfd sa req status w = ((if n < 0 then - 1 else 0, req), w1)"
proof -
  have d: "10 \<le> length d" using assms(1) by (simp add: wire_codes)
  note laws = pkt_set_get [OF d]
  let ?r = "set_pkt_byte4 status req"
  have lr: "10 \<le> length req" "10 \<le> length ?r" using d assms(2) by simp_all
  have "set_pkt_url_len (htons (pkt_url_len ?r)) ?r = set_pkt_byte4 status d"
    using laws pkt_set_get [OF lr(1)] by (simp add: assms(2))
  moreover have "set_pkt_byte4 (pkt_action req)
      (set_pkt_url_len (ntohs (pkt_url_len (set_pkt_byte4 status d))) (set_pkt_byte4 status d)) = req"
    using laws pkt_set_get [OF lr(1)] by (simp add: assms(2))
  ultimately show ?thesis
    using assms(3,4) by (auto simp: sc_snooping_resp_to_sp_def Let_def)
qed

end
