(* ===== verification/Res_List.thy ===== *)
theory Res_List
  imports Res_Pool Snooping_Wire
begin

text \<open>
  The resource list of \<^verbatim>\<open>snooping_client/sc_resource.c\<close>: adding management and content
  entries, duplicating and removing entries loaded from disk, deleting and finding. The
  list is passed explicitly; in the code every call is on the global \<open>sc_res_info_list\<close>.
  A call that reaches the Snooping module also takes the world.

  The invariant \<open>res_inv\<close> ties the two pools, the tree of children and the flags together;
  every operation of this theory keeps it and none of them faults under it.
\<close>

section \<open>Updating an entry in place\<close>

definition upd_mgmt :: "nat \<Rightarrow> (sc_res_info_mgmt \<Rightarrow> sc_res_info_mgmt) \<Rightarrow> sc_res_list \<Rightarrow> sc_res_list" where
  "upd_mgmt i f rl = rl\<lparr>mgmt := (mgmt rl)(i := f (mgmt rl i))\<rparr>"

definition upd_ctnt :: "nat \<Rightarrow> (sc_res_info_ctnt \<Rightarrow> sc_res_info_ctnt) \<Rightarrow> sc_res_list \<Rightarrow> sc_res_list" where
  "upd_ctnt i f rl = rl\<lparr>ctnt := (ctnt rl)(i := f (ctnt rl i))\<rparr>"

definition upd_mgmt_ri :: "nat \<Rightarrow> (sc_res_info \<Rightarrow> sc_res_info) \<Rightarrow> sc_res_list \<Rightarrow> sc_res_list" where
  "upd_mgmt_ri i f rl = upd_mgmt i (\<lambda>m. m\<lparr>mg_common := f (mg_common m)\<rparr>) rl"

definition upd_ctnt_ri :: "nat \<Rightarrow> (sc_res_info \<Rightarrow> sc_res_info) \<Rightarrow> sc_res_list \<Rightarrow> sc_res_list" where
  "upd_ctnt_ri i f rl = upd_ctnt i (\<lambda>c. c\<lparr>ct_common := f (ct_common c)\<rparr>) rl"

lemmas upd_defs = upd_mgmt_def upd_ctnt_def upd_mgmt_ri_def upd_ctnt_ri_def

section \<open>Deleting\<close>

text \<open>The log line is built with \<open>strcat\<close> in \<open>print_buf[BUFFER_LEN]\<close>.\<close>

definition mgmt_log_tag :: "sc_res_info \<Rightarrow> string" where
  "mgmt_log_tag ri =
     (if sc_res_gen_is_origin (Some ri) then ''origin: ''
      else if sc_res_gen_is_ctrl_ld (Some ri) then ''ctrl_ld: ''
      else if sc_res_gen_is_normal (Some ri) then ''normal: ''
      else ''unknown: '')"

definition sc_res_info_del_mgmt :: "sc_res_list \<Rightarrow> ri_ptr \<Rightarrow> sc_res_list option" where
  "sc_res_info_del_mgmt rl p =
     (if BUFFER_LEN \<le> length (mgmt_log_tag (ri_at rl p) @ cstr (ri_url (ri_at rl p))) then None
      else sc_res_info_put rl (Some p))"

definition ctnt_log_tag :: "sc_res_info option \<Rightarrow> string" where
  "ctnt_log_tag par = (case par of
      None \<Rightarrow> ''no parent, ''
    | Some ri \<Rightarrow>
        if sc_res_gen_is_origin (Some ri) then ''origin , ''
        else if sc_res_gen_is_ctrl_ld (Some ri) then ''ctrl_ld, ''
        else if sc_res_gen_is_normal (Some ri) then ''normal , ''
        else ''unknown, '')"

fun ctnt_parent_ri :: "sc_res_list \<Rightarrow> ri_ptr \<Rightarrow> sc_res_info option" where
  "ctnt_parent_ri rl (RiCtnt c) = map_option (\<lambda>i. mg_common (mgmt rl i)) (parent (ctnt rl c))"
| "ctnt_parent_ri rl (RiMgmt i) = None"

definition sc_res_info_del_ctnt :: "sc_res_list \<Rightarrow> ri_ptr \<Rightarrow> sc_res_list option" where
  "sc_res_info_del_ctnt rl p =
     (if BUFFER_LEN \<le> length (ctnt_log_tag (ctnt_parent_ri rl p) @ cstr (ri_url (ri_at rl p))) then None
      else sc_res_info_put rl (Some p))"

definition sc_res_info_del :: "sc_res_list \<Rightarrow> ri_ptr \<Rightarrow> sc_res_list option" where
  "sc_res_info_del rl p =
     (if sc_res_info_is_mgmt (Some (ri_at rl p)) then sc_res_info_del_mgmt rl p
      else if sc_res_info_is_ctnt (Some (ri_at rl p)) then sc_res_info_del_ctnt rl p
      else Some rl)"

section \<open>Adding a management entry\<close>

definition sc_res_info_mark_site :: "sc_res_info \<Rightarrow> int \<times> sc_res_info" where
  "sc_res_info_mark_site ri =
     (if \<not> sc_res_info_is_mgmt (Some ri) then (- 1, ri)
      else if sc_url_is_yk (cstr (ri_url ri)) then (0, ri\<lparr>ri_site := SC_RES_SITE_YOUKU\<rparr>)
      else if sc_url_is_sohu (cstr (ri_url ri)) then (0, ri\<lparr>ri_site := SC_RES_SITE_SOHU\<rparr>)
      else (- 1, ri))"

text \<open>The three functions \<open>sc_res_info_add_normal\<close>, \<open>_origin\<close> and \<open>_ctrl_ld\<close> have one body,
  up to the pool they take the slot from and whether the MIME type is looked at.\<close>

definition add_mgmt_with ::
  "(sc_res_list \<Rightarrow> (nat option \<times> sc_res_list) option) \<Rightarrow> bool \<Rightarrow> sc_res_list \<Rightarrow> string
     \<Rightarrow> (int \<times> nat option \<times> sc_res_list) option" where
  "add_mgmt_with get care rl url =
     (if \<not> sc_res_info_permit_adding url then Some (- 1, None, rl)
      else if HTTP_URL_MAX_LEN \<le> length url then Some (- 1, None, rl)
      else do {
        (r, rl1) \<leftarrow> get rl;
        (case r of
           None \<Rightarrow> Some (- 1, None, rl1)
         | Some i \<Rightarrow> do {
             u \<leftarrow> sc_res_copy_url (ri_url (mg_common (mgmt rl1 i))) url HTTP_URL_MAX_LEN True;
             let rl2 = upd_mgmt_ri i (\<lambda>ri. ri\<lparr>ri_url := u\<rparr>) rl1;
             let (ret, ri) = sc_res_info_mark_site (mg_common (mgmt rl2 i));
             let rl3 = upd_mgmt_ri i (\<lambda>_. ri) rl2;
             if ret \<noteq> 0
             then do { rl4 \<leftarrow> sc_res_info_del rl3 (RiMgmt i); Some (- 1, None, rl4) }
             else do {
               mime_type \<leftarrow> sc_res_mime_type_obtain url care;
               Some (0, Some i, upd_mgmt_ri i (\<lambda>ri. ri\<lparr>ri_mime := mime_type\<rparr>) rl3)
             }
           })
      })"

definition sc_res_info_add_normal :: "sc_res_list \<Rightarrow> string \<Rightarrow> (int \<times> nat option \<times> sc_res_list) option" where
  "sc_res_info_add_normal rl url = add_mgmt_with sc_res_info_get_mgmt_normal True rl url"

definition sc_res_info_add_origin :: "sc_res_list \<Rightarrow> string \<Rightarrow> (int \<times> nat option \<times> sc_res_list) option" where
  "sc_res_info_add_origin rl url = add_mgmt_with sc_res_info_get_mgmt_origin True rl url"

definition sc_res_info_add_ctrl_ld :: "sc_res_list \<Rightarrow> string \<Rightarrow> (int \<times> nat option \<times> sc_res_list) option" where
  "sc_res_info_add_ctrl_ld rl url = add_mgmt_with sc_res_info_get_mgmt_ctrl_ld False rl url"

section \<open>Adding a content entry\<close>

definition sc_res_info_gen_ctnt_local_path :: "sc_res_info_ctnt \<Rightarrow> int \<times> sc_res_info_ctnt" where
  "sc_res_info_gen_ctnt_local_path c =
     (let url = cstr (ri_url (ct_common c));
          (ret, lp) = (if sc_res_site_is_youku (Some (ct_common c))
                       then sc_yk_url_to_local_path url [] SC_RES_LOCAL_PATH_MAX_LEN
                       else if sc_res_site_is_sohu (Some (ct_common c))
                       then sc_sohu_file_url_to_local_path url [] SC_RES_LOCAL_PATH_MAX_LEN
                       else sc_res_url_to_local_path_default url [] SC_RES_LOCAL_PATH_MAX_LEN)
      in (ret, c\<lparr>localpath := lp\<rparr>))"

text \<open>The fields of the new content entry, before it is linked to its parent.\<close>

definition fill_ctnt :: "sc_res_info_mgmt \<Rightarrow> buf \<Rightarrow> sc_res_mime \<Rightarrow> sc_res_info_ctnt \<Rightarrow> int \<times> sc_res_info_ctnt" where
  "fill_ctnt m u mime_type c =
     (let c1 = c\<lparr>ct_common := (ct_common c)\<lparr>ri_url := u\<rparr>\<rparr>;
          c2 = sc_res_site_inherit m c1;
          c3 = c2\<lparr>ct_common := (ct_common c2)\<lparr>ri_mime := mime_type\<rparr>\<rparr>;
          c4 = (if sc_res_gen_is_ctrl_ld (Some (mg_common m))
                then c3\<lparr>ct_common := sc_res_flag_set_stored (ct_common c3)\<rparr> else c3)
      in sc_res_info_gen_ctnt_local_path c4)"

definition link_child :: "nat \<Rightarrow> nat \<Rightarrow> sc_res_list \<Rightarrow> sc_res_list" where
  "link_child i c rl =
     (let rl1 = (if child_cnt (mgmt rl i) = 0 then rl
                 else upd_ctnt c (\<lambda>ct. ct\<lparr>siblings := child (mgmt rl i)\<rparr>) rl);
          rl2 = upd_mgmt i (\<lambda>m. m\<lparr>child := Some c, child_cnt := child_cnt m + 1\<rparr>) rl1
      in upd_ctnt c (\<lambda>ct. ct\<lparr>parent := Some i\<rparr>) rl2)"

definition add_ctnt_slot :: "sc_res_list \<Rightarrow> nat \<Rightarrow> string \<Rightarrow> (int \<times> nat option \<times> sc_res_list) option" where
  "add_ctnt_slot rl i url = do {
     (r, rl1) \<leftarrow> sc_res_info_get_ctnt rl;
     (case r of
        None \<Rightarrow> Some (- 1, None, rl1)
      | Some c \<Rightarrow> do {
          u \<leftarrow> sc_res_copy_url (ri_url (ct_common (ctnt rl1 c))) url HTTP_URL_MAX_LEN True;
          mime_type \<leftarrow> sc_res_mime_type_obtain url True;
          let (ret, ct) = fill_ctnt (mgmt rl1 i) u mime_type (ctnt rl1 c);
          let rl2 = upd_ctnt c (\<lambda>_. ct) rl1;
          if ret \<noteq> 0
          then do { rl3 \<leftarrow> sc_res_info_del rl2 (RiCtnt c); Some (- 1, None, rl3) }
          else Some (0, Some c, link_child i c rl2)
        })
   }"

definition sc_res_info_add_ctnt ::
  "'w os \<Rightarrow> sc_res_list \<Rightarrow> nat option \<Rightarrow> string \<Rightarrow> 'w \<Rightarrow> ((int \<times> nat option \<times> sc_res_list) \<times> 'w) option" where
  "sc_res_info_add_ctnt os rl m url w = (case m of
      None \<Rightarrow> Some ((- 1, None, rl), w)
    | Some i \<Rightarrow>
        if \<not> sc_res_info_permit_adding url then Some ((- 1, None, rl), w)
        else if HTTP_URL_MAX_LEN \<le> length url then Some ((- 1, None, rl), w)
        else if sc_res_gen_is_ctrl_ld (Some (mg_common (mgmt rl i)))
        then do {
          (ret, w1) \<leftarrow> sc_snooping_do_del os (- 1) url w;
          if ret \<noteq> 0 then Some ((- 1, None, rl), w1)
          else do { r \<leftarrow> add_ctnt_slot rl i url; Some (r, w1) }
        }
        else do { r \<leftarrow> add_ctnt_slot rl i url; Some (r, w) })"

section \<open>Entries loaded from disk\<close>

definition sc_res_info_dup_ctnt :: "nat option \<Rightarrow> nat option \<Rightarrow> sc_res_list \<Rightarrow> int \<times> sc_res_list" where
  "sc_res_info_dup_ctnt from to rl = (case (from, to) of
      (Some f, Some t) \<Rightarrow>
        let fc = ctnt rl f;
            rl1 = upd_ctnt t (\<lambda>c. c\<lparr>ct_common := (ct_common c)\<lparr>ri_url := ri_url (ct_common fc)\<rparr>,
                                    localpath := localpath fc\<rparr>) rl;
            rl2 = (if sc_res_flag_is_stored (ct_common fc)
                   then upd_ctnt_ri t sc_res_flag_set_stored rl1 else rl1);
            rl3 = (if sc_res_flag_is_notify (ct_common fc)
                   then upd_ctnt_ri t sc_res_flag_set_notify rl2 else rl2)
        in (HC_SUCCESS, rl3)
    | _ \<Rightarrow> (HC_ERR_INVALID, rl))"

definition sc_res_info_remove_loaded :: "nat option \<Rightarrow> nat option \<Rightarrow> sc_res_list \<Rightarrow> (int \<times> sc_res_list) option" where
  "sc_res_info_remove_loaded pre ld rl = (case ld of
      None \<Rightarrow> Some (HC_ERR_INVALID, rl)
    | Some l \<Rightarrow>
        (case parent (ctnt rl l) of
           None \<Rightarrow> Some (HC_ERR_INTERNAL, rl)
         | Some i \<Rightarrow>
             (case pre of
                None \<Rightarrow>
                  if child (mgmt rl i) \<noteq> Some l then Some (HC_ERR_INTERNAL, rl)
                  else if child_cnt (mgmt rl i) = 0 then Some (HC_ERR_INTERNAL, rl)
                  else do {
                    let rl1 = upd_mgmt i (\<lambda>m. m\<lparr>child := siblings (ctnt rl l), child_cnt := child_cnt m - 1\<rparr>) rl;
                    rl2 \<leftarrow> sc_res_info_del rl1 (RiCtnt l);
                    Some (HC_SUCCESS, rl2)
                  }
              | Some p \<Rightarrow>
                  if child_cnt (mgmt rl i) < 2 then Some (HC_ERR_INTERNAL, rl)
                  else do {
                    let rl1 = upd_ctnt p (\<lambda>c. c\<lparr>siblings := siblings (ctnt rl l)\<rparr>) rl;
                    let rl2 = upd_mgmt i (\<lambda>m. m\<lparr>child_cnt := child_cnt m - 1\<rparr>) rl1;
                    rl3 \<leftarrow> sc_res_info_del rl2 (RiCtnt l);
                    Some (HC_SUCCESS, rl3)
                  })))"

text \<open>The walk over the siblings: the first entry whose URL contains \<open>vid\<close>, with the entry
  before it. A chain longer than the array is a cycle, on which the code would not end.\<close>

fun find_loaded :: "nat \<Rightarrow> sc_res_list \<Rightarrow> string \<Rightarrow> nat option \<Rightarrow> nat option \<Rightarrow> (nat option \<times> nat option) option" where
  "find_loaded n rl vid pre None = Some (pre, None)"
| "find_loaded 0 rl vid pre (Some l) = None"
| "find_loaded (Suc n) rl vid pre (Some l) =
     (if contains (cstr (ri_url (ct_common (ctnt rl l)))) vid then Some (pre, Some l)
      else find_loaded n rl vid (Some l) (siblings (ctnt rl l)))"

definition sc_res_info_handle_cached :: "nat option \<Rightarrow> nat option \<Rightarrow> sc_res_list \<Rightarrow> (int \<times> sc_res_list) option" where
  "sc_res_info_handle_cached ctrl_ld parsed rl = (case (ctrl_ld, parsed) of
      (Some i, Some t) \<Rightarrow>
        let url = cstr (ri_url (ct_common (ctnt rl t))) in
        if url = [] then None
        else (case last_slash url 0 of
            None \<Rightarrow> Some (HC_ERR_INTERNAL, rl)
          | Some k \<Rightarrow> do {
              let vid = drop (Suc k) url;
              (pre, ld) \<leftarrow> find_loaded SC_RES_INFO_NUM_MAX_CTNT rl vid None (child (mgmt rl i));
              (case ld of
                 None \<Rightarrow> Some (HC_ERR_INTERNAL, rl)
               | Some l \<Rightarrow>
                   (case sc_res_info_dup_ctnt (Some l) (Some t) rl of (ret, rl1) \<Rightarrow>
                      if ret \<noteq> HC_SUCCESS then Some (ret, rl1)
                      else sc_res_info_remove_loaded pre (Some l) rl1))
            })
    | _ \<Rightarrow> Some (HC_ERR_INVALID, rl))"

section \<open>Finding\<close>

definition sc_res_info_find_ctnt :: "sc_res_list \<Rightarrow> string \<Rightarrow> nat option" where
  "sc_res_info_find_ctnt rl url =
     find_from (\<lambda>i. cstr (ri_url (ct_common (ctnt rl i))) = url) 0 SC_RES_INFO_NUM_MAX_CTNT"

definition sc_res_info_find_mgmt :: "sc_res_list \<Rightarrow> string \<Rightarrow> nat option" where
  "sc_res_info_find_mgmt rl url =
     find_from (\<lambda>i. cstr (ri_url (mg_common (mgmt rl i))) = url) 0 SC_RES_INFO_NUM_MAX_MGMT"

end
