(* ===== verification/Res_Inv.thy ===== *)
theory Res_Inv
  imports Res_List
begin

text \<open>
  The invariant of the resource list and its preservation by every operation of
  \<^verbatim>\<open>Res_List.thy\<close>. \<open>res_tree rl fm fc ch\<close>: \<open>fm\<close> and \<open>fc\<close> are the free slots of the two pools
  and \<open>ch i\<close> lists the children of management entry \<open>i\<close>, newest first, as the code links them
  through \<open>child\<close> and \<open>siblings\<close>.
\<close>

section \<open>The invariant\<close>

fun sib_chain :: "(nat \<Rightarrow> nat option) \<Rightarrow> nat option \<Rightarrow> nat list \<Rightarrow> bool" where
  "sib_chain nxt p [] = (p = None)"
| "sib_chain nxt p (c # cs) = (p = Some c \<and> sib_chain nxt (nxt c) cs)"

definition url_ok :: "buf \<Rightarrow> bool" where
  "url_ok u \<longleftrightarrow> u \<noteq> [] \<and> is_cstr u \<and> length u < HTTP_URL_MAX_LEN"

definition mgmt_ok :: "sc_res_list \<Rightarrow> nat \<Rightarrow> nat list \<Rightarrow> bool" where
  "mgmt_ok rl i cs \<longleftrightarrow>
     ri_id (mg_common (mgmt rl i)) = of_nat i \<and> sc_res_info_is_mgmt (Some (mg_common (mgmt rl i))) \<and>
     url_ok (ri_url (mg_common (mgmt rl i))) \<and> distinct cs \<and>
     sib_chain (\<lambda>c. siblings (ctnt rl c)) (child (mgmt rl i)) cs \<and>
     unat (child_cnt (mgmt rl i)) = length cs"

definition ctnt_fields_ok :: "nat \<Rightarrow> sc_res_info_ctnt \<Rightarrow> bool" where
  "ctnt_fields_ok c ct \<longleftrightarrow>
     ri_id (ct_common ct) = of_nat c \<and> sc_res_info_is_ctnt (Some (ct_common ct)) \<and>
     url_ok (ri_url (ct_common ct)) \<and> confined (cstr (localpath ct)) \<and>
     length (cstr (localpath ct)) < SC_RES_LOCAL_PATH_MAX_LEN \<and>
     (sc_res_flag_is_notify (ct_common ct) \<longrightarrow> sc_res_flag_is_stored (ct_common ct))"

definition res_tree :: "sc_res_list \<Rightarrow> nat list \<Rightarrow> nat list \<Rightarrow> (nat \<Rightarrow> nat list) \<Rightarrow> bool" where
  "res_tree rl fm fc ch \<longleftrightarrow> mgmt_pool rl fm \<and> ctnt_pool rl fc \<and>
     (\<forall>i \<in> set fm. ri_url (mg_common (mgmt rl i)) = [] \<and> child (mgmt rl i) = None) \<and>
     (\<forall>c \<in> set fc. ri_url (ct_common (ctnt rl c)) = [] \<and> localpath (ctnt rl c) = []) \<and>
     (\<forall>i < SC_RES_INFO_NUM_MAX_MGMT. i \<notin> set fm \<longrightarrow> mgmt_ok rl i (ch i)) \<and>
     (\<forall>i. \<forall>c \<in> set (ch i). i < SC_RES_INFO_NUM_MAX_MGMT \<and> i \<notin> set fm \<and>
        c < SC_RES_INFO_NUM_MAX_CTNT \<and> c \<notin> set fc \<and> parent (ctnt rl c) = Some i \<and>
        (sc_res_gen_is_ctrl_ld (Some (mg_common (mgmt rl i))) \<longrightarrow> sc_res_flag_is_stored (ct_common (ctnt rl c)))) \<and>
     (\<forall>c < SC_RES_INFO_NUM_MAX_CTNT. c \<notin> set fc \<longrightarrow>
        ctnt_fields_ok c (ctnt rl c) \<and> (\<exists>i. c \<in> set (ch i)))"

definition res_inv :: "sc_res_list \<Rightarrow> bool" where
  "res_inv rl \<longleftrightarrow> (\<exists>fm fc ch. res_tree rl fm fc ch)"

lemma res_invI: "res_tree rl fm fc ch \<Longrightarrow> res_inv rl"
  by (auto simp: res_inv_def)

lemma res_treeD:
  assumes "res_tree rl fm fc ch"
  shows "mgmt_pool rl fm" and "ctnt_pool rl fc"
    and "\<And>i. i \<in> set fm \<Longrightarrow> ri_url (mg_common (mgmt rl i)) = [] \<and> child (mgmt rl i) = None"
    and "\<And>c. c \<in> set fc \<Longrightarrow> ri_url (ct_common (ctnt rl c)) = [] \<and> localpath (ctnt rl c) = []"
    and "\<And>i. i < SC_RES_INFO_NUM_MAX_MGMT \<Longrightarrow> i \<notin> set fm \<Longrightarrow> mgmt_ok rl i (ch i)"
    and "\<And>i c. c \<in> set (ch i) \<Longrightarrow> i < SC_RES_INFO_NUM_MAX_MGMT \<and> i \<notin> set fm \<and>
          c < SC_RES_INFO_NUM_MAX_CTNT \<and> c \<notin> set fc \<and> parent (ctnt rl c) = Some i"
    and "\<And>i c. c \<in> set (ch i) \<Longrightarrow> sc_res_gen_is_ctrl_ld (Some (mg_common (mgmt rl i))) \<Longrightarrow>
          sc_res_flag_is_stored (ct_common (ctnt rl c))"
    and "\<And>c. c < SC_RES_INFO_NUM_MAX_CTNT \<Longrightarrow> c \<notin> set fc \<Longrightarrow> ctnt_fields_ok c (ctnt rl c)"
    and "\<And>c. c < SC_RES_INFO_NUM_MAX_CTNT \<Longrightarrow> c \<notin> set fc \<Longrightarrow> \<exists>i. c \<in> set (ch i)"
  using assms unfolding res_tree_def by blast+

lemma sib_chain_cong:
  "(\<And>c. c \<in> set cs \<Longrightarrow> n c = n' c) \<Longrightarrow> sib_chain n p cs = sib_chain n' p cs"
  by (induction cs arbitrary: p) auto

lemma sib_chain_unique: "sib_chain n p cs \<Longrightarrow> sib_chain n p ds \<Longrightarrow> cs = ds"
proof (induction cs arbitrary: p ds)
  case Nil
  then show ?case by (cases ds) auto
next
  case (Cons c cs)
  then show ?case by (cases ds) auto
qed

lemma sib_chain_skip [simp]:
  "k \<notin> set cs \<Longrightarrow> sib_chain (\<lambda>c. siblings (if c = k then x else g c)) p cs
     = sib_chain (\<lambda>c. siblings (g c)) p cs"
  by (rule sib_chain_cong) auto

lemma mgmt_ok_cong:
  assumes "mgmt rl' i = mgmt rl i" and "\<And>c. c \<in> set cs \<Longrightarrow> siblings (ctnt rl' c) = siblings (ctnt rl c)"
  shows "mgmt_ok rl' i cs = mgmt_ok rl i cs"
  using sib_chain_cong [of cs "\<lambda>c. siblings (ctnt rl' c)" "\<lambda>c. siblings (ctnt rl c)"] assms
  by (simp add: mgmt_ok_def)

lemma child_unique:
  "res_tree rl fm fc ch \<Longrightarrow> c \<in> set (ch i) \<Longrightarrow> c \<in> set (ch j) \<Longrightarrow> i = j"
  using res_treeD(6) by (metis option.inject)

section \<open>The fresh list\<close>

lemma init_list_fields:
  "i < SC_RES_INFO_NUM_MAX_MGMT \<Longrightarrow> ri_url (mg_common (mgmt (init_list a) i)) = [] \<and> child (mgmt (init_list a) i) = None"
  "c < SC_RES_INFO_NUM_MAX_CTNT \<Longrightarrow> ri_url (ct_common (ctnt (init_list a) c)) = [] \<and> localpath (ctnt (init_list a) c) = []"
  by (simp_all add: init_list_def Let_def link_mgmt_at link_ctnt_at zero_list_def zero_defs)

lemma init_res_tree:
  assumes "shm_ok a"
  shows "res_tree (init_list a) (rev [0..<SC_RES_INFO_NUM_MAX_MGMT]) (rev [0..<SC_RES_INFO_NUM_MAX_CTNT]) (\<lambda>_. [])"
  using init_mgmt_pool [OF assms] init_ctnt_pool [OF assms] init_list_fields
  by (simp add: res_tree_def)

section \<open>Management entries\<close>

definition fresh_entry :: "nat \<Rightarrow> sc_res_info_mgmt \<Rightarrow> bool" where
  "fresh_entry i m \<longleftrightarrow> ri_id (mg_common m) = of_nat i \<and> sc_res_info_is_mgmt (Some (mg_common m))
     \<and> url_ok (ri_url (mg_common m)) \<and> child m = None \<and> child_cnt m = 0"

lemma free_mgmt_childless: "res_tree rl fm fc ch \<Longrightarrow> i \<in> set fm \<Longrightarrow> ch i = []"
  using res_treeD(6) by (metis list.set_intros(1) neq_Nil_conv)

lemma tree_new_mgmt:
  assumes t: "res_tree rl (i # fm) fc ch" and m: "fresh_entry i m"
  shows "res_tree (rl\<lparr>mgmt_free := ri_id (mg_common (mgmt rl i)), mgmt_cnt := mgmt_cnt rl + 1,
           mgmt := (mgmt rl)(i := m)\<rparr>) fm fc ch" (is "res_tree ?rl fm fc ch")
proof -
  note D = res_treeD [OF t]
  have i: "i \<notin> set fm" "ch i = []"
    using D(1) free_mgmt_childless [OF t, of i] by (auto simp: mgmt_pool_def)
  have ok: "mgmt_ok ?rl j (ch j)" if "j < SC_RES_INFO_NUM_MAX_MGMT" "j \<notin> set fm" for j
  proof (cases "j = i")
    case True
    with m i(2) show ?thesis by (simp add: mgmt_ok_def fresh_entry_def)
  next
    case False
    with D(5) [of j] that show ?thesis by (subst mgmt_ok_cong [of _ _ rl]) auto
  qed
  have "c \<in> set (ch j) \<Longrightarrow> j \<noteq> i" for c j using i(2) by auto
  with ok D i mgmt_pool_get [OF D(1)] show ?thesis
    unfolding res_tree_def by (auto simp: ctnt_pool_def)
qed

text \<open>A slot that was taken and given back.\<close>

lemma tree_returned_mgmt:
  assumes t: "res_tree rl (i # fm) fc ch"
  shows "res_tree (rl\<lparr>mgmt_free := mgmt_ptr rl i, mgmt_cnt := mgmt_cnt rl,
           mgmt := (mgmt rl)(i := zero_mgmt\<lparr>mg_common := zero_info\<lparr>ri_id := ri_id (mg_common (mgmt rl i))\<rparr>\<rparr>)\<rparr>)
           (i # fm) fc ch" (is "res_tree ?rl (i # fm) fc ch")
proof -
  note D = res_treeD [OF t]
  have i: "i \<notin> set fm" "ch i = []"
    using D(1) free_mgmt_childless [OF t, of i] by (auto simp: mgmt_pool_def)
  have "mgmt_ok ?rl j (ch j)" if "j < SC_RES_INFO_NUM_MAX_MGMT" "j \<notin> set (i # fm)" for j
    using D(5) [of j] that by (subst mgmt_ok_cong [of _ _ rl]) auto
  moreover have "c \<in> set (ch j) \<Longrightarrow> j \<noteq> i" for c j using i(2) by auto
  moreover have "mgmt_pool ?rl (i # fm)" using D(1) i by (auto simp: mgmt_pool_def)
  ultimately show ?thesis
    using D(2-9) i unfolding res_tree_def by (auto simp: ctnt_pool_def zero_defs)
qed

lemma strip_http_permitted:
  assumes "sc_res_info_permit_adding url" and "is_cstr url" and "length url < HTTP_URL_MAX_LEN"
  shows "url_ok (strip_http url)"
proof -
  have "strip_http url \<noteq> []"
  proof
    assume "strip_http url = []"
    then have "url = [] \<or> url = HTTP_URL_PREFIX"
      by (auto simp: strip_http_def strncmp_eq_def HTTP_URL_PREFIX_def HTTP_URL_PRE_LEN_def split: if_splits)
    with assms(1) show False
      by (auto simp: site_tests contains_def HTTP_URL_PREFIX_def)
  qed
  with assms(2,3) strip_http_length [of url] show ?thesis by (auto simp: url_ok_def)
qed

definition site_known :: "string \<Rightarrow> bool" where
  "site_known url \<longleftrightarrow> sc_url_is_yk (strip_http url) \<or> sc_url_is_sohu (strip_http url)"

definition mgmt_gens :: "sc_res_gen set" where
  "mgmt_gens = {SC_RES_GEN_T_ORIGIN, SC_RES_GEN_T_NORMAL, SC_RES_GEN_T_CTRL_LD}"

lemma log_tag_short: "length (mgmt_log_tag ri) \<le> 9" "length (ctnt_log_tag p) \<le> 11"
  by (simp_all add: mgmt_log_tag_def ctnt_log_tag_def split: option.split)

lemma del_mgmt_eq:
  assumes "sc_res_info_is_mgmt (Some (mg_common (mgmt rl i)))" and "url_ok (ri_url (mg_common (mgmt rl i)))"
  shows "sc_res_info_del rl (RiMgmt i) = sc_res_info_put rl (Some (RiMgmt i))"
  using assms log_tag_short(1) [of "mg_common (mgmt rl i)"]
  by (simp add: sc_res_info_del_def sc_res_info_del_mgmt_def url_ok_def hc_limits)

lemma del_ctnt_eq:
  assumes "sc_res_info_is_ctnt (Some (ct_common (ctnt rl c)))" and "url_ok (ri_url (ct_common (ctnt rl c)))"
  shows "sc_res_info_del rl (RiCtnt c) = sc_res_info_put rl (Some (RiCtnt c))"
  using assms log_tag_short(2) [of "ctnt_parent_ri rl (RiCtnt c)"] not_mgmt_and_ctnt [of "Some (ct_common (ctnt rl c))"]
  by (auto simp: sc_res_info_del_def sc_res_info_del_ctnt_def url_ok_def hc_limits)

lemma add_mgmt_reject:
  "\<not> sc_res_info_permit_adding url \<or> HTTP_URL_MAX_LEN \<le> length url \<Longrightarrow>
     add_mgmt_with get care rl url = Some (- 1, None, rl)"
  by (auto simp: add_mgmt_with_def)

lemma add_mgmt_full:
  "mgmt_pool rl [] \<Longrightarrow> add_mgmt_with (get_mgmt_as g) care rl url = Some (- 1, None, rl)"
  by (simp add: add_mgmt_with_def get_mgmt_as_Nil)

definition new_mgmt :: "nat \<Rightarrow> sc_res_gen \<Rightarrow> string \<Rightarrow> sc_res_site \<Rightarrow> sc_res_mime \<Rightarrow> sc_res_info_mgmt" where
  "new_mgmt i g url site mime_type = zero_mgmt\<lparr>mg_common := zero_info\<lparr>ri_id := of_nat i, ri_gen := g,
     ri_url := strip_http url, ri_site := site, ri_mime := mime_type\<rparr>\<rparr>"

definition site_of :: "string \<Rightarrow> sc_res_site" where
  "site_of url = (if sc_url_is_yk (strip_http url) then SC_RES_SITE_YOUKU else SC_RES_SITE_SOHU)"

lemma add_mgmt_done:
  assumes p: "mgmt_pool rl (i # fm)" and g: "g \<in> mgmt_gens" and u: "is_cstr url"
    and a: "sc_res_info_permit_adding url" "length url < HTTP_URL_MAX_LEN" "site_known url"
    and m: "sc_res_mime_type_obtain url care = Some mime_type"
  shows "add_mgmt_with (get_mgmt_as g) care rl url = Some (0, Some i,
     rl\<lparr>mgmt_free := ri_id (mg_common (mgmt rl i)), mgmt_cnt := mgmt_cnt rl + 1,
        mgmt := (mgmt rl)(i := new_mgmt i g url (site_of url) mime_type)\<rparr>)"
  using g u a m
  by (auto simp: add_mgmt_with_def get_mgmt_as_Cons [OF p] sc_res_copy_url_zeroed fresh_mgmt_def
      sc_res_info_mark_site_def upd_defs kind_defs mgmt_gens_def zero_defs new_mgmt_def site_of_def site_known_def)

lemma add_mgmt_unknown_site:
  assumes p: "mgmt_pool rl (i # fm)" and g: "g \<in> mgmt_gens" and u: "is_cstr url"
    and a: "sc_res_info_permit_adding url" "length url < HTTP_URL_MAX_LEN" "\<not> site_known url"
  shows "add_mgmt_with (get_mgmt_as g) care rl url = Some (- 1, None,
     rl\<lparr>mgmt_free := mgmt_ptr rl i, mgmt_cnt := mgmt_cnt rl, mgmt := (mgmt rl)
        (i := zero_mgmt\<lparr>mg_common := zero_info\<lparr>ri_id := ri_id (mg_common (mgmt rl i))\<rparr>\<rparr>)\<rparr>)"
proof -
  let ?m = "new_mgmt i g url 0 0"
  let ?rl = "rl\<lparr>mgmt_free := ri_id (mg_common (mgmt rl i)), mgmt_cnt := mgmt_cnt rl + 1,
        mgmt := (mgmt rl)(i := ?m)\<rparr>"
  have k: "sc_res_info_is_mgmt (Some (mg_common (mgmt ?rl i)))"
    using g by (auto simp: mgmt_gens_def new_mgmt_def kind_defs)
  have "sc_res_info_del ?rl (RiMgmt i) = put_mgmt_slot ?rl (RiMgmt i)"
    using del_mgmt_eq [OF k] put_mgmt_eq [OF mgmt_pool_get [OF p] _ _ k] p strip_http_permitted [OF a(1) u a(2)]
    by (simp add: mgmt_pool_def new_mgmt_def)
  then show ?thesis
    using g u a
    by (auto simp: add_mgmt_with_def get_mgmt_as_Cons [OF p] sc_res_copy_url_zeroed fresh_mgmt_def
        sc_res_info_mark_site_def upd_defs kind_defs mgmt_gens_def zero_defs new_mgmt_def site_known_def)
qed

lemma add_mgmt_tree:
  assumes t: "res_tree rl fm fc ch" and g: "g \<in> mgmt_gens" and u: "is_cstr url"
    and add: "add_mgmt_with (get_mgmt_as g) care rl url = Some (r, p, rl')"
  shows "r = 0 \<and> (\<exists>i fm' mime_type. fm = i # fm' \<and> p = Some i \<and> res_tree rl' fm' fc ch
            \<and> mgmt rl' = (mgmt rl)(i := new_mgmt i g url (site_of url) mime_type) \<and> ctnt rl' = ctnt rl)
       \<or> r = - 1 \<and> p = None \<and> res_tree rl' fm fc ch \<and> ctnt rl' = ctnt rl
            \<and> (\<forall>j. j \<notin> set fm \<longrightarrow> mgmt rl' j = mgmt rl j)"
proof (cases "sc_res_info_permit_adding url \<and> length url < HTTP_URL_MAX_LEN \<and> fm \<noteq> []")
  case False
  then have "add_mgmt_with (get_mgmt_as g) care rl url = Some (- 1, None, rl)"
    using add_mgmt_reject [of url] add_mgmt_full [of rl g care url] res_treeD(1) [OF t] by force
  with add t show ?thesis by simp
next
  case True
  then obtain i fm' where fm: "fm = i # fm'" by (cases fm) auto
  have pool: "mgmt_pool rl (i # fm')" using res_treeD(1) [OF t] fm by simp
  show ?thesis
  proof (cases "site_known url")
    case True
    from permit_mime_safe \<open>_ \<and> _ \<and> _\<close> obtain mt where mt: "sc_res_mime_type_obtain url care = Some mt" by blast
    have "fresh_entry i (new_mgmt i g url (site_of url) mt)"
      using strip_http_permitted [of url] g u \<open>_ \<and> _ \<and> _\<close>
      by (auto simp: fresh_entry_def new_mgmt_def zero_defs mgmt_gens_def kind_defs)
    from tree_new_mgmt [OF t [unfolded fm] this] add_mgmt_done [OF pool g u _ _ True mt] add fm
      \<open>_ \<and> _ \<and> _\<close> show ?thesis by auto
  next
    case False
    from tree_returned_mgmt [OF t [unfolded fm]] add_mgmt_unknown_site [OF pool g u _ _ False, of care] add fm
      \<open>_ \<and> _ \<and> _\<close> show ?thesis by auto
  qed
qed

lemma add_mgmt_total:
  assumes t: "res_tree rl fm fc ch" and g: "g \<in> mgmt_gens" and u: "is_cstr url"
  shows "\<exists>r p rl'. add_mgmt_with (get_mgmt_as g) care rl url = Some (r, p, rl') \<and>
     (r = 0 \<longleftrightarrow> sc_res_info_permit_adding url \<and> length url < HTTP_URL_MAX_LEN \<and> fm \<noteq> [] \<and> site_known url)"
proof (cases "sc_res_info_permit_adding url \<and> length url < HTTP_URL_MAX_LEN \<and> fm \<noteq> []")
  case False
  then show ?thesis
    using add_mgmt_reject [of url] add_mgmt_full [of rl g care url] res_treeD(1) [OF t] by force
next
  case True
  then obtain i fm' where fm: "fm = i # fm'" by (cases fm) auto
  have pool: "mgmt_pool rl (i # fm')" using res_treeD(1) [OF t] fm by simp
  from permit_mime_safe True obtain mt where "sc_res_mime_type_obtain url care = Some mt" by blast
  with add_mgmt_done [OF pool g u] add_mgmt_unknown_site [OF pool g u, of care] True show ?thesis
    by (cases "site_known url") auto
qed

section \<open>Content entries\<close>

lemma gen_local_path_ok:
  assumes "sc_res_info_gen_ctnt_local_path ct = (ret, ct')" and "ret = 0" and "url_ok (ri_url (ct_common ct))"
  shows "confined (cstr (localpath ct')) \<and> length (cstr (localpath ct')) < SC_RES_LOCAL_PATH_MAX_LEN"
  using assms length_lp_default [of True "ri_url (ct_common ct)"] length_lp_sohu [of True "ri_url (ct_common ct)"]
  by (auto simp: sc_res_info_gen_ctnt_local_path_def Let_def url_ok_def sc_yk_url_to_local_path_def
      sc_res_url_to_local_path_default_def sc_sohu_file_url_to_local_path_def confined_lp_default
      confined_lp_sohu split: if_splits)

lemma gen_local_path_frame:
  "sc_res_info_gen_ctnt_local_path ct = (ret, ct') \<Longrightarrow> \<exists>lp. ct' = ct\<lparr>localpath := lp\<rparr>"
  by (auto simp: sc_res_info_gen_ctnt_local_path_def Let_def split: prod.splits)

lemma fill_ctnt_fields:
  assumes "fill_ctnt m u mime_type (fresh_ctnt c) = (ret, ct)"
  shows "ri_id (ct_common ct) = of_nat c" "sc_res_info_is_ctnt (Some (ct_common ct))"
    "ri_url (ct_common ct) = u" "siblings ct = None" "parent ct = None" "\<not> sc_res_flag_is_notify (ct_common ct)"
    "sc_res_flag_is_stored (ct_common ct) \<longleftrightarrow> sc_res_gen_is_ctrl_ld (Some (mg_common m))"
    "\<not> sc_res_flag_is_i_fail (ct_common ct)" "\<not> sc_res_flag_is_d_fail (ct_common ct)"
    "ri_site (ct_common ct) = ri_site (mg_common m)"
  using assms
  by (auto simp: fill_ctnt_def Let_def fresh_ctnt_def sc_res_site_inherit_def zero_defs kind_defs flag_updates flag_bits
      SC_RES_FLAG_STORED_def bit_simps dest!: gen_local_path_frame split: if_splits)

lemma fill_ctnt_ok:
  assumes f: "fill_ctnt m u mime_type (fresh_ctnt c) = (ret, ct)" and "ret = 0" and u: "url_ok u"
  shows "ctnt_fields_ok c ct"
proof -
  obtain ct0 where g: "sc_res_info_gen_ctnt_local_path ct0 = (ret, ct)"
    using f by (auto simp: fill_ctnt_def Let_def)
  with gen_local_path_frame [OF g] fill_ctnt_fields [OF f] u have "url_ok (ri_url (ct_common ct0))" by auto
  from gen_local_path_ok [OF g \<open>ret = 0\<close> this] fill_ctnt_fields [OF f] u
  show ?thesis by (auto simp: ctnt_fields_ok_def)
qed

lemma link_child_eq:
  assumes "child_cnt (mgmt rl i) = 0 \<Longrightarrow> child (mgmt rl i) = None \<and> siblings (ctnt rl c) = None"
  shows "link_child i c rl = rl\<lparr>
     mgmt := (mgmt rl)(i := (mgmt rl i)\<lparr>child := Some c, child_cnt := child_cnt (mgmt rl i) + 1\<rparr>),
     ctnt := (ctnt rl)(c := (ctnt rl c)\<lparr>siblings := child (mgmt rl i), parent := Some i\<rparr>)\<rparr>"
  using assms by (cases "ctnt rl c") (auto simp: link_child_def upd_defs Let_def)

lemma children_bound:
  assumes t: "res_tree rl fm fc ch" and c: "c < SC_RES_INFO_NUM_MAX_CTNT" "c \<in> set fc"
    and i: "i < SC_RES_INFO_NUM_MAX_MGMT" "i \<notin> set fm"
  shows "length (ch i) < SC_RES_INFO_NUM_MAX_CTNT"
  using res_treeD(6) [OF t, of _ i] res_treeD(5) [OF t i] c
  by (intro length_free_less [of _ _ c]) (auto simp: mgmt_ok_def)

lemma unat_incr: "unat (w :: ulong) < 2 ^ 32 \<Longrightarrow> unat (w + 1) = unat w + 1"
  by (simp add: unat_word_ariths)

lemma tree_new_ctnt:
  assumes t: "res_tree rl fm (c # fc) ch" and i: "i < SC_RES_INFO_NUM_MAX_MGMT" "i \<notin> set fm"
    and ct: "ctnt_fields_ok c ct"
      "sc_res_gen_is_ctrl_ld (Some (mg_common (mgmt rl i))) \<Longrightarrow> sc_res_flag_is_stored (ct_common ct)"
  shows "res_tree (rl\<lparr>ctnt_free := ri_id (ct_common (ctnt rl c)), ctnt_cnt := ctnt_cnt rl + 1,
     mgmt := (mgmt rl)(i := (mgmt rl i)\<lparr>child := Some c, child_cnt := child_cnt (mgmt rl i) + 1\<rparr>),
     ctnt := (ctnt rl)(c := ct\<lparr>siblings := child (mgmt rl i), parent := Some i\<rparr>)\<rparr>)
     fm fc (ch(i := c # ch i))" (is "res_tree ?rl fm fc ?ch")
proof -
  note D = res_treeD [OF t]
  have c: "c < SC_RES_INFO_NUM_MAX_CTNT" "c \<notin> set fc"
    using D(2) by (auto simp: ctnt_pool_def)
  have nc: "c \<notin> set (ch j)" for j using D(6) [of c j] by auto
  have oki: "mgmt_ok rl i (ch i)" using D(5) i by blast
  have "unat (child_cnt (mgmt rl i) + 1) = length (ch i) + 1"
    using oki children_bound [OF t c(1) _ i] unat_incr [of "child_cnt (mgmt rl i)"]
    by (auto simp: mgmt_ok_def hc_limits)
  with oki nc [of i] have "mgmt_ok ?rl i (?ch i)"
    by (auto simp: mgmt_ok_def)
  moreover have "mgmt_ok ?rl j (ch j)" if "j < SC_RES_INFO_NUM_MAX_MGMT" "j \<notin> set fm" "j \<noteq> i" for j
    using D(5) [of j] that nc by (subst mgmt_ok_cong [of _ _ rl]) auto
  ultimately have oks: "mgmt_ok ?rl j (?ch j)" if "j < SC_RES_INFO_NUM_MAX_MGMT" "j \<notin> set fm" for j
    using that by (cases "j = i") auto
  have pools: "mgmt_pool ?rl fm" "ctnt_pool ?rl fc"
    using D(1,2) i(2) ctnt_pool_get [OF D(2)] by (auto simp: mgmt_pool_def ctnt_pool_def)
  have kids: "k \<in> set (?ch j) \<Longrightarrow> j < SC_RES_INFO_NUM_MAX_MGMT \<and> j \<notin> set fm \<and>
        k < SC_RES_INFO_NUM_MAX_CTNT \<and> k \<notin> set fc \<and> parent (ctnt ?rl k) = Some j \<and>
        (sc_res_gen_is_ctrl_ld (Some (mg_common (mgmt ?rl j))) \<longrightarrow> sc_res_flag_is_stored (ct_common (ctnt ?rl k)))" for j k
    using D(6) [of k j] D(7) [of k j] i c ct(2) nc by (auto split: if_splits)
  have live: "k < SC_RES_INFO_NUM_MAX_CTNT \<Longrightarrow> k \<notin> set fc \<Longrightarrow>
      ctnt_fields_ok k (ctnt ?rl k) \<and> (\<exists>j. k \<in> set (?ch j))" for k
    using D(8) [of k] D(9) [of k] ct(1) by (cases "k = c") (auto simp: ctnt_fields_ok_def)
  have urls: "k \<in> set fc \<Longrightarrow> ri_url (ct_common (ctnt ?rl k)) = [] \<and> localpath (ctnt ?rl k) = []" for k
    using D(4) [of k] c(2) by auto
  have free: "j \<in> set fm \<Longrightarrow> ri_url (mg_common (mgmt ?rl j)) = [] \<and> child (mgmt ?rl j) = None" for j
    using D(3) [of j] i(2) by auto
  show ?thesis
    unfolding res_tree_def using pools free urls oks kids live by blast
qed

lemma tree_returned_ctnt:
  assumes t: "res_tree rl fm (c # fc) ch"
  shows "res_tree (rl\<lparr>ctnt_free := ctnt_ptr rl c, ctnt_cnt := ctnt_cnt rl,
           ctnt := (ctnt rl)(c := zero_ctnt\<lparr>ct_common := zero_info\<lparr>ri_id := ri_id (ct_common (ctnt rl c))\<rparr>\<rparr>)\<rparr>)
           fm (c # fc) ch" (is "res_tree ?rl fm (c # fc) ch")
proof -
  note D = res_treeD [OF t]
  have c: "c \<notin> set fc" "\<And>j. c \<notin> set (ch j)"
    using D(2) D(6) [of c] by (auto simp: ctnt_pool_def)
  have "mgmt_ok ?rl j (ch j)" if "j < SC_RES_INFO_NUM_MAX_MGMT" "j \<notin> set fm" for j
    using D(5) [of j] that c by (subst mgmt_ok_cong [of _ _ rl]) auto
  moreover have "ctnt_pool ?rl (c # fc)" using D(2) c by (auto simp: ctnt_pool_def)
  moreover have "k \<in> set (ch j) \<Longrightarrow> k \<noteq> c" for j k using c by auto
  ultimately show ?thesis
    using D(1,3-9) unfolding res_tree_def by (auto simp: mgmt_pool_def zero_defs)
qed

definition local_path_ok :: "sc_res_info_mgmt \<Rightarrow> string \<Rightarrow> bool" where
  "local_path_ok m url \<longleftrightarrow>
     (let u = strip_http url in length u < SC_RES_LOCAL_PATH_MAX_LEN \<and>
        (ri_site (mg_common m) = SC_RES_SITE_SOHU \<longrightarrow> sc_url_is_sohu_file_url u))"

lemma fill_ctnt_result:
  assumes "fill_ctnt m (strip_http url) mime_type (fresh_ctnt c) = (ret, ct)" and "is_cstr url"
  shows "ret = 0 \<longleftrightarrow> local_path_ok m url"
  using assms
  by (auto simp: fill_ctnt_def Let_def sc_res_info_gen_ctnt_local_path_def sc_res_site_inherit_def
      kind_defs flag_updates local_path_ok_def sc_yk_url_to_local_path_def sc_res_url_to_local_path_default_def
      sc_sohu_file_url_to_local_path_def split: if_splits)

lemma add_ctnt_slot_full:
  "ctnt_pool rl [] \<Longrightarrow> add_ctnt_slot rl i url = Some (- 1, None, rl)"
  by (simp add: add_ctnt_slot_def get_ctnt_Nil)

lemma add_ctnt_slot_eq:
  assumes p: "ctnt_pool rl (c # fc)" and u: "is_cstr url" and a: "sc_res_info_permit_adding url" "length url < HTTP_URL_MAX_LEN"
    and m: "sc_res_mime_type_obtain url True = Some mime_type"
    and f: "fill_ctnt (mgmt rl i) (strip_http url) mime_type (fresh_ctnt c) = (ret, ct)"
    and z: "child_cnt (mgmt rl i) = 0 \<Longrightarrow> child (mgmt rl i) = None"
  shows "add_ctnt_slot rl i url =
    (if ret \<noteq> 0
     then Some (- 1, None, rl\<lparr>ctnt_free := ctnt_ptr rl c, ctnt_cnt := ctnt_cnt rl, ctnt := (ctnt rl)
            (c := zero_ctnt\<lparr>ct_common := zero_info\<lparr>ri_id := ri_id (ct_common (ctnt rl c))\<rparr>\<rparr>)\<rparr>)
     else Some (0, Some c, rl\<lparr>ctnt_free := ri_id (ct_common (ctnt rl c)), ctnt_cnt := ctnt_cnt rl + 1,
            mgmt := (mgmt rl)(i := (mgmt rl i)\<lparr>child := Some c, child_cnt := child_cnt (mgmt rl i) + 1\<rparr>),
            ctnt := (ctnt rl)(c := ct\<lparr>siblings := child (mgmt rl i), parent := Some i\<rparr>)\<rparr>))"
proof -
  let ?rl = "rl\<lparr>ctnt_free := ri_id (ct_common (ctnt rl c)), ctnt_cnt := ctnt_cnt rl + 1, ctnt := (ctnt rl)(c := ct)\<rparr>"
  note F = fill_ctnt_fields [OF f]
  have k: "sc_res_info_is_ctnt (Some (ct_common (ctnt ?rl c)))" using F by simp
  have "sc_res_info_del ?rl (RiCtnt c) = put_ctnt_slot ?rl (RiCtnt c)"
    using del_ctnt_eq [OF k] put_ctnt_eq [OF ctnt_pool_get [OF p] _ _ k] p F(3) strip_http_permitted [OF a(1) u a(2)]
    by (simp add: ctnt_pool_def)
  moreover have "ri_url (ct_common (fresh_ctnt c)) = []" by (simp add: fresh_ctnt_def zero_defs)
  moreover have "link_child i c ?rl = rl\<lparr>ctnt_free := ri_id (ct_common (ctnt rl c)), ctnt_cnt := ctnt_cnt rl + 1,
            mgmt := (mgmt rl)(i := (mgmt rl i)\<lparr>child := Some c, child_cnt := child_cnt (mgmt rl i) + 1\<rparr>),
            ctnt := (ctnt rl)(c := ct\<lparr>siblings := child (mgmt rl i), parent := Some i\<rparr>)\<rparr>"
    using link_child_eq [of ?rl i c] z F(4) by simp
  ultimately show ?thesis
    using f m a sc_res_copy_url_zeroed [of url HTTP_URL_MAX_LEN]
    by (simp add: add_ctnt_slot_def get_ctnt_Cons [OF p] upd_defs)
qed

text \<open>What adding a content entry does to the list: nothing that can be seen, or a new head in
  the list of children.\<close>

lemma add_ctnt_slot_tree:
  assumes t: "res_tree rl fm fc ch" and i: "i < SC_RES_INFO_NUM_MAX_MGMT" "i \<notin> set fm"
    and u: "is_cstr url" and a: "sc_res_info_permit_adding url" "length url < HTTP_URL_MAX_LEN"
  shows "(\<exists>c fc' rl' mime_type. fc = c # fc' \<and> local_path_ok (mgmt rl i) url
            \<and> add_ctnt_slot rl i url = Some (0, Some c, rl')
            \<and> res_tree rl' fm fc' (ch(i := c # ch i)) \<and> (\<forall>k. k \<noteq> c \<longrightarrow> ctnt rl' k = ctnt rl k)
            \<and> (\<forall>j. mg_common (mgmt rl' j) = mg_common (mgmt rl j))
            \<and> ctnt rl' c = (snd (fill_ctnt (mgmt rl i) (strip_http url) mime_type (fresh_ctnt c)))
                 \<lparr>siblings := child (mgmt rl i), parent := Some i\<rparr>)
       \<or> (fc = [] \<or> \<not> local_path_ok (mgmt rl i) url)
            \<and> (\<exists>rl'. add_ctnt_slot rl i url = Some (- 1, None, rl') \<and> res_tree rl' fm fc ch
                 \<and> mgmt rl' = mgmt rl \<and> (\<forall>k. k \<notin> set fc \<longrightarrow> ctnt rl' k = ctnt rl k))"
proof (cases fc)
  case Nil
  with add_ctnt_slot_full [of rl i url] res_treeD(2) [OF t] t show ?thesis by simp
next
  case (Cons c fc')
  obtain mt where mt: "sc_res_mime_type_obtain url True = Some mt" using permit_mime_safe a by blast
  obtain ret ct where f: "fill_ctnt (mgmt rl i) (strip_http url) mt (fresh_ctnt c) = (ret, ct)"
    by (cases "fill_ctnt (mgmt rl i) (strip_http url) mt (fresh_ctnt c)")
  have z: "child_cnt (mgmt rl i) = 0 \<Longrightarrow> child (mgmt rl i) = None"
    using res_treeD(5) [OF t i] by (cases "ch i") (auto simp: mgmt_ok_def)
  have p: "ctnt_pool rl (c # fc')" using res_treeD(2) [OF t] Cons by simp
  note eq = add_ctnt_slot_eq [OF p u a mt f z]
  show ?thesis
  proof (cases "ret = 0")
    case True
    have "res_tree (rl\<lparr>ctnt_free := ri_id (ct_common (ctnt rl c)), ctnt_cnt := ctnt_cnt rl + 1,
            mgmt := (mgmt rl)(i := (mgmt rl i)\<lparr>child := Some c, child_cnt := child_cnt (mgmt rl i) + 1\<rparr>),
            ctnt := (ctnt rl)(c := ct\<lparr>siblings := child (mgmt rl i), parent := Some i\<rparr>)\<rparr>)
          fm fc' (ch(i := c # ch i))"
      using tree_new_ctnt [OF t [unfolded Cons] i fill_ctnt_ok [OF f True]]
        strip_http_permitted [OF a(1) u a(2)] fill_ctnt_fields(7) [OF f] by simp
    with True eq Cons fill_ctnt_result [OF f u] f show ?thesis by (auto intro: exI [of _ mt])
  next
    case False
    with eq Cons tree_returned_ctnt [OF t [unfolded Cons]] fill_ctnt_result [OF f u] show ?thesis by auto
  qed
qed

section \<open>Duplicating and removing loaded entries\<close>

text \<open>An update of a content entry that keeps its links and its fields in order.\<close>

lemma tree_upd_ctnt:
  assumes t: "res_tree rl fm fc ch" and k: "k < SC_RES_INFO_NUM_MAX_CTNT" "k \<notin> set fc"
    and f: "ctnt_fields_ok k (f (ctnt rl k))" "parent (f (ctnt rl k)) = parent (ctnt rl k)"
      "siblings (f (ctnt rl k)) = siblings (ctnt rl k)"
      "sc_res_flag_is_stored (ct_common (ctnt rl k)) \<Longrightarrow> sc_res_flag_is_stored (ct_common (f (ctnt rl k)))"
  shows "res_tree (upd_ctnt k f rl) fm fc ch" (is "res_tree ?rl fm fc ch")
proof -
  note D = res_treeD [OF t]
  have "mgmt_ok ?rl j (ch j)" if "j < SC_RES_INFO_NUM_MAX_MGMT" "j \<notin> set fm" for j
    using D(5) [of j] that f(3) by (subst mgmt_ok_cong [of _ _ rl]) (auto simp: upd_ctnt_def)
  moreover have "ctnt_pool ?rl fc" using D(2) k by (auto simp: ctnt_pool_def upd_ctnt_def)
  moreover have "mgmt_pool ?rl fm" using D(1) by (auto simp: mgmt_pool_def upd_ctnt_def)
  ultimately show ?thesis
    using D(3-9) k f unfolding res_tree_def by (auto simp: upd_ctnt_def)
qed

definition dup_fields :: "sc_res_info_ctnt \<Rightarrow> sc_res_info_ctnt \<Rightarrow> sc_res_info_ctnt" where
  "dup_fields fc c =
     (let c1 = c\<lparr>ct_common := (ct_common c)\<lparr>ri_url := ri_url (ct_common fc)\<rparr>, localpath := localpath fc\<rparr>;
          c2 = (if sc_res_flag_is_stored (ct_common fc) then c1\<lparr>ct_common := sc_res_flag_set_stored (ct_common c1)\<rparr> else c1)
      in if sc_res_flag_is_notify (ct_common fc) then c2\<lparr>ct_common := sc_res_flag_set_notify (ct_common c2)\<rparr> else c2)"

lemma dup_ctnt_eq:
  "sc_res_info_dup_ctnt (Some f) (Some t) rl = (HC_SUCCESS, upd_ctnt t (dup_fields (ctnt rl f)) rl)"
  by (simp add: sc_res_info_dup_ctnt_def dup_fields_def upd_defs Let_def)

lemma dup_fields_frame [simp]:
  "parent (dup_fields fc c) = parent c" "siblings (dup_fields fc c) = siblings c"
  "ri_url (ct_common (dup_fields fc c)) = ri_url (ct_common fc)" "localpath (dup_fields fc c) = localpath fc"
  "sc_res_flag_is_stored (ct_common (dup_fields fc c)) \<longleftrightarrow>
     sc_res_flag_is_stored (ct_common c) \<or> sc_res_flag_is_stored (ct_common fc)"
  by (auto simp: dup_fields_def Let_def)

lemma dup_fields_ok:
  assumes "ctnt_fields_ok l lc" and "ctnt_fields_ok k kc"
  shows "ctnt_fields_ok k (dup_fields lc kc)"
  using assms unfolding ctnt_fields_ok_def
  by (auto simp: dup_fields_def Let_def kind_defs)

lemma sib_chain_unlink:
  "sib_chain n p (xs @ l # ys) \<Longrightarrow> distinct (xs @ l # ys) \<Longrightarrow> xs \<noteq> [] \<Longrightarrow>
     sib_chain (n(last xs := n l)) p (xs @ ys)"
proof (induction xs arbitrary: p)
  case (Cons x xs)
  show ?case
  proof (cases "xs = []")
    case True
    with Cons.prems have "x \<notin> set ys" by auto
    then have "sib_chain (n(x := n l)) (n l) ys = sib_chain n (n l) ys"
      by (intro sib_chain_cong) auto
    with True Cons.prems show ?thesis by (simp add: fun_upd_def)
  next
    case False
    have h: "p = Some x" "sib_chain n (n x) (xs @ l # ys)" using Cons.prems(1) by simp_all
    have ih: "sib_chain (n(last xs := n l)) (n x) (xs @ ys)"
      by (rule Cons.IH [OF h(2) _ False]) (use Cons.prems(2) in simp)
    have "x \<noteq> last xs" using Cons.prems(2) False last_in_set by fastforce
    then have "(n(last xs := n l)) x = n x" by simp
    with ih h(1) have "sib_chain (n(last xs := n l)) p (x # xs @ ys)" unfolding sib_chain.simps by metis
    with False show ?thesis by (metis append_Cons last_ConsR)
  qed
qed simp

lemma sib_chain_head: "sib_chain n p (l # ys) \<Longrightarrow> p = Some l \<and> sib_chain n (n l) ys"
  by simp

lemma unat_decr: "w \<noteq> 0 \<Longrightarrow> unat (w - 1 :: ulong) = unat w - 1"
  by (rule unat_minus_one)

text \<open>Deleting an entry that has been taken out of its chain.\<close>

lemma tree_delete_unlinked:
  assumes t: "res_tree rl fm fc ch" and cs: "ch i = xs @ l # ys"
    and rl1: "rl1 = rl\<lparr>mgmt := (mgmt rl)(i := (mgmt rl i)\<lparr>child := q, child_cnt := child_cnt (mgmt rl i) - 1\<rparr>),
                       ctnt := (\<lambda>k. (ctnt rl k)\<lparr>siblings := n k\<rparr>)\<rparr>"
    and q: "sib_chain n q (xs @ ys)" and n: "\<And>j c. j \<noteq> i \<Longrightarrow> c \<in> set (ch j) \<Longrightarrow> n c = siblings (ctnt rl c)"
  shows "\<exists>rl'. sc_res_info_del rl1 (RiCtnt l) = Some rl' \<and> res_tree rl' fm (l # fc) (ch(i := xs @ ys))
           \<and> (\<forall>k. k \<noteq> l \<longrightarrow> ctnt rl' k = ctnt rl1 k) \<and> mgmt rl' = mgmt rl1"
proof -
  note D = res_treeD [OF t]
  have i: "i < SC_RES_INFO_NUM_MAX_MGMT" "i \<notin> set fm" and l: "l < SC_RES_INFO_NUM_MAX_CTNT" "l \<notin> set fc"
    using D(6) [of l i] cs by auto
  have oki: "mgmt_ok rl i (xs @ l # ys)" using D(5) [OF i] cs by simp
  then have "unat (child_cnt (mgmt rl i)) = length xs + length ys + 1" by (simp add: mgmt_ok_def)
  then have cnt: "unat (child_cnt (mgmt rl i) - 1) = length (xs @ ys)"
    using unat_decr [of "child_cnt (mgmt rl i)"] by (cases "child_cnt (mgmt rl i) = 0") simp_all
  have pools: "mgmt_pool rl1 fm" "ctnt_pool rl1 fc"
    using D(1,2) i by (auto simp: rl1 mgmt_pool_def ctnt_pool_def)
  have fl: "ctnt_fields_ok l (ctnt rl l)" using D(8) [OF l] .
  then have k: "sc_res_info_is_ctnt (Some (ct_common (ctnt rl1 l)))" "url_ok (ri_url (ct_common (ctnt rl1 l)))"
    by (simp_all add: rl1 ctnt_fields_ok_def)
  let ?rl = "rl1\<lparr>ctnt := (ctnt rl1)(l := zero_ctnt\<lparr>ct_common := zero_info\<lparr>ri_id := ctnt_free rl1\<rparr>\<rparr>),
     ctnt_free := ctnt_ptr rl1 l, ctnt_cnt := ctnt_cnt rl1 - 1\<rparr>"
  have del: "sc_res_info_del rl1 (RiCtnt l) = Some ?rl"
    using del_ctnt_eq [OF k] put_ctnt_eq [OF pools(2) l k(1)] by simp
  have nl: "l \<notin> set (xs @ ys)" using oki by (auto simp: mgmt_ok_def)
  have nlj: "j \<noteq> i \<Longrightarrow> l \<notin> set (ch j)" for j using child_unique [OF t, of l i j] cs by auto
  have "sib_chain (\<lambda>c. siblings (ctnt ?rl c)) q (xs @ ys)"
    using q nl by (subst sib_chain_cong [of _ _ n]) (auto simp: rl1)
  then have "mgmt_ok ?rl i (xs @ ys)"
    using oki cnt by (auto simp: mgmt_ok_def rl1)
  moreover have "mgmt_ok ?rl j (ch j)" if "j < SC_RES_INFO_NUM_MAX_MGMT" "j \<notin> set fm" "j \<noteq> i" for j
    using D(5) [of j] that n nlj by (subst mgmt_ok_cong [of _ _ rl]) (auto simp: rl1)
  ultimately have oks: "mgmt_ok ?rl j ((ch(i := xs @ ys)) j)" if "j < SC_RES_INFO_NUM_MAX_MGMT" "j \<notin> set fm" for j
    using that by (cases "j = i") auto
  have kids: "c \<in> set ((ch(i := xs @ ys)) j) \<Longrightarrow> c \<in> set (ch j) \<and> c \<noteq> l" for j c
    using nl nlj cs by (cases "j = i") auto
  have pools': "mgmt_pool ?rl fm" "ctnt_pool ?rl (l # fc)"
    using pools(1) ctnt_pool_put [OF pools(2) l, of ?rl] by (auto simp: mgmt_pool_def)
  have kids': "j < SC_RES_INFO_NUM_MAX_MGMT \<and> j \<notin> set fm \<and> c < SC_RES_INFO_NUM_MAX_CTNT \<and> c \<notin> set (l # fc)
        \<and> parent (ctnt ?rl c) = Some j \<and> (sc_res_gen_is_ctrl_ld (Some (mg_common (mgmt ?rl j)))
              \<longrightarrow> sc_res_flag_is_stored (ct_common (ctnt ?rl c)))"
    if "c \<in> set ((ch(i := xs @ ys)) j)" for j c
    using kids [OF that] D(6) [of c j] D(7) [of c j] by (auto simp: rl1)
  have live: "ctnt_fields_ok c (ctnt ?rl c) \<and> (\<exists>j. c \<in> set ((ch(i := xs @ ys)) j))"
    if "c < SC_RES_INFO_NUM_MAX_CTNT" "c \<notin> set (l # fc)" for c
  proof -
    from that D(9) [of c] obtain j where "c \<in> set (ch j)" by auto
    with that cs have "c \<in> set ((ch(i := xs @ ys)) j)" by auto
    moreover have "ctnt_fields_ok c (ctnt ?rl c)"
      using that D(8) [of c] by (auto simp: rl1 ctnt_fields_ok_def)
    ultimately show ?thesis by blast
  qed
  have free: "\<forall>j \<in> set fm. ri_url (mg_common (mgmt ?rl j)) = [] \<and> child (mgmt ?rl j) = None"
    "\<forall>c \<in> set (l # fc). ri_url (ct_common (ctnt ?rl c)) = [] \<and> localpath (ctnt ?rl c) = []"
    using D(3,4) i(2) by (auto simp: rl1 zero_defs)
  have "res_tree ?rl fm (l # fc) (ch(i := xs @ ys))"
    unfolding res_tree_def using pools' free oks kids' live by blast
  with del show ?thesis by auto
qed

lemma list_upd_swap: "rl\<lparr>ctnt := a, mgmt := b\<rparr> = rl\<lparr>mgmt := b, ctnt := a\<rparr>" for rl :: sc_res_list
  by (cases rl) simp

lemma remove_loaded_tree:
  assumes t: "res_tree rl fm fc ch" and cs: "ch i = xs @ l # ys"
    and pre: "pre = (if xs = [] then None else Some (last xs))"
  shows "\<exists>rl'. sc_res_info_remove_loaded pre (Some l) rl = Some (HC_SUCCESS, rl')
           \<and> res_tree rl' fm (l # fc) (ch(i := xs @ ys))
           \<and> (\<forall>k. k \<noteq> l \<longrightarrow> (\<exists>s. ctnt rl' k = (ctnt rl k)\<lparr>siblings := s\<rparr>))
           \<and> (\<forall>j. mg_common (mgmt rl' j) = mg_common (mgmt rl j))"
proof -
  note D = res_treeD [OF t]
  have i: "i < SC_RES_INFO_NUM_MAX_MGMT" "i \<notin> set fm" and par: "parent (ctnt rl l) = Some i"
    using D(6) [of l i] cs by auto
  have oki: "mgmt_ok rl i (xs @ l # ys)" using D(5) [OF i] cs by simp
  let ?n = "\<lambda>k. siblings (ctnt rl k)"
  have chain: "sib_chain ?n (child (mgmt rl i)) (xs @ l # ys)" and dist: "distinct (xs @ l # ys)"
    and len: "unat (child_cnt (mgmt rl i)) = length (xs @ l # ys)"
    using oki by (auto simp: mgmt_ok_def)
  have self: "(\<lambda>k. (ctnt rl k)\<lparr>siblings := ?n k\<rparr>) = ctnt rl" by (rule ext) simp
  have nz: "child_cnt (mgmt rl i) \<noteq> 0" using len by auto
  show ?thesis
  proof (cases "xs = []")
    case True
    with chain have hd: "child (mgmt rl i) = Some l" "sib_chain ?n (siblings (ctnt rl l)) (xs @ ys)" by auto
    from tree_delete_unlinked [OF t cs refl hd(2)] self obtain rl' where
      "sc_res_info_del (rl\<lparr>mgmt := (mgmt rl)(i := (mgmt rl i)\<lparr>child := siblings (ctnt rl l),
          child_cnt := child_cnt (mgmt rl i) - 1\<rparr>), ctnt := ctnt rl\<rparr>) (RiCtnt l) = Some rl'"
      and tr: "res_tree rl' fm (l # fc) (ch(i := xs @ ys))" and fr: "\<forall>k. k \<noteq> l \<longrightarrow> ctnt rl' k = ctnt rl k"
      and mg: "\<forall>j. mg_common (mgmt rl' j) = mg_common (mgmt rl j)" by auto
    then have "sc_res_info_remove_loaded pre (Some l) rl = Some (HC_SUCCESS, rl')"
      using True pre par hd(1) nz by (simp add: sc_res_info_remove_loaded_def upd_mgmt_def)
    with tr fr mg show ?thesis by (metis sc_res_info_ctnt.surjective sc_res_info_ctnt.update_convs(3))
  next
    case False
    let ?p = "last xs"
    let ?n' = "?n(?p := ?n l)"
    have ge: "\<not> child_cnt (mgmt rl i) < 2"
      using len False by (cases xs) (auto simp: word_less_nat_alt)
    have "?p \<in> set (ch i)" using False cs by simp
    then have other: "j \<noteq> i \<Longrightarrow> c \<in> set (ch j) \<Longrightarrow> ?n' c = ?n c" for j c
      using child_unique [OF t, of ?p i j] by auto
    have eq: "(\<lambda>k. (ctnt rl k)\<lparr>siblings := ?n' k\<rparr>)
        = (ctnt rl)(?p := (ctnt rl ?p)\<lparr>siblings := siblings (ctnt rl l)\<rparr>)" by (rule ext) simp
    let ?rl = "rl\<lparr>mgmt := (mgmt rl)(i := (mgmt rl i)\<lparr>child := child (mgmt rl i),
          child_cnt := child_cnt (mgmt rl i) - 1\<rparr>), ctnt := (\<lambda>k. (ctnt rl k)\<lparr>siblings := ?n' k\<rparr>)\<rparr>"
    have "\<exists>rl'. sc_res_info_del ?rl (RiCtnt l) = Some rl' \<and> res_tree rl' fm (l # fc) (ch(i := xs @ ys))
        \<and> (\<forall>k. k \<noteq> l \<longrightarrow> ctnt rl' k = ctnt ?rl k) \<and> mgmt rl' = mgmt ?rl"
      by (rule tree_delete_unlinked [OF t cs refl sib_chain_unlink [OF chain dist False]]) (rule other)
    then obtain rl' where "sc_res_info_del ?rl (RiCtnt l) = Some rl'"
      and tr: "res_tree rl' fm (l # fc) (ch(i := xs @ ys))"
      and fr: "\<forall>k. k \<noteq> l \<longrightarrow> ctnt rl' k = (ctnt rl k)\<lparr>siblings := ?n' k\<rparr>"
      and mg: "\<forall>j. mg_common (mgmt rl' j) = mg_common (mgmt rl j)" by auto
    note this(1) [unfolded eq]
    then have "sc_res_info_remove_loaded pre (Some l) rl = Some (HC_SUCCESS, rl')"
      using False pre par ge by (simp add: sc_res_info_remove_loaded_def upd_mgmt_def upd_ctnt_def list_upd_swap)
    with tr fr mg show ?thesis by blast
  qed
qed

lemma find_loaded_chain:
  assumes "sib_chain (\<lambda>c. siblings (ctnt rl c)) p cs" and "length cs \<le> n"
  shows "(\<exists>xs l ys. cs = xs @ l # ys \<and> contains (cstr (ri_url (ct_common (ctnt rl l)))) vid
            \<and> (\<forall>x \<in> set xs. \<not> contains (cstr (ri_url (ct_common (ctnt rl x)))) vid)
            \<and> find_loaded n rl vid pre p = Some (if xs = [] then pre else Some (last xs), Some l))
       \<or> (\<forall>x \<in> set cs. \<not> contains (cstr (ri_url (ct_common (ctnt rl x)))) vid)
            \<and> (\<exists>q. find_loaded n rl vid pre p = Some (q, None))"
  using assms
proof (induction cs arbitrary: p n pre)
  case Nil
  then show ?case by simp
next
  case (Cons c cs)
  then obtain n' where n: "n = Suc n'" "length cs \<le> n'" by (cases n) auto
  have p: "p = Some c" "sib_chain (\<lambda>c. siblings (ctnt rl c)) (siblings (ctnt rl c)) cs"
    using Cons.prems(1) by auto
  show ?case
  proof (cases "contains (cstr (ri_url (ct_common (ctnt rl c)))) vid")
    case True
    then have "find_loaded n rl vid pre p = Some (pre, Some c)" by (simp add: n p)
    with True show ?thesis by (intro disjI1 exI [of _ "[]"] exI [of _ c] exI [of _ cs]) simp
  next
    case False
    from Cons.IH [OF p(2) n(2), of "Some c"] show ?thesis
    proof (elim disjE exE conjE)
      fix xs l ys
      assume "cs = xs @ l # ys" "contains (cstr (ri_url (ct_common (ctnt rl l)))) vid"
        "\<forall>x \<in> set xs. \<not> contains (cstr (ri_url (ct_common (ctnt rl x)))) vid"
        "find_loaded n' rl vid (Some c) (siblings (ctnt rl c)) = Some (if xs = [] then Some c else Some (last xs), Some l)"
      with False n p show ?thesis
        by (intro disjI1 exI [of _ "c # xs"] exI [of _ l] exI [of _ ys]) auto
    next
      fix q
      assume "\<forall>x \<in> set cs. \<not> contains (cstr (ri_url (ct_common (ctnt rl x)))) vid"
        "find_loaded n' rl vid (Some c) (siblings (ctnt rl c)) = Some (q, None)"
      with False n p show ?thesis by simp
    qed
  qed
qed

lemma last_slash_SomeD: "last_slash s k = Some n \<Longrightarrow> k \<le> n \<and> n < k + length s \<and> s ! (n - k) = CHR ''/''
    \<and> CHR ''/'' \<notin> set (drop (Suc (n - k)) s)"
proof (induction s arbitrary: k)
  case (Cons c s)
  have none: "last_slash s j = None \<Longrightarrow> CHR ''/'' \<notin> set s" for j
    by (induction s arbitrary: j) (auto split: option.splits if_splits)
  show ?case
  proof (cases "last_slash s (Suc k)")
    case None
    with Cons.prems none show ?thesis by (auto split: if_splits)
  next
    case (Some m)
    with Cons.prems have "m = n" by simp
    with Cons.IH [of "Suc k"] Some have "Suc k \<le> n \<and> n < Suc k + length s \<and> s ! (n - Suc k) = CHR ''/''
        \<and> CHR ''/'' \<notin> set (drop (Suc (n - Suc k)) s)" by simp
    moreover from this have "n - k = Suc (n - Suc k)" by linarith
    ultimately show ?thesis by simp
  qed
qed simp

text \<open>The identifier of a content entry: what follows the last slash of its URL.\<close>

definition vid_of :: "string \<Rightarrow> string option" where
  "vid_of url = map_option (\<lambda>k. drop (Suc k) url) (last_slash url 0)"

definition loaded_match :: "sc_res_list \<Rightarrow> nat \<Rightarrow> nat \<Rightarrow> bool" where
  "loaded_match rl l k \<longleftrightarrow> (\<exists>vid. vid_of (ri_url (ct_common (ctnt rl k))) = Some vid
     \<and> contains (ri_url (ct_common (ctnt rl l))) vid)"

lemma child_list_bound:
  assumes t: "res_tree rl fm fc ch" and i: "i < SC_RES_INFO_NUM_MAX_MGMT" "i \<notin> set fm"
  shows "length (ch i) \<le> SC_RES_INFO_NUM_MAX_CTNT"
proof -
  have "set (ch i) \<subseteq> {..<SC_RES_INFO_NUM_MAX_CTNT}" using res_treeD(6) [OF t, of _ i] by auto
  then have "card (set (ch i)) \<le> SC_RES_INFO_NUM_MAX_CTNT"
    using card_mono [of "{..<SC_RES_INFO_NUM_MAX_CTNT}" "set (ch i)"] by simp
  with res_treeD(5) [OF t i] show ?thesis by (simp add: mgmt_ok_def distinct_card)
qed

lemma live_url:
  assumes "res_tree rl fm fc ch" and "c < SC_RES_INFO_NUM_MAX_CTNT" and "c \<notin> set fc"
  shows "cstr (ri_url (ct_common (ctnt rl c))) = ri_url (ct_common (ctnt rl c))" "ri_url (ct_common (ctnt rl c)) \<noteq> []"
  using res_treeD(8) [OF assms] by (auto simp: ctnt_fields_ok_def url_ok_def)

lemma handle_cached_tree:
  assumes t: "res_tree rl fm fc ch" and i: "i < SC_RES_INFO_NUM_MAX_MGMT" "i \<notin> set fm"
    and k: "k < SC_RES_INFO_NUM_MAX_CTNT" "k \<notin> set fc" "k \<notin> set (ch i)"
  shows "(\<exists>xs l ys rl' s. sc_res_info_handle_cached (Some i) (Some k) rl = Some (HC_SUCCESS, rl')
            \<and> ch i = xs @ l # ys \<and> loaded_match rl l k \<and> (\<forall>x \<in> set xs. \<not> loaded_match rl x k)
            \<and> res_tree rl' fm (l # fc) (ch(i := xs @ ys))
            \<and> ctnt rl' k = (dup_fields (ctnt rl l) (ctnt rl k))\<lparr>siblings := s\<rparr>
            \<and> (\<forall>x. x \<noteq> l \<longrightarrow> x \<noteq> k \<longrightarrow> (\<exists>s. ctnt rl' x = (ctnt rl x)\<lparr>siblings := s\<rparr>))
            \<and> (\<forall>j. mg_common (mgmt rl' j) = mg_common (mgmt rl j)))
       \<or> (\<forall>l \<in> set (ch i). \<not> loaded_match rl l k)
            \<and> sc_res_info_handle_cached (Some i) (Some k) rl = Some (HC_ERR_INTERNAL, rl)"
proof (cases "last_slash (ri_url (ct_common (ctnt rl k))) 0")
  case None
  with live_url [OF t k(1,2)] show ?thesis
    by (simp add: sc_res_info_handle_cached_def loaded_match_def vid_of_def)
next
  case (Some n)
  let ?vid = "drop (Suc n) (ri_url (ct_common (ctnt rl k)))"
  have match: "loaded_match rl x k \<longleftrightarrow> contains (cstr (ri_url (ct_common (ctnt rl x)))) ?vid"
    if "x \<in> set (ch i)" for x
    using Some live_url(1) [OF t, of x] res_treeD(6) [OF t that] by (auto simp: loaded_match_def vid_of_def)
  have chain: "sib_chain (\<lambda>c. siblings (ctnt rl c)) (child (mgmt rl i)) (ch i)"
    using res_treeD(5) [OF t i] by (simp add: mgmt_ok_def)
  from find_loaded_chain [OF chain child_list_bound [OF t i], of ?vid None]
  show ?thesis
  proof (elim disjE exE conjE)
    fix xs l ys
    assume cs: "ch i = xs @ l # ys" and c: "contains (cstr (ri_url (ct_common (ctnt rl l)))) ?vid"
      "\<forall>x \<in> set xs. \<not> contains (cstr (ri_url (ct_common (ctnt rl x)))) ?vid"
      and fl: "find_loaded SC_RES_INFO_NUM_MAX_CTNT rl ?vid None (child (mgmt rl i))
                = Some (if xs = [] then None else Some (last xs), Some l)"
    have l: "l < SC_RES_INFO_NUM_MAX_CTNT" "l \<notin> set fc" using res_treeD(6) [OF t, of l i] cs by auto
    have lk: "l \<noteq> k" using k(3) cs by auto
    let ?d = "dup_fields (ctnt rl l)"
    have td: "res_tree (upd_ctnt k ?d rl) fm fc ch"
      by (rule tree_upd_ctnt [OF t k(1,2)]) (simp_all add: dup_fields_ok [OF res_treeD(8) [OF t l] res_treeD(8) [OF t k(1,2)]])
    from remove_loaded_tree [OF td cs refl] obtain rl' where
      r: "sc_res_info_remove_loaded (if xs = [] then None else Some (last xs)) (Some l) (upd_ctnt k ?d rl) = Some (HC_SUCCESS, rl')"
      and t': "res_tree rl' fm (l # fc) (ch(i := xs @ ys))"
      and f: "\<forall>j. j \<noteq> l \<longrightarrow> (\<exists>s. ctnt rl' j = (ctnt (upd_ctnt k ?d rl) j)\<lparr>siblings := s\<rparr>)"
      and mg: "\<forall>j. mg_common (mgmt rl' j) = mg_common (mgmt (upd_ctnt k ?d rl) j)" by blast
    have fr: "\<forall>x. x \<noteq> l \<longrightarrow> x \<noteq> k \<longrightarrow> (\<exists>s. ctnt rl' x = (ctnt rl x)\<lparr>siblings := s\<rparr>)"
    proof (intro allI impI)
      fix x assume "x \<noteq> l" "x \<noteq> k"
      with f have "\<exists>s. ctnt rl' x = (ctnt (upd_ctnt k ?d rl) x)\<lparr>siblings := s\<rparr>" by blast
      with \<open>x \<noteq> k\<close> show "\<exists>s. ctnt rl' x = (ctnt rl x)\<lparr>siblings := s\<rparr>" by (simp add: upd_ctnt_def)
    qed
    have mg': "\<forall>j. mg_common (mgmt rl' j) = mg_common (mgmt rl j)" using mg by (simp add: upd_ctnt_def)
    have h: "sc_res_info_handle_cached (Some i) (Some k) rl = Some (HC_SUCCESS, rl')"
      using Some live_url [OF t k(1,2)] fl r
      by (simp add: sc_res_info_handle_cached_def dup_ctnt_eq Let_def split del: if_split)
    from f lk obtain s where "ctnt rl' k = (ctnt (upd_ctnt k ?d rl) k)\<lparr>siblings := s\<rparr>" by metis
    then have s: "ctnt rl' k = (?d (ctnt rl k))\<lparr>siblings := s\<rparr>" by (simp add: upd_ctnt_def)
    have lm: "loaded_match rl l k" "\<forall>x \<in> set xs. \<not> loaded_match rl x k" using c match cs by auto
    show ?thesis
      by (rule disjI1, rule exI [of _ xs], rule exI [of _ l], rule exI [of _ ys], rule exI [of _ rl'],
          rule exI [of _ s]) (intro conjI h cs lm t' s fr mg')
  next
    fix q
    assume "\<forall>x \<in> set (ch i). \<not> contains (cstr (ri_url (ct_common (ctnt rl x)))) ?vid"
      "find_loaded SC_RES_INFO_NUM_MAX_CTNT rl ?vid None (child (mgmt rl i)) = Some (q, None)"
    with Some live_url [OF t k(1,2)] match show ?thesis
      by (simp add: sc_res_info_handle_cached_def)
  qed
qed

section \<open>Used and free slots\<close>

text \<open>The test of \<open>sc_res_list_process_mgmt\<close>: a slot whose \<open>id\<close> is not below the size of the
  array is free.\<close>

definition mgmt_used :: "sc_res_list \<Rightarrow> nat \<Rightarrow> bool" where
  "mgmt_used rl i \<longleftrightarrow> i < SC_RES_INFO_NUM_MAX_MGMT \<and>
     ri_id (mg_common (mgmt rl i)) < of_nat SC_RES_INFO_NUM_MAX_MGMT"

definition ctnt_used :: "sc_res_list \<Rightarrow> nat \<Rightarrow> bool" where
  "ctnt_used rl c \<longleftrightarrow> c < SC_RES_INFO_NUM_MAX_CTNT \<and>
     ri_id (ct_common (ctnt rl c)) < of_nat SC_RES_INFO_NUM_MAX_CTNT"

lemma free_chain_links:
  "free_chain nxt addr p fl \<Longrightarrow> i \<in> set fl \<Longrightarrow> nxt i = INVALID_PTR \<or> (\<exists>j \<in> set fl. nxt i = addr j)"
proof (induction fl arbitrary: p)
  case (Cons k fl)
  then show ?case by (cases fl) auto
qed simp

lemma invalid_ptr_big: "\<not> INVALID_PTR < 1024" "\<not> INVALID_PTR < 4096"
  by (simp_all add: INVALID_PTR_def word_less_nat_alt unsigned_minus_1_eq_mask mask_eq_exp_minus_1)

lemma mgmt_used_iff:
  assumes t: "res_tree rl fm fc ch"
  shows "mgmt_used rl i \<longleftrightarrow> i < SC_RES_INFO_NUM_MAX_MGMT \<and> i \<notin> set fm"
proof (cases "i \<in> set fm")
  case True
  have p: "mgmt_pool rl fm" using res_treeD(1) [OF t] .
  then have "ri_id (mg_common (mgmt rl i)) = INVALID_PTR \<or> (\<exists>j < SC_RES_INFO_NUM_MAX_MGMT. ri_id (mg_common (mgmt rl i)) = mgmt_ptr rl j)"
    using free_chain_links [of "\<lambda>i. ri_id (mg_common (mgmt rl i))" "mgmt_ptr rl" "mgmt_free rl", OF _ True]
    by (auto simp: mgmt_pool_def)
  then have "\<not> ri_id (mg_common (mgmt rl i)) < of_nat SC_RES_INFO_NUM_MAX_MGMT"
    using p invalid_ptr_big unat_mgmt_ptr [of rl] by (auto simp: mgmt_pool_def shm_ok_def hc_limits word_less_nat_alt)
  with True show ?thesis by (simp add: mgmt_used_def)
next
  case False
  then show ?thesis
    using res_treeD(5) [OF t, of i]
    by (auto simp: mgmt_used_def mgmt_ok_def word_less_nat_alt unat_of_nat_less hc_limits)
qed

lemma ctnt_used_iff:
  assumes t: "res_tree rl fm fc ch"
  shows "ctnt_used rl c \<longleftrightarrow> c < SC_RES_INFO_NUM_MAX_CTNT \<and> c \<notin> set fc"
proof (cases "c \<in> set fc")
  case True
  have p: "ctnt_pool rl fc" using res_treeD(2) [OF t] .
  then have "ri_id (ct_common (ctnt rl c)) = INVALID_PTR \<or> (\<exists>j < SC_RES_INFO_NUM_MAX_CTNT. ri_id (ct_common (ctnt rl c)) = ctnt_ptr rl j)"
    using free_chain_links [of "\<lambda>i. ri_id (ct_common (ctnt rl i))" "ctnt_ptr rl" "ctnt_free rl", OF _ True]
    by (auto simp: ctnt_pool_def)
  then have "\<not> ri_id (ct_common (ctnt rl c)) < of_nat SC_RES_INFO_NUM_MAX_CTNT"
    using p invalid_ptr_big unat_ctnt_ptr [of rl] by (auto simp: ctnt_pool_def shm_ok_def hc_limits word_less_nat_alt)
  with True show ?thesis by (simp add: ctnt_used_def)
next
  case False
  then show ?thesis
    using res_treeD(8) [OF t, of c]
    by (auto simp: ctnt_used_def ctnt_fields_ok_def word_less_nat_alt unat_of_nat_less hc_limits)
qed

section \<open>Reachable lists\<close>

text \<open>Every change the two processes make to the shared list: the operations of the client, and
  the flag updates of the client and of nginx. The notify flag is set on stored entries only.\<close>

inductive res_step :: "'w os \<Rightarrow> sc_res_list \<Rightarrow> sc_res_list \<Rightarrow> bool" for os :: "'w os" where
  origin: "is_cstr url \<Longrightarrow> sc_res_info_add_origin rl url = Some (r, p, rl') \<Longrightarrow> res_step os rl rl'"
| normal: "is_cstr url \<Longrightarrow> sc_res_info_add_normal rl url = Some (r, p, rl') \<Longrightarrow> res_step os rl rl'"
| ctrl_ld: "is_cstr url \<Longrightarrow> sc_res_info_add_ctrl_ld rl url = Some (r, p, rl') \<Longrightarrow> res_step os rl rl'"
| ctnt: "is_cstr url \<Longrightarrow> mgmt_used rl i \<Longrightarrow>
    sc_res_info_add_ctnt os rl (Some i) url w = Some ((r, p, rl'), w') \<Longrightarrow> res_step os rl rl'"
| cached: "mgmt_used rl i \<Longrightarrow> ctnt_used rl k \<Longrightarrow> parent (ctnt rl k) \<noteq> Some i \<Longrightarrow>
    sc_res_info_handle_cached (Some i) (Some k) rl = Some (r, rl') \<Longrightarrow> res_step os rl rl'"
| flag: "ctnt_used rl k \<Longrightarrow>
    f \<in> {sc_res_flag_set_stored, sc_res_flag_set_d_fail, sc_res_flag_set_i_fail,
         sc_res_flag_unset_d_fail, sc_res_flag_unset_i_fail} \<Longrightarrow> res_step os rl (upd_ctnt_ri k f rl)"
| notify: "ctnt_used rl k \<Longrightarrow> sc_res_flag_is_stored (ct_common (ctnt rl k)) \<Longrightarrow>
    res_step os rl (upd_ctnt_ri k sc_res_flag_set_notify rl)"

inductive res_reach :: "'w os \<Rightarrow> ulong \<Rightarrow> sc_res_list \<Rightarrow> bool" for os :: "'w os" and a :: ulong where
  init: "res_reach os a (init_list a)"
| step: "res_reach os a rl \<Longrightarrow> res_step os rl rl' \<Longrightarrow> res_reach os a rl'"

lemma add_mgmt_inv:
  assumes "res_inv rl" and "g \<in> mgmt_gens" and "is_cstr url"
    and "add_mgmt_with (get_mgmt_as g) care rl url = Some (r, p, rl')"
  shows "res_inv rl'"
  using assms add_mgmt_tree unfolding res_inv_def by metis

lemmas add_mgmt_variants = sc_res_info_add_normal_def sc_res_info_add_origin_def sc_res_info_add_ctrl_ld_def
  sc_res_info_get_mgmt_normal_def [abs_def] sc_res_info_get_mgmt_origin_def [abs_def]
  sc_res_info_get_mgmt_ctrl_ld_def [abs_def]

lemma add_ctnt_slot_inv:
  assumes "res_inv rl" and "mgmt_used rl i" and "is_cstr url" and "sc_res_info_permit_adding url"
    and "length url < HTTP_URL_MAX_LEN"
  shows "\<exists>r p rl'. add_ctnt_slot rl i url = Some (r, p, rl') \<and> res_inv rl'"
proof -
  from assms(1) obtain fm fc ch where t: "res_tree rl fm fc ch" by (auto simp: res_inv_def)
  with assms(2) have i: "i < SC_RES_INFO_NUM_MAX_MGMT" "i \<notin> set fm" by (auto simp: mgmt_used_iff)
  from add_ctnt_slot_tree [OF t i assms(3-5)] show ?thesis by (auto intro: res_invI)
qed

lemma add_ctnt_inv:
  assumes "res_inv rl" and "mgmt_used rl i" and "is_cstr url"
    and "sc_res_info_add_ctnt os rl (Some i) url w = Some ((r, p, rl'), w')"
  shows "res_inv rl'"
  using assms(4) assms(1) add_ctnt_slot_inv [OF assms(1-3)]
  by (auto simp: sc_res_info_add_ctnt_def bind_Some_conv split: if_splits prod.splits)

lemma add_ctnt_total:
  assumes "res_inv rl" and "mgmt_used rl i" and "is_cstr url"
  shows "sc_res_info_add_ctnt os rl (Some i) url w \<noteq> None"
proof -
  have "sc_snooping_do_del os (- 1) url w \<noteq> None" if "length url < HTTP_URL_MAX_LEN"
    using that strip_http_length [of url]
    by (auto simp: sc_snooping_do_del_def sc_snooping_initiate_action_def c2sp_req_pkt_def
        sc_res_copy_url_def Let_def wire_codes hc_limits split: prod.splits)
  then show ?thesis
    using add_ctnt_slot_inv [OF assms]
    by (auto simp: sc_res_info_add_ctnt_def bind_eq_None_conv split: prod.splits)
qed

lemma handle_cached_inv:
  assumes "res_inv rl" and "mgmt_used rl i" and "ctnt_used rl k" and "parent (ctnt rl k) \<noteq> Some i"
  shows "\<exists>r rl'. sc_res_info_handle_cached (Some i) (Some k) rl = Some (r, rl') \<and> res_inv rl'
           \<and> (r = HC_SUCCESS \<or> r = HC_ERR_INTERNAL)"
proof -
  from assms(1) obtain fm fc ch where t: "res_tree rl fm fc ch" by (auto simp: res_inv_def)
  have i: "i < SC_RES_INFO_NUM_MAX_MGMT" "i \<notin> set fm" and k: "k < SC_RES_INFO_NUM_MAX_CTNT" "k \<notin> set fc"
    using assms(2,3) mgmt_used_iff [OF t] ctnt_used_iff [OF t] by auto
  have "k \<notin> set (ch i)" using res_treeD(6) [OF t, of k i] assms(4) by auto
  from handle_cached_tree [OF t i k this] t show ?thesis unfolding res_inv_def by metis
qed

lemma flag_tree:
  assumes t: "res_tree rl fm fc ch" and k: "ctnt_used rl k"
    and f: "\<And>ri. \<exists>x. f ri = ri\<lparr>ri_flag := x\<rparr>"
      "sc_res_flag_is_stored (ct_common (ctnt rl k)) \<Longrightarrow> sc_res_flag_is_stored (f (ct_common (ctnt rl k)))"
      "\<And>ri. (sc_res_flag_is_notify ri \<longrightarrow> sc_res_flag_is_stored ri) \<Longrightarrow> ri = ct_common (ctnt rl k) \<Longrightarrow>
         sc_res_flag_is_notify (f ri) \<Longrightarrow> sc_res_flag_is_stored (f ri)"
  shows "res_tree (upd_ctnt_ri k f rl) fm fc ch"
proof -
  from k ctnt_used_iff [OF t] have k': "k < SC_RES_INFO_NUM_MAX_CTNT" "k \<notin> set fc" by auto
  obtain x where x: "f (ct_common (ctnt rl k)) = (ct_common (ctnt rl k))\<lparr>ri_flag := x\<rparr>" using f(1) by blast
  have "ctnt_fields_ok k ((ctnt rl k)\<lparr>ct_common := f (ct_common (ctnt rl k))\<rparr>)"
    using res_treeD(8) [OF t k'] f(3) [of "ct_common (ctnt rl k)"] by (auto simp: ctnt_fields_ok_def x kind_defs)
  then show ?thesis
    unfolding upd_ctnt_ri_def by (intro tree_upd_ctnt [OF t k']) (use f(2) in auto)
qed

lemma flag_inv:
  assumes inv: "res_inv rl" and k: "ctnt_used rl k"
    and f: "\<And>ri. \<exists>x. f ri = ri\<lparr>ri_flag := x\<rparr>"
      "sc_res_flag_is_stored (ct_common (ctnt rl k)) \<Longrightarrow> sc_res_flag_is_stored (f (ct_common (ctnt rl k)))"
      "\<And>ri. (sc_res_flag_is_notify ri \<longrightarrow> sc_res_flag_is_stored ri) \<Longrightarrow> ri = ct_common (ctnt rl k) \<Longrightarrow>
         sc_res_flag_is_notify (f ri) \<Longrightarrow> sc_res_flag_is_stored (f ri)"
  shows "res_inv (upd_ctnt_ri k f rl)"
proof -
  from inv obtain fm fc ch where "res_tree rl fm fc ch" by (auto simp: res_inv_def)
  from flag_tree [OF this k f] show ?thesis by (rule res_invI)
qed

lemma res_step_inv: "res_step os rl rl' \<Longrightarrow> res_inv rl \<Longrightarrow> res_inv rl'"
proof (induction rule: res_step.induct)
  case (flag rl k f)
  show ?case
    by (rule flag_inv [OF flag(3,1)]) (use flag(2) in \<open>auto simp: flag_updates flag_bits flag_exp bit_simps\<close>)
next
  case (notify rl k)
  show ?case by (rule flag_inv [OF notify(3,1)]) (use notify(2) in \<open>auto simp: flag_updates flag_bits flag_exp bit_simps\<close>)
next
  case (cached rl i k r rl')
  with handle_cached_inv [of rl i k] show ?case by auto
qed (auto intro: add_mgmt_inv add_ctnt_inv simp: add_mgmt_variants mgmt_gens_def)

lemma res_reach_inv: "res_reach os a rl \<Longrightarrow> shm_ok a \<Longrightarrow> res_inv rl"
  by (induction rule: res_reach.induct) (auto intro: res_step_inv res_invI [OF init_res_tree])

section \<open>Properties\<close>

lemma child_iff:
  assumes "res_tree rl fm fc ch"
  shows "l \<in> set (ch i) \<longleftrightarrow> ctnt_used rl l \<and> parent (ctnt rl l) = Some i"
  using res_treeD(6,9) [OF assms] by (metis ctnt_used_iff [OF assms] option.inject)

lemma find_mgmt_after_add:
  assumes t: "res_tree rl fm fc ch" and none: "sc_res_info_find_mgmt rl u = None"
    and m: "mgmt rl' = (mgmt rl)(i := m)" and i: "i < SC_RES_INFO_NUM_MAX_MGMT" and u: "cstr (ri_url (mg_common m)) = u"
  shows "sc_res_info_find_mgmt rl' u = Some i"
  unfolding sc_res_info_find_mgmt_def
  by (rule find_from_eqI) (use none i u in \<open>auto simp: m sc_res_info_find_mgmt_def find_from_None_iff\<close>)

lemma free_slot_iff: "mgmt_pool rl fm \<Longrightarrow> fm \<noteq> [] \<longleftrightarrow> mgmt_cnt rl < int SC_RES_INFO_NUM_MAX_MGMT"
  by (auto simp: mgmt_pool_def)

text \<open>A small list for the examples: an origin in slot 1023 with a content in slot 4095, and a
  loader in slot 1022.\<close>

definition demo_addr :: ulong where "demo_addr = 0x7f0000000000"
definition demo_origin :: string where "demo_origin = ''v.youku.com/v_show/id_XNjgyMDk5MjMy.html''"
definition demo_content :: string where "demo_content = ''1.2.3.4/youku/657F3/030008-A.mp4''"

lemma demo_shm: "shm_ok demo_addr"
  by (simp add: shm_ok_def SC_RES_SHARE_MEM_SIZE_def demo_addr_def)

lemma demo_urls:
  "is_cstr demo_origin" "sc_res_info_permit_adding demo_origin" "length demo_origin < HTTP_URL_MAX_LEN" "site_known demo_origin"
  "is_cstr demo_content" "sc_res_info_permit_adding demo_content" "length demo_content < HTTP_URL_MAX_LEN"
  by (simp_all add: demo_origin_def demo_content_def site_tests contains_def hc_limits site_known_def
      strip_http_def strncmp_eq_def HTTP_URL_PREFIX_def)

lemma rev_upt_1024: "rev [0..<1024] = 1023 # 1022 # rev [0..<(1022 :: nat)]"
  using upt_Suc_append [of 0 "1023 :: nat"] upt_Suc_append [of 0 "1022 :: nat"] by (simp del: upt_Suc)

lemma rev_upt_4096: "rev [0..<4096] = 4095 # rev [0..<(4095 :: nat)]"
  using upt_Suc_append [of 0 "4095 :: nat"] by (simp del: upt_Suc)

lemma demo_add_mgmt:
  assumes t: "res_tree rl (i # fm) fc ch" and g: "g \<in> mgmt_gens"
  shows "\<exists>rl' mt. add_mgmt_with (get_mgmt_as g) care rl demo_origin = Some (0, Some i, rl') \<and> res_tree rl' fm fc ch
           \<and> mgmt rl' = (mgmt rl)(i := new_mgmt i g demo_origin SC_RES_SITE_YOUKU mt) \<and> ctnt rl' = ctnt rl"
proof -
  from add_mgmt_total [OF t g demo_urls(1), of care] demo_urls(2-4) obtain p rl'
    where a: "add_mgmt_with (get_mgmt_as g) care rl demo_origin = Some (0, p, rl')" by auto
  have "site_of demo_origin = SC_RES_SITE_YOUKU"
    by (simp add: site_of_def demo_origin_def strip_http_def strncmp_eq_def HTTP_URL_PREFIX_def hc_limits site_tests contains_def)
  with add_mgmt_tree [OF t g demo_urls(1) a] a show ?thesis by auto
qed

lemma demo_list:
  "\<exists>rl. res_reach scripted demo_addr rl \<and> mgmt_used rl 1022 \<and> mgmt_used rl 1023 \<and> ctnt_used rl 4095
     \<and> parent (ctnt rl 4095) = Some 1023 \<and> ri_url (ct_common (ctnt rl 4095)) = demo_content
     \<and> ri_site (mg_common (mgmt rl 1022)) = SC_RES_SITE_YOUKU
     \<and> (\<exists>ch. res_tree rl (rev [0..<1022]) (rev [0..<4095]) ch)
     \<and> sc_res_gen_is_origin (Some (mg_common (mgmt rl 1023))) \<and> sc_res_gen_is_ctrl_ld (Some (mg_common (mgmt rl 1022)))
     \<and> ri_url (mg_common (mgmt rl 1023)) = demo_origin
     \<and> ri_site (ct_common (ctnt rl 4095)) = SC_RES_SITE_YOUKU \<and> \<not> sc_res_flag_is_stored (ct_common (ctnt rl 4095))
     \<and> \<not> sc_res_flag_is_i_fail (ct_common (ctnt rl 4095)) \<and> \<not> sc_res_flag_is_d_fail (ct_common (ctnt rl 4095))"
proof -
  let ?fc = "rev [0..<4096]" and ?ch = "\<lambda>_. []" and ?w = "\<lparr>answers = [], sent = [], opened = 0, closed = 0\<rparr>"
  have t0: "res_tree (init_list demo_addr) (1023 # 1022 # rev [0..<1022]) (4095 # rev [0..<4095]) ?ch"
    using init_res_tree [OF demo_shm] by (simp add: hc_limits rev_upt_1024 rev_upt_4096 del: upt_Suc)
  from demo_add_mgmt [OF t0, of SC_RES_GEN_T_ORIGIN True] obtain rl1 mt1 where
    a1: "add_mgmt_with (get_mgmt_as SC_RES_GEN_T_ORIGIN) True (init_list demo_addr) demo_origin = Some (0, Some 1023, rl1)"
    and t1: "res_tree rl1 (1022 # rev [0..<1022]) (4095 # rev [0..<4095]) ?ch"
    and m1: "mgmt rl1 1023 = new_mgmt 1023 SC_RES_GEN_T_ORIGIN demo_origin SC_RES_SITE_YOUKU mt1"
    by (auto simp: mgmt_gens_def)
  have lp: "local_path_ok (mgmt rl1 1023) demo_content" and st: "strip_http demo_content = demo_content"
    by (simp_all add: m1 new_mgmt_def local_path_ok_def demo_content_def strip_http_def strncmp_eq_def
        HTTP_URL_PREFIX_def hc_limits)
  from add_ctnt_slot_tree [OF t1 _ _ demo_urls(5-7), of 1023] lp obtain rl2 ch2 mt where
    a2: "add_ctnt_slot rl1 1023 demo_content = Some (0, Some 4095, rl2)"
    and t2: "res_tree rl2 (1022 # rev [0..<1022]) (rev [0..<4095]) ch2"
    and c2: "ctnt rl2 4095 = (snd (fill_ctnt (mgmt rl1 1023) (strip_http demo_content) mt (fresh_ctnt 4095)))
               \<lparr>siblings := child (mgmt rl1 1023), parent := Some 1023\<rparr>"
    and g2: "mg_common (mgmt rl2 1023) = mg_common (mgmt rl1 1023)"
    by (auto simp: hc_limits)
  have so: "strip_http demo_origin = demo_origin"
    by (simp add: demo_origin_def strip_http_def strncmp_eq_def HTTP_URL_PREFIX_def hc_limits)
  have u1: "mgmt_used rl1 1023" by (simp add: mgmt_used_iff [OF t1] hc_limits)
  have s2: "sc_res_info_add_ctnt scripted rl1 (Some 1023) demo_content ?w = Some ((0, Some 4095, rl2), ?w)"
    using demo_urls(6,7) a2 m1 by (simp add: sc_res_info_add_ctnt_def new_mgmt_def)
  from demo_add_mgmt [OF t2, of SC_RES_GEN_T_CTRL_LD False] obtain rl3 where
    a3: "add_mgmt_with (get_mgmt_as SC_RES_GEN_T_CTRL_LD) False rl2 demo_origin = Some (0, Some 1022, rl3)"
    and t3: "res_tree rl3 (rev [0..<1022]) (rev [0..<4095]) ch2" and c3: "ctnt rl3 = ctnt rl2"
    and m3: "ri_site (mg_common (mgmt rl3 1022)) = SC_RES_SITE_YOUKU"
      "sc_res_gen_is_ctrl_ld (Some (mg_common (mgmt rl3 1022)))" "mgmt rl3 1023 = mgmt rl2 1023"
    by (auto simp: mgmt_gens_def new_mgmt_def)
  have o3: "sc_res_gen_is_origin (Some (mg_common (mgmt rl3 1023)))" "ri_url (mg_common (mgmt rl3 1023)) = demo_origin"
    using m3(3) g2 m1 so by (simp_all add: new_mgmt_def)
  obtain ret ct where f: "fill_ctnt (mgmt rl1 1023) (strip_http demo_content) mt (fresh_ctnt 4095) = (ret, ct)" by fastforce
  have fl: "ri_site (ct_common (ctnt rl2 4095)) = SC_RES_SITE_YOUKU" "\<not> sc_res_flag_is_stored (ct_common (ctnt rl2 4095))"
    "\<not> sc_res_flag_is_i_fail (ct_common (ctnt rl2 4095))" "\<not> sc_res_flag_is_d_fail (ct_common (ctnt rl2 4095))"
    using fill_ctnt_fields [OF f] f c2 m1 by (simp_all add: new_mgmt_def)
  have "res_reach scripted demo_addr rl3"
    by (rule res_reach.step [OF res_reach.step [OF res_reach.step [OF res_reach.init
          res_step.origin [OF demo_urls(1)]] res_step.ctnt [OF demo_urls(5) u1 s2]] res_step.ctrl_ld [OF demo_urls(1)]])
      (use a1 a3 in \<open>simp_all add: add_mgmt_variants\<close>)
  moreover have "ri_url (ct_common (ctnt rl2 4095)) = demo_content"
    using c2 st fill_ctnt_fields(3) [of "mgmt rl1 1023" demo_content mt 4095] by (simp add: prod_eq_iff)
  ultimately show ?thesis
    using t3 c2 c3 m3 o3 fl by (auto simp: mgmt_used_iff [OF t3] ctnt_used_iff [OF t3] hc_limits intro!: exI [of _ rl3])
qed

text \<open>C17. The invariant of the shared resource list: whatever sequence of additions, merges of
  cached entries and flag updates, by the client or by nginx, led from the freshly initialised
  segment to the list, both free lists are sound and count right, every used slot carries its own
  index and its kind, the child list of each management entry is a chain of distinct used content
  entries of the counted length that point back to it, URLs and local paths are terminated and
  confined, entries of a loader are stored, and only stored entries have been notified.\<close>

theorem resource_list_invariant:
  assumes "shm_ok a" and "res_reach os a rl"
  shows "res_inv rl"
  using res_reach_inv assms by blast

theorem resource_list_invariant_witness:
  "\<exists>rl. res_reach scripted demo_addr rl \<and> ctnt_used rl 4095 \<and> res_inv rl"
  using demo_list resource_list_invariant [OF demo_shm] by blast

text \<open>No operation on the list faults in such a state: no link leads outside the arrays, no
  buffer overflows and the walk over the siblings ends.\<close>

lemma list_operations_safe:
  assumes "res_inv rl" and "is_cstr url" and "mgmt_used rl i" and "ctnt_used rl k"
    and "parent (ctnt rl k) \<noteq> Some i"
  shows "sc_res_info_add_origin rl url \<noteq> None \<and> sc_res_info_add_normal rl url \<noteq> None
       \<and> sc_res_info_add_ctrl_ld rl url \<noteq> None
       \<and> sc_res_info_handle_cached (Some i) (Some k) rl \<noteq> None
       \<and> sc_res_info_add_ctnt os rl (Some i) url w \<noteq> None"
proof -
  from assms(1) obtain fm fc ch where t: "res_tree rl fm fc ch" by (auto simp: res_inv_def)
  have "add_mgmt_with (get_mgmt_as g) care rl url \<noteq> None" if "g \<in> mgmt_gens" for g care
    using add_mgmt_total [OF t that assms(2)] by (metis option.distinct(1))
  then have "sc_res_info_add_origin rl url \<noteq> None" "sc_res_info_add_normal rl url \<noteq> None"
    "sc_res_info_add_ctrl_ld rl url \<noteq> None" by (auto simp: add_mgmt_variants mgmt_gens_def)
  moreover have "sc_res_info_handle_cached (Some i) (Some k) rl \<noteq> None"
    using handle_cached_inv [OF assms(1,3-5)] by (metis option.distinct(1))
  moreover have "sc_res_info_add_ctnt os rl (Some i) url w \<noteq> None" by (rule add_ctnt_total [OF assms(1,3,2)])
  ultimately show ?thesis by blast
qed

text \<open>When an origin is accepted, and that a second request for it finds it: on a sound list
  \<open>sc_res_info_add_origin\<close> succeeds exactly on the URLs of a known site that fit, while a slot is
  free, and afterwards \<open>sc_res_info_find_mgmt\<close> returns the new entry, which is an unused origin.\<close>

lemma origin_added_is_found:
  assumes "res_inv rl" and "is_cstr url" and "sc_res_info_add_origin rl url = Some (r, p, rl')"
    and "sc_res_info_find_mgmt rl (strip_http url) = None"
  shows "(r = 0 \<longleftrightarrow> sc_res_info_permit_adding url \<and> length url < HTTP_URL_MAX_LEN \<and> site_known url
            \<and> mgmt_cnt rl < int SC_RES_INFO_NUM_MAX_MGMT)
       \<and> (r = 0 \<longrightarrow> (\<exists>i. p = Some i \<and> sc_res_info_find_mgmt rl' (strip_http url) = Some i
            \<and> mgmt_used rl' i \<and> \<not> mgmt_used rl i \<and> child (mgmt rl' i) = None
            \<and> sc_res_gen_is_origin (Some (mg_common (mgmt rl' i)))))"
proof -
  from assms(1) obtain fm fc ch where t: "res_tree rl fm fc ch" by (auto simp: res_inv_def)
  have g: "SC_RES_GEN_T_ORIGIN \<in> mgmt_gens" by (simp add: mgmt_gens_def)
  have add: "add_mgmt_with (get_mgmt_as SC_RES_GEN_T_ORIGIN) True rl url = Some (r, p, rl')"
    using assms(3) by (simp add: add_mgmt_variants)
  have iff: "r = 0 \<longleftrightarrow> sc_res_info_permit_adding url \<and> length url < HTTP_URL_MAX_LEN \<and> site_known url
      \<and> mgmt_cnt rl < int SC_RES_INFO_NUM_MAX_MGMT"
    using add_mgmt_total [OF t g assms(2), of True] add free_slot_iff [OF res_treeD(1) [OF t]] by auto
  moreover have "\<exists>i. p = Some i \<and> sc_res_info_find_mgmt rl' (strip_http url) = Some i
      \<and> mgmt_used rl' i \<and> \<not> mgmt_used rl i \<and> child (mgmt rl' i) = None
      \<and> sc_res_gen_is_origin (Some (mg_common (mgmt rl' i)))" if "r = 0"
  proof -
    from add_mgmt_tree [OF t g assms(2) add] that obtain i fm' mt where fm: "fm = i # fm'" "p = Some i"
      and t': "res_tree rl' fm' fc ch" and m: "mgmt rl' = (mgmt rl)(i := new_mgmt i SC_RES_GEN_T_ORIGIN url (site_of url) mt)"
      by auto
    have i: "i < SC_RES_INFO_NUM_MAX_MGMT" "i \<notin> set fm'" using res_treeD(1) [OF t] fm by (auto simp: mgmt_pool_def)
    have "cstr (strip_http url) = strip_http url" using assms(2) by simp
    then have "sc_res_info_find_mgmt rl' (strip_http url) = Some i"
      using find_mgmt_after_add [OF t assms(4) m i(1)] by (simp add: new_mgmt_def)
    with fm i mgmt_used_iff [OF t] mgmt_used_iff [OF t'] show ?thesis by (simp add: m new_mgmt_def zero_defs)
  qed
  ultimately show ?thesis by blast
qed

text \<open>A new content entry is linked at the head of its parent's children, inherits the site,
  gets a local path that stays inside the cache root, and starts with no failure flag; it counts
  as stored exactly when its parent is a loader, and is never marked as notified.\<close>

lemma content_linked:
  assumes "res_inv rl" and "mgmt_used rl i" and "is_cstr url"
    and "sc_res_info_add_ctnt os rl (Some i) url w = Some ((0, p, rl'), w')"
  shows "\<exists>c. p = Some c \<and> \<not> ctnt_used rl c \<and> ctnt_used rl' c \<and> res_inv rl'
           \<and> child (mgmt rl' i) = Some c \<and> siblings (ctnt rl' c) = child (mgmt rl i)
           \<and> parent (ctnt rl' c) = Some i \<and> child_cnt (mgmt rl' i) = child_cnt (mgmt rl i) + 1
           \<and> ri_url (ct_common (ctnt rl' c)) = strip_http url
           \<and> ri_site (ct_common (ctnt rl' c)) = ri_site (mg_common (mgmt rl i))
           \<and> confined (cstr (localpath (ctnt rl' c)))
           \<and> (sc_res_flag_is_stored (ct_common (ctnt rl' c)) \<longleftrightarrow> sc_res_gen_is_ctrl_ld (Some (mg_common (mgmt rl i))))
           \<and> \<not> sc_res_flag_is_i_fail (ct_common (ctnt rl' c)) \<and> \<not> sc_res_flag_is_notify (ct_common (ctnt rl' c))"
proof -
  from assms(1) obtain fm fc ch where t: "res_tree rl fm fc ch" by (auto simp: res_inv_def)
  have i: "i < SC_RES_INFO_NUM_MAX_MGMT" "i \<notin> set fm" using assms(2) by (auto simp: mgmt_used_iff [OF t])
  from assms(4) have a: "sc_res_info_permit_adding url" "length url < HTTP_URL_MAX_LEN"
    and s: "add_ctnt_slot rl i url = Some (0, p, rl')"
    by (auto simp: sc_res_info_add_ctnt_def bind_Some_conv split: if_splits)
  from add_ctnt_slot_tree [OF t i assms(3) a] s obtain c fc' mt where fc: "fc = c # fc'" "p = Some c"
    and t': "res_tree rl' fm fc' (ch(i := c # ch i))"
    and c: "ctnt rl' c = (snd (fill_ctnt (mgmt rl i) (strip_http url) mt (fresh_ctnt c)))
              \<lparr>siblings := child (mgmt rl i), parent := Some i\<rparr>" by auto
  obtain ret ct where f: "fill_ctnt (mgmt rl i) (strip_http url) mt (fresh_ctnt c) = (ret, ct)"
    by (cases "fill_ctnt (mgmt rl i) (strip_http url) mt (fresh_ctnt c)")
  have ci: "c < SC_RES_INFO_NUM_MAX_CTNT" "c \<notin> set fc'" using res_treeD(2) [OF t] fc by (auto simp: ctnt_pool_def)
  have m: "mgmt_ok rl i (ch i)" "mgmt_ok rl' i (c # ch i)"
    using res_treeD(5) [OF t i] res_treeD(5) [OF t' i] by auto
  then have "child (mgmt rl' i) = Some c" "unat (child_cnt (mgmt rl' i)) = unat (child_cnt (mgmt rl i)) + 1"
    by (auto simp: mgmt_ok_def)
  moreover have "unat (child_cnt (mgmt rl i) + 1) = unat (child_cnt (mgmt rl i)) + 1"
    using unat_incr [of "child_cnt (mgmt rl i)"] children_bound [OF t ci(1) _ i] m(1) fc by (simp add: mgmt_ok_def hc_limits)
  ultimately have "child (mgmt rl' i) = Some c" "child_cnt (mgmt rl' i) = child_cnt (mgmt rl i) + 1"
    by (simp_all add: word_unat_eq_iff)
  moreover have "confined (cstr (localpath (ctnt rl' c)))" using res_treeD(8) [OF t' ci] by (simp add: ctnt_fields_ok_def)
  ultimately show ?thesis
    using fc ci c f fill_ctnt_fields [OF f] res_invI [OF t'] ctnt_used_iff [OF t] ctnt_used_iff [OF t'] by auto
qed

text \<open>C23. Taking over a cached file: \<open>sc_res_info_handle_cached\<close> walks along the chain of the loader's
  entries to the first one whose URL contains the identifier of the parsed entry. If there is one,
  the parsed entry takes its URL, local path and stored mark, that entry alone is unlinked (the
  entries before and behind it stay in the chain, in order) and its slot is free again, and the
  loader counts one child less; if there is none the list is unchanged.\<close>

theorem cached_entry_taken_over:
  assumes "res_inv rl" and "mgmt_used rl i" and "ctnt_used rl k" and "parent (ctnt rl k) \<noteq> Some i"
    and "sc_res_info_handle_cached (Some i) (Some k) rl = Some (r, rl')"
    and "sib_chain (\<lambda>c. siblings (ctnt rl c)) (child (mgmt rl i)) cs"
  shows "case dropWhile (\<lambda>l. \<not> loaded_match rl l k) cs of
       [] \<Rightarrow> r = HC_ERR_INTERNAL \<and> rl' = rl
     | l # ys \<Rightarrow> r = HC_SUCCESS \<and> res_inv rl' \<and> ctnt_used rl l \<and> \<not> ctnt_used rl' l
         \<and> sib_chain (\<lambda>c. siblings (ctnt rl' c)) (child (mgmt rl' i)) (takeWhile (\<lambda>l. \<not> loaded_match rl l k) cs @ ys)
         \<and> ri_url (ct_common (ctnt rl' k)) = ri_url (ct_common (ctnt rl l))
         \<and> localpath (ctnt rl' k) = localpath (ctnt rl l)
         \<and> (sc_res_flag_is_stored (ct_common (ctnt rl' k)) \<longleftrightarrow>
              sc_res_flag_is_stored (ct_common (ctnt rl k)) \<or> sc_res_flag_is_stored (ct_common (ctnt rl l)))
         \<and> unat (child_cnt (mgmt rl' i)) + 1 = unat (child_cnt (mgmt rl i))"
proof -
  from assms(1) obtain fm fc ch where t: "res_tree rl fm fc ch" by (auto simp: res_inv_def)
  have i: "i < SC_RES_INFO_NUM_MAX_MGMT" "i \<notin> set fm" and k: "k < SC_RES_INFO_NUM_MAX_CTNT" "k \<notin> set fc" "k \<notin> set (ch i)"
    using assms(2-4) mgmt_used_iff [OF t] ctnt_used_iff [OF t] child_iff [OF t] by auto
  have ch: "ch i = cs" using sib_chain_unique [OF _ assms(6)] res_treeD(5) [OF t i] by (simp add: mgmt_ok_def)
  from handle_cached_tree [OF t i k] show ?thesis
  proof (elim disjE exE conjE)
    fix xs l ys rl'' s
    assume h: "sc_res_info_handle_cached (Some i) (Some k) rl = Some (HC_SUCCESS, rl'')" and cs: "ch i = xs @ l # ys"
      and lm: "loaded_match rl l k" "\<forall>x \<in> set xs. \<not> loaded_match rl x k" and t': "res_tree rl'' fm (l # fc) (ch(i := xs @ ys))"
      and d: "ctnt rl'' k = (dup_fields (ctnt rl l) (ctnt rl k))\<lparr>siblings := s\<rparr>"
    have l: "ctnt_used rl l" "\<not> ctnt_used rl'' l"
      using child_iff [OF t, of l i] cs ctnt_used_iff [OF t', of l] by auto
    have n: "unat (child_cnt (mgmt rl'' i)) + 1 = unat (child_cnt (mgmt rl i))"
      and c: "sib_chain (\<lambda>c. siblings (ctnt rl'' c)) (child (mgmt rl'' i)) (xs @ ys)"
      using res_treeD(5) [OF t i] res_treeD(5) [OF t' i] cs by (simp_all add: mgmt_ok_def)
    have "r = HC_SUCCESS" "rl' = rl''" using h assms(5) by auto
    moreover have "dropWhile (\<lambda>l. \<not> loaded_match rl l k) cs = l # ys" "takeWhile (\<lambda>l. \<not> loaded_match rl l k) cs = xs"
      using cs ch lm by (simp_all add: dropWhile_append takeWhile_append)
    ultimately show ?thesis
      using l n c d res_invI [OF t'] by simp
  next
    assume no: "\<forall>l \<in> set (ch i). \<not> loaded_match rl l k"
      and h: "sc_res_info_handle_cached (Some i) (Some k) rl = Some (HC_ERR_INTERNAL, rl)"
    from no have d: "dropWhile (\<lambda>l. \<not> loaded_match rl l k) cs = []" unfolding ch dropWhile_eq_Nil_conv .
    show ?thesis unfolding d using assms(5) h by simp
  qed
qed

theorem cached_entry_taken_over_witness:
  "\<exists>rl rl' l. sc_res_info_handle_cached (Some 1022) (Some 4095) rl = Some (HC_SUCCESS, rl') \<and> res_inv rl'
     \<and> ctnt_used rl l \<and> \<not> ctnt_used rl' l \<and> localpath (ctnt rl' 4095) = localpath (ctnt rl l)"
proof -
  obtain rl ch where u: "mgmt_used rl 1022" and p: "parent (ctnt rl 4095) = Some 1023"
    and url: "ri_url (ct_common (ctnt rl 4095)) = demo_content" and site: "ri_site (mg_common (mgmt rl 1022)) = SC_RES_SITE_YOUKU"
    and t: "res_tree rl (rev [0..<1022]) (4094 # rev [0..<4094]) ch"
    using demo_list upt_Suc_append [of 0 "4094 :: nat"] by (auto simp del: upt_Suc)
  have "local_path_ok (mgmt rl 1022) demo_content" and st: "strip_http demo_content = demo_content"
    by (simp_all add: site local_path_ok_def demo_content_def strip_http_def strncmp_eq_def HTTP_URL_PREFIX_def hc_limits)
  with add_ctnt_slot_tree [OF t _ _ demo_urls(5-7), of 1022] obtain rl1 mt
    where t1: "res_tree rl1 (rev [0..<1022]) (rev [0..<4094]) (ch(1022 := 4094 # ch 1022))"
      and k: "ctnt rl1 4095 = ctnt rl 4095"
      and c: "ctnt rl1 4094 = (snd (fill_ctnt (mgmt rl 1022) demo_content mt (fresh_ctnt 4094)))
                \<lparr>siblings := child (mgmt rl 1022), parent := Some 1022\<rparr>" by (auto simp: hc_limits)
  have u4: "ri_url (ct_common (ctnt rl1 4094)) = demo_content"
    using c fill_ctnt_fields(3) [of "mgmt rl 1022" demo_content mt 4094] by (simp add: prod_eq_iff)
  have us: "mgmt_used rl1 1022" "ctnt_used rl1 4095" "ctnt_used rl1 4094"
    by (simp_all add: mgmt_used_iff [OF t1] ctnt_used_iff [OF t1] hc_limits)
  have pk: "parent (ctnt rl1 4095) \<noteq> Some 1022" "parent (ctnt rl1 4094) = Some 1022" using p k c by auto
  have lm: "loaded_match rl1 4094 4095"
    using url u4 k by (simp add: loaded_match_def vid_of_def demo_content_def contains_def)
  obtain r rl' where h: "sc_res_info_handle_cached (Some 1022) (Some 4095) rl1 = Some (r, rl')"
    using handle_cached_inv [OF res_invI [OF t1] us(1,2) pk(1)] by blast
  have "\<exists>l. ctnt_used rl1 l \<and> parent (ctnt rl1 l) = Some 1022 \<and> loaded_match rl1 l 4095" using us(3) pk(2) lm by blast
  have ch: "sib_chain (\<lambda>c. siblings (ctnt rl1 c)) (child (mgmt rl1 1022)) (4094 # ch 1022)"
    using res_treeD(5) [OF t1, of 1022] by (simp add: mgmt_ok_def hc_limits)
  from cached_entry_taken_over [OF res_invI [OF t1] us(1,2) pk(1) h ch] h lm show ?thesis by auto
qed

end
