(* ===== verification/Net_Util.thy ===== *)
theory Net_Util
  imports Os_World
begin

text \<open>
  \<^verbatim>\<open>util/net_util.c\<close>: connecting with retries, the HTTP status-line automaton and the
  conversion of JSON escapes. The automaton is the source's \<open>switch\<close> on \<open>state\<close>, one
  equation per case; its meaning is given by the grammar \<open>status_line\<close>, and the properties
  show that it accepts exactly that grammar.
\<close>

section \<open>Sockets\<close>

definition TCP_CONN_MAX_RETRY_TIME :: nat where "TCP_CONN_MAX_RETRY_TIME = 16"

text \<open>The loop starts at \<open>nsec = 1\<close> and doubles; \<open>nsec = 0\<close> does not occur.\<close>

function conn_retry_loop :: "'w os \<Rightarrow> int \<Rightarrow> string \<Rightarrow> nat \<Rightarrow> 'w \<Rightarrow> int \<times> 'w" where
  "conn_retry_loop os fd addr nsec w =
     (if nsec = 0 \<or> TCP_CONN_MAX_RETRY_TIME < nsec then (- 1, w)
      else case os_connect os fd addr w of (r, w1) \<Rightarrow>
        if r = 0 then (0, w1)
        else conn_retry_loop os fd addr (2 * nsec)
          (if nsec \<le> TCP_CONN_MAX_RETRY_TIME div 2 then os_sleep os nsec w1 else w1))"
  by pat_completeness auto
termination
  by (relation "measure (\<lambda>(os, fd, addr, nsec, w). TCP_CONN_MAX_RETRY_TIME + 1 - nsec)") auto

declare conn_retry_loop.simps [simp del]

definition sock_conn_retry :: "'w os \<Rightarrow> int \<Rightarrow> string \<Rightarrow> 'w \<Rightarrow> int \<times> 'w" where
  "sock_conn_retry os fd addr w = conn_retry_loop os fd addr 1 w"

definition sock_init_server :: "'w os \<Rightarrow> bool \<Rightarrow> string \<Rightarrow> int \<Rightarrow> 'w \<Rightarrow> int \<times> 'w" where
  "sock_init_server os stream addr qlen w =
     (case os_socket os w of (fd, w1) \<Rightarrow>
        if fd < 0 then (- 1, w1)
        else case os_bind os fd addr w1 of (rb, w2) \<Rightarrow>
          if rb < 0 then (- 1, os_close os fd w2)
          else if stream
          then (case os_listen os fd qlen w2 of (rl, w3) \<Rightarrow>
                  if rl < 0 then (- 1, os_close os fd w3) else (fd, w3))
          else (fd, w2))"

fun host_connect_loop :: "'w os \<Rightarrow> string list \<Rightarrow> 'w \<Rightarrow> int \<times> 'w" where
  "host_connect_loop os [] w = (- 1, w)"
| "host_connect_loop os (ai # ais) w =
     (case os_socket os w of (fd, w1) \<Rightarrow>
        if fd < 0 then host_connect_loop os ais w1
        else case sock_conn_retry os fd ai w1 of (r, w2) \<Rightarrow>
          if r < 0 then host_connect_loop os ais (os_close os fd w2)
          else (fd, w2))"

definition http_host_connect :: "'w os \<Rightarrow> string \<Rightarrow> 'w \<Rightarrow> int \<times> 'w" where
  "http_host_connect os host w =
     (case os_getaddrinfo os host w of
        (None, w1) \<Rightarrow> (- 1, w1)
      | (Some ailist, w1) \<Rightarrow> host_connect_loop os ailist w1)"

lemma host_connect_range: "- 1 \<le> fst (host_connect_loop os ais w)"
  by (induction ais arbitrary: w) (auto split: prod.splits)

section \<open>The status-line automaton\<close>

datatype sl_state =
    sw_start | sw_H | sw_HT | sw_HTT | sw_HTTP
  | sw_first_major_digit | sw_major_digit | sw_first_minor_digit | sw_minor_digit
  | sw_status | sw_space_after_status | sw_status_text | sw_almost_done

datatype sl_out = Sl_fail | Sl_done | Sl_go sl_state int nat

abbreviation CR :: char where "CR \<equiv> CHR 0x0D"
abbreviation LF :: char where "LF \<equiv> CHR 0x0A"

text \<open>One round of the loop: \<open>status\<close> and \<open>status_digits\<close> are carried along.\<close>

fun sl_step :: "sl_state \<Rightarrow> int \<Rightarrow> nat \<Rightarrow> char \<Rightarrow> sl_out" where
  "sl_step sw_start st d ch = (if ch = CHR ''H'' then Sl_go sw_H st d else Sl_fail)"
| "sl_step sw_H st d ch = (if ch = CHR ''T'' then Sl_go sw_HT st d else Sl_fail)"
| "sl_step sw_HT st d ch = (if ch = CHR ''T'' then Sl_go sw_HTT st d else Sl_fail)"
| "sl_step sw_HTT st d ch = (if ch = CHR ''P'' then Sl_go sw_HTTP st d else Sl_fail)"
| "sl_step sw_HTTP st d ch = (if ch = CHR ''/'' then Sl_go sw_first_major_digit st d else Sl_fail)"
| "sl_step sw_first_major_digit st d ch =
     (if ord ch < 49 \<or> 57 < ord ch then Sl_fail else Sl_go sw_major_digit st d)"
| "sl_step sw_major_digit st d ch =
     (if ch = CHR ''.'' then Sl_go sw_first_minor_digit st d
      else if ord ch < 48 \<or> 57 < ord ch then Sl_fail else Sl_go sw_major_digit st d)"
| "sl_step sw_first_minor_digit st d ch =
     (if ord ch < 48 \<or> 57 < ord ch then Sl_fail else Sl_go sw_minor_digit st d)"
| "sl_step sw_minor_digit st d ch =
     (if ch = CHR '' '' then Sl_go sw_status st d
      else if ord ch < 48 \<or> 57 < ord ch then Sl_fail else Sl_go sw_minor_digit st d)"
| "sl_step sw_status st d ch =
     (if ch = CHR '' '' then Sl_go sw_status st d
      else if ord ch < 48 \<or> 57 < ord ch then Sl_fail
      else Sl_go (if d + 1 = 3 then sw_space_after_status else sw_status)
             (st * 10 + int (ord ch) - 48) (d + 1))"
| "sl_step sw_space_after_status st d ch =
     (if ch = CHR '' '' then Sl_go sw_status_text st d
      else if ch = CHR ''.'' then Sl_go sw_status_text st d
      else if ch = CR then Sl_go sw_almost_done st d
      else if ch = LF then Sl_done else Sl_fail)"
| "sl_step sw_status_text st d ch =
     (if ch = CR then Sl_go sw_almost_done st d
      else if ch = LF then Sl_done else Sl_go sw_status_text st d)"
| "sl_step sw_almost_done st d ch = (if ch = LF then Sl_done else Sl_fail)"

fun sl_run :: "sl_state \<Rightarrow> int \<Rightarrow> nat \<Rightarrow> buf \<Rightarrow> int \<times> int" where
  "sl_run s st d [] = (- 1, st)"
| "sl_run s st d (ch # cs) = (case sl_step s st d ch of
      Sl_fail \<Rightarrow> (- 1, st)
    | Sl_done \<Rightarrow> (0, st)
    | Sl_go s' st' d' \<Rightarrow> sl_run s' st' d' cs)"

text \<open>The return code and the value left in \<open>*status\<close>. \<open>None\<close> for it: not written.\<close>

definition http_parse_status_line :: "buf \<Rightarrow> int \<Rightarrow> int \<times> int option" where
  "http_parse_status_line b len =
     (if len \<le> 0 then (- 1, None)
      else case sl_run sw_start 0 0 (take (nat len) (b @ replicate (nat len - length b) NUL)) of
        (r, st) \<Rightarrow> (r, Some st))"

section \<open>JSON escapes\<close>

definition hex_digit :: "char \<Rightarrow> nat option" where
  "hex_digit c = (if isdigit c then Some (ord c - 48)
                  else if 65 \<le> ord c \<and> ord c \<le> 70 then Some (ord c - 55)
                  else if 97 \<le> ord c \<and> ord c \<le> 102 then Some (ord c - 87) else None)"

fun hex_prefix :: "nat \<Rightarrow> string \<Rightarrow> nat" where
  "hex_prefix acc [] = acc"
| "hex_prefix acc (c # cs) = (case hex_digit c of
      None \<Rightarrow> acc | Some d \<Rightarrow> hex_prefix (16 * acc + d) cs)"

text \<open>\<open>(char) strtol(temp, NULL, 16)\<close> for the two characters of \<open>temp\<close>.\<close>

definition strtol16_char :: "string \<Rightarrow> char" where
  "strtol16_char s =
     (case dropWhile isspace s of
        [] \<Rightarrow> NUL
      | c # r \<Rightarrow> if c = CHR ''-'' then char_of (nat ((- int (hex_prefix 0 r)) mod 256))
                else if c = CHR ''+'' then char_of (hex_prefix 0 r)
                else char_of (hex_prefix 0 (c # r)))"

text \<open>
  \<open>n\<close> is the distance to \<open>end\<close>, \<open>room\<close> the number of bytes the buffer has after the last
  character (the terminator and the zero fill). A backslash reads the fourth and fifth byte
  after it, which is a fault when they are outside the buffer.
\<close>

function json_loop :: "nat \<Rightarrow> string \<Rightarrow> nat \<Rightarrow> string option" where
  "json_loop room [] n = Some []"
| "json_loop room (c # cs) n =
     (if n = 0 then Some []
      else if c = CHR 0x5C
      then if length cs + room < 5 then None
           else map_option (Cons (strtol16_char (cstr [byte_at cs 3, byte_at cs 4])))
                  (json_loop room (drop 5 cs) (n - 6))
      else map_option (Cons c) (json_loop room cs (n - 1)))"
  by pat_completeness auto
termination
  by (relation "measure (\<lambda>(room, s, n). length s)") auto

definition util_json_to_ascii_string :: "nat \<Rightarrow> buf \<Rightarrow> int \<Rightarrow> (int \<times> buf) option" where
  "util_json_to_ascii_string cap b len =
     (if len \<le> 0 then Some (- 1, b)
      else map_option (\<lambda>out. (0, buf_put b (out @ [NUL])))
             (json_loop (cap - length (cstr b)) (cstr b) (nat len)))"

section \<open>The grammar of a status line\<close>

definition digits1 :: "string \<Rightarrow> bool" where
  "digits1 s \<longleftrightarrow> s \<noteq> [] \<and> (\<forall>c \<in> set s. isdigit c)"

text \<open>End of the line after the code: a line feed with or without carriage return, or a space
  or a dot followed by text.\<close>

definition eol :: "string \<Rightarrow> bool" where
  "eol s \<longleftrightarrow> (\<exists>r. s = LF # r \<or> s = CR # LF # r)"

definition code_end :: "string \<Rightarrow> bool" where
  "code_end s \<longleftrightarrow> eol s \<or> (\<exists>c t e. s = c # t @ e \<and> (c = CHR '' '' \<or> c = CHR ''.'')
                                 \<and> (\<forall>y \<in> set t. y \<noteq> CR \<and> y \<noteq> LF) \<and> eol e)"

text \<open>Three digits, with spaces in front of each.\<close>

definition code3 :: "string \<Rightarrow> int \<Rightarrow> string \<Rightarrow> bool" where
  "code3 s st e \<longleftrightarrow> (\<exists>i j k a b c. isdigit a \<and> isdigit b \<and> isdigit c \<and>
     s = replicate i (CHR '' '') @ a # replicate j (CHR '' '') @ b # replicate k (CHR '' '') @ c # e \<and>
     st = 100 * (int (ord a) - 48) + 10 * (int (ord b) - 48) + (int (ord c) - 48))"

definition status_line :: "string \<Rightarrow> int \<Rightarrow> bool" where
  "status_line s st \<longleftrightarrow> (\<exists>maj mnr t e. s = ''HTTP/'' @ maj @ ''.'' @ mnr @ '' '' @ t \<and>
     digits1 maj \<and> hd maj \<noteq> CHR ''0'' \<and> digits1 mnr \<and> code3 t st e \<and> code_end e)"

section \<open>The automaton accepts the grammar\<close>

lemma digit_range: "(ord ch < 48 \<or> 57 < ord ch) \<longleftrightarrow> \<not> isdigit ch"
  by (auto simp: isdigit_def)

lemma ex_append_Cons_iff:
  "(\<exists>m t. c # b = m @ x # t \<and> (\<forall>y \<in> set m. P y) \<and> Q t) \<longleftrightarrow>
     (c = x \<and> Q b) \<or> (P c \<and> (\<exists>m t. b = m @ x # t \<and> (\<forall>y \<in> set m. P y) \<and> Q t))"
proof (intro iffI; elim exE conjE disjE)
  fix m t assume "c # b = m @ x # t" "\<forall>y \<in> set m. P y" "Q t"
  then show "(c = x \<and> Q b) \<or> (P c \<and> (\<exists>m t. b = m @ x # t \<and> (\<forall>y \<in> set m. P y) \<and> Q t))"
    by (cases m) auto
next
  assume "c = x" "Q b"
  then show "\<exists>m t. c # b = m @ x # t \<and> (\<forall>y \<in> set m. P y) \<and> Q t"
    by - (rule exI [of _ "[]"], rule exI [of _ b], auto)
next
  fix m t assume "P c" "b = m @ x # t" "\<forall>y \<in> set m. P y" "Q t"
  then show "\<exists>m t. c # b = m @ x # t \<and> (\<forall>y \<in> set m. P y) \<and> Q t"
    by - (rule exI [of _ "c # m"], rule exI [of _ t], auto)
qed

lemma ex_append_iff:
  "(\<exists>t e. c # b = t @ e \<and> (\<forall>y \<in> set t. P y) \<and> E e) \<longleftrightarrow>
     E (c # b) \<or> (P c \<and> (\<exists>t e. b = t @ e \<and> (\<forall>y \<in> set t. P y) \<and> E e))"
proof (intro iffI; elim exE conjE disjE)
  fix t e assume "c # b = t @ e" "\<forall>y \<in> set t. P y" "E e"
  then show "E (c # b) \<or> (P c \<and> (\<exists>t e. b = t @ e \<and> (\<forall>y \<in> set t. P y) \<and> E e))"
    by (cases t) auto
next
  assume "E (c # b)"
  then show "\<exists>t e. c # b = t @ e \<and> (\<forall>y \<in> set t. P y) \<and> E e"
    by - (rule exI [of _ "[]"], rule exI [of _ "c # b"], auto)
next
  fix t e assume "P c" "b = t @ e" "\<forall>y \<in> set t. P y" "E e"
  then show "\<exists>t e. c # b = t @ e \<and> (\<forall>y \<in> set t. P y) \<and> E e"
    by - (rule exI [of _ "c # t"], rule exI [of _ e], auto)
qed

lemma ex_replicate_iff:
  assumes "\<not> P s"
  shows "(\<exists>k x e. P x \<and> c # b = replicate k s @ x # e \<and> K x e) \<longleftrightarrow>
     (c = s \<and> (\<exists>k x e. P x \<and> b = replicate k s @ x # e \<and> K x e)) \<or> (P c \<and> K c b)"
proof (intro iffI; elim exE conjE disjE)
  fix k x e assume "P x" "c # b = replicate k s @ x # e" "K x e"
  then show "(c = s \<and> (\<exists>k x e. P x \<and> b = replicate k s @ x # e \<and> K x e)) \<or> (P c \<and> K c b)"
    by (cases k) auto
next
  fix k x e assume "c = s" "P x" "b = replicate k s @ x # e" "K x e"
  then show "\<exists>k x e. P x \<and> c # b = replicate k s @ x # e \<and> K x e"
    by (intro exI [of _ "Suc k"] exI [of _ x] exI [of _ e]) simp
next
  assume "P c" "K c b"
  then show "\<exists>k x e. P x \<and> c # b = replicate k s @ x # e \<and> K x e"
    by (intro exI [of _ 0] exI [of _ c] exI [of _ b]) simp
qed

lemma run_almost: "sl_run sw_almost_done st d b = (0, st') \<longleftrightarrow> st' = st \<and> (\<exists>r. b = LF # r)"
  by (cases b) auto

lemma eol_Cons: "eol (c # b) \<longleftrightarrow> c = LF \<or> (c = CR \<and> (\<exists>r. b = LF # r))"
  by (auto simp: eol_def)

lemma run_text:
  "sl_run sw_status_text st d b = (0, st') \<longleftrightarrow>
     st' = st \<and> (\<exists>t e. b = t @ e \<and> (\<forall>y \<in> set t. y \<noteq> CR \<and> y \<noteq> LF) \<and> eol e)"
proof (induction b)
  case Nil
  then show ?case by (auto simp: eol_def)
next
  case (Cons c b)
  then show ?case by (simp only: ex_append_iff) (auto simp: eol_Cons run_almost)
qed

lemma run_after: "sl_run sw_space_after_status st d b = (0, st') \<longleftrightarrow> st' = st \<and> code_end b"
  by (cases b) (auto simp: code_end_def eol_Cons run_almost run_text, auto simp: eol_def)

lemma run_status:
  "sl_run sw_status st d b = (0, st') \<longleftrightarrow>
     (\<exists>k c e. isdigit c \<and> b = replicate k (CHR '' '') @ c # e \<and>
        sl_run (if d + 1 = 3 then sw_space_after_status else sw_status)
          (st * 10 + int (ord c) - 48) (d + 1) e = (0, st'))"
proof (induction b)
  case Nil
  then show ?case by simp
next
  case (Cons c b)
  have sp: "\<not> isdigit (CHR '' '')" by (simp add: char_class_defs)
  show ?case
    unfolding ex_replicate_iff [where P = isdigit, OF sp] Cons.IH [symmetric]
    using sp by (auto simp: digit_range)
qed

lemma run_minor:
  "sl_run sw_minor_digit st d b = (0, st') \<longleftrightarrow>
     (\<exists>m t. b = m @ CHR '' '' # t \<and> (\<forall>y \<in> set m. isdigit y) \<and> sl_run sw_status st d t = (0, st'))"
proof (induction b)
  case (Cons c b)
  have "\<not> isdigit (CHR '' '')" by (simp add: char_class_defs)
  with Cons show ?case by (auto simp: ex_append_Cons_iff digit_range)
qed simp

lemma run_major:
  "sl_run sw_major_digit st d b = (0, st') \<longleftrightarrow>
     (\<exists>m t. b = m @ CHR ''.'' # t \<and> (\<forall>y \<in> set m. isdigit y) \<and> sl_run sw_first_minor_digit st d t = (0, st'))"
proof (induction b)
  case (Cons c b)
  have "\<not> isdigit (CHR ''.'')" by (simp add: char_class_defs)
  with Cons show ?case by (auto simp: ex_append_Cons_iff digit_range)
qed simp

lemma run_first_minor:
  "sl_run sw_first_minor_digit st d b = (0, st') \<longleftrightarrow>
     (\<exists>m t. b = m @ CHR '' '' # t \<and> digits1 m \<and> sl_run sw_status st d t = (0, st'))"
proof (cases b)
  case (Cons c b')
  then show ?thesis
    by (auto simp: digit_range run_minor digits1_def Cons_eq_append_conv neq_Nil_conv)
       (metis append_Cons list.distinct(1) set_ConsD)+
qed simp

lemma run_first_major:
  "sl_run sw_first_major_digit st d b = (0, st') \<longleftrightarrow>
     (\<exists>m t. b = m @ CHR ''.'' # t \<and> digits1 m \<and> hd m \<noteq> CHR ''0''
        \<and> sl_run sw_first_minor_digit st d t = (0, st'))"
proof (cases b)
  case (Cons c b')
  have "(ord c < 49 \<or> 57 < ord c) \<longleftrightarrow> \<not> (isdigit c \<and> c \<noteq> CHR ''0'')"
    by (auto simp: isdigit_def ord_inject [symmetric] simp del: ord_inject) (simp_all add: ord_def)
  with Cons show ?thesis
    by (auto simp: run_major digits1_def Cons_eq_append_conv neq_Nil_conv)
       (metis append_Cons list.sel(1) list.distinct(1) set_ConsD)+
qed simp

lemma run_start:
  "sl_run sw_start st d b = (0, st') \<longleftrightarrow>
     (\<exists>t. b = ''HTTP/'' @ t \<and> sl_run sw_first_major_digit st d t = (0, st'))"
proof -
  have H: "sl_run sw_start st d b = (0, st') \<longleftrightarrow> (\<exists>t. b = CHR ''H'' # t \<and> sl_run sw_H st d t = (0, st'))"
    for b by (cases b) auto
  have T1: "sl_run sw_H st d b = (0, st') \<longleftrightarrow> (\<exists>t. b = CHR ''T'' # t \<and> sl_run sw_HT st d t = (0, st'))"
    for b by (cases b) auto
  have T2: "sl_run sw_HT st d b = (0, st') \<longleftrightarrow> (\<exists>t. b = CHR ''T'' # t \<and> sl_run sw_HTT st d t = (0, st'))"
    for b by (cases b) auto
  have P: "sl_run sw_HTT st d b = (0, st') \<longleftrightarrow> (\<exists>t. b = CHR ''P'' # t \<and> sl_run sw_HTTP st d t = (0, st'))"
    for b by (cases b) auto
  have S: "sl_run sw_HTTP st d b = (0, st') \<longleftrightarrow>
      (\<exists>t. b = CHR ''/'' # t \<and> sl_run sw_first_major_digit st d t = (0, st'))"
    for b by (cases b) auto
  show ?thesis by (auto simp: H T1 T2 P S)
qed

lemma run_code:
  "sl_run sw_status 0 0 t = (0, st) \<longleftrightarrow> (\<exists>e. code3 t st e \<and> code_end e)"
proof -
  have "sl_run sw_status 0 0 t = (0, st) \<longleftrightarrow>
     (\<exists>i a x. isdigit a \<and> t = replicate i (CHR '' '') @ a # x \<and>
       (\<exists>j b y. isdigit b \<and> x = replicate j (CHR '' '') @ b # y \<and>
         (\<exists>k c e. isdigit c \<and> y = replicate k (CHR '' '') @ c # e \<and>
            st = 100 * (int (ord a) - 48) + 10 * (int (ord b) - 48) + (int (ord c) - 48) \<and> code_end e)))"
    by (simp add: run_status [of 0 0] run_status [of _ "Suc 0"] run_status [of _ 2] run_after
        numeral_2_eq_2 [symmetric] algebra_simps)
  then show ?thesis unfolding code3_def by blast
qed

lemma status_line_run: "sl_run sw_start 0 0 s = (0, st) \<longleftrightarrow> status_line s st"
  unfolding run_start run_first_major run_first_minor run_code status_line_def
  by (simp, blast)

lemma code3_range: "code3 s st e \<Longrightarrow> 0 \<le> st \<and> st \<le> 999"
  by (auto simp: code3_def isdigit_def)

section \<open>Escapes decode\<close>

text \<open>A piece of a JSON string: a plain character or an escape \<open>\u00xx\<close>.\<close>

datatype json_tok = Raw char | Esc char

fun tok_text :: "json_tok \<Rightarrow> string" where
  "tok_text (Raw c) = [c]"
| "tok_text (Esc c) = [CHR 0x5C, CHR ''u'', CHR ''0'', CHR ''0'',
     digit_char_lower (ord c div 16), digit_char_lower (ord c mod 16)]"

fun tok_char :: "json_tok \<Rightarrow> char" where
  "tok_char (Raw c) = c"
| "tok_char (Esc c) = c"

fun tok_ok :: "json_tok \<Rightarrow> bool" where
  "tok_ok (Raw c) = (c \<noteq> CHR 0x5C \<and> c \<noteq> NUL)"
| "tok_ok (Esc c) = (c \<noteq> NUL)"

lemma ord_digit_lower: "n < 16 \<Longrightarrow> ord (digit_char_lower n) = (if n < 10 then 48 + n else 87 + n)"
  by (simp add: digit_char_lower_def)

lemma hex_digit_lower: "n < 16 \<Longrightarrow> hex_digit (digit_char_lower n) = Some n"
  by (simp add: hex_digit_def isdigit_def ord_digit_lower)

lemma digit_lower_plain:
  assumes "n < 16"
  shows "\<not> isspace (digit_char_lower n)" "digit_char_lower n \<noteq> CHR ''-''"
    "digit_char_lower n \<noteq> CHR ''+''" "digit_char_lower n \<noteq> NUL"
  using assms ord_digit_lower [OF assms]
  by (auto simp: isspace_def) (auto simp: ord_def split: if_splits)

lemma strtol16_lower:
  "strtol16_char (cstr [digit_char_lower (ord c div 16), digit_char_lower (ord c mod 16)]) = c"
proof -
  have a: "ord c div 16 < 16" and b: "ord c mod 16 < 16"
    using ord_less [of c] by (auto simp del: ord_less)
  show ?thesis
    by (simp add: strtol16_char_def digit_lower_plain [OF a] digit_lower_plain [OF b]
        hex_digit_lower [OF a] hex_digit_lower [OF b])
qed

lemma json_loop_toks:
  "\<forall>t \<in> set ts. tok_ok t \<Longrightarrow> length (concat (map tok_text ts)) \<le> n \<Longrightarrow>
     json_loop room (concat (map tok_text ts)) n = Some (map tok_char ts)"
proof (induction ts arbitrary: n)
  case (Cons t ts)
  then show ?case
    using strtol16_lower by (cases t) (auto simp: byte_at_def)
qed simp

lemma toks_is_cstr: "\<forall>t \<in> set ts. tok_ok t \<Longrightarrow> is_cstr (concat (map tok_text ts))"
proof (induction ts)
  case (Cons t ts)
  have "ord c div 16 < 16" "ord c mod 16 < 16" for c
    using ord_less [of c] by (auto simp del: ord_less)
  with Cons show ?case by (cases t) (auto simp: digit_lower_plain)
qed simp

lemma toks_chars_is_cstr: "\<forall>t \<in> set ts. tok_ok t \<Longrightarrow> is_cstr (map tok_char ts)"
proof -
  have "tok_ok t \<Longrightarrow> tok_char t \<noteq> NUL" for t by (cases t) auto
  moreover assume "\<forall>t \<in> set ts. tok_ok t"
  ultimately show ?thesis by (force simp: is_cstr_def)
qed

section \<open>Properties\<close>

lemma parse_status_line_grammar:
  "http_parse_status_line b (int (length b)) = (0, Some st) \<longleftrightarrow> status_line b st"
proof (cases "b = []")
  case True
  then show ?thesis by (auto simp: http_parse_status_line_def status_line_def)
next
  case False
  then have "http_parse_status_line b (int (length b)) =
      (case sl_run sw_start 0 0 b of (r, st) \<Rightarrow> (r, Some st))"
    by (simp add: http_parse_status_line_def)
  then show ?thesis
    using status_line_run [of b st] by (auto split: prod.splits)
qed

text \<open>C36. The status-line parser accepts exactly the status lines: it returns 0 and leaves
  \<open>st\<close> in \<open>*status\<close> for a buffer of \<open>len\<close> bytes if and only if the buffer starts with
  \<open>HTTP/\<close>, a version whose major number does not start with 0, a space, a code of three digits
  of value \<open>st\<close> and a proper end of line.\<close>

theorem http_parse_status_line_iff:
  "http_parse_status_line b (int (length b)) = (0, Some st) \<longleftrightarrow> status_line b st"
  by (rule parse_status_line_grammar)

text \<open>The status the parser reports on success is a number of three digits; on failure it
  returns -1 and nothing else, for every buffer and every length.\<close>

lemma http_parse_status_line_range:
  "(\<exists>st. http_parse_status_line b len = (0, Some st) \<and> 0 \<le> st \<and> st \<le> 999)
   \<or> fst (http_parse_status_line b len) = - 1"
proof -
  let ?s = "take (nat len) (b @ replicate (nat len - length b) NUL)"
  have codes: "fst (sl_run s st d x) = 0 \<or> fst (sl_run s st d x) = - 1" for s st d x
    by (induction x arbitrary: s st d) (auto split: sl_out.splits)
  have "0 \<le> st \<and> st \<le> 999" if "sl_run sw_start 0 0 ?s = (0, st)" for st
    using that code3_range unfolding status_line_run status_line_def by blast
  then show ?thesis
    using codes [of sw_start 0 0 ?s]
    by (cases "sl_run sw_start 0 0 ?s") (auto simp: http_parse_status_line_def)
qed

text \<open>JSON escapes decode: a text made of plain characters and \<open>\u00xx\<close> escapes is turned
  in place into the characters it stands for, whatever the mix, without leaving the buffer.\<close>

lemma json_to_ascii_decodes:
  assumes "\<forall>t \<in> set ts. tok_ok t" and "ts \<noteq> []"
    and "s = concat (map tok_text ts)" and "length s < cap"
  shows "\<exists>b. util_json_to_ascii_string cap s (int (length s)) = Some (0, b)
             \<and> cstr b = map tok_char ts"
proof -
  obtain t ts' where "ts = t # ts'" using assms(2) by (cases ts) auto
  then have "s \<noteq> []" using assms(3) by (cases t) auto
  have "json_loop (cap - length s) s (length s) = Some (map tok_char ts)"
    using json_loop_toks [OF assms(1)] assms(3) by simp
  with \<open>s \<noteq> []\<close> toks_is_cstr [OF assms(1)] toks_chars_is_cstr [OF assms(1)] assms(3)
  show ?thesis by (simp add: util_json_to_ascii_string_def buf_put_def)
qed

text \<open>Connecting gives up: \<open>sock_conn_retry\<close> tries at most five times (after 1, 2, 4 and 8
  seconds) whatever the network answers, so it always returns, with 0 or -1.\<close>

lemma sock_conn_retry_attempts:
  "sock_conn_retry os fd a w =
     (let t = (\<lambda>n k (w :: 'w). case os_connect os fd a w of (r, w1) \<Rightarrow>
                 if r = 0 then (0, w1) else k (if n = 0 then w1 else os_sleep os n w1))
      in t 1 (t 2 (t 4 (t 8 (t 0 (\<lambda>w. (- 1, w)))))) w)"
  unfolding sock_conn_retry_def Let_def
  by (simp add: conn_retry_loop.simps [of os fd a "Suc 0"] conn_retry_loop.simps [of os fd a 2]
      conn_retry_loop.simps [of os fd a 4] conn_retry_loop.simps [of os fd a 8]
      conn_retry_loop.simps [of os fd a 16] conn_retry_loop.simps [of os fd a 32]
      TCP_CONN_MAX_RETRY_TIME_def cong: prod.case_cong if_cong)

end
