(* ===== verification/Http_Session.thy ===== *)
theory Http_Session
  imports Net_Util Snooping_Wire
begin

text \<open>
  The HTTP exchanges of the client: \<open>sc_ngx_build_get\<close> and \<open>sc_ngx_download\<close> of
  \<^verbatim>\<open>snooping_client/sc_ngx.c\<close>, which ask nginx to fetch a file, and the sessions with the video
  sites, \<open>sohu_build_request\<close> and \<open>sohu_http_session\<close> of \<^verbatim>\<open>sohu/sohu_lib.c\<close> and
  \<open>yk_build_request\<close> and \<open>yk_http_session\<close> of \<^verbatim>\<open>youku/yk_lib.c\<close>.

  A received buffer is its bytes and an implicit zero fill up to its size. Reading it as a
  string is a fault when it is full and has no terminator, which the code does not exclude.
\<close>

definition terminated :: "nat \<Rightarrow> buf \<Rightarrow> bool" where
  "terminated cap b \<longleftrightarrow> length b < cap \<or> NUL \<in> set b"

text \<open>A system that never fills a buffer to the last byte with an answer that has no NUL.\<close>

definition os_recv_ends :: "'w os \<Rightarrow> bool" where
  "os_recv_ends os \<longleftrightarrow> (\<forall>fd n w r d w'. 0 < n \<longrightarrow> os_recv os fd n w = ((r, d), w') \<longrightarrow> terminated n d)"

definition crlf :: string where "crlf = [CR, LF]"

definition SC_REDIRECT_KEY_WORD :: string where
  "SC_REDIRECT_KEY_WORD = ''Location: http://20.0.0.99:8080''"

definition SC_NGX_DEFAULT_IP_ADDR :: string where "SC_NGX_DEFAULT_IP_ADDR = ''127.0.0.1''"

section \<open>Asking nginx for a file\<close>

definition ngx_get_1 :: string where "ngx_get_1 = ''GET /getfile?''"
definition ngx_get_2 :: string where "ngx_get_2 = '' HTTP/1.1'' @ crlf @ ''Host: ''"
definition ngx_get_3 :: string where "ngx_get_3 = crlf @ ''Connection: close'' @ crlf @ crlf"

text \<open>The length of \<open>sc_ngx_get_pattern\<close>, its three conversions \<open>%s\<close> included.\<close>

definition ngx_get_pattern_len :: nat where
  "ngx_get_pattern_len = length ngx_get_1 + length ngx_get_2 + length ngx_get_3 + 6"

definition sc_ngx_build_get :: "string \<Rightarrow> string \<Rightarrow> string \<Rightarrow> buf \<Rightarrow> nat \<Rightarrow> int \<times> buf" where
  "sc_ngx_build_get ip uri local_path b len =
     (let para1 = ''&localpath=''; para2 = ''?localpath=''; para_len = length para1 in
      if SC_RES_LOCAL_PATH_MAX_LEN - para_len \<le> length local_path then (- 1, b)
      else
        let lp = (if strchr uri (CHR ''?'') \<noteq> None then para1 else para2) @ local_path in
        if len \<le> ngx_get_pattern_len + length ip + length uri + length lp - 6 then (- 1, b)
        else (0, buf_put b (ngx_get_1 @ uri @ lp @ ngx_get_2 @ ip @ ngx_get_3 @ [NUL])))"

definition ngx_reply :: "buf \<Rightarrow> int \<Rightarrow> int option" where
  "ngx_reply buffer nrecv =
     (case http_parse_status_line buffer nrecv of (r, status) \<Rightarrow>
        if r < 0 then if terminated BUFFER_LEN buffer then Some (- 1) else None
        else if status = Some 200 then Some 0
        else if \<not> terminated BUFFER_LEN buffer then None
        else if status = Some 302 \<and> contains (cstr buffer) SC_REDIRECT_KEY_WORD then Some HC_ERR_EXISTS
        else Some (- 1))"

definition sc_ngx_download :: "'w os \<Rightarrow> string \<Rightarrow> string \<Rightarrow> 'w \<Rightarrow> (int \<times> 'w) option" where
  "sc_ngx_download os url0 local_path w =
     (let url = strip_http url0; ip_addr = SC_NGX_DEFAULT_IP_ADDR in
      case os_socket os w of (sockfd, w1) \<Rightarrow>
        if sockfd < 0 then Some (- 1, w1)
        else case sock_conn_retry os sockfd (ip_addr @ '':8089'') w1 of (rc, w2) \<Rightarrow>
          if rc < 0 then Some (- 1, os_close os sockfd w2)
          else case sc_ngx_build_get ip_addr url local_path [] BUFFER_LEN of (rb, buffer) \<Rightarrow>
            if rb < 0 then Some (- 1, os_close os sockfd w2)
            else
              let req = cstr buffer @ [NUL] in
              case os_send os sockfd req w2 of (nsend, w3) \<Rightarrow>
                if nsend \<noteq> int (length req) then Some (- 1, os_close os sockfd w3)
                else case os_recv os sockfd BUFFER_LEN w3 of ((nrecv, d), w4) \<Rightarrow>
                  if nrecv \<le> 0 then Some (- 1, os_close os sockfd w4)
                  else do { err \<leftarrow> ngx_reply d nrecv; Some (err, os_close os sockfd w4) })"

section \<open>Sessions with a site\<close>

definition sohu_req_1 :: string where "sohu_req_1 = ''GET ''"
definition sohu_req_2 :: string where "sohu_req_2 = '' HTTP/1.1'' @ crlf @ ''Host: ''"
definition sohu_req_3 :: string where
  "sohu_req_3 = crlf @ ''Connection: close'' @ crlf
     @ ''Accept: text/html,application/xhtml+xml,application/xml;q=0.9,image/webp,*/*;q=0.8'' @ crlf
     @ ''User-Agent: Mozilla/5.0 (Windows NT 6.1; WOW64) AppleWebKit/537.36 (KHTML, like Gecko) ''
     @ ''Chrome/33.0.1750.154 Safari/537.36'' @ crlf
     @ ''Accept-Encoding: gzip,deflate,sdch'' @ crlf
     @ ''Accept-Language: en-US,en;q=0.8,zh-CN;q=0.6,zh;q=0.4'' @ crlf @ crlf"

definition sohu_build_request :: "string \<Rightarrow> string \<Rightarrow> buf \<Rightarrow> int \<times> buf" where
  "sohu_build_request host uri b =
     (let pattern_len = length sohu_req_1 + length sohu_req_2 + length sohu_req_3 + 4;
          len = length host + length uri + pattern_len - 3 in
      if BUFFER_LEN \<le> len then (- 1, b)
      else (0, buf_put b (sohu_req_1 @ uri @ sohu_req_2 @ host @ sohu_req_3 @ [NUL])))"

definition yk_req_1 :: string where "yk_req_1 = ''GET ''"
definition yk_req_2 :: string where "yk_req_2 = '' HTTP/1.0'' @ crlf @ ''Host: ''"
definition yk_req_3 :: string where
  "yk_req_3 = crlf @ ''Connection: close'' @ crlf
     @ ''User-Agent: Mozilla/5.0 (Windows NT 6.1; WOW64) AppleWebKit/537.36 (KHTML, like Gecko) ''
     @ ''Chrome/33.0.1750.117 Safari/537.36'' @ crlf
     @ ''Accept: */*'' @ crlf @ ''Referer: http://''"
definition yk_req_4 :: string where
  "yk_req_4 = crlf @ ''Accept-Encoding:'' @ crlf
     @ ''Accept-Language: en-US,en;q=0.8,zh-CN;q=0.6,zh;q=0.4'' @ crlf @ crlf"

definition yk_build_request :: "string \<Rightarrow> string \<Rightarrow> string \<Rightarrow> buf \<Rightarrow> int \<times> buf" where
  "yk_build_request host uri referer b =
     (let pattern_len = length yk_req_1 + length yk_req_2 + length yk_req_3 + length yk_req_4 + 6;
          len = length host + length uri + length referer + pattern_len - 6 in
      if BUFFER_LEN \<le> len then (- 1, b)
      else (0, buf_put b (yk_req_1 @ uri @ yk_req_2 @ host @ yk_req_3 @ referer @ yk_req_4 @ [NUL])))"

text \<open>Both sessions from the connection on: connect, build the request in a zeroed
  \<open>buffer[BUFFER_LEN]\<close>, send it, receive into the zeroed response, close.\<close>

definition session_exchange ::
  "'w os \<Rightarrow> string \<Rightarrow> (buf \<Rightarrow> int \<times> buf) \<Rightarrow> buf \<Rightarrow> nat \<Rightarrow> 'w \<Rightarrow> (int \<times> buf) \<times> 'w" where
  "session_exchange os host build response resp_len w =
     (case http_host_connect os host w of (sockfd, w1) \<Rightarrow>
        if sockfd < 0 then ((- 1, response), w1)
        else case build [] of (rb, buffer) \<Rightarrow>
          if rb < 0 then ((- 1, response), os_close os sockfd w1)
          else
            let len = length (cstr buffer) in
            if BUFFER_LEN < len then ((- 1, response), os_close os sockfd w1)
            else case os_send os sockfd (cstr buffer) w1 of (nsend, w2) \<Rightarrow>
              if nsend \<noteq> int len then ((- 1, response), os_close os sockfd w2)
              else case os_recv os sockfd resp_len w2 of ((nrecv, d), w3) \<Rightarrow>
                if nrecv \<le> 0 then ((- 1, []), os_close os sockfd w3)
                else ((0, d), os_close os sockfd w3))"

text \<open>The host is copied into \<open>host[MAX_HOST_NAME_LEN]\<close> before its length is looked at (Sohu)
  or without looking at it (Youku).\<close>

definition sohu_http_session :: "'w os \<Rightarrow> string \<Rightarrow> buf \<Rightarrow> nat \<Rightarrow> 'w \<Rightarrow> ((int \<times> buf) \<times> 'w) option" where
  "sohu_http_session os url response resp_len w =
     (if resp_len < BUFFER_LEN then Some ((- 1, response), w)
      else
        let host = takeWhile (\<lambda>c. c \<noteq> CHR ''/'') url; i = length host; uri = drop i url in
        if MAX_HOST_NAME_LEN < i then None
        else if uri = [] \<or> MAX_HOST_NAME_LEN \<le> i then Some ((- 1, response), w)
        else Some (session_exchange os host (sohu_build_request host uri) response resp_len w))"

definition yk_http_session :: "'w os \<Rightarrow> string \<Rightarrow> string \<Rightarrow> buf \<Rightarrow> nat \<Rightarrow> 'w \<Rightarrow> ((int \<times> buf) \<times> 'w) option" where
  "yk_http_session os url referer response resp_len w =
     (if resp_len < BUFFER_LEN then Some ((- 1, response), w)
      else
        let u = strip_http url; host = takeWhile (\<lambda>c. c \<noteq> CHR ''/'') u; i = length host; uri = drop i u in
        if MAX_HOST_NAME_LEN < i then None
        else if uri = [] then Some ((- 1, response), w)
        else if MAX_HOST_NAME_LEN \<le> i then None
        else Some (session_exchange os host (yk_build_request host uri referer) response resp_len w))"

section \<open>Requests fit their buffer\<close>

lemma ngx_build_get_fits:
  "sc_ngx_build_get ip uri lp [] len = (0, b) \<Longrightarrow> length b \<le> len"
  by (auto simp: sc_ngx_build_get_def ngx_get_pattern_len_def Let_def split: if_splits)

lemma sohu_build_fits: "sohu_build_request host uri [] = (0, b) \<Longrightarrow> length b \<le> BUFFER_LEN"
  by (auto simp: sohu_build_request_def Let_def split: if_splits)

lemma yk_build_fits: "yk_build_request host uri referer [] = (0, b) \<Longrightarrow> length b \<le> BUFFER_LEN"
  by (auto simp: yk_build_request_def Let_def split: if_splits)

lemma crlf_is_cstr [simp]: "is_cstr crlf" by (simp add: crlf_def is_cstr_def)

lemma req_parts_cstr:
  "is_cstr ngx_get_1" "is_cstr ngx_get_2" "is_cstr ngx_get_3" "is_cstr sohu_req_1" "is_cstr sohu_req_2"
  "is_cstr sohu_req_3" "is_cstr yk_req_1" "is_cstr yk_req_2" "is_cstr yk_req_3" "is_cstr yk_req_4"
  by (simp_all add: ngx_get_1_def ngx_get_2_def ngx_get_3_def sohu_req_1_def sohu_req_2_def sohu_req_3_def
      yk_req_1_def yk_req_2_def yk_req_3_def yk_req_4_def)

text \<open>A download request always comes back.\<close>

lemma ngx_download_total:
  assumes "os_recv_ends os"
  shows "\<exists>r w'. sc_ngx_download os url lp w = Some (r, w')"
proof -
  have "terminated BUFFER_LEN d" if "os_recv os fd BUFFER_LEN v = ((r, d), v')" for fd v r d v'
    using assms that unfolding os_recv_ends_def BUFFER_LEN_def by (metis zero_less_numeral)
  then have "sc_ngx_download os url lp w \<noteq> None"
    by (auto simp: sc_ngx_download_def Let_def ngx_reply_def split: prod.splits simp del: not_None_eq)
  then show ?thesis by auto
qed

section \<open>Descriptors\<close>

text \<open>\<open>tab w\<close> is the table of descriptors of the process in \<open>w\<close>: the open ones, and how often a descriptor
  was closed that was not open. A successful \<open>socket\<close> opens a new descriptor, \<open>close\<close> takes the
  descriptor it is given out of the table or fails, and the other calls leave the table alone.\<close>

definition fd_opened :: "int \<Rightarrow> int set \<times> nat \<Rightarrow> int set \<times> nat \<Rightarrow> bool" where
  "fd_opened fd t t' \<longleftrightarrow> fd \<notin> fst t \<and> t' = (insert fd (fst t), snd t)"

definition fd_closed :: "int \<Rightarrow> int set \<times> nat \<Rightarrow> int set \<times> nat" where
  "fd_closed fd t = (if fd \<in> fst t then (fst t - {fd}, snd t) else (fst t, Suc (snd t)))"

definition fd_table :: "'w os \<Rightarrow> ('w \<Rightarrow> int set \<times> nat) \<Rightarrow> bool" where
  "fd_table os tab \<longleftrightarrow>
     (\<forall>w fd w'. os_socket os w = (fd, w') \<longrightarrow> (if fd < 0 then tab w' = tab w else fd_opened fd (tab w) (tab w'))) \<and>
     (\<forall>fd w. tab (os_close os fd w) = fd_closed fd (tab w)) \<and>
     (\<forall>fd a w. tab (snd (os_connect os fd a w)) = tab w) \<and>
     (\<forall>fd a w. tab (snd (os_bind os fd a w)) = tab w) \<and>
     (\<forall>fd q w. tab (snd (os_listen os fd q w)) = tab w) \<and>
     (\<forall>n w. tab (os_sleep os n w) = tab w) \<and>
     (\<forall>h w. tab (snd (os_getaddrinfo os h w)) = tab w) \<and>
     (\<forall>fd d w. tab (snd (os_send os fd d w)) = tab w) \<and>
     (\<forall>fd n w. tab (snd (os_recv os fd n w)) = tab w) \<and>
     (\<forall>fd a d w. tab (snd (os_sendto os fd a d w)) = tab w) \<and>
     (\<forall>fd n w. tab (snd (os_recvfrom os fd n w)) = tab w)"

lemma fd_tableD:
  assumes "fd_table os tab"
  shows "os_socket os w = (fd, w') \<Longrightarrow> if fd < 0 then tab w' = tab w else fd_opened fd (tab w) (tab w')"
    and "tab (os_close os fd w) = fd_closed fd (tab w)"
    and "os_connect os fd a w = (r, w') \<Longrightarrow> tab w' = tab w"
    and "tab (os_sleep os n w) = tab w"
    and "os_getaddrinfo os h w = (ais, w') \<Longrightarrow> tab w' = tab w"
    and "os_send os fd d w = (r, w') \<Longrightarrow> tab w' = tab w"
    and "os_recv os fd n w = (rd, w') \<Longrightarrow> tab w' = tab w"
    and "os_sendto os fd a d w = (r, w') \<Longrightarrow> tab w' = tab w"
    and "os_recvfrom os fd n w = (rda, w') \<Longrightarrow> tab w' = tab w"
  using assms unfolding fd_table_def by (metis snd_conv)+

lemma close_opened: "fd_opened fd t t' \<Longrightarrow> fd_closed fd t' = t"
  by (cases t) (simp add: fd_opened_def fd_closed_def)

lemma conn_retry_fds:
  assumes c: "fd_table os tab"
  shows "tab (snd (conn_retry_loop os fd a n w)) = tab w"
proof (induction "TCP_CONN_MAX_RETRY_TIME + 1 - n" arbitrary: n w rule: less_induct)
  case less
  show ?case
  proof (cases "n = 0 \<or> TCP_CONN_MAX_RETRY_TIME < n")
    case True
    then show ?thesis by (subst conn_retry_loop.simps) auto
  next
    case False
    then have "TCP_CONN_MAX_RETRY_TIME + 1 - 2 * n < TCP_CONN_MAX_RETRY_TIME + 1 - n" by auto
    from less [OF this] False show ?thesis
      by (subst conn_retry_loop.simps) (auto simp: fd_tableD(3,4) [OF c] split: prod.splits)
  qed
qed

lemma sock_conn_fds: "fd_table os tab \<Longrightarrow> sock_conn_retry os fd a w = (r, w') \<Longrightarrow> tab w' = tab w"
  using conn_retry_fds [of os tab fd a 1 w] by (simp add: sock_conn_retry_def)

lemma host_connect_fds:
  assumes c: "fd_table os tab"
  shows "host_connect_loop os ais w = (fd, w') \<Longrightarrow> if fd < 0 then tab w' = tab w else fd_opened fd (tab w) (tab w')"
proof (induction ais arbitrary: w)
  case (Cons ai ais)
  obtain sfd w1 where s: "os_socket os w = (sfd, w1)" by (cases "os_socket os w")
  obtain r w2 where r: "sock_conn_retry os sfd ai w1 = (r, w2)" by (cases "sock_conn_retry os sfd ai w1")
  note o = fd_tableD(1) [OF c s] and same = sock_conn_fds [OF c r]
  show ?case
  proof (cases "sfd < 0")
    case True
    with Cons.prems s have "host_connect_loop os ais w1 = (fd, w')" by simp
    from Cons.IH [OF this] o True show ?thesis by (auto split: if_splits)
  next
    case False
    then have "tab (os_close os sfd w2) = tab w" using close_opened [of sfd "tab w" "tab w1"] o same fd_tableD(2) [OF c] by simp
    with Cons.IH [of "os_close os sfd w2"] Cons.prems s r False o same show ?thesis by (auto split: if_splits)
  qed
qed simp

lemma session_fds:
  assumes c: "fd_table os tab"
  shows "tab (snd (session_exchange os host build response n w)) = tab w"
proof -
  obtain fd w1 where h: "http_host_connect os host w = (fd, w1)" by fastforce
  have o: "if fd < 0 then tab w1 = tab w else fd_opened fd (tab w) (tab w1)"
    using h fd_tableD(5) [OF c] by (auto simp: http_host_connect_def split: prod.splits option.splits dest!: host_connect_fds [OF c])
  have cl: "tab (os_close os fd w2) = tab w" if "tab w2 = tab w1" "\<not> fd < 0" for w2
    using close_opened [of fd "tab w" "tab w1"] o that fd_tableD(2) [OF c] by simp
  show ?thesis
    unfolding session_exchange_def Let_def h prod.case
    using o by (auto simp: cl split: prod.splits dest!: fd_tableD(6,7) [OF c])
qed

lemma ngx_download_fds:
  assumes c: "fd_table os tab" and d: "sc_ngx_download os url lp w = Some (r, w')"
  shows "tab w' = tab w"
proof -
  obtain fd w1 where s: "os_socket os w = (fd, w1)" by fastforce
  have cl: "tab (os_close os fd w2) = tab w" if "tab w2 = tab w1" "\<not> fd < 0" for w2
    using close_opened [of fd "tab w" "tab w1"] fd_tableD(1) [OF c s] that fd_tableD(2) [OF c] by simp
  show ?thesis
    using d fd_tableD(1) [OF c s] unfolding sc_ngx_download_def Let_def s prod.case
    by (auto simp: cl bind_Some_conv split: prod.splits if_splits dest!: fd_tableD(6,7) [OF c] sock_conn_fds [OF c])
qed

lemma initiate_action_fds:
  assumes c: "fd_table os tab" and d: "sc_snooping_initiate_action os act sid url w = Some (r, w')"
  shows "tab w' = tab w"
proof -
  obtain fd w1 where s: "os_socket os w = (fd, w1)" by (cases "os_socket os w")
  note d = d [unfolded sc_snooping_initiate_action_def s prod.case]
  show ?thesis
  proof (cases "(act \<noteq> HTTP_C2SP_ACTION_ADD \<and> act \<noteq> HTTP_C2SP_ACTION_DELETE) \<or> fd < 0")
    case True
    with d fd_tableD(1) [OF c s] show ?thesis by (auto split: if_splits)
  next
    case False
    with d obtain b where b: "c2sp_req_pkt sid act url = Some b" by (auto simp: bind_Some_conv split: if_splits)
    obtain n w2 where n: "os_sendto os fd SC_SNOOP_MOD_DEFAULT_IP_ADDR (pkt_bytes b) w1 = (n, w2)"
      by (cases "os_sendto os fd SC_SNOOP_MOD_DEFAULT_IP_ADDR (pkt_bytes b) w1")
    obtain m res a w3 where m: "os_recvfrom os fd SC_SNOOPING_SND_RCV_BUF_LEN w2 = ((m, res, a), w3)"
      by (metis prod.collapse)
    from d False b n m have "w' = os_close os fd w2 \<or> w' = os_close os fd w3"
      by (simp add: Let_def split: if_splits)
    with False fd_tableD(1) [OF c s] fd_tableD(2) [OF c] fd_tableD(8) [OF c n] fd_tableD(9) [OF c m]
      close_opened [of fd "tab w" "tab w1"]
    show ?thesis by auto
  qed
qed

text \<open>A system with such a table: any system, with the open descriptors and the failed calls of \<open>close\<close>
  kept beside it; a new descriptor is larger than all open ones.\<close>

definition beside :: "'w \<times> 't \<Rightarrow> ('w \<Rightarrow> 'r \<times> 'w) \<Rightarrow> 'r \<times> 'w \<times> 't" where
  "beside wt f = (case f (fst wt) of (r, w) \<Rightarrow> (r, w, snd wt))"

definition tabled :: "'w os \<Rightarrow> ('w \<times> int list \<times> nat) os" where
  "tabled os = \<lparr>
     os_socket = (\<lambda>w. case os_socket os (fst w) of (fd, v) \<Rightarrow>
        if fd < 0 then (fd, v, snd w)
        else let fd' = 1 + foldr max (fst (snd w)) 2 in (fd', v, fd' # fst (snd w), snd (snd w))),
     os_connect = (\<lambda>fd a w. beside w (os_connect os fd a)),
     os_bind = (\<lambda>fd a w. beside w (os_bind os fd a)),
     os_listen = (\<lambda>fd q w. beside w (os_listen os fd q)),
     os_close = (\<lambda>fd w. if fd \<in> set (fst (snd w)) then (os_close os fd (fst w), removeAll fd (fst (snd w)), snd (snd w))
        else (os_close os fd (fst w), fst (snd w), Suc (snd (snd w)))),
     os_send = (\<lambda>fd d w. beside w (os_send os fd d)),
     os_recv = (\<lambda>fd n w. beside w (os_recv os fd n)),
     os_sendto = (\<lambda>fd a d w. beside w (os_sendto os fd a d)),
     os_recvfrom = (\<lambda>fd n w. beside w (os_recvfrom os fd n)),
     os_sleep = (\<lambda>n w. (os_sleep os n (fst w), snd w)),
     os_getaddrinfo = (\<lambda>h w. beside w (os_getaddrinfo os h)),
     os_rename = (\<lambda>a b w. beside w (os_rename os a b)),
     os_remove = (\<lambda>a w. beside w (os_remove os a)),
     os_write_file = (\<lambda>p d w. beside w (os_write_file os p d)),
     os_malloc = (\<lambda>n w. beside w (os_malloc os n)),
     os_rand = (\<lambda>w. beside w (os_rand os)),
     os_shmget = (\<lambda>w. beside w (os_shmget os)),
     os_shmat = (\<lambda>i w. beside w (os_shmat os i)),
     os_shmctl = (\<lambda>i w. beside w (os_shmctl os i))\<rparr>"

lemma foldr_max_ge: "(a :: int) \<in> set l \<Longrightarrow> a \<le> foldr max l b" "b \<le> foldr max l b"
  by (induction l) auto

lemma tabled_table: "fd_table (tabled os) (\<lambda>w. (set (fst (snd w)), snd (snd w)))"
proof -
  have "1 + foldr max l 2 \<notin> set l" "\<not> 1 + foldr max l 2 < 0" for l :: "int list"
    using foldr_max_ge(1) [of "1 + foldr max l 2" l 2] foldr_max_ge(2) [of 2 l] by auto
  then show ?thesis
    by (auto simp: fd_table_def tabled_def beside_def fd_opened_def fd_closed_def Let_def split: prod.splits)
qed

section \<open>Properties\<close>

text \<open>C26. No descriptor leaks: a download request to nginx, a session with a site and a
  notification of the Snooping module close the sockets they open, and no other descriptor, each
  once, whatever fails on the way: afterwards the same descriptors are open as before, and no call
  of \<open>close\<close> was made for a descriptor that was not open.\<close>

theorem no_descriptor_leak:
  assumes "fd_table os tab"
  shows "(sc_ngx_download os url lp w = Some (r, w') \<longrightarrow> tab w' = tab w)
       \<and> (sohu_http_session os url response n w = Some (rb, w') \<longrightarrow> tab w' = tab w)
       \<and> (yk_http_session os url referer response n w = Some (rb, w') \<longrightarrow> tab w' = tab w)
       \<and> (sc_snooping_do_add os sid url w = Some (r, w') \<longrightarrow> tab w' = tab w)
       \<and> (sc_snooping_do_del os sid url w = Some (r, w') \<longrightarrow> tab w' = tab w)"
  using assms ngx_download_fds [OF assms] initiate_action_fds [OF assms] session_fds [OF assms]
  by (auto simp: sohu_http_session_def yk_http_session_def sc_snooping_do_add_def sc_snooping_do_del_def Let_def
      split: if_splits) (metis snd_conv)+

theorem no_descriptor_leak_witness:
  "\<exists>r w'. sc_ngx_download (tabled scripted) ''1.2.3.4/youku/a.flv'' ''a''
       (\<lparr>answers = [''HTTP/1.1 200 OK'' @ crlf], sent = [], opened = 0, closed = 0\<rparr>, [5], 0) = Some (r, w')
     \<and> opened (fst w') = 1 \<and> set (fst (snd w')) = {5} \<and> snd (snd w') = 0"
proof -
  let ?w = "(\<lparr>answers = [''HTTP/1.1 200 OK'' @ crlf], sent = [], opened = 0, closed = 0\<rparr>, [5], 0)"
  have "\<exists>r w'. sc_ngx_download (tabled scripted) ''1.2.3.4/youku/a.flv'' ''a'' ?w = Some (r, w') \<and> opened (fst w') = 1"
    by (simp add: sc_ngx_download_def Let_def tabled_def beside_def scripted_def sock_conn_retry_def script_recv_def
        conn_retry_loop.simps [of _ _ _ "Suc 0"] TCP_CONN_MAX_RETRY_TIME_def bind_eq_Some_conv ngx_reply_def terminated_def
        hc_limits crlf_def split: prod.splits)
  then show ?thesis
    using no_descriptor_leak [OF tabled_table [of scripted], of "''1.2.3.4/youku/a.flv''" "''a''" ?w] by auto
qed

end
