(* ===== verification/Client_State.thy ===== *)
theory Client_State
  imports Res_Inv Http_Session
begin

text \<open>
  The state of the snooping client and how it may change. The record \<open>'w sc_state\<close> has the
  shared resource list, the two loaders of \<^verbatim>\<open>sc_localdata.c\<close> and the outside world. \<open>sc_inv\<close> is
  its invariant. \<open>evolves C rl rl'\<close> is the contract every activity of the client keeps: the list
  stays sound, no management entry is lost or changes its description, and every content entry
  that does not belong to a loader keeps its place, its site and its stored and notified marks;
  those outside \<open>C\<close> are not touched at all.
\<close>

section \<open>State\<close>

record 'w sc_state =
  sc_res_info_list :: sc_res_list
  youku_controller_of_loaded :: "nat option"
  sohu_controller_of_loaded :: "nat option"
  sc_world :: 'w

definition sc_ld_obtain_ctrl_ld_youku :: "'w sc_state \<Rightarrow> nat option" where
  "sc_ld_obtain_ctrl_ld_youku s = youku_controller_of_loaded s"

definition sc_ld_obtain_ctrl_ld_sohu :: "'w sc_state \<Rightarrow> nat option" where
  "sc_ld_obtain_ctrl_ld_sohu s = sohu_controller_of_loaded s"

definition ctnt_url :: "'w sc_state \<Rightarrow> nat \<Rightarrow> string" where
  "ctnt_url s c = cstr (ri_url (ct_common (ctnt (sc_res_info_list s) c)))"

definition ctnt_path :: "'w sc_state \<Rightarrow> nat \<Rightarrow> string" where
  "ctnt_path s c = cstr (localpath (ctnt (sc_res_info_list s) c))"

definition mgmt_url :: "'w sc_state \<Rightarrow> nat \<Rightarrow> string" where
  "mgmt_url s i = cstr (ri_url (mg_common (mgmt (sc_res_info_list s) i)))"

definition set_ctnt_flag :: "(sc_res_info \<Rightarrow> sc_res_info) \<Rightarrow> nat \<Rightarrow> 'w sc_state \<Rightarrow> 'w sc_state" where
  "set_ctnt_flag f c s = s\<lparr>sc_res_info_list := upd_ctnt_ri c f (sc_res_info_list s)\<rparr>"

text \<open>A call that only reaches the world.\<close>

definition lift_world :: "('w \<Rightarrow> ('a \<times> 'w) option) \<Rightarrow> 'w sc_state \<Rightarrow> ('a \<times> 'w sc_state) option" where
  "lift_world f s = do { (r, w) \<leftarrow> f (sc_world s); Some (r, s\<lparr>sc_world := w\<rparr>) }"

definition state_add_ctnt :: "'w os \<Rightarrow> nat option \<Rightarrow> string \<Rightarrow> 'w sc_state \<Rightarrow> ((int \<times> nat option) \<times> 'w sc_state) option" where
  "state_add_ctnt os m url s = do {
     ((r, p, rl), w) \<leftarrow> sc_res_info_add_ctnt os (sc_res_info_list s) m url (sc_world s);
     Some ((r, p), s\<lparr>sc_res_info_list := rl, sc_world := w\<rparr>)
   }"

section \<open>Invariant and evolution\<close>

definition own_ctnt :: "sc_res_list \<Rightarrow> nat \<Rightarrow> bool" where
  "own_ctnt rl c \<longleftrightarrow> ctnt_used rl c \<and>
     (\<exists>i. parent (ctnt rl c) = Some i \<and> \<not> sc_res_gen_is_ctrl_ld (Some (mg_common (mgmt rl i))))"

definition loader_ok :: "sc_res_list \<Rightarrow> nat option \<Rightarrow> bool" where
  "loader_ok rl p \<longleftrightarrow> (\<forall>i. p = Some i \<longrightarrow>
     mgmt_used rl i \<and> sc_res_gen_is_ctrl_ld (Some (mg_common (mgmt rl i))))"

definition sc_inv :: "'w sc_state \<Rightarrow> bool" where
  "sc_inv s \<longleftrightarrow> res_inv (sc_res_info_list s)
     \<and> loader_ok (sc_res_info_list s) (youku_controller_of_loaded s)
     \<and> loader_ok (sc_res_info_list s) (sohu_controller_of_loaded s)"

definition evolves :: "nat set \<Rightarrow> sc_res_list \<Rightarrow> sc_res_list \<Rightarrow> bool" where
  "evolves C rl rl' \<longleftrightarrow> res_inv rl' \<and>
     (\<forall>i. mgmt_used rl i \<longrightarrow> mgmt_used rl' i \<and> mg_common (mgmt rl' i) = mg_common (mgmt rl i)) \<and>
     (\<forall>c. own_ctnt rl c \<longrightarrow> ctnt_used rl' c \<and> parent (ctnt rl' c) = parent (ctnt rl c)
        \<and> siblings (ctnt rl' c) = siblings (ctnt rl c)
        \<and> ri_site (ct_common (ctnt rl' c)) = ri_site (ct_common (ctnt rl c))
        \<and> (sc_res_flag_is_stored (ct_common (ctnt rl c)) \<longrightarrow> sc_res_flag_is_stored (ct_common (ctnt rl' c)))
        \<and> (sc_res_flag_is_notify (ct_common (ctnt rl c)) \<longrightarrow> sc_res_flag_is_notify (ct_common (ctnt rl' c)))
        \<and> (c \<notin> C \<longrightarrow> ctnt rl' c = ctnt rl c))"

lemma evolvesD:
  assumes "evolves C rl rl'"
  shows "res_inv rl'"
    and "mgmt_used rl i \<Longrightarrow> mgmt_used rl' i \<and> mg_common (mgmt rl' i) = mg_common (mgmt rl i)"
    and "own_ctnt rl c \<Longrightarrow> ctnt_used rl' c \<and> parent (ctnt rl' c) = parent (ctnt rl c)
        \<and> siblings (ctnt rl' c) = siblings (ctnt rl c)"
    and "own_ctnt rl c \<Longrightarrow> c \<notin> C \<Longrightarrow> ctnt rl' c = ctnt rl c"
    and "own_ctnt rl c \<Longrightarrow> sc_res_flag_is_stored (ct_common (ctnt rl c)) \<Longrightarrow> sc_res_flag_is_stored (ct_common (ctnt rl' c))"
    and "own_ctnt rl c \<Longrightarrow> sc_res_flag_is_notify (ct_common (ctnt rl c)) \<Longrightarrow> sc_res_flag_is_notify (ct_common (ctnt rl' c))"
  using assms by (auto simp: evolves_def)

lemma evolves_refl [intro]: "res_inv rl \<Longrightarrow> evolves C rl rl"
  by (simp add: evolves_def own_ctnt_def)

lemma evolves_mono: "evolves C rl rl' \<Longrightarrow> C \<subseteq> D \<Longrightarrow> evolves D rl rl'"
  by (auto simp: evolves_def)

lemma parent_used: "res_inv rl \<Longrightarrow> ctnt_used rl c \<Longrightarrow> parent (ctnt rl c) = Some i \<Longrightarrow> mgmt_used rl i"
  unfolding res_inv_def by (metis child_iff mgmt_used_iff res_treeD(6))

lemma own_evolves: "evolves C rl rl' \<Longrightarrow> res_inv rl \<Longrightarrow> own_ctnt rl c \<Longrightarrow> own_ctnt rl' c"
  using evolvesD(2,3) parent_used unfolding own_ctnt_def by metis

text \<open>Entries that are new in between may have changed freely.\<close>

lemma evolves_trans:
  assumes inv: "res_inv rl" and a: "evolves C rl rl1" and b: "evolves D rl1 rl2"
    and n: "\<And>c. own_ctnt rl c \<Longrightarrow> c \<in> C \<or> c \<in> D \<Longrightarrow> c \<in> E"
  shows "evolves E rl rl2"
  using a b n own_evolves [OF a inv] unfolding evolves_def by metis

lemma loader_evolves: "loader_ok rl p \<Longrightarrow> evolves C rl rl' \<Longrightarrow> loader_ok rl' p"
  using evolvesD(2) unfolding loader_ok_def by metis

section \<open>The operations on the list\<close>

lemma evolves_add_mgmt:
  assumes inv: "res_inv rl" and g: "g \<in> mgmt_gens" and u: "is_cstr url"
    and add: "add_mgmt_with (get_mgmt_as g) care rl url = Some (r, p, rl')"
  shows "evolves {} rl rl'"
proof -
  from inv obtain fm fc ch where t: "res_tree rl fm fc ch" by (auto simp: res_inv_def)
  from add_mgmt_tree [OF t g u add] obtain fm' where t': "res_tree rl' fm' fc ch" "set fm' \<subseteq> set fm"
    and c: "ctnt rl' = ctnt rl" and m: "\<forall>j. j \<notin> set fm \<longrightarrow> mgmt rl' j = mgmt rl j" by fastforce
  have "mgmt_used rl j \<longrightarrow> mgmt_used rl' j \<and> mgmt rl' j = mgmt rl j" for j
    using m t'(2) by (auto simp: mgmt_used_iff [OF t] mgmt_used_iff [OF t'(1)])
  with c ctnt_used_iff [OF t] ctnt_used_iff [OF t'(1)] res_invI [OF t'(1)] show ?thesis
    by (simp add: evolves_def own_ctnt_def)
qed

lemma evolves_add_ctnt_slot:
  assumes inv: "res_inv rl" and i: "mgmt_used rl i" and u: "is_cstr url"
    and a: "sc_res_info_permit_adding url" "length url < HTTP_URL_MAX_LEN"
    and add: "add_ctnt_slot rl i url = Some (r, p, rl')"
  shows "evolves {} rl rl'"
    and "r = 0 \<Longrightarrow> \<exists>c. p = Some c \<and> \<not> ctnt_used rl c \<and> ctnt_used rl' c \<and> parent (ctnt rl' c) = Some i"
proof -
  from inv obtain fm fc ch where t: "res_tree rl fm fc ch" by (auto simp: res_inv_def)
  have i': "i < SC_RES_INFO_NUM_MAX_MGMT" "i \<notin> set fm" using i by (auto simp: mgmt_used_iff [OF t])
  let ?goal = "evolves {} rl rl' \<and> (r = 0 \<longrightarrow> (\<exists>c. p = Some c \<and> \<not> ctnt_used rl c \<and> ctnt_used rl' c \<and> parent (ctnt rl' c) = Some i))"
  have fail: ?goal if s: "add_ctnt_slot rl i url = Some (- 1, None, rl'')" and t': "res_tree rl'' fm fc ch"
      and m: "mgmt rl'' = mgmt rl" and k: "\<forall>k. k \<notin> set fc \<longrightarrow> ctnt rl'' k = ctnt rl k" for rl''
    using res_invI [OF t'] mgmt_used_iff [OF t] mgmt_used_iff [OF t'] ctnt_used_iff [OF t] ctnt_used_iff [OF t'] add s m k
    by (simp add: evolves_def own_ctnt_def)
  have ?goal
    using add_ctnt_slot_tree [OF t i' u a]
  proof (elim disjE exE conjE)
    fix c fc' rl'' mt
    assume fc: "fc = c # fc'" and s: "add_ctnt_slot rl i url = Some (0, Some c, rl'')"
      and t': "res_tree rl'' fm fc' (ch(i := c # ch i))" and k: "\<forall>k. k \<noteq> c \<longrightarrow> ctnt rl'' k = ctnt rl k"
      and m: "\<forall>j. mg_common (mgmt rl'' j) = mg_common (mgmt rl j)"
      and n: "ctnt rl'' c = (snd (fill_ctnt (mgmt rl i) (strip_http url) mt (fresh_ctnt c)))
                 \<lparr>siblings := child (mgmt rl i), parent := Some i\<rparr>"
    have eq: "rl'' = rl'" "r = 0" "p = Some c" using s add by auto
    have c: "\<not> ctnt_used rl c" "ctnt_used rl'' c"
      using res_treeD(2) [OF t] fc by (auto simp: ctnt_used_iff [OF t] ctnt_used_iff [OF t'] ctnt_pool_def)
    have "ctnt_used rl x \<longrightarrow> ctnt_used rl'' x \<and> ctnt rl'' x = ctnt rl x" for x
      using k c fc by (auto simp: ctnt_used_iff [OF t] ctnt_used_iff [OF t'])
    then show ?thesis
      using res_invI [OF t'] m c n mgmt_used_iff [OF t] mgmt_used_iff [OF t'] eq
      by (simp add: evolves_def own_ctnt_def)
  qed (use fail in blast)+
  then show "evolves {} rl rl'"
    and "r = 0 \<Longrightarrow> \<exists>c. p = Some c \<and> \<not> ctnt_used rl c \<and> ctnt_used rl' c \<and> parent (ctnt rl' c) = Some i" by blast+
qed

lemma evolves_add_ctnt:
  assumes inv: "res_inv rl" and i: "mgmt_used rl i" and u: "is_cstr url"
    and add: "sc_res_info_add_ctnt os rl (Some i) url w = Some ((r, p, rl'), w')"
  shows "evolves {} rl rl'"
    and "r = 0 \<Longrightarrow> \<exists>c. p = Some c \<and> \<not> ctnt_used rl c \<and> ctnt_used rl' c \<and> parent (ctnt rl' c) = Some i"
proof -
  from add consider "rl' = rl" "r = - 1"
    | "sc_res_info_permit_adding url" "length url < HTTP_URL_MAX_LEN" "add_ctnt_slot rl i url = Some (r, p, rl')"
    by (auto simp: sc_res_info_add_ctnt_def bind_Some_conv split: if_splits)
  then have "evolves {} rl rl' \<and> (r = 0 \<longrightarrow> (\<exists>c. p = Some c \<and> \<not> ctnt_used rl c \<and> ctnt_used rl' c \<and> parent (ctnt rl' c) = Some i))"
    using evolves_add_ctnt_slot [OF inv i u] evolves_refl [OF inv] by cases auto
  then show "evolves {} rl rl'"
    and "r = 0 \<Longrightarrow> \<exists>c. p = Some c \<and> \<not> ctnt_used rl c \<and> ctnt_used rl' c \<and> parent (ctnt rl' c) = Some i" by blast+
qed

lemma sib_chain_determines:
  "sib_chain n p cs \<Longrightarrow> sib_chain n' p' cs \<Longrightarrow> c \<in> set cs \<Longrightarrow> n c = n' c"
proof (induction cs arbitrary: p p')
  case (Cons x cs)
  show ?case
  proof (cases "c = x")
    case True
    with Cons.prems show ?thesis by (cases cs) auto
  next
    case False
    with Cons show ?thesis by auto
  qed
qed simp

lemma evolves_cached:
  assumes inv: "res_inv rl" and i: "mgmt_used rl i" "sc_res_gen_is_ctrl_ld (Some (mg_common (mgmt rl i)))"
    and k: "own_ctnt rl k" and h: "sc_res_info_handle_cached (Some i) (Some k) rl = Some (r, rl')"
  shows "evolves {k} rl rl'" and "r = HC_SUCCESS \<Longrightarrow> sc_res_flag_is_stored (ct_common (ctnt rl' k))"
    and "r \<noteq> HC_SUCCESS \<Longrightarrow> r < 0 \<and> rl' = rl"
proof -
  from inv obtain fm fc ch where t: "res_tree rl fm fc ch" by (auto simp: res_inv_def)
  have i': "i < SC_RES_INFO_NUM_MAX_MGMT" "i \<notin> set fm" using i by (auto simp: mgmt_used_iff [OF t])
  have k': "k < SC_RES_INFO_NUM_MAX_CTNT" "k \<notin> set fc" "k \<notin> set (ch i)"
    using k i(2) child_iff [OF t, of k i] by (auto simp: own_ctnt_def ctnt_used_iff [OF t])
  have "evolves {k} rl rl' \<and> (r = HC_SUCCESS \<longrightarrow> sc_res_flag_is_stored (ct_common (ctnt rl' k)))
          \<and> (r \<noteq> HC_SUCCESS \<longrightarrow> r < 0 \<and> rl' = rl)"
    using handle_cached_tree [OF t i' k']
  proof (elim disjE exE conjE)
    fix xs l ys rl'' s
    assume hc: "sc_res_info_handle_cached (Some i) (Some k) rl = Some (HC_SUCCESS, rl'')" and cs: "ch i = xs @ l # ys"
      and t': "res_tree rl'' fm (l # fc) (ch(i := xs @ ys))"
      and d: "ctnt rl'' k = (dup_fields (ctnt rl l) (ctnt rl k))\<lparr>siblings := s\<rparr>"
      and f: "\<forall>x. x \<noteq> l \<longrightarrow> x \<noteq> k \<longrightarrow> (\<exists>s. ctnt rl'' x = (ctnt rl x)\<lparr>siblings := s\<rparr>)"
      and m: "\<forall>j. mg_common (mgmt rl'' j) = mg_common (mgmt rl j)"
    have eq: "rl'' = rl'" "r = HC_SUCCESS" using hc h by auto
    have own: "c \<noteq> l \<and> ctnt_used rl'' c \<and> siblings (ctnt rl'' c) = siblings (ctnt rl c)" if o: "own_ctnt rl c" for c
    proof -
      from o obtain j where j: "ctnt_used rl c" "parent (ctnt rl c) = Some j" "j \<noteq> i"
        using i(2) by (auto simp: own_ctnt_def)
      have l: "parent (ctnt rl l) = Some i" using child_iff [OF t, of l i] cs by simp
      have cj: "c \<in> set (ch j)" using j child_iff [OF t] by blast
      have jm: "mgmt_ok rl j (ch j)" "mgmt_ok rl'' j (ch j)"
        using res_treeD(5,6) [OF t] res_treeD(5) [OF t', of j] cj j(3) by auto
      from sib_chain_determines [OF jm(2) [unfolded mgmt_ok_def, THEN conjunct2, THEN conjunct2, THEN conjunct2, THEN conjunct2, THEN conjunct1]
          jm(1) [unfolded mgmt_ok_def, THEN conjunct2, THEN conjunct2, THEN conjunct2, THEN conjunct2, THEN conjunct1] cj]
      have "siblings (ctnt rl'' c) = siblings (ctnt rl c)" .
      with l j show ?thesis by (auto simp: ctnt_used_iff [OF t] ctnt_used_iff [OF t'])
    qed
    have st: "sc_res_flag_is_stored (ct_common (ctnt rl l))"
      using res_treeD(7) [OF t, of l i] cs i(2) by auto
    have other: "ctnt rl'' c = ctnt rl c" if "own_ctnt rl c" "c \<noteq> k" for c
    proof -
      from own [OF that(1)] f that(2) obtain s' where "ctnt rl'' c = (ctnt rl c)\<lparr>siblings := s'\<rparr>" by blast
      with own [OF that(1)] show ?thesis by simp
    qed
    have dk: "parent (ctnt rl'' k) = parent (ctnt rl k)" "ri_site (ct_common (ctnt rl'' k)) = ri_site (ct_common (ctnt rl k))"
      "sc_res_flag_is_stored (ct_common (ctnt rl'' k))"
      "sc_res_flag_is_notify (ct_common (ctnt rl k)) \<Longrightarrow> sc_res_flag_is_notify (ct_common (ctnt rl'' k))"
      using st by (auto simp: d dup_fields_def Let_def flag_updates flag_bits flag_exp bit_simps)
    have "evolves {k} rl rl''"
      unfolding evolves_def
    proof (intro conjI allI impI)
      fix c assume o: "own_ctnt rl c"
      show "ctnt_used rl'' c" "siblings (ctnt rl'' c) = siblings (ctnt rl c)" using own [OF o] by auto
      show "parent (ctnt rl'' c) = parent (ctnt rl c)" "ri_site (ct_common (ctnt rl'' c)) = ri_site (ct_common (ctnt rl c))"
        using dk(1,2) other [OF o] by (cases "c = k"; simp)+
      show "sc_res_flag_is_stored (ct_common (ctnt rl'' c))" if "sc_res_flag_is_stored (ct_common (ctnt rl c))"
        using dk(3) other [OF o] that by (cases "c = k"; simp)
      show "sc_res_flag_is_notify (ct_common (ctnt rl'' c))" if "sc_res_flag_is_notify (ct_common (ctnt rl c))"
        using dk(4) other [OF o] that by (cases "c = k"; simp)
      show "ctnt rl'' c = ctnt rl c" if "c \<notin> {k}" using other [OF o] that by simp
    qed (use res_invI [OF t'] m mgmt_used_iff [OF t] mgmt_used_iff [OF t'] in auto)
    with dk(3) eq show ?thesis by simp
  next
    assume "sc_res_info_handle_cached (Some i) (Some k) rl = Some (HC_ERR_INTERNAL, rl)"
    with h evolves_refl [OF inv] show ?thesis by (auto simp: hc_codes)
  qed
  then show "evolves {k} rl rl'" and "r = HC_SUCCESS \<Longrightarrow> sc_res_flag_is_stored (ct_common (ctnt rl' k))"
    and "r \<noteq> HC_SUCCESS \<Longrightarrow> r < 0 \<and> rl' = rl" by blast+
qed

lemma used_upd_ctnt_ri [simp]:
  "\<forall>ri. ri_id (f ri) = ri_id ri \<Longrightarrow> ctnt_used (upd_ctnt_ri k f rl) c = ctnt_used rl c"
  "mgmt_used (upd_ctnt_ri k f rl) i = mgmt_used rl i"
  by (auto simp: ctnt_used_def mgmt_used_def upd_defs)

lemma evolves_flag:
  assumes inv: "res_inv rl" and k: "ctnt_used rl k" and f: "\<And>ri. \<exists>x. f ri = ri\<lparr>ri_flag := x\<rparr>"
    and m: "\<And>ri. sc_res_flag_is_stored ri \<Longrightarrow> sc_res_flag_is_stored (f ri)"
      "\<And>ri. sc_res_flag_is_notify ri \<Longrightarrow> sc_res_flag_is_notify (f ri)"
    and n: "\<And>ri. ri = ct_common (ctnt rl k) \<Longrightarrow> sc_res_flag_is_notify (f ri) \<Longrightarrow>
         (sc_res_flag_is_notify ri \<longrightarrow> sc_res_flag_is_stored ri) \<Longrightarrow> sc_res_flag_is_stored (f ri)"
  shows "evolves {k} rl (upd_ctnt_ri k f rl)"
proof -
  have r: "res_inv (upd_ctnt_ri k f rl)" by (rule flag_inv [OF inv k f]) (use m n in auto)
  have id: "ri_id (f ri) = ri_id ri" "ri_site (f ri) = ri_site ri" for ri using f [of ri] by auto
  have mg: "mgmt (upd_ctnt_ri k f rl) = mgmt rl" by (simp add: upd_defs)
  have c: "parent (ctnt (upd_ctnt_ri k f rl) c) = parent (ctnt rl c)"
    "siblings (ctnt (upd_ctnt_ri k f rl) c) = siblings (ctnt rl c)"
    "ct_common (ctnt (upd_ctnt_ri k f rl) c) = (if c = k then f (ct_common (ctnt rl c)) else ct_common (ctnt rl c))"
    "c \<noteq> k \<Longrightarrow> ctnt (upd_ctnt_ri k f rl) c = ctnt rl c" for c
    by (simp_all add: upd_defs)
  show ?thesis unfolding evolves_def using r id m by (simp add: mg c own_ctnt_def)
qed

lemma evolves_flags:
  assumes "res_inv rl" and "ctnt_used rl k"
  shows "evolves {k} rl (upd_ctnt_ri k sc_res_flag_set_i_fail rl)"
    and "evolves {k} rl (upd_ctnt_ri k sc_res_flag_unset_i_fail rl)"
    and "evolves {k} rl (upd_ctnt_ri k sc_res_flag_unset_d_fail rl)"
    and "sc_res_flag_is_stored (ct_common (ctnt rl k)) \<Longrightarrow> evolves {k} rl (upd_ctnt_ri k sc_res_flag_set_notify rl)"
  by (rule evolves_flag [OF assms]; auto simp: flag_updates flag_bits flag_exp bit_simps)+

section \<open>The state\<close>

definition sc_evolves :: "nat set \<Rightarrow> 'w sc_state \<Rightarrow> 'w sc_state \<Rightarrow> bool" where
  "sc_evolves C s s' \<longleftrightarrow> evolves C (sc_res_info_list s) (sc_res_info_list s')
     \<and> youku_controller_of_loaded s' = youku_controller_of_loaded s
     \<and> sohu_controller_of_loaded s' = sohu_controller_of_loaded s"

abbreviation sc_own :: "'w sc_state \<Rightarrow> nat \<Rightarrow> bool" where
  "sc_own s c \<equiv> own_ctnt (sc_res_info_list s) c"

abbreviation sc_ri :: "'w sc_state \<Rightarrow> nat \<Rightarrow> sc_res_info" where
  "sc_ri s c \<equiv> ct_common (ctnt (sc_res_info_list s) c)"

lemma sc_evolves_inv: "sc_inv s \<Longrightarrow> sc_evolves C s s' \<Longrightarrow> sc_inv s'"
  unfolding sc_inv_def sc_evolves_def using loader_evolves evolvesD(1) by metis

lemma sc_evolves_refl [intro]: "sc_inv s \<Longrightarrow> sc_evolves C s s"
  by (auto simp: sc_evolves_def sc_inv_def)

lemma sc_evolves_trans:
  assumes "sc_inv s" and "sc_evolves C s s1" and "sc_evolves D s1 s2"
    and "\<And>c. sc_own s c \<Longrightarrow> c \<in> C \<or> c \<in> D \<Longrightarrow> c \<in> E"
  shows "sc_evolves E s s2"
  using assms evolves_trans [of "sc_res_info_list s" C "sc_res_info_list s1" D "sc_res_info_list s2" E]
  by (simp add: sc_evolves_def sc_inv_def)

lemma sc_evolves_mono: "sc_evolves C s s' \<Longrightarrow> C \<subseteq> D \<Longrightarrow> sc_evolves D s s'"
  using evolves_mono by (auto simp: sc_evolves_def)

lemma sc_own_evolves: "sc_inv s \<Longrightarrow> sc_evolves C s s' \<Longrightarrow> sc_own s c \<Longrightarrow> sc_own s' c"
  using own_evolves by (auto simp: sc_evolves_def sc_inv_def)

lemma sc_mgmt_evolves:
  "sc_evolves C s s' \<Longrightarrow> mgmt_used (sc_res_info_list s) i \<Longrightarrow> mgmt_used (sc_res_info_list s') i
     \<and> mg_common (mgmt (sc_res_info_list s') i) = mg_common (mgmt (sc_res_info_list s) i)"
  using evolvesD(2) by (auto simp: sc_evolves_def)

text \<open>Only the world changes.\<close>

lemma sc_inv_world [simp]: "sc_inv (s\<lparr>sc_world := w\<rparr>) = sc_inv s"
  by (simp add: sc_inv_def)

lemma sc_evolves_world [simp]:
  "sc_evolves C (s\<lparr>sc_world := w\<rparr>) s' = sc_evolves C s s'" "sc_evolves C s (s'\<lparr>sc_world := w\<rparr>) = sc_evolves C s s'"
  by (simp_all add: sc_evolves_def)

lemma lift_world_state: "lift_world f s = Some (r, s') \<Longrightarrow> \<exists>w. f (sc_world s) = Some (r, w) \<and> s' = s\<lparr>sc_world := w\<rparr>"
  by (auto simp: lift_world_def bind_Some_conv split: prod.splits)

lemma state_add_ctnt_evolves:
  assumes inv: "sc_inv s" and i: "mgmt_used (sc_res_info_list s) i" and u: "is_cstr url"
    and add: "state_add_ctnt os (Some i) url s = Some ((r, p), s')"
  shows "sc_evolves {} s s'"
    and "r = 0 \<Longrightarrow> \<exists>c. p = Some c \<and> \<not> ctnt_used (sc_res_info_list s) c \<and> ctnt_used (sc_res_info_list s') c
           \<and> parent (ctnt (sc_res_info_list s') c) = Some i"
proof -
  from add obtain rl w where a: "sc_res_info_add_ctnt os (sc_res_info_list s) (Some i) url (sc_world s) = Some ((r, p, rl), w)"
    and s': "s' = s\<lparr>sc_res_info_list := rl, sc_world := w\<rparr>"
    by (auto simp: state_add_ctnt_def bind_Some_conv split: prod.splits)
  have inv': "res_inv (sc_res_info_list s)" using inv by (simp add: sc_inv_def)
  from evolves_add_ctnt [OF inv' i u a] show "sc_evolves {} s s'"
    and "r = 0 \<Longrightarrow> \<exists>c. p = Some c \<and> \<not> ctnt_used (sc_res_info_list s) c \<and> ctnt_used (sc_res_info_list s') c
           \<and> parent (ctnt (sc_res_info_list s') c) = Some i"
    by (auto simp: s' sc_evolves_def)
qed

lemma set_flag_evolves:
  assumes "sc_inv s" and "sc_own s k" and "evolves {k} (sc_res_info_list s) (upd_ctnt_ri k f (sc_res_info_list s))"
  shows "sc_evolves {k} s (set_ctnt_flag f k s)"
  using assms by (simp add: sc_evolves_def set_ctnt_flag_def)

lemma set_i_fail_evolves:
  "sc_inv s \<Longrightarrow> sc_own s k \<Longrightarrow> sc_evolves {k} s (set_ctnt_flag sc_res_flag_set_i_fail k s)"
  by (rule set_flag_evolves) (auto intro: evolves_flags simp: sc_inv_def own_ctnt_def)

lemma set_ctnt_flag_ri [simp]:
  "sc_ri (set_ctnt_flag f k s) c = (if c = k then f (sc_ri s c) else sc_ri s c)"
  by (simp add: set_ctnt_flag_def upd_defs)

section \<open>An example state\<close>

text \<open>An origin with one content entry, a loader for Youku, and a given world.\<close>

lemma demo_state:
  "\<exists>s. sc_inv s \<and> sc_world s = w \<and> youku_controller_of_loaded s = Some 1022
     \<and> mgmt_used (sc_res_info_list s) 1023 \<and> sc_res_gen_is_origin (Some (mg_common (mgmt (sc_res_info_list s) 1023)))
     \<and> ri_url (mg_common (mgmt (sc_res_info_list s) 1023)) = demo_origin
     \<and> sc_own s 4095 \<and> (\<forall>c. ctnt_used (sc_res_info_list s) c \<longleftrightarrow> c = 4095) \<and> ri_url (sc_ri s 4095) = demo_content
     \<and> ri_site (sc_ri s 4095) = SC_RES_SITE_YOUKU \<and> \<not> sc_res_flag_is_stored (sc_ri s 4095)
     \<and> \<not> sc_res_flag_is_i_fail (sc_ri s 4095) \<and> \<not> sc_res_flag_is_d_fail (sc_ri s 4095)"
proof -
  from demo_list obtain rl ch where d: "mgmt_used rl 1022" "mgmt_used rl 1023" "ctnt_used rl 4095"
    "parent (ctnt rl 4095) = Some 1023" "ri_url (ct_common (ctnt rl 4095)) = demo_content"
    and t: "res_tree rl (rev [0..<1022]) (rev [0..<4095]) ch"
    and g: "sc_res_gen_is_origin (Some (mg_common (mgmt rl 1023)))" "sc_res_gen_is_ctrl_ld (Some (mg_common (mgmt rl 1022)))"
    and u: "ri_url (mg_common (mgmt rl 1023)) = demo_origin"
    and f: "ri_site (ct_common (ctnt rl 4095)) = SC_RES_SITE_YOUKU" "\<not> sc_res_flag_is_stored (ct_common (ctnt rl 4095))"
      "\<not> sc_res_flag_is_i_fail (ct_common (ctnt rl 4095))" "\<not> sc_res_flag_is_d_fail (ct_common (ctnt rl 4095))"
    by blast
  let ?s = "\<lparr>sc_res_info_list = rl, youku_controller_of_loaded = Some 1022, sohu_controller_of_loaded = None, sc_world = w\<rparr>"
  have "sc_inv ?s" using res_invI [OF t] d(1) g(2) by (simp add: sc_inv_def loader_ok_def)
  moreover have "sc_own ?s 4095" using d g(1) by (simp add: own_ctnt_def)
  moreover have "ctnt_used rl c \<longleftrightarrow> c = 4095" for c by (auto simp: ctnt_used_iff [OF t] hc_limits)
  ultimately show ?thesis using d g u f by (intro exI [of _ ?s]) simp
qed

end
