(* ===== verification/Sohu_Lib.thy ===== *)
theory Sohu_Lib
  imports Http_Session
begin

text \<open>
  The parsers of \<^verbatim>\<open>sohu/sohu_lib.c\<close>: recognising a playlist URL, taking the file URLs out of an
  m3u8 playlist one after the other, and reading the real URL from a redirection. A cursor
  into the response is the rest of the response from there on.
\<close>

section \<open>Parsers\<close>

definition sohu_is_m3u8_url :: "string \<Rightarrow> bool" where
  "sohu_is_m3u8_url url = (case strstr url ''sohu.com'' of
      None \<Rightarrow> False
    | Some cur \<Rightarrow> contains cur ''.m3u8'')"

definition m3u8_tag1 :: string where "m3u8_tag1 = ''file=''"
definition m3u8_tag2 :: string where "m3u8_tag2 = ''#EXT-X-DISCONTINUITY''"

text \<open>The new cursor (\<open>None\<close> for NULL) and the contents of \<open>file_url\<close>.\<close>

definition sohu_parse_m3u8_response :: "string \<Rightarrow> buf \<Rightarrow> string option \<times> buf" where
  "sohu_parse_m3u8_response cur file_url = (case strstr cur HTTP_URL_PREFIX of
      None \<Rightarrow> (None, file_url)
    | Some s \<Rightarrow>
        let cur = drop HTTP_URL_PRE_LEN s in
        (case strstr cur m3u8_tag1 of
           None \<Rightarrow> (None, file_url)
         | Some p \<Rightarrow>
             let len = (length cur - length p) + length (takeWhile (\<lambda>c. c \<noteq> CHR ''&'') p);
                 file_url' = (if HTTP_URL_MAX_LEN \<le> len then file_url else buf_put file_url (take len cur))
             in (strstr cur m3u8_tag2, file_url')))"

definition sohu_parse_file_url_response :: "string \<Rightarrow> buf \<Rightarrow> (int \<times> buf) option" where
  "sohu_parse_file_url_response response real_url = (case strstr response ''Location:'' of
      None \<Rightarrow> Some (- 1, real_url)
    | Some p \<Rightarrow>
        (case strstr p HTTP_URL_PREFIX of
           None \<Rightarrow> Some (- 1, real_url)
         | Some q \<Rightarrow>
             let p = drop HTTP_URL_PRE_LEN q; len = length p in
             if HTTP_URL_MAX_LEN \<le> len then Some (- 1, real_url)
             else if len < 4 then None
             else Some (0, buf_put real_url ((p @ [NUL])[len - 4 := NUL]))))"

section \<open>The cursor moves on\<close>

lemma sohu_parse_m3u8_shorter:
  assumes "sohu_parse_m3u8_response cur b = (Some cur', b')"
  shows "length cur' < length cur"
proof -
  from assms obtain s where s: "strstr cur HTTP_URL_PREFIX = Some s"
    and c: "strstr (drop HTTP_URL_PRE_LEN s) m3u8_tag2 = Some cur'"
    by (auto simp: sohu_parse_m3u8_response_def Let_def split: option.splits)
  from strstr_length [OF s] strstr_needle_length [OF s] strstr_length [OF c] show ?thesis
    by (simp add: HTTP_URL_PREFIX_def hc_limits)
qed

section \<open>Well-formed playlists\<close>

text \<open>A group of a playlist: some text, its first link with the file URL after \<open>http://\<close>, whatever
  follows from the \<open>&\<close> on (parameters, and perhaps further links), and the discontinuity tag. The
  last group has no closing tag.\<close>

record m3u8_entry =
  me_text :: string
  me_host :: string
  me_file :: string
  me_para :: string

definition me_url :: "m3u8_entry \<Rightarrow> string" where
  "me_url e = me_host e @ m3u8_tag1 @ me_file e"

text \<open>The first occurrence of \<open>n\<close> in \<open>a @ n\<close> is the one at the end.\<close>

definition first_at :: "string \<Rightarrow> string \<Rightarrow> bool" where
  "first_at a n \<longleftrightarrow> strstr (a @ n) n = Some n"

definition m3u8_entry_ok :: "m3u8_entry \<Rightarrow> bool" where
  "m3u8_entry_ok e \<longleftrightarrow> is_cstr (me_url e) \<and> length (me_url e) < HTTP_URL_MAX_LEN
     \<and> first_at (me_text e) HTTP_URL_PREFIX \<and> first_at (me_host e) m3u8_tag1
     \<and> CHR ''&'' \<notin> set (me_file e) \<and> first_at (me_url e @ ''&'' @ me_para e) m3u8_tag2"

definition m3u8_last_text :: "m3u8_entry \<Rightarrow> string" where
  "m3u8_last_text e = me_text e @ HTTP_URL_PREFIX @ me_url e @ ''&'' @ me_para e"

text \<open>What may follow the closed groups, and the URLs in it: a text without a link, or a last group.\<close>

definition m3u8_rest :: "string \<Rightarrow> string list \<Rightarrow> bool" where
  "m3u8_rest t us \<longleftrightarrow> us = [] \<and> \<not> contains t HTTP_URL_PREFIX
     \<or> (\<exists>e. m3u8_entry_ok e \<and> \<not> contains (me_url e @ ''&'' @ me_para e) m3u8_tag2 \<and> t = m3u8_last_text e \<and> us = [me_url e])"

definition m3u8_entry_text :: "m3u8_entry \<Rightarrow> string" where
  "m3u8_entry_text e = me_text e @ HTTP_URL_PREFIX @ me_url e @ ''&'' @ me_para e @ m3u8_tag2"

lemma strstr_first: "first_at a n \<Longrightarrow> strstr (a @ n @ r) n = Some (n @ r)"
proof (induction a)
  case Nil
  then show ?case by (simp add: strstr_prefix)
next
  case (Cons c a)
  have "take (length n) (c # a @ n) \<noteq> n"
  proof
    assume "take (length n) (c # a @ n) = n"
    with Cons.prems have "c # a @ n = n" by (simp add: first_at_def)
    then show False by (metis append_Cons append_self_conv2 list.distinct(1))
  qed
  moreover have "take (length n) (c # a @ n @ r) = take (length n) (c # a @ n)"
    by (cases "length n") simp_all
  ultimately show ?case using Cons by (simp add: first_at_def)
qed

lemma m3u8_parse_entry:
  assumes "m3u8_entry_ok e"
  shows "sohu_parse_m3u8_response (m3u8_entry_text e @ rest) [] = (Some (m3u8_tag2 @ rest), me_url e)"
proof -
  note ok = assms [unfolded m3u8_entry_ok_def]
  let ?c = "me_url e @ ''&'' @ me_para e @ m3u8_tag2 @ rest"
  have 1: "strstr (m3u8_entry_text e @ rest) HTTP_URL_PREFIX = Some (HTTP_URL_PREFIX @ ?c)"
    using strstr_first [of "me_text e" HTTP_URL_PREFIX ?c] ok by (simp add: m3u8_entry_text_def)
  have 2: "drop HTTP_URL_PRE_LEN (HTTP_URL_PREFIX @ ?c) = ?c"
    by (simp add: HTTP_URL_PREFIX_def hc_limits)
  let ?p = "m3u8_tag1 @ me_file e @ ''&'' @ me_para e @ m3u8_tag2 @ rest"
  have 3: "strstr ?c m3u8_tag1 = Some ?p"
    using strstr_first [of "me_host e" m3u8_tag1 "me_file e @ ''&'' @ me_para e @ m3u8_tag2 @ rest"] ok
    by (simp add: me_url_def)
  have 4: "takeWhile (\<lambda>c. c \<noteq> CHR ''&'') ?p = m3u8_tag1 @ me_file e"
    using ok by (simp add: m3u8_tag1_def takeWhile_append)
  have 5: "strstr ?c m3u8_tag2 = Some (m3u8_tag2 @ rest)"
    using strstr_first [of "me_url e @ ''&'' @ me_para e" m3u8_tag2 rest] ok by simp
  have 6: "(length ?c - length ?p) + length (m3u8_tag1 @ me_file e) = length (me_url e)"
    by (simp add: me_url_def)
  show ?thesis
    unfolding sohu_parse_m3u8_response_def 1 option.case Let_def 2 3 4 5 6
    using ok by (simp add: buf_put_def)
qed

lemma m3u8_parse_last:
  assumes "m3u8_entry_ok e" and "\<not> contains (me_url e @ ''&'' @ me_para e) m3u8_tag2"
  shows "sohu_parse_m3u8_response (m3u8_last_text e) [] = (None, me_url e)"
proof -
  note ok = assms(1) [unfolded m3u8_entry_ok_def]
  let ?c = "me_url e @ ''&'' @ me_para e" and ?p = "m3u8_tag1 @ me_file e @ ''&'' @ me_para e"
  have 1: "strstr (m3u8_last_text e) HTTP_URL_PREFIX = Some (HTTP_URL_PREFIX @ ?c)"
    using strstr_first [of "me_text e" HTTP_URL_PREFIX ?c] ok by (simp add: m3u8_last_text_def)
  have 2: "drop HTTP_URL_PRE_LEN (HTTP_URL_PREFIX @ ?c) = ?c"
    by (simp add: HTTP_URL_PREFIX_def hc_limits)
  have 3: "strstr ?c m3u8_tag1 = Some ?p"
    using strstr_first [of "me_host e" m3u8_tag1 "me_file e @ ''&'' @ me_para e"] ok by (simp add: me_url_def)
  have 4: "takeWhile (\<lambda>c. c \<noteq> CHR ''&'') ?p = m3u8_tag1 @ me_file e"
    using ok by (simp add: m3u8_tag1_def takeWhile_append)
  have 5: "strstr ?c m3u8_tag2 = None" using assms(2) by (simp add: contains_def)
  have 6: "(length ?c - length ?p) + length (m3u8_tag1 @ me_file e) = length (me_url e)"
    by (simp add: me_url_def)
  show ?thesis
    unfolding sohu_parse_m3u8_response_def 1 option.case Let_def 2 3 4 5 6
    using ok by (simp add: buf_put_def)
qed

lemma m3u8_parse_end: "\<not> contains t HTTP_URL_PREFIX \<Longrightarrow> sohu_parse_m3u8_response t [] = (None, [])"
  by (simp add: sohu_parse_m3u8_response_def contains_def)

text \<open>The discontinuity tag left in front of the next entry does not disturb it.\<close>

lemma first_at_tag2: "first_at t HTTP_URL_PREFIX \<Longrightarrow> first_at (m3u8_tag2 @ t) HTTP_URL_PREFIX"
  by (simp add: first_at_def m3u8_tag2_def HTTP_URL_PREFIX_def)

lemma m3u8_rest_ok: "m3u8_entry_ok e \<Longrightarrow> m3u8_entry_ok (e\<lparr>me_text := m3u8_tag2 @ me_text e\<rparr>)"
  using first_at_tag2 by (auto simp: m3u8_entry_ok_def me_url_def)

lemma m3u8_tag2_rest:
  assumes "m3u8_rest t us"
  shows "m3u8_rest (m3u8_tag2 @ t) us"
proof (cases "us = [] \<and> \<not> contains t HTTP_URL_PREFIX")
  case True
  then show ?thesis by (simp add: m3u8_rest_def contains_def m3u8_tag2_def HTTP_URL_PREFIX_def)
next
  case False
  with assms obtain e where e: "m3u8_entry_ok e" "\<not> contains (me_url e @ ''&'' @ me_para e) m3u8_tag2" "t = m3u8_last_text e" "us = [me_url e]"
    unfolding m3u8_rest_def by blast
  let ?e = "e\<lparr>me_text := m3u8_tag2 @ me_text e\<rparr>"
  have "me_url ?e = me_url e" "me_para ?e = me_para e" "m3u8_last_text ?e = m3u8_tag2 @ t"
    using e by (simp_all add: me_url_def m3u8_last_text_def)
  with e m3u8_rest_ok [OF e(1)] show ?thesis unfolding m3u8_rest_def by (intro disjI2 exI [of _ ?e]) (simp only: simp_thms)
qed

lemma file_url_response_ok:
  assumes "first_at a ''Location:''" and "first_at b HTTP_URL_PREFIX" and "is_cstr u" and "length u + 4 < HTTP_URL_MAX_LEN"
  shows "\<exists>r. sohu_parse_file_url_response (a @ ''Location:'' @ b @ HTTP_URL_PREFIX @ u @ [CR, LF, CR, LF]) [] = Some (0, r) \<and> cstr r = u"
proof -
  let ?p = "u @ [CR, LF, CR, LF]"
  have fb: "first_at (''Location:'' @ b) HTTP_URL_PREFIX"
    using assms(2) by (simp add: first_at_def HTTP_URL_PREFIX_def)
  have "(?p @ [NUL])[length ?p - 4 := NUL] = u @ [NUL, LF, CR, LF, NUL]" by (simp add: list_update_append)
  with assms strstr_first [OF assms(1), of "b @ HTTP_URL_PREFIX @ ?p"] strstr_first [OF fb, of ?p] show ?thesis
    by (simp add: sohu_parse_file_url_response_def HTTP_URL_PREFIX_def hc_limits buf_put_def)
qed

text \<open>The redirection parser returns the address the server names: a response that ends with
  a \<open>Location\<close> line gives exactly the URL of that line, without \<open>http://\<close> and without the
  closing empty line.\<close>

lemma redirect_url_parsed:
  assumes "first_at a ''Location:''" and "first_at b HTTP_URL_PREFIX" and "is_cstr u"
    and "length u + 4 < HTTP_URL_MAX_LEN"
  shows "\<exists>r. sohu_parse_file_url_response (a @ ''Location:'' @ b @ HTTP_URL_PREFIX @ u @ [CR, LF, CR, LF]) []
             = Some (0, r) \<and> cstr r = u"
  using file_url_response_ok [OF assms] .

end
