(* ===== verification/Youku_Fileid.thy ===== *)
theory Youku_Fileid
  imports Res_Types "HOL-Library.Multiset"
begin

text \<open>
  \<^verbatim>\<open>youku/yk_getfileid.c\<close>: the file name of a video segment. The server sends a list of
  indices and a seed; the seed drives a linear congruential generator that shuffles a fixed
  alphabet of 68 characters, and the name is the shuffled alphabet read at the indices, with
  the segment number in places 8 and 9.

  \<open>zf\<close> computes \<open>dt / 65536.0\<close> and its caller multiplies by the length of the pool (at most
  68) and truncates: both operations are exact in a \<open>double\<close>, so the index is the integer
  quotient of \<open>dt * strlen\<close> by 65536. \<open>randomB\<close> and \<open>randomFT\<close> have no influence on the
  result.
\<close>

definition YK_FILEID_LEN :: nat where "YK_FILEID_LEN = 66"
definition STREAM_FILE_IDS_LEN :: nat where "STREAM_FILE_IDS_LEN = 256"

section \<open>The shuffle\<close>

definition zf :: "int \<Rightarrow> int option" where
  "zf dt = (if in_int (dt * 211) \<and> in_int (dt * 211 + 30031) then Some (c_mod (dt * 211 + 30031) 65536) else None)"

definition del_key_in_str :: "string \<Rightarrow> char \<Rightarrow> string" where
  "del_key_in_str s key =
     (let i = length (takeWhile (\<lambda>c. c \<noteq> key) s) in take i s @ drop (Suc i) s)"

definition yk_alphabet :: string where
  "yk_alphabet = ''abcdefghijklmnopqrstuvwxyzABCDEFGHIJKLMNOPQRSTUVWXYZ''"

definition yk_symbol_number :: string where
  "yk_symbol_number = CHR ''/'' # CHR 0x5C # '':._-1234567890''"

text \<open>The rounds of the \<open>while\<close> loop that are left, the pool and the generator's state.\<close>

fun ranom8T_loop :: "nat \<Rightarrow> string \<Rightarrow> int \<Rightarrow> string option" where
  "ranom8T_loop 0 pool seed = Some []"
| "ranom8T_loop (Suc n) pool seed = do {
     dt \<leftarrow> zf seed;
     let k = sgn dt * (\<bar>dt\<bar> * int (length pool) div 65536);
     if k < 0 \<or> int (length pool) \<le> k then None
     else do {
       let c = pool ! nat k;
       out \<leftarrow> ranom8T_loop n (del_key_in_str pool c) dt;
       Some (c # out)
     }
   }"

definition ranom8T :: "int \<Rightarrow> string option" where
  "ranom8T seed = (let pool = yk_alphabet @ yk_symbol_number in ranom8T_loop (length pool) pool seed)"

section \<open>Reading the shuffled alphabet\<close>

text \<open>\<open>strtok\<close> with the delimiter \<open>*\<close>: the maximal pieces without it.\<close>

fun strtok_star :: "string \<Rightarrow> string \<Rightarrow> string list" where
  "strtok_star acc [] = (if acc = [] then [] else [acc])"
| "strtok_star acc (c # cs) =
     (if c = CHR ''*'' then (if acc = [] then [] else [acc]) @ strtok_star [] cs
      else strtok_star (acc @ [c]) cs)"

fun atoi_all :: "string list \<Rightarrow> int list option" where
  "atoi_all [] = Some []"
| "atoi_all (t # ts) = do { n \<leftarrow> atoi t; ns \<leftarrow> atoi_all ts; Some (n # ns) }"

fun pick_chars :: "string \<Rightarrow> int list \<Rightarrow> string option" where
  "pick_chars p [] = Some []"
| "pick_chars p (n # ns) =
     (if n < 0 \<or> int (length p) \<le> n then None
      else do { out \<leftarrow> pick_chars p ns; Some (p ! nat n # out) })"

definition cg_fun :: "string \<Rightarrow> string \<Rightarrow> string option" where
  "cg_fun streamfileids processed_str =
     (if STREAM_FILE_IDS_LEN \<le> length streamfileids then None
      else case strtok_star [] streamfileids of
        [] \<Rightarrow> None
      | toks \<Rightarrow> do {
          ns \<leftarrow> atoi_all toks;
          if YK_FILEID_LEN < length ns then None
          else pick_chars processed_str (ns @ replicate (YK_FILEID_LEN - length ns) 0)
        })"

definition yk_get_fileid :: "string \<Rightarrow> int \<Rightarrow> int \<Rightarrow> buf \<Rightarrow> (bool \<times> buf) option" where
  "yk_get_fileid streamfileids video_num seed fileids = do {
     processed_str \<leftarrow> ranom8T seed;
     output_str \<leftarrow> cg_fun streamfileids processed_str;
     let v = fmt_X video_num;
     if 3 \<le> length v then None
     else do {
       let vnum = (if length v = 1 then CHR ''0'' # v else v);
       let out = (output_str[8 := vnum ! 0])[9 := vnum ! 1];
       if YK_FILEID_LEN < length (cstr out) then Some (False, fileids)
       else Some (True, buf_put fileids (cstr out))
     }
   }"

section \<open>The shuffle is a permutation\<close>

lemma del_key_remove1: "del_key_in_str s key = remove1 key s"
  by (induction s) (auto simp: del_key_in_str_def Let_def)

lemma zf_range:
  assumes "0 \<le> seed" and "seed \<le> 9999999"
  shows "\<exists>dt. zf seed = Some dt \<and> 0 \<le> dt \<and> dt < 65536"
proof -
  have "0 < seed * 211 + 30031" "seed * 211 + 30031 \<le> INT_MAX" using assms by (simp_all add: INT_MAX_def)
  then show ?thesis by (auto simp: zf_def in_int_def INT_MIN_def INT_MAX_def c_mod_def assms)
qed

lemma quotient_range: "0 \<le> x \<Longrightarrow> x < m * 65536 \<Longrightarrow> 0 \<le> x div 65536 \<and> x div 65536 < m" for x m :: int
  by (simp add: div_less_iff_less_mult pos_imp_zdiv_nonneg_iff)

lemma shuffle_index:
  assumes "0 \<le> dt" and "dt < 65536" and "0 < n"
  shows "0 \<le> sgn dt * (\<bar>dt\<bar> * int n div 65536)" "sgn dt * (\<bar>dt\<bar> * int n div 65536) < int n"
proof -
  have eq: "sgn dt * (\<bar>dt\<bar> * int n div 65536) = dt * int n div 65536"
    using assms(1) by (cases "dt = 0") simp_all
  have "dt * int n \<le> 65535 * int n" using assms by (intro mult_right_mono) auto
  then have "dt * int n < int n * 65536" using assms(3) by linarith
  moreover have "0 \<le> dt * int n" using assms by simp
  ultimately have "0 \<le> dt * int n div 65536 \<and> dt * int n div 65536 < int n" by (intro quotient_range)
  then show "0 \<le> sgn dt * (\<bar>dt\<bar> * int n div 65536)" "sgn dt * (\<bar>dt\<bar> * int n div 65536) < int n"
    unfolding eq by auto
qed

lemma ranom8T_loop_perm:
  assumes "length pool = n" and "0 \<le> seed" and "seed \<le> 9999999"
  shows "\<exists>out. ranom8T_loop n pool seed = Some out \<and> mset out = mset pool"
  using assms
proof (induction n arbitrary: pool seed)
  case 0
  then show ?case by simp
next
  case (Suc n)
  from zf_range [OF Suc.prems(2,3)] obtain dt where dt: "zf seed = Some dt" "0 \<le> dt" "dt < 65536" by blast
  let ?k = "sgn dt * (\<bar>dt\<bar> * int (length pool) div 65536)"
  have k: "0 \<le> ?k" "?k < int (length pool)" using shuffle_index [OF dt(2,3), of "length pool"] Suc.prems(1) by auto
  let ?c = "pool ! nat ?k"
  have c: "?c \<in> set pool" using k by (intro nth_mem) linarith
  have "length (del_key_in_str pool ?c) = n"
    using c Suc.prems(1) by (simp add: del_key_remove1 length_remove1)
  from Suc.IH [OF this, of dt] dt(2,3) obtain out
    where o: "ranom8T_loop n (del_key_in_str pool ?c) dt = Some out" "mset out = mset (del_key_in_str pool ?c)" by auto
  have "mset (?c # out) = mset pool" using o(2) c by (simp add: del_key_remove1)
  with dt(1) k o(1) show ?case by (simp add: Let_def)
qed

lemma ranom8T_perm:
  assumes "0 \<le> seed" and "seed \<le> 9999999"
  shows "\<exists>out. ranom8T seed = Some out \<and> mset out = mset (yk_alphabet @ yk_symbol_number)"
  using ranom8T_loop_perm [OF refl assms, of "yk_alphabet @ yk_symbol_number"] by (simp add: ranom8T_def Let_def)

lemma pool_length: "length (yk_alphabet @ yk_symbol_number) = 68"
  by (simp add: yk_alphabet_def yk_symbol_number_def)

lemma pool_distinct: "distinct (yk_alphabet @ yk_symbol_number)"
  by (simp add: yk_alphabet_def yk_symbol_number_def)

section \<open>Well-formed index lists\<close>

definition index_text :: "int list \<Rightarrow> string" where
  "index_text ns = concat (map (\<lambda>n. fmt_d n @ ''*'') ns)"

lemma fmt_d_digits: "0 \<le> n \<Longrightarrow> \<forall>c \<in> set (fmt_d n). isdigit c"
  using all_isdigit_dec [of "nat n"] by (simp add: fmt_d_def)

lemma fmt_d_not_Nil: "0 \<le> n \<Longrightarrow> fmt_d n \<noteq> []"
  by (simp add: fmt_d_def base_digits_not_Nil)

lemma strtok_star_piece: "CHR ''*'' \<notin> set p \<Longrightarrow> strtok_star acc (p @ CHR ''*'' # r) =
    (if acc @ p = [] then [] else [acc @ p]) @ strtok_star [] r"
  by (induction p arbitrary: acc) auto

lemma strtok_index_text: "\<forall>n \<in> set ns. 0 \<le> n \<Longrightarrow> strtok_star [] (index_text ns) = map fmt_d ns"
proof (induction ns)
  case (Cons n ns)
  have "CHR ''*'' \<notin> set (fmt_d n)" using fmt_d_digits [of n] Cons.prems by (auto simp: char_class_defs)
  with strtok_star_piece [of "fmt_d n" "[]" "index_text ns"] Cons fmt_d_not_Nil [of n] show ?case
    by (simp add: index_text_def)
qed (simp add: index_text_def)

lemma atoi_all_fmt: "\<forall>n \<in> set ns. 0 \<le> n \<and> n \<le> INT_MAX \<Longrightarrow> atoi_all (map fmt_d ns) = Some ns"
  by (induction ns) (simp_all add: atoi_fmt_d)

lemma fmt_d_short: "0 \<le> n \<Longrightarrow> n < 100 \<Longrightarrow> length (fmt_d n) \<le> 2"
  by (cases "n < 10") (simp_all add: fmt_d_def base_digits_single base_digits_double)

lemma index_text_length: "\<forall>n \<in> set ns. 0 \<le> n \<and> n < 68 \<Longrightarrow> length (index_text ns) \<le> 3 * length ns"
proof (induction ns)
  case (Cons n ns)
  with fmt_d_short [of n] show ?case by (simp add: index_text_def)
qed (simp add: index_text_def)

lemma pick_chars_map:
  "\<forall>n \<in> set ns. 0 \<le> n \<and> n < int (length p) \<Longrightarrow> pick_chars p ns = Some (map (\<lambda>n. p ! nat n) ns)"
  by (induction ns) auto

lemma cg_fun_indices:
  assumes "length ns = YK_FILEID_LEN" and "\<forall>n \<in> set ns. 0 \<le> n \<and> n < 68" and "length p = 68"
  shows "cg_fun (index_text ns) p = Some (map (\<lambda>n. p ! nat n) ns)"
proof -
  have "length (index_text ns) < STREAM_FILE_IDS_LEN"
    using index_text_length [OF assms(2)] assms(1) by (simp add: YK_FILEID_LEN_def STREAM_FILE_IDS_LEN_def)
  moreover obtain n ns' where "ns = n # ns'" using assms(1) by (cases ns) (auto simp: YK_FILEID_LEN_def)
  moreover have "strtok_star [] (index_text ns) = map fmt_d ns" "atoi_all (map fmt_d ns) = Some ns"
    using assms(2) by (auto intro!: strtok_index_text atoi_all_fmt simp: INT_MAX_def)
  ultimately show ?thesis
    using assms(1,3) pick_chars_map [of ns p] assms(2)
    by (simp add: cg_fun_def split: list.split del: atoi_all.simps pick_chars.simps)
qed

definition hex2 :: "int \<Rightarrow> string" where
  "hex2 v = [digit_char (nat v div 16), digit_char (nat v mod 16)]"

lemma fmt_X_hex2:
  assumes "0 \<le> v" and "v < 256"
  shows "\<not> 3 \<le> length (fmt_X v)" "(if length (fmt_X v) = 1 then CHR ''0'' # fmt_X v else fmt_X v) = hex2 v"
proof -
  have v: "v mod 4294967296 = v" using assms by simp
  have d0: "digit_char 0 = CHR ''0''" by code_simp
  have "nat v < 16 * 16" using assms by simp
  then show "\<not> 3 \<le> length (fmt_X v)" "(if length (fmt_X v) = 1 then CHR ''0'' # fmt_X v else fmt_X v) = hex2 v"
    using d0 by (cases "nat v < 16"; simp add: fmt_X_def v hex2_def base_digits_single base_digits_double)+
qed

lemma hex2_cstr: "0 \<le> v \<Longrightarrow> v < 256 \<Longrightarrow> NUL \<notin> set (hex2 v)"
proof -
  assume v: "0 \<le> v" "v < 256"
  have "NUL \<noteq> digit_char d" if "d < 16" for d
  proof -
    have "0 < ord (digit_char d)" using that by (simp add: digit_char_def)
    moreover have "ord NUL = 0" by code_simp
    ultimately show ?thesis by auto
  qed
  moreover have "nat v div 16 < 16" using v by (simp add: less_mult_imp_div_less)
  ultimately show ?thesis by (simp add: hex2_def)
qed

lemma fileid_spells:
  assumes "length ns = YK_FILEID_LEN" and "\<forall>n \<in> set ns. 0 \<le> n \<and> n < 68"
    and "0 \<le> seed" and "seed \<le> 9999999" and "0 \<le> v" and "v < 256"
  shows "\<exists>p b. ranom8T seed = Some p \<and> yk_get_fileid (index_text ns) v seed [] = Some (True, b)
           \<and> is_cstr b \<and> length b = 66 \<and> b = (map (\<lambda>n. p ! nat n) ns)[8 := hex2 v ! 0, 9 := hex2 v ! 1]"
proof -
  from ranom8T_perm [OF assms(3,4)] obtain p where p: "ranom8T seed = Some p"
    and ms: "mset p = mset (yk_alphabet @ yk_symbol_number)" by blast
  have l: "length p = 68" using mset_eq_length [OF ms] pool_length by simp
  let ?o = "map (\<lambda>n. p ! nat n) ns"
  let ?b = "?o[8 := hex2 v ! 0, 9 := hex2 v ! 1]"
  have sp: "set p = set (yk_alphabet @ yk_symbol_number)" using mset_eq_setD [OF ms] .
  have pool: "NUL \<notin> set (yk_alphabet @ yk_symbol_number)"
    by (simp add: yk_alphabet_def yk_symbol_number_def)
  have "set ?o \<subseteq> set p" using assms(2) l by (auto intro!: nth_mem)
  with sp pool have "NUL \<notin> set ?o" by auto
  moreover have "set ?b \<subseteq> insert (hex2 v ! 1) (insert (hex2 v ! 0) (set ?o))"
    by (meson insert_mono order_trans set_update_subset_insert)
  moreover have "NUL \<noteq> hex2 v ! 0" "NUL \<noteq> hex2 v ! 1" using hex2_cstr [OF assms(5,6)] by (auto simp: hex2_def)
  ultimately have ic: "is_cstr ?b" by (auto simp: is_cstr_def)
  then have c: "cstr ?b = ?b" by simp
  have lb: "length ?b = 66" using assms(1) by (simp add: YK_FILEID_LEN_def)
  then have "yk_get_fileid (index_text ns) v seed [] = Some (True, ?b)"
    using p cg_fun_indices [OF assms(1,2) l] fmt_X_hex2 [OF assms(5,6)] c
    by (simp add: yk_get_fileid_def Let_def YK_FILEID_LEN_def buf_put_def)
  with p ic lb show ?thesis by blast
qed

section \<open>Properties\<close>

text \<open>The shuffle is one: for every seed of at most seven digits, what the server's seed buffer
  holds, \<open>ranom8T\<close> stays inside its pool, its arithmetic does not overflow, and its 68
  characters are a permutation of the alphabet.\<close>

lemma shuffle_is_permutation:
  assumes "0 \<le> seed" and "seed \<le> 9999999"
  shows "\<exists>p. ranom8T seed = Some p \<and> mset p = mset (yk_alphabet @ yk_symbol_number) \<and> distinct p \<and> length p = 68"
proof -
  from ranom8T_perm [OF assms] obtain p where p: "ranom8T seed = Some p" "mset p = mset (yk_alphabet @ yk_symbol_number)" by blast
  then have "length p = 68" "distinct p"
    using pool_length pool_distinct mset_eq_length [OF p(2)] mset_eq_imp_distinct_iff [OF p(2)] by auto
  with p show ?thesis by blast
qed

text \<open>C29. A segment's file name: for 66 indices into the alphabet and a segment number below 256,
  \<open>yk_get_fileid\<close> succeeds with a name of 66 characters, the shuffled alphabet at the indices
  except for the two hexadecimal digits of the segment number in places 8 and 9.\<close>

theorem fileid_spells_indices:
  assumes "length ns = YK_FILEID_LEN" and "\<forall>n \<in> set ns. 0 \<le> n \<and> n < 68"
    and "0 \<le> seed" and "seed \<le> 9999999" and "0 \<le> v" and "v < 256"
  shows "\<exists>p b. ranom8T seed = Some p \<and> yk_get_fileid (index_text ns) v seed [] = Some (True, b)
           \<and> b = (map (\<lambda>n. p ! nat n) ns)[8 := hex2 v ! 0, 9 := hex2 v ! 1]"
  using fileid_spells [OF assms] by blast

text \<open>The published test vector.\<close>

definition sample_indices :: "int list" where
  "sample_indices = [40,32,40,40,40,12,40,17,40,40,44,12,31,2,64,49,44,44,45,2,40,45,40,40,64,45,1,18,32,12,48,12,
     40,12,32,2,18,12,39,48,44,44,49,39,44,31,64,48,39,54,48,32,54,39,1,2,2,49,2,35,44,31,64,1,48,54]"

theorem fileid_spells_indices_witness:
  "\<exists>p b. ranom8T 1599 = Some p \<and> yk_get_fileid (index_text sample_indices) 0 1599 [] = Some (True, b)
     \<and> b = (map (\<lambda>n. p ! nat n) sample_indices)[8 := CHR ''0'', 9 := CHR ''0'']"
proof -
  have "hex2 0 ! 0 = CHR ''0''" "hex2 0 ! 1 = CHR ''0''" by code_simp+
  then show ?thesis
    using fileid_spells_indices [of sample_indices 1599 0] by (simp add: sample_indices_def YK_FILEID_LEN_def)
qed

text \<open>The test vector published with the source: these indices, segment 0 and seed 1599 give
  this file name.\<close>

lemma fileid_test_vector:
  "yk_get_fileid (''40*32*40*40*40*12*40*17*40*40*44*12*31*2*64*49*44*44*45*2*40*45*40*40*64*45*1*18*32*12*48*12*''
     @ ''40*12*32*2*18*12*39*48*44*44*49*39*44*31*64*48*39*54*48*32*54*39*1*2*2*49*2*35*44*31*64*1*48*54*'') 0 1599 []
   = Some (True, ''030002010052F96855C90C006CBE32420239E2-4558-5F64-A43A-B998975F6B4A'')"
  by code_simp

end
