(* ===== verification/Youku_Request.thy ===== *)
theory Youku_Request
  imports Youku_Fileid Http_Session
begin

text \<open>
  The requests to the Youku servers and the smaller parsers of their answers: \<^verbatim>\<open>youku/yk_getplaylist.c\<close>
  (URL encoding, the name of a video, the getPlayList request), \<^verbatim>\<open>youku/yk_getflvpath.c\<close> (the
  getFlvPath request), and of \<^verbatim>\<open>youku/yk_lib.c\<close> and \<^verbatim>\<open>youku/yk_routine.c\<close> the functions
  \<open>yk_is_tradition_url\<close>, \<open>yk_seg_to_flvpath\<close>, \<open>yk_parse_vf_response\<close> and \<open>yk_parse_flvpath\<close>.
  The structs that are filled and read only to carry strings become records of strings; an
  array that is overrun is a fault.
\<close>

definition YK_MAX_NAME_LEN :: nat where "YK_MAX_NAME_LEN = 32"

section \<open>URL encoding\<close>

definition pct :: "char \<Rightarrow> string" where
  "pct c = [CHR ''%'', digit_char (ord c div 16), digit_char (ord c mod 16)]"

text \<open>\<open>False\<close>: the result buffer is too small. \<open>out\<close> is what \<open>result\<close> holds up to \<open>j\<close>.\<close>

fun url_encode_loop :: "nat \<Rightarrow> string \<Rightarrow> string \<Rightarrow> bool \<times> string" where
  "url_encode_loop resultSize out [] = (True, out)"
| "url_encode_loop resultSize out (ch # str) =
     (if resultSize \<le> length out then (True, out)
      else if isupper ch \<or> islower ch \<or> isdigit ch then url_encode_loop resultSize (out @ [ch]) str
      else if ch = CHR '' '' then url_encode_loop resultSize (out @ ''+'') str
      else if length out + 3 < resultSize then url_encode_loop resultSize (out @ pct ch) str
      else (False, out))"

definition url_encode :: "string \<Rightarrow> nat \<Rightarrow> nat \<Rightarrow> (int \<times> string) option" where
  "url_encode str strSize resultSize =
     (if strSize = 0 \<or> resultSize = 0 then Some (0, [])
      else case url_encode_loop resultSize [] (take strSize str) of (ok, out) \<Rightarrow>
        if \<not> ok then Some (0, out)
        else if resultSize \<le> length out then None
        else Some (int (length out), out))"

text \<open>\<open>ch1\<close> and \<open>ch2\<close> are of type \<open>char\<close>: the differences to \<open>'0'\<close> and the shifted value are
  taken modulo 256. The test compares them with the character \<open>'0'\<close>.\<close>

definition nibble :: "char \<Rightarrow> u8" where
  "nibble c = of_nat (ord c) - 48"

fun url_decode_loop :: "nat \<Rightarrow> string \<Rightarrow> string \<Rightarrow> string" where
  "url_decode_loop resultSize out [] = out"
| "url_decode_loop resultSize out (ch # str) =
     (if resultSize \<le> length out then out
      else if ch = CHR ''+'' then url_decode_loop resultSize (out @ '' '') str
      else case (ch = CHR ''%'', str) of
        (True, a # b # str') \<Rightarrow>
          if nibble a \<noteq> 48 \<and> nibble b \<noteq> 48
          then url_decode_loop resultSize (out @ [char_of (unat (push_bit 4 (nibble a) OR nibble b))]) str'
          else url_decode_loop resultSize (out @ [ch]) str
      | _ \<Rightarrow> url_decode_loop resultSize (out @ [ch]) str)"

definition url_decode :: "string \<Rightarrow> nat \<Rightarrow> nat \<Rightarrow> (int \<times> string) option" where
  "url_decode str strSize resultSize =
     (if strSize = 0 \<or> resultSize = 0 then Some (0, [])
      else let out = url_decode_loop resultSize [] (take strSize str) in
        if resultSize \<le> length out then None else Some (int (length out), out))"

section \<open>The name of a video\<close>

definition identify_yk_video_url :: "string \<Rightarrow> bool" where
  "identify_yk_video_url url \<longleftrightarrow> strstr url ''v.youku.com/v_show'' = Some url"

text \<open>
  The copy of the name stops at a dot only: without one it runs past the end of the URL, and a
  name of 32 characters overruns \<open>name\<close> with its terminator. What follows \<open>.html\<close> is taken to
  be \<open>?f=\<close> and a folder id, whatever it is.
\<close>

definition get_yk_video_name :: "string \<Rightarrow> (int \<times> string \<times> string) option" where
  "get_yk_video_name url =
     (let pre = ''v.youku.com/v_show/id_'' in
      case strstr url pre of
        None \<Rightarrow> Some (0, [], [])
      | Some s \<Rightarrow>
          let r = drop (length pre) s; name = takeWhile (\<lambda>c. c \<noteq> CHR ''.'') r in
          if YK_MAX_NAME_LEN \<le> length name then None
          else if length name = length r then None
          else if length pre + length name + 5 = length url then Some (1, name, [])
          else
            let rest = drop (length name) r in
            if length rest < 8 then None
            else
              let folder = takeWhile (\<lambda>c. c \<noteq> CHR ''&'') (drop 8 rest) in
              if YK_MAX_NAME_LEN \<le> length folder then None else Some (2, name, folder))"

section \<open>The getPlayList request\<close>

record rootdata_t =
  video_id :: string
  fid :: string
  passwords :: string
  rd_source :: string
  rd_version :: string
  rd_type :: string
  pt :: string
  ob :: string
  pf :: string

record url_var_t =
  uv_n :: int
  uv_ran :: int

record player_cfg_t =
  isFDL :: bool
  isTudouPlayer :: bool

record player_cons_t =
  pc_ctype :: string
  pc_ev :: int

text \<open>The buffer \<open>url_var->passwords\<close> has 128 bytes.\<close>

definition request_playlist ::
  "rootdata_t \<Rightarrow> url_var_t \<Rightarrow> player_cfg_t \<Rightarrow> player_cons_t \<Rightarrow> buf \<Rightarrow> (bool \<times> buf) option" where
  "request_playlist rd uv cfg cons url = do {
     pw \<leftarrow> (if passwords rd \<noteq> []
            then do {
              (ok, enc) \<leftarrow> url_encode (passwords rd) (length (passwords rd)) 128;
              Some (if ok \<noteq> 0 then enc else [])
            }
            else Some []);
     let s = cstr url @ ''v.youku.com'' @ ''/player/getPlayList'' @ ''/VideoIDS/'' @ video_id rd
             @ ''/timezone/'' @ ''+08'' @ ''/version/'' @ rd_version rd @ ''/source/'' @ rd_source rd
             @ (if rd_type rd \<noteq> [] then ''/Type/'' @ rd_type rd else [])
             @ (if rd_type rd = ''Folder''
                then ''/Fid/'' @ fid rd @ ''/Pt/'' @ pt rd @ (if ob rd \<noteq> [] then ''/Ob/'' @ ob rd else [])
                else [])
             @ (if pf rd \<noteq> [] then ''/Pf/'' @ pf rd else [])
             @ (if isTudouPlayer cfg then ''/Sc/'' @ ''2'' else [])
             @ ''?password='' @ pw
             @ ''&n='' @ fmt_d (uv_n uv) @ ''&ran='' @ fmt_d (uv_ran uv)
             @ (if isFDL cfg then ''&ctype='' @ pc_ctype cons @ ''&ev='' @ fmt_d (pc_ev cons) else []);
     if HTTP_URL_MAX_LEN \<le> length s then None
     else Some (True, buf_put url (s @ [NUL]))
   }"

definition yk_url_to_playlist :: "'w os \<Rightarrow> string \<Rightarrow> buf \<Rightarrow> 'w \<Rightarrow> ((bool \<times> buf) \<times> 'w) option" where
  "yk_url_to_playlist os url playlist w =
     (if \<not> identify_yk_video_url url then Some ((False, playlist), w)
      else do {
        (ret, name, folder) \<leftarrow> get_yk_video_name url;
        if ret = 0 then Some ((False, playlist), w)
        else case os_rand os w of (n, w1) \<Rightarrow> do {
          let rd = \<lparr>video_id = name, fid = (if ret = 2 then folder else []), passwords = [],
                    rd_source = ''video'', rd_version = ''5'',
                    rd_type = (if ret = 2 then ''Folder'' else []), pt = ''0'', ob = ''1'', pf = []\<rparr>;
          r \<leftarrow> request_playlist rd \<lparr>uv_n = 3, uv_ran = int (n mod 10000)\<rparr>
                 \<lparr>isFDL = True, isTudouPlayer = False\<rparr> \<lparr>pc_ctype = ''10'', pc_ev = 1\<rparr> playlist;
          Some (r, w1)
        }
      })"

section \<open>The getFlvPath request\<close>

record playlistdata_t =
  sid :: string
  fileType :: string
  drm :: bool
  key1 :: string
  key2 :: string

record video_seg_data_t =
  fileId :: string
  seg_key :: string

definition yk_get_fileurl ::
  "int \<Rightarrow> playlistdata_t \<Rightarrow> video_seg_data_t \<Rightarrow> bool \<Rightarrow> int \<Rightarrow> buf \<Rightarrow> (bool \<times> buf) option" where
  "yk_get_fileurl num pl sd use_jumptime jump_time out_url =
     (let v = fmt_x num in
      if 3 \<le> length v then None
      else if 4 \<le> length (fileType pl) then None
      else
        let loc7 = (if length v = 1 then CHR ''0'' # v else v);
            loc8 = (if fileType pl = ''hd2'' \<or> fileType pl = ''hd3'' then ''flv'' else fileType pl);
            loc8 = (if drm pl then ''f4v'' else loc8);
            s = cstr out_url @ ''f.youku.com/player/getFlvPath'' @ ''/sid/'' @ sid pl @ ''_'' @ loc7
                @ ''/st/'' @ loc8 @ ''/fileid/'' @ fileId sd
                @ (if use_jumptime then if drm pl then ''?K='' else ''?start='' @ ''&K='' else ''?K='')
                @ (if seg_key sd = [] then key2 pl @ key1 pl else seg_key sd)
        in if HTTP_URL_MAX_LEN \<le> length s then None else Some (True, buf_put out_url (s @ [NUL])))"

record yk_segment_info =
  seg_no :: int
  seg_size :: int
  seg_seconds :: int
  seg_k :: string
  seg_k2 :: string

record yk_stream_info =
  st_type :: string
  streamfileids :: string
  streamsizes :: int
  st_seed :: int
  segs :: "yk_segment_info list"

text \<open>\<open>seg_data.key\<close> has 25 bytes, \<open>seg->k\<close> up to 32. The URL is built in a zeroed buffer.\<close>

definition yk_seg_to_flvpath :: "yk_stream_info \<Rightarrow> yk_segment_info \<Rightarrow> (int \<times> buf) option" where
  "yk_seg_to_flvpath strm seg = do {
     (ok, fileids) \<leftarrow> yk_get_fileid (streamfileids strm) (seg_no seg) (st_seed strm) [];
     if \<not> ok then Some (- 1, [])
     else if 25 \<le> length (seg_k seg) then None
     else do {
       (ok2, url) \<leftarrow> yk_get_fileurl 0 \<lparr>sid = ''00'', fileType = take 3 (st_type strm), drm = False, key1 = [], key2 = []\<rparr>
                       \<lparr>fileId = cstr fileids, seg_key = seg_k seg\<rparr> False 0 [];
       if \<not> ok2 then Some (- 1, url) else Some (0, url)
     }
   }"

section \<open>Parsers\<close>

definition yk_is_tradition_url :: "string \<Rightarrow> bool" where
  "yk_is_tradition_url url = (case strstr url ''v.youku.com'' of
      None \<Rightarrow> False
    | Some cur \<Rightarrow> contains cur ''/id_'')"

definition vf_tag :: string where "vf_tag = [CHR 0x22] @ ''RS'' @ [CHR 0x22]"

definition yk_parse_vf_response :: "string \<Rightarrow> buf \<Rightarrow> string option \<times> buf" where
  "yk_parse_vf_response cur fp_url = (case strstr cur vf_tag of
      None \<Rightarrow> (None, fp_url)
    | Some p \<Rightarrow>
        (case strstr p HTTP_URL_PREFIX of
           None \<Rightarrow> (None, fp_url)
         | Some q \<Rightarrow>
             let c = drop HTTP_URL_PRE_LEN q;
                 u = takeWhile (\<lambda>x. x \<noteq> CHR 0x22) c
             in (strstr c vf_tag, if HTTP_URL_MAX_LEN \<le> length u then fp_url else buf_put fp_url u)))"

definition flvpath_tag1 :: string where "flvpath_tag1 = ''Location: http://''"
definition flvpath_tag2 :: string where "flvpath_tag2 = ''server'' @ [CHR 0x22] @ '':'' @ [CHR 0x22] @ ''http://''"

text \<open>The URL is copied into \<open>real_url[HTTP_URL_MAX_LEN]\<close> before its length is checked.\<close>

definition flvpath_copy :: "string \<Rightarrow> (int \<times> buf) option" where
  "flvpath_copy u =
     (if HTTP_URL_MAX_LEN < length u then None
      else if length u = HTTP_URL_MAX_LEN then Some (- 1, u)
      else Some (0, u))"

definition yk_parse_flvpath :: "string \<Rightarrow> (int \<times> buf) option" where
  "yk_parse_flvpath data = (case strstr data flvpath_tag1 of
      Some p \<Rightarrow> flvpath_copy (takeWhile (\<lambda>c. c \<noteq> CR \<and> c \<noteq> LF) (drop (length flvpath_tag1) p))
    | None \<Rightarrow>
        (case strstr data flvpath_tag2 of
           Some p \<Rightarrow> flvpath_copy (takeWhile (\<lambda>c. c \<noteq> CHR 0x22 \<and> c \<noteq> CHR '','') (drop (length flvpath_tag2) p))
         | None \<Rightarrow> Some (- 1, [])))"

section \<open>Encoding and decoding\<close>

text \<open>Characters that survive: letters, digits, the space, and those whose code has two decimal
  digits in hexadecimal.\<close>

definition url_plain :: "char \<Rightarrow> bool" where
  "url_plain c \<longleftrightarrow> isupper c \<or> islower c \<or> isdigit c \<or> c = CHR '' '' \<or> (ord c div 16 < 10 \<and> ord c mod 16 < 10)"

definition enc1 :: "char \<Rightarrow> string" where
  "enc1 c = (if isupper c \<or> islower c \<or> isdigit c then [c] else if c = CHR '' '' then ''+'' else pct c)"

lemma enc1_length: "1 \<le> length (enc1 c)" "length (enc1 c) \<le> 3"
  by (simp_all add: enc1_def pct_def)

lemma url_encode_loop_eq:
  "length out + 3 * length s < m \<Longrightarrow> url_encode_loop m out s = (True, out @ concat (map enc1 s))"
  by (induction s arbitrary: out) (auto simp: enc1_def pct_def)

lemma nibble_digit: "d < 10 \<Longrightarrow> nibble (digit_char d) = of_nat d"
  by (simp add: nibble_def ord_digit_char)

lemma nibbles_join:
  assumes "a < 10" and "b < 10"
  shows "unat (push_bit 4 (of_nat a :: u8) OR of_nat b) = 16 * a + b"
proof -
  have "a \<in> {0,1,2,3,4,5,6,7,8,9}" "b \<in> {0,1,2,3,4,5,6,7,8,9}" using assms by auto
  then show ?thesis by (elim insertE emptyE; simp)
qed

lemma decode_enc1:
  assumes "url_plain c" and "length out < m"
  shows "url_decode_loop m out (enc1 c @ s) = url_decode_loop m (out @ [c]) s"
proof (cases "isupper c \<or> islower c \<or> isdigit c")
  case True
  then have "c \<noteq> CHR ''+''" "c \<noteq> CHR ''%''" by (auto simp: char_class_defs)
  with True assms(2) show ?thesis by (simp add: enc1_def)
next
  case False
  show ?thesis
  proof (cases "c = CHR '' ''")
    case True
    with False assms(2) show ?thesis by (simp add: enc1_def)
  next
    case nsp: False
    with assms(1) False have d: "ord c div 16 < 10" "ord c mod 16 < 10" by (auto simp: url_plain_def)
    have n48: "(of_nat k :: u8) \<noteq> 48" if "k < 10" for k
    proof -
      have "unat (of_nat k :: u8) = k" using that by (simp add: unsigned_of_nat take_bit_nat_eq_self)
      moreover have "unat (48 :: u8) = 48" by simp
      ultimately show ?thesis using that by auto
    qed
    have "16 * (ord c div 16) + ord c mod 16 = ord c" by simp
    with False nsp assms(2) d n48 [OF d(1)] n48 [OF d(2)] nibbles_join [OF d] show ?thesis
      by (simp add: enc1_def pct_def nibble_digit)
  qed
qed

lemma decode_encoded:
  "\<forall>c \<in> set s. url_plain c \<Longrightarrow> length out + length s < m \<Longrightarrow>
     url_decode_loop m out (concat (map enc1 s)) = out @ s"
  by (induction s arbitrary: out) (simp_all add: decode_enc1)

lemma encoded_length: "length s \<le> length (concat (map enc1 s))" "length (concat (map enc1 s)) \<le> 3 * length s"
proof (induction s)
  case (Cons c s)
  show "length (c # s) \<le> length (concat (map enc1 (c # s)))" using Cons.IH(1) enc1_length(1) [of c] by simp
  show "length (concat (map enc1 (c # s))) \<le> 3 * length (c # s)" using Cons.IH(2) enc1_length(2) [of c] by simp
qed simp_all

section \<open>From an origin URL to the requests\<close>

lemma takeWhile_alnum_dot: "\<forall>c \<in> set v. isalnum c \<Longrightarrow> takeWhile (\<lambda>c. c \<noteq> CHR ''.'') (v @ ''.html'') = v"
proof -
  assume "\<forall>c \<in> set v. isalnum c"
  then have "\<And>c. c \<in> set v \<Longrightarrow> c \<noteq> CHR ''.''" by (auto simp: char_class_defs)
  then show ?thesis by (simp add: takeWhile_append)
qed

lemma video_name_of_origin:
  assumes "length v < YK_MAX_NAME_LEN" and "\<forall>c \<in> set v. isalnum c"
  shows "get_yk_video_name (''v.youku.com/v_show/id_'' @ v @ ''.html'') = Some (1, v, [])"
  using assms takeWhile_alnum_dot [OF assms(2)] by (simp add: get_yk_video_name_def Let_def)

lemma fmt_d_length:
  assumes "0 \<le> n" and "n < 10000" shows "length (fmt_d n) \<le> 4"
proof -
  have "length (base_digits 10 k) \<le> 4" if "k < 10000" for k
    using that by (simp add: base_digits.simps [of 10 k] base_digits.simps [of 10 "k div 10"]
        base_digits.simps [of 10 "k div 10 div 10"] base_digits_single)
  with assms show ?thesis by (simp add: fmt_d_def nat_less_iff)
qed

section \<open>Properties\<close>

text \<open>Decoding undoes encoding on text whose escapes have decimal digits only: letters,
  digits, spaces and characters such as \<open>!\<close>, \<open>#\<close>, \<open>%\<close> and \<open>'\<close> come back unchanged. A slash does not: its
  escape \<open>%2F\<close> is decoded to the character \<open>6\<close>.\<close>

lemma url_coding_roundtrip:
  "(s \<noteq> [] \<and> (\<forall>c \<in> set s. url_plain c) \<and> 3 * length s < m \<longrightarrow>
      (\<exists>e. url_encode s (length s) m = Some (int (length e), e)
         \<and> url_decode e (length e) m = Some (int (length s), s)))
   \<and> url_encode ''/'' 1 10 = Some (3, ''%2F'') \<and> url_decode ''%2F'' 3 10 = Some (1, ''6'')"
proof (intro conjI impI)
  assume a: "s \<noteq> [] \<and> (\<forall>c \<in> set s. url_plain c) \<and> 3 * length s < m"
  let ?e = "concat (map enc1 s)"
  have ne: "?e \<noteq> []" using a encoded_length(1) [of s] by (metis le_zero_eq length_0_conv)
  have "url_encode s (length s) m = Some (int (length ?e), ?e)"
    using a encoded_length(2) [of s] url_encode_loop_eq [of "[]" s m] by (simp add: url_encode_def)
  moreover have "url_decode ?e (length ?e) m = Some (int (length s), s)"
    using a ne decode_encoded [of s "[]" m] by (simp add: url_decode_def Let_def)
  ultimately show "\<exists>e. url_encode s (length s) m = Some (int (length e), e)
         \<and> url_decode e (length e) m = Some (int (length s), s)" by blast
next
  show "url_encode ''/'' 1 10 = Some (3, ''%2F'')" by code_simp
  show "url_decode ''%2F'' 3 10 = Some (1, ''6'')" by code_simp
qed

text \<open>The canonical origin URL of a Youku video leads to the getPlayList request for that
  video: it is recognised as a traditional URL, its name is read back from it, and the request
  names the video, fits its buffer and carries a random number below 10000.\<close>

lemma origin_to_playlist_request:
  assumes "length v = 13" and "\<forall>c \<in> set v. isalnum c" and "os_rand os w = (n, w')"
    and "origin = ''v.youku.com/v_show/id_'' @ v @ ''.html''"
  shows "yk_is_tradition_url origin \<and>
     (\<exists>b. yk_url_to_playlist os origin [] w = Some ((True, b), w') \<and> length b \<le> HTTP_URL_MAX_LEN \<and>
        cstr b = ''v.youku.com/player/getPlayList/VideoIDS/'' @ v @ ''/timezone/+08/version/5/source/video?password=&n=3&ran=''
          @ fmt_d (int (n mod 10000)) @ ''&ctype=10&ev=1'')"
proof -
  have t: "yk_is_tradition_url origin"
    by (simp add: yk_is_tradition_url_def assms(4) contains_def)
  have i: "identify_yk_video_url origin" by (simp add: identify_yk_video_url_def assms(4))
  have nm: "get_yk_video_name origin = Some (1, v, [])"
    unfolding assms(4) using assms(1,2) by (intro video_name_of_origin) (auto simp: YK_MAX_NAME_LEN_def)
  have f1: "fmt_d 1 = ''1''" "fmt_d 3 = ''3''" by code_simp+
  let ?s = "''v.youku.com/player/getPlayList/VideoIDS/'' @ v @ ''/timezone/+08/version/5/source/video?password=&n=3&ran=''
          @ fmt_d (int (n mod 10000)) @ ''&ctype=10&ev=1''"
  have l: "length ?s < HTTP_URL_MAX_LEN"
    using assms(1) fmt_d_length [of "int (n mod 10000)"] by (simp add: hc_limits)
  have "is_cstr v" "is_cstr (fmt_d (int (n mod 10000)))"
    using assms(2) fmt_d_digits [of "int (n mod 10000)"] by (auto simp: is_cstr_def char_class_defs)
  then have c: "cstr (?s @ [NUL]) = ?s" using cstr_append_NUL [of ?s "[]"] by simp
  have "yk_url_to_playlist os origin [] w = Some ((True, ?s @ [NUL]), w')"
    using i nm assms(3) l f1 by (simp add: yk_url_to_playlist_def request_playlist_def buf_put_def)
  with t c l show ?thesis by auto
qed

text \<open>The getFlvPath request of a segment: for a stream with a well-formed index list and a
  segment key that fits, the request names the stream's container type (flv for the two
  high-definition streams), the file name that the indices spell, and the segment's key.\<close>

lemma flvpath_request:
  assumes "length ns = YK_FILEID_LEN" and "\<forall>n \<in> set ns. 0 \<le> n \<and> n < 68" and "0 \<le> st_seed strm"
    and "st_seed strm \<le> 9999999" and "0 \<le> seg_no seg" and "seg_no seg < 256" and "streamfileids strm = index_text ns"
    and "st_type strm \<in> {''flv'', ''mp4'', ''hd2'', ''hd3''}" and "seg_k seg \<noteq> []" and "length (seg_k seg) < 25"
    and "is_cstr (seg_k seg)"
  shows "\<exists>f b. yk_get_fileid (streamfileids strm) (seg_no seg) (st_seed strm) [] = Some (True, f)
           \<and> yk_seg_to_flvpath strm seg = Some (0, b)
           \<and> cstr b = ''f.youku.com/player/getFlvPath/sid/00_00/st/'' @ (if st_type strm = ''mp4'' then ''mp4'' else ''flv'')
                      @ ''/fileid/'' @ f @ ''?K='' @ seg_k seg"
proof -
  from fileid_spells [OF assms(1-6)] assms(7) obtain f where
    f: "yk_get_fileid (streamfileids strm) (seg_no seg) (st_seed strm) [] = Some (True, f)" "is_cstr f" "length f = 66" by auto
  let ?t = "if st_type strm = ''mp4'' then ''mp4'' else ''flv''"
  let ?s = "''f.youku.com/player/getFlvPath/sid/00_00/st/'' @ ?t @ ''/fileid/'' @ f @ ''?K='' @ seg_k seg"
  have x: "fmt_x 0 = ''0''" by code_simp
  have l: "length ?s < HTTP_URL_MAX_LEN" using f(3) assms(10) by (simp add: hc_limits)
  have cf: "cstr f = f" using f(2) by simp
  have "yk_seg_to_flvpath strm seg = Some (0, ?s @ [NUL])"
    using assms(8-10) f(1) cf l x by (auto simp: yk_seg_to_flvpath_def yk_get_fileurl_def buf_put_def)
  moreover have "cstr (?s @ [NUL]) = ?s" using cstr_append_NUL [of ?s "[]"] f(2) assms(11) by simp
  ultimately show ?thesis using f(1) by blast
qed

end
