(* ===== verification/Youku_Playlist.thy ===== *)
theory Youku_Playlist
  imports Youku_Request
begin

text \<open>
  \<^verbatim>\<open>youku/yk_routine.c\<close>: the parser of a getPlayList answer. It finds the seed, the index list
  of each stream and the segments of each stream by searching for tags and counting
  characters. The array \<open>streams\<close> (filled from index 0) is the list of its entries that are
  not NULL. A cursor is the rest of the response; the zero fill after the terminator reads as
  the end of the list. A loop that looks for a quote and nothing else runs out of the buffer
  when there is none, which is a fault, as are a search that fails and is then used, and every
  overrun of an array.
\<close>

definition STREAM_TYPE_TOTAL :: nat where "STREAM_TYPE_TOTAL = 4"
definition STREAM_SEGS_MAX :: nat where "STREAM_SEGS_MAX = 64"
definition SEG_INFO_LEN :: nat where "SEG_INFO_LEN = 256"
definition SEGMENT_K_LEN :: nat where "SEGMENT_K_LEN = 32"
definition SEED_STRING_LEN :: nat where "SEED_STRING_LEN = 8"
definition VALUE_LEN :: nat where "VALUE_LEN = 16"

lemmas playlist_limits = STREAM_TYPE_TOTAL_def STREAM_SEGS_MAX_def SEG_INFO_LEN_def SEGMENT_K_LEN_def
  SEED_STRING_LEN_def VALUE_LEN_def

abbreviation DQ :: char where "DQ \<equiv> CHR 0x22"

section \<open>Streams\<close>

definition yk_create_stream_info :: "'w os \<Rightarrow> string \<Rightarrow> 'w \<Rightarrow> yk_stream_info option \<times> 'w" where
  "yk_create_stream_info os type w = (case os_malloc os 800 w of (ok, w1) \<Rightarrow>
     (if ok then Some \<lparr>st_type = take 3 type, streamfileids = [], streamsizes = 0, st_seed = 0, segs = []\<rparr> else None, w1))"

fun yk_find_stream_info :: "yk_stream_info list \<Rightarrow> string \<Rightarrow> nat option" where
  "yk_find_stream_info [] type = None"
| "yk_find_stream_info (s # ss) type =
     (if st_type s = type then Some 0 else map_option Suc (yk_find_stream_info ss type))"

definition yk_destroy_streams_all :: "yk_stream_info list \<Rightarrow> yk_stream_info list" where
  "yk_destroy_streams_all streams = []"

section \<open>Segments\<close>

text \<open>Cursors into \<open>info[SEG_INFO_LEN]\<close>: a list of the bytes from there to the end of the array.\<close>

definition buf_strstr :: "buf \<Rightarrow> string \<Rightarrow> buf option" where
  "buf_strstr b n = (if NUL \<notin> set b then None
                     else map_option (\<lambda>s. drop (length (cstr b) - length s) b) (strstr (cstr b) n))"

definition buf_strchr :: "buf \<Rightarrow> char \<Rightarrow> buf option" where
  "buf_strchr b c = (if NUL \<notin> set b then None
                     else map_option (\<lambda>s. drop (length (cstr b) - length s) b) (strchr (cstr b) c))"

text \<open>The loop \<open>for (\<dots>; *cur != '"' && i < n; \<dots>) val[i] = *cur\<close>: what was copied, and the cursor.\<close>

definition copy_quoted :: "nat \<Rightarrow> buf \<Rightarrow> (string \<times> buf) option" where
  "copy_quoted n cur = (let v = takeWhile (\<lambda>c. c \<noteq> DQ) (take n cur) in
     if length v = length cur then None else Some (v, drop (length v) cur))"

text \<open>\<open>val[VALUE_LEN]\<close> as a number; a full array has no terminator.\<close>

definition val_atoi :: "string \<Rightarrow> int option" where
  "val_atoi v = (if VALUE_LEN \<le> length v then None else atoi (cstr v))"

text \<open>A key that fills its array has no terminator: read as a string it goes on into \<open>k2\<close>, the next member.\<close>

definition yk_create_segment_info :: "'w os \<Rightarrow> string \<Rightarrow> 'w \<Rightarrow> (yk_segment_info option \<times> 'w) option" where
  "yk_create_segment_info os info w = (case os_malloc os 88 w of (ok, w1) \<Rightarrow>
     if \<not> ok then Some (None, w1)
     else do {
       c1 \<leftarrow> buf_strstr (info @ replicate (SEG_INFO_LEN - length info) NUL) ''no'';
       (v_no, c2) \<leftarrow> copy_quoted VALUE_LEN (drop 5 c1);
       no \<leftarrow> val_atoi v_no;
       c3 \<leftarrow> buf_strstr c2 ''size'';
       (v_size, c4) \<leftarrow> copy_quoted VALUE_LEN (drop 7 c3);
       sz \<leftarrow> val_atoi v_size;
       c5 \<leftarrow> buf_strstr c4 ''seconds'';
       let c6 = drop 9 c5;
       let c7 = (if c6 \<noteq> [] \<and> hd c6 = DQ then tl c6 else c6);
       (v_sec, c8) \<leftarrow> copy_quoted VALUE_LEN c7;
       sec \<leftarrow> val_atoi v_sec;
       c9 \<leftarrow> buf_strchr c8 (CHR ''k'');
       (k, c10) \<leftarrow> copy_quoted SEGMENT_K_LEN (drop 4 c9);
       c11 \<leftarrow> buf_strstr c10 ''k2'';
       (k2, _) \<leftarrow> copy_quoted SEGMENT_K_LEN (drop 5 c11);
       Some (Some \<lparr>seg_no = no, seg_size = sz, seg_seconds = sec,
         seg_k = (if length k < SEGMENT_K_LEN then cstr k else cstr (k @ k2)), seg_k2 = cstr k2\<rparr>, w1)
     })"

text \<open>
  The loop of \<open>yk_parse_pl_segs_do\<close>: \<open>d\<close> is \<open>end - ret\<close>. The segments found, or \<open>None\<close> for the
  two error returns. A piece of 256 characters without \<open>}\<close> leaves \<open>info\<close> unterminated.
\<close>

function segs_loop ::
  "'w os \<Rightarrow> nat \<Rightarrow> string \<Rightarrow> yk_segment_info list \<Rightarrow> 'w \<Rightarrow> ((string \<times> yk_segment_info list) option \<times> 'w) option" where
  "segs_loop os d ret acc w =
     (if d = 0 then Some (Some (drop 2 ret, acc), w)
      else
        let info = takeWhile (\<lambda>c. c \<noteq> CHR ''}'') (take SEG_INFO_LEN ret);
            i = (if length info < length (take SEG_INFO_LEN ret) then length info else SEG_INFO_LEN)
        in if SEG_INFO_LEN \<le> length info then None
           else case yk_create_segment_info os info w of
             None \<Rightarrow> None
           | Some (None, w1) \<Rightarrow> Some (None, w1)
           | Some (Some seg, w1) \<Rightarrow>
               if STREAM_SEGS_MAX \<le> Suc (length acc) then Some (None, w1)
               else segs_loop os (d - (i + 2)) (drop (i + 2) ret) (acc @ [seg]) w1)"
  by pat_completeness auto
termination
  by (relation "measure (\<lambda>(os, d, ret, acc, w). d)") auto

declare segs_loop.simps [simp del]

definition yk_parse_pl_segs_do ::
  "'w os \<Rightarrow> string \<Rightarrow> 'w \<Rightarrow> ((string \<times> yk_segment_info list) option \<times> 'w) option" where
  "yk_parse_pl_segs_do os cur w =
     (let ret = drop 6 cur in
      case strchr ret (CHR '']'') of
        None \<Rightarrow> Some (Some (drop 2 ret, []), w)
      | Some e \<Rightarrow> segs_loop os (length ret - length e) ret [] w)"

section \<open>The three parts of the answer\<close>

definition stream_tags :: "string list" where
  "stream_tags = [''hd2'', ''mp4'', ''hd3'', ''flv'']"

definition tag_at :: "string \<Rightarrow> string option" where
  "tag_at ret = find (\<lambda>t. take 3 ret = t) stream_tags"

text \<open>The digits are copied as long as there are any; the array has room for seven and the terminator,
  and there is no check.\<close>

definition yk_parse_pl_seed :: "string \<Rightarrow> (string option \<times> string) option" where
  "yk_parse_pl_seed cur = (case strstr cur ''seed'' of
      None \<Rightarrow> Some (None, [])
    | Some s \<Rightarrow>
        let r = drop 6 s; ds = takeWhile (\<lambda>c. c \<noteq> CHR '','' \<and> isdigit c) r in
        if SEED_STRING_LEN \<le> length ds then None
        else Some (Some (drop (length ds) r), ds))"

text \<open>The four branches of the loop differ in the type only. \<open>Some (None, [], w)\<close> is \<open>goto error\<close>. The
  code checks neither the end of the answer, nor the room in \<open>streamfileids\<close>, nor the number of
  streams: going past one of these bounds is undefined, and a fault here.\<close>

function streamfileids_loop ::
  "'w os \<Rightarrow> string \<Rightarrow> yk_stream_info list \<Rightarrow> 'w \<Rightarrow> (string option \<times> yk_stream_info list \<times> 'w) option" where
  "streamfileids_loop os ret streams w = (case tag_at ret of
      Some t \<Rightarrow>
        (case yk_create_stream_info os t w of
           (None, w1) \<Rightarrow> Some (None, yk_destroy_streams_all streams, w1)
         | (Some p, w1) \<Rightarrow>
             let r = drop 6 ret; v = takeWhile (\<lambda>c. c \<noteq> DQ) r in
             if length v = length r then None
             else if STREAM_FILE_IDS_LEN \<le> length v then None
             else if STREAM_TYPE_TOTAL \<le> length streams then None
             else streamfileids_loop os (drop (length v + 3) r) (streams @ [p\<lparr>streamfileids := v\<rparr>]) w1)
    | None \<Rightarrow>
        if take 3 ret = DQ # ''se'' then Some (Some (drop 1 ret), streams, w)
        else Some (None, yk_destroy_streams_all streams, w))"
  by pat_completeness auto
termination
proof (relation "measure (\<lambda>(os, ret, streams, w). length ret)", goal_cases)
  case (2 os ret streams w t p a b r v)
  have "length (takeWhile (\<lambda>c. c \<noteq> DQ) (drop 6 ret)) \<le> length ret - 6"
    by (metis length_drop length_takeWhile_le)
  with 2 show ?case by auto
qed auto

declare streamfileids_loop.simps [simp del]

definition yk_parse_pl_streamfileids ::
  "'w os \<Rightarrow> string \<Rightarrow> yk_stream_info list \<Rightarrow> 'w \<Rightarrow> (string option \<times> yk_stream_info list \<times> 'w) option" where
  "yk_parse_pl_streamfileids os cur streams w = (case strstr cur ''streamfileids'' of
      None \<Rightarrow> Some (None, streams, w)
    | Some s \<Rightarrow> streamfileids_loop os (drop 17 s) streams w)"

lemma tag_at_SomeD: "tag_at ret = Some t \<Longrightarrow> t \<in> set stream_tags \<and> take 3 ret = t \<and> ret \<noteq> []"
  by (auto simp: tag_at_def stream_tags_def split: if_splits)

lemma segs_loop_length:
  "segs_loop os d ret acc w = Some (Some (ret', new), w') \<Longrightarrow> length ret' \<le> length ret"
proof (induction os d ret acc w rule: segs_loop.induct)
  case (1 os d ret acc w)
  show ?case
  proof (cases "d = 0")
    case True
    with "1.prems" show ?thesis by (auto simp: segs_loop.simps [of os 0])
  next
    case False
    let ?info = "takeWhile (\<lambda>c. c \<noteq> CHR ''}'') (take SEG_INFO_LEN ret)"
    let ?i = "if length ?info < length (take SEG_INFO_LEN ret) then length ?info else SEG_INFO_LEN"
    from "1.prems" False obtain seg w1 where
      h: "\<not> SEG_INFO_LEN \<le> length ?info" "yk_create_segment_info os ?info w = Some (Some seg, w1)"
      "\<not> STREAM_SEGS_MAX \<le> Suc (length acc)"
      "segs_loop os (d - (?i + 2)) (drop (?i + 2) ret) (acc @ [seg]) w1 = Some (Some (ret', new), w')"
      by (subst (asm) segs_loop.simps)
         (auto simp: Let_def simp del: length_take split: if_splits option.splits prod.splits)
    from "1.IH" [OF False refl refl h(1,2) refl refl h(3,4)] show ?thesis by simp
  qed
qed

lemma segs_do_shorter:
  assumes "yk_parse_pl_segs_do os ret w = Some (Some (ret', new), w')" and "ret \<noteq> []"
  shows "length ret' < length ret"
proof (cases "strchr (drop 6 ret) (CHR '']'')")
  case None
  with assms show ?thesis by (cases ret) (auto simp: yk_parse_pl_segs_do_def)
next
  case (Some e)
  with assms(1) have "segs_loop os (length (drop 6 ret) - length e) (drop 6 ret) [] w = Some (Some (ret', new), w')"
    by (simp add: yk_parse_pl_segs_do_def)
  from segs_loop_length [OF this] assms(2) show ?thesis by (cases ret) auto
qed

function pl_segs_loop ::
  "'w os \<Rightarrow> string \<Rightarrow> yk_stream_info list \<Rightarrow> 'w \<Rightarrow> (string option \<times> yk_stream_info list \<times> 'w) option" where
  "pl_segs_loop os ret streams w = (case tag_at ret of
      Some t \<Rightarrow>
        (case yk_find_stream_info streams t of
           None \<Rightarrow> Some (None, yk_destroy_streams_all streams, w)
         | Some i \<Rightarrow>
             (case yk_parse_pl_segs_do os ret w of
                None \<Rightarrow> None
              | Some (None, w1) \<Rightarrow> Some (None, yk_destroy_streams_all streams, w1)
              | Some (Some (ret', new), w1) \<Rightarrow>
                  let p = streams ! i; p' = p\<lparr>segs := new @ drop (length new) (segs p)\<rparr>
                  in pl_segs_loop os ret' (streams[i := p']) w1))
    | None \<Rightarrow>
        if take 3 ret = DQ # ''st'' then Some (Some (drop 1 ret), streams, w)
        else Some (None, yk_destroy_streams_all streams, w))"
  by pat_completeness auto
termination
  by (relation "measure (\<lambda>(os, ret, streams, w). length ret)") (auto dest: segs_do_shorter tag_at_SomeD)

declare pl_segs_loop.simps [simp del]

definition yk_parse_pl_segs ::
  "'w os \<Rightarrow> string \<Rightarrow> yk_stream_info list \<Rightarrow> 'w \<Rightarrow> (string option \<times> yk_stream_info list \<times> 'w) option" where
  "yk_parse_pl_segs os cur streams w = (case strstr cur ''segs'' of
      None \<Rightarrow> Some (None, streams, w)
    | Some s \<Rightarrow> pl_segs_loop os (drop 8 s) streams w)"

text \<open>When the answer has no seed, the code converts its array \<open>ss\<close>, which nothing has written to, before
  it looks at the cursor and returns; the number is dropped, and that read is left out here.\<close>

definition yk_parse_playlist ::
  "'w os \<Rightarrow> string \<Rightarrow> yk_stream_info list \<Rightarrow> 'w \<Rightarrow> ((int \<times> yk_stream_info list) \<times> 'w) option" where
  "yk_parse_playlist os data streams w =
     (if streams \<noteq> [] then Some ((- 1, streams), w)
      else do {
        (cur, ss) \<leftarrow> yk_parse_pl_seed data;
        (case cur of
           None \<Rightarrow> Some ((- 1, streams), w)
         | Some c1 \<Rightarrow> do {
             seed \<leftarrow> atoi ss;
             (cur2, streams1, w1) \<leftarrow> yk_parse_pl_streamfileids os c1 streams w;
             (case cur2 of
                None \<Rightarrow> Some ((- 1, streams1), w1)
              | Some c2 \<Rightarrow> do {
                  let streams2 = map (\<lambda>s. s\<lparr>st_seed := seed\<rparr>) streams1;
                  (cur3, streams3, w2) \<leftarrow> yk_parse_pl_segs os c2 streams2 w1;
                  Some ((if cur3 = None then - 1 else 0, streams3), w2)
                })
           })
      })"

section \<open>An answer and its streams\<close>

definition sample_playlist :: string where
  "sample_playlist = ''{'' @ [DQ] @ ''seed'' @ [DQ] @ '':1599,'' @ [DQ] @ ''streamfileids'' @ [DQ] @ '':{'' @ [DQ] @ ''flv'' @ [DQ] @ '':'' @ [DQ]
     @ ''40*32*'' @ [DQ] @ ''},'' @ [DQ] @ ''segs'' @ [DQ] @ '':{'' @ [DQ] @ ''flv'' @ [DQ] @ '':[{'' @ [DQ] @ ''no'' @ [DQ] @ '':'' @ [DQ] @ ''0''
     @ [DQ] @ '','' @ [DQ] @ ''size'' @ [DQ] @ '':'' @ [DQ] @ ''123'' @ [DQ] @ '','' @ [DQ] @ ''seconds'' @ [DQ] @ '':'' @ [DQ] @ ''196'' @ [DQ]
     @ '','' @ [DQ] @ ''k'' @ [DQ] @ '':'' @ [DQ] @ ''a1'' @ [DQ] @ '','' @ [DQ] @ ''k2'' @ [DQ] @ '':'' @ [DQ] @ ''b2'' @ [DQ] @ ''}]},'' @ [DQ] @ ''streamsizes''"

lemma sample_playlist_parsed:
  "yk_parse_playlist scripted sample_playlist [] \<lparr>answers = [], sent = [], opened = 0, closed = 0\<rparr> = Some ((0,
     [\<lparr>st_type = ''flv'', streamfileids = ''40*32*'', streamsizes = 0, st_seed = 1599,
       segs = [\<lparr>seg_no = 0, seg_size = 123, seg_seconds = 196, seg_k = ''a1'', seg_k2 = ''b2''\<rparr>]\<rparr>]),
     \<lparr>answers = [], sent = [], opened = 0, closed = 0\<rparr>)"
  by code_simp

end
