(* ===== verification/Site_Client.thy ===== *)
theory Site_Client
  imports Client_State Sohu_Lib Youku_Playlist
begin

text \<open>
  The clients of the two sites: the rest of \<^verbatim>\<open>snooping_client/sc_youku.c\<close> and
  \<^verbatim>\<open>snooping_client/sc_sohu.c\<close>, which turn an origin into content entries and have nginx
  download them. An entry is passed as its index.

  The functions that read a response as a string fault when the response fills its buffer and
  has no terminator.
\<close>

text \<open>\<open>http_parse_status_line(response, strlen(response), &status)\<close>.\<close>

definition parse_response_status :: "nat \<Rightarrow> buf \<Rightarrow> (int \<times> int option) option" where
  "parse_response_status cap b =
     (if terminated cap b then Some (http_parse_status_line (cstr b) (int (length (cstr b)))) else None)"

text \<open>Both sites add the URL they found to the list and start the download if that succeeded; the
  result of the download only changes the log.\<close>

definition add_and_download ::
  "'w os \<Rightarrow> (nat \<Rightarrow> 'w sc_state \<Rightarrow> (int \<times> 'w sc_state) option) \<Rightarrow> nat \<Rightarrow> string \<Rightarrow> 'w sc_state \<Rightarrow> 'w sc_state option" where
  "add_and_download os download origin url s = do {
     ((ret, parsed), s1) \<leftarrow> state_add_ctnt os (Some origin) url s;
     (if ret \<noteq> 0 then Some s1
      else do { p \<leftarrow> parsed; (_, s2) \<leftarrow> download p s1; Some s2 })
   }"

section \<open>Youku\<close>

fun yk_type_loop :: "nat \<Rightarrow> int \<Rightarrow> yk_stream_info list \<Rightarrow> int" where
  "yk_type_loop i ret [] = ret"
| "yk_type_loop i ret (s # ss) =
     (let ret1 = (if strncmp_eq (st_type s) ''flv'' 3 then int i else ret) in
      if strncmp_eq (st_type s) ''mp4'' 3 then int i else yk_type_loop (Suc i) ret1 ss)"

definition sc_get_yk_download_video_type :: "yk_stream_info list \<Rightarrow> int" where
  "sc_get_yk_download_video_type streams = yk_type_loop 0 (- 1) (take STREAM_TYPE_TOTAL streams)"

definition sc_yk_handle_cached :: "nat \<Rightarrow> 'w sc_state \<Rightarrow> (int \<times> 'w sc_state) option" where
  "sc_yk_handle_cached parsed s = (case sc_ld_obtain_ctrl_ld_youku s of
      None \<Rightarrow> Some (HC_ERR_INTERNAL, s)
    | Some i \<Rightarrow> do {
        (r, rl) \<leftarrow> sc_res_info_handle_cached (Some i) (Some parsed) (sc_res_info_list s);
        Some (r, s\<lparr>sc_res_info_list := rl\<rparr>)
      })"

definition sc_youku_download :: "'w os \<Rightarrow> nat \<Rightarrow> 'w sc_state \<Rightarrow> (int \<times> 'w sc_state) option" where
  "sc_youku_download os parsed s = do {
     (ret, s1) \<leftarrow> lift_world (sc_ngx_download os (ctnt_url s parsed) (ctnt_path s parsed)) s;
     (ret, s2) \<leftarrow> (if ret = HC_ERR_EXISTS then sc_yk_handle_cached parsed s1 else Some (ret, s1));
     Some (ret, if ret \<noteq> 0 then set_ctnt_flag sc_res_flag_set_i_fail parsed s2 else s2)
   }"

text \<open>One segment in the inner loop of \<open>sc_get_yk_video_tradition\<close>: \<open>False\<close> is the \<open>goto out\<close>
  with \<open>err = -1\<close>.\<close>

definition yk_seg_once ::
  "'w os \<Rightarrow> nat \<Rightarrow> string \<Rightarrow> yk_stream_info \<Rightarrow> yk_segment_info \<Rightarrow> 'w sc_state \<Rightarrow> (bool \<times> 'w sc_state) option" where
  "yk_seg_once os origin yk_url strm seg s = do {
     (r, fp) \<leftarrow> yk_seg_to_flvpath strm seg;
     if r < 0 then Some (True, s)
     else do {
       ((r1, response), s1) \<leftarrow> lift_world (yk_http_session os (cstr fp) yk_url [] RESP_BUF_LEN) s;
       if r1 < 0 then Some (False, s1)
       else do {
         (r2, status) \<leftarrow> parse_response_status RESP_BUF_LEN response;
         if r2 < 0 then Some (False, s1)
         else if status = Some 200 \<or> status = Some 302
         then do {
           (r3, real_url) \<leftarrow> yk_parse_flvpath (cstr response);
           if r3 < 0 then Some (False, s1)
           else do {
             s2 \<leftarrow> add_and_download os (sc_youku_download os) origin (cstr real_url) s1;
             Some (True, s2)
           }
         }
         else Some (False, s1)
       }
     }
   }"

fun yk_segs_loop ::
  "'w os \<Rightarrow> nat \<Rightarrow> string \<Rightarrow> yk_stream_info \<Rightarrow> yk_segment_info list \<Rightarrow> 'w sc_state \<Rightarrow> (int \<times> 'w sc_state) option" where
  "yk_segs_loop os origin yk_url strm [] s = Some (0, s)"
| "yk_segs_loop os origin yk_url strm (seg # rest) s = do {
     (go, s1) \<leftarrow> yk_seg_once os origin yk_url strm seg s;
     if go then yk_segs_loop os origin yk_url strm rest s1 else Some (- 1, s1)
   }"

text \<open>
  \<open>yk_url\<close> is an uninitialised array: \<open>junk\<close> is what it holds before the copy, which adds no
  terminator. The test on \<open>download_index\<close> cannot be true, so an answer with neither an flv nor
  an mp4 stream reads \<open>streams[-1]\<close>.
\<close>

definition sc_get_yk_video_tradition :: "'w os \<Rightarrow> buf \<Rightarrow> nat \<Rightarrow> 'w sc_state \<Rightarrow> (int \<times> 'w sc_state) option" where
  "sc_get_yk_video_tradition os junk origin s = do {
     yk_buf \<leftarrow> sc_res_copy_url junk (mgmt_url s origin) HTTP_URL_MAX_LEN False;
     let yk_url = cstr yk_buf;
     case os_malloc os RESP_BUF_LEN (sc_world s) of (ok, w0) \<Rightarrow>
       let s0 = s\<lparr>sc_world := w0\<rparr> in
       if \<not> ok then Some (- 1, s0)
       else do {
         ((okp, pl), s1) \<leftarrow> lift_world (yk_url_to_playlist os yk_url []) s0;
         if \<not> okp then Some (- 1, s1)
         else do {
           ((r1, response), s2) \<leftarrow> lift_world (yk_http_session os (cstr pl) yk_url [] RESP_BUF_LEN) s1;
           if r1 < 0 then Some (- 1, s2)
           else do {
             (r2, status) \<leftarrow> parse_response_status RESP_BUF_LEN response;
             if r2 < 0 \<or> status \<noteq> Some 200 then Some (- 1, s2)
             else do {
               ((r3, streams), s3) \<leftarrow> lift_world (yk_parse_playlist os (cstr response) []) s2;
               if r3 \<noteq> 0 then Some (- 1, s3)
               else
                 let i = sc_get_yk_download_video_type streams in
                 if i < 0 \<and> int STREAM_TYPE_TOTAL \<le> i then Some (- 1, s3)
                 else if i < 0 \<or> int (length streams) \<le> i then None
                 else yk_segs_loop os origin yk_url (streams ! nat i)
                        (take STREAM_SEGS_MAX (segs (streams ! nat i))) s3
             }
           }
         }
       }
   }"

definition sc_get_yk_video :: "'w os \<Rightarrow> buf \<Rightarrow> nat \<Rightarrow> 'w sc_state \<Rightarrow> (int \<times> 'w sc_state) option" where
  "sc_get_yk_video os junk origin s =
     (if yk_is_tradition_url (mgmt_url s origin) then sc_get_yk_video_tradition os junk origin s
      else Some (- 1, s))"

section \<open>Sohu\<close>

definition sc_sohu_handle_cached :: "nat \<Rightarrow> 'w sc_state \<Rightarrow> (int \<times> 'w sc_state) option" where
  "sc_sohu_handle_cached parsed s = (case sc_ld_obtain_ctrl_ld_sohu s of
      None \<Rightarrow> Some (HC_ERR_INTERNAL, s)
    | Some i \<Rightarrow> do {
        (r, rl) \<leftarrow> sc_res_info_handle_cached (Some i) (Some parsed) (sc_res_info_list s);
        Some (r, s\<lparr>sc_res_info_list := rl\<rparr>)
      })"

text \<open>From \<open>bzero(real_url, \<dots>)\<close> on.\<close>

definition sohu_fetch :: "'w os \<Rightarrow> nat \<Rightarrow> string \<Rightarrow> 'w sc_state \<Rightarrow> (int \<times> 'w sc_state) option" where
  "sohu_fetch os parsed response s = do {
     (r, real_url) \<leftarrow> sohu_parse_file_url_response response [];
     if r \<noteq> 0 then Some (- 1, s)
     else do {
       (ret, s1) \<leftarrow> lift_world (sc_ngx_download os (cstr real_url) (ctnt_path s parsed)) s;
       Some (ret, if ret < 0 then set_ctnt_flag sc_res_flag_set_i_fail parsed s1 else s1)
     }
   }"

definition sc_sohu_download :: "'w os \<Rightarrow> nat \<Rightarrow> 'w sc_state \<Rightarrow> (int \<times> 'w sc_state) option" where
  "sc_sohu_download os parsed s = do {
     ((r1, response), s1) \<leftarrow> lift_world (sohu_http_session os (ctnt_url s parsed) [] BUFFER_LEN) s;
     if r1 < 0 then Some (- 1, s1)
     else do {
       (r2, status) \<leftarrow> parse_response_status BUFFER_LEN response;
       if r2 < 0 then Some (- 1, s1)
       else if status = Some 301 then sohu_fetch os parsed (cstr response) s1
       else if status = Some 302 \<and> contains (cstr response) SC_REDIRECT_KEY_WORD
       then do {
         (ret, s2) \<leftarrow> sc_sohu_handle_cached parsed s1;
         if ret = HC_SUCCESS then Some (ret, s2)
         else sohu_fetch os parsed (cstr response) s2
       }
       else Some (- 1, s1)
     }
   }"

function sohu_m3u8_loop :: "'w os \<Rightarrow> nat \<Rightarrow> string \<Rightarrow> 'w sc_state \<Rightarrow> 'w sc_state option" where
  "sohu_m3u8_loop os origin cur s = (case sohu_parse_m3u8_response cur [] of (next, file_url) \<Rightarrow> do {
     s2 \<leftarrow> add_and_download os (sc_sohu_download os) origin (cstr file_url) s;
     (case next of None \<Rightarrow> Some s2 | Some cur' \<Rightarrow> sohu_m3u8_loop os origin cur' s2)
   })"
  by pat_completeness auto
termination
  by (relation "measure (\<lambda>(os, origin, cur, s). length cur)") (auto dest: sohu_parse_m3u8_shorter [OF sym])

declare sohu_m3u8_loop.simps [simp del]

definition sc_get_sohu_video_m3u8 :: "'w os \<Rightarrow> buf \<Rightarrow> nat \<Rightarrow> 'w sc_state \<Rightarrow> (int \<times> 'w sc_state) option" where
  "sc_get_sohu_video_m3u8 os junk origin s = do {
     m3u8_buf \<leftarrow> sc_res_copy_url junk (mgmt_url s origin) HTTP_URL_MAX_LEN False;
     let m3u8_url = cstr m3u8_buf;
     case os_malloc os RESP_BUF_LEN (sc_world s) of (ok, w0) \<Rightarrow>
       let s0 = s\<lparr>sc_world := w0\<rparr> in
       if \<not> ok then Some (- 1, s0)
       else do {
         ((r1, response), s1) \<leftarrow> lift_world (sohu_http_session os m3u8_url [] RESP_BUF_LEN) s0;
         if r1 < 0 then Some (- 1, s1)
         else do {
           (r2, status) \<leftarrow> parse_response_status RESP_BUF_LEN response;
           if r2 < 0 \<or> status \<noteq> Some 200 then Some (- 1, s1)
           else do {
             s2 \<leftarrow> sohu_m3u8_loop os origin (cstr response) s1;
             Some (0, s2)
           }
         }
       }
   }"

definition sc_get_sohu_video :: "'w os \<Rightarrow> buf \<Rightarrow> nat \<Rightarrow> 'w sc_state \<Rightarrow> (int \<times> 'w sc_state) option" where
  "sc_get_sohu_video os junk origin s =
     (if sohu_is_m3u8_url (mgmt_url s origin) then sc_get_sohu_video_m3u8 os junk origin s
      else Some (- 1, s))"

section \<open>Downloading an entry\<close>

lemma loader_cached_evolves:
  assumes inv: "sc_inv s" and k: "sc_own s k" and l: "loader_ok (sc_res_info_list s) (Some i)"
    and h: "sc_res_info_handle_cached (Some i) (Some k) (sc_res_info_list s) = Some (r, rl)"
  shows "sc_evolves {k} s (s\<lparr>sc_res_info_list := rl\<rparr>)
     \<and> (r = HC_SUCCESS \<longrightarrow> sc_res_flag_is_stored (ct_common (ctnt rl k)))
     \<and> (r \<noteq> HC_SUCCESS \<longrightarrow> r < 0 \<and> rl = sc_res_info_list s)"
proof -
  have "res_inv (sc_res_info_list s)" "mgmt_used (sc_res_info_list s) i"
    "sc_res_gen_is_ctrl_ld (Some (mg_common (mgmt (sc_res_info_list s) i)))"
    using inv l by (auto simp: sc_inv_def loader_ok_def)
  from evolves_cached [OF this k h] show ?thesis by (simp add: sc_evolves_def)
qed

definition cached_outcome :: "nat \<Rightarrow> 'w sc_state \<Rightarrow> int \<Rightarrow> 'w sc_state \<Rightarrow> bool" where
  "cached_outcome k s r s' \<longleftrightarrow> sc_evolves {k} s s'
     \<and> (r = HC_SUCCESS \<longrightarrow> sc_res_flag_is_stored (sc_ri s' k)) \<and> (r \<noteq> HC_SUCCESS \<longrightarrow> r < 0 \<and> s' = s)"

lemma yk_cached_outcome:
  assumes "sc_inv s" and "sc_own s k" and "sc_yk_handle_cached k s = Some (r, s')"
  shows "cached_outcome k s r s'"
  using assms loader_cached_evolves [OF assms(1,2)] unfolding sc_yk_handle_cached_def cached_outcome_def
  by (auto simp: sc_ld_obtain_ctrl_ld_youku_def sc_inv_def hc_codes bind_Some_conv split: option.splits prod.splits)

lemma sohu_cached_outcome:
  assumes "sc_inv s" and "sc_own s k" and "sc_sohu_handle_cached k s = Some (r, s')"
  shows "cached_outcome k s r s'"
  using assms loader_cached_evolves [OF assms(1,2)] unfolding sc_sohu_handle_cached_def cached_outcome_def
  by (auto simp: sc_ld_obtain_ctrl_ld_sohu_def sc_inv_def hc_codes bind_Some_conv split: option.splits prod.splits)

lemma youku_download_outcome:
  assumes inv: "sc_inv s" and k: "sc_own s k" and d: "sc_youku_download os k s = Some (r, s')"
  shows "sc_evolves {k} s s'" and "r \<noteq> 0 \<Longrightarrow> sc_res_flag_is_i_fail (sc_ri s' k)"
    and "r = 0 \<Longrightarrow> sc_res_flag_is_stored (sc_ri s' k) \<or> sc_res_info_list s' = sc_res_info_list s"
proof -
  from d obtain r1 s1 s2 where n: "lift_world (sc_ngx_download os (ctnt_url s k) (ctnt_path s k)) s = Some (r1, s1)"
    and h: "(if r1 = HC_ERR_EXISTS then sc_yk_handle_cached k s1 else Some (r1, s1)) = Some (r, s2)"
    and s': "s' = (if r \<noteq> 0 then set_ctnt_flag sc_res_flag_set_i_fail k s2 else s2)"
    unfolding sc_youku_download_def by (auto simp: bind_Some_conv split_beta split del: if_split cong: if_cong)
  from lift_world_state [OF n] obtain w where s1: "s1 = s\<lparr>sc_world := w\<rparr>" by blast
  have inv1: "sc_inv s1" "sc_own s1 k" using inv k s1 by simp_all
  have e: "sc_evolves {k} s s2 \<and> (r = 0 \<longrightarrow> sc_res_flag_is_stored (sc_ri s2 k) \<or> sc_res_info_list s2 = sc_res_info_list s)"
    using h yk_cached_outcome [OF inv1, of r s2] sc_evolves_refl [OF inv] s1
    by (auto simp: cached_outcome_def hc_codes split: if_splits)
  have i2: "sc_inv s2" "sc_own s2 k" using e sc_evolves_inv [OF inv] sc_own_evolves [OF inv _ k] by blast+
  show "sc_evolves {k} s s'"
    using e set_i_fail_evolves [OF i2] sc_evolves_trans [OF inv, of "{k}" s2 "{k}" s' "{k}"]
    by (auto simp: s')
  show "r \<noteq> 0 \<Longrightarrow> sc_res_flag_is_i_fail (sc_ri s' k)" by (simp add: s')
  show "r = 0 \<Longrightarrow> sc_res_flag_is_stored (sc_ri s' k) \<or> sc_res_info_list s' = sc_res_info_list s"
    using e by (simp add: s')
qed

lemma sohu_fetch_evolves:
  assumes inv: "sc_inv s" and k: "sc_own s k" and d: "sohu_fetch os k resp s = Some (r, s')"
  shows "sc_evolves {k} s s'"
proof -
  from d consider "s' = s" | r1 s1 u where "lift_world (sc_ngx_download os u (ctnt_path s k)) s = Some (r1, s1)"
      "s' = (if r1 < 0 then set_ctnt_flag sc_res_flag_set_i_fail k s1 else s1)"
    unfolding sohu_fetch_def by (auto simp: bind_Some_conv split_beta split: if_splits)
  then show ?thesis
  proof cases
    case 1
    with inv show ?thesis by auto
  next
    case (2 r1 s1 u)
    from lift_world_state [OF 2(1)] obtain w where s1: "s1 = s\<lparr>sc_world := w\<rparr>" by blast
    have "sc_evolves {k} s1 (set_ctnt_flag sc_res_flag_set_i_fail k s1)"
      using set_i_fail_evolves [of s1 k] inv k s1 by simp
    with 2(2) s1 sc_evolves_refl [OF inv] show ?thesis by auto
  qed
qed

lemma sohu_download_evolves:
  assumes inv: "sc_inv s" and k: "sc_own s k" and d: "sc_sohu_download os k s = Some (r, s')"
  shows "sc_evolves {k} s s'"
proof -
  from d obtain r1 resp s1 where l: "lift_world (sohu_http_session os (ctnt_url s k) [] BUFFER_LEN) s = Some ((r1, resp), s1)"
    unfolding sc_sohu_download_def by (auto simp: bind_Some_conv split_beta)
  from lift_world_state [OF l] obtain w where s1: "s1 = s\<lparr>sc_world := w\<rparr>" by blast
  have i1: "sc_inv s1" "sc_own s1 k" using inv k s1 by simp_all
  from d l consider "s' = s1" | "sohu_fetch os k (cstr resp) s1 = Some (r, s')"
    | r2 s2 where "sc_sohu_handle_cached k s1 = Some (r2, s2)"
        "s' = s2 \<or> sohu_fetch os k (cstr resp) s2 = Some (r, s')"
    unfolding sc_sohu_download_def by (auto simp: bind_Some_conv split_beta split: if_splits)
  then have "sc_evolves {k} s1 s'"
  proof cases
    case 1
    with i1 show ?thesis by auto
  next
    case 2
    with sohu_fetch_evolves [OF i1] show ?thesis by blast
  next
    case (3 r2 s2)
    have e: "sc_evolves {k} s1 s2" using sohu_cached_outcome [OF i1 3(1)] by (simp add: cached_outcome_def)
    have i2: "sc_inv s2" "sc_own s2 k" using sc_evolves_inv [OF i1(1) e] sc_own_evolves [OF i1(1) e i1(2)] by auto
    from 3(2) e sohu_fetch_evolves [OF i2] sc_evolves_trans [OF i1(1) e, of "{k}" s' "{k}"] show ?thesis by blast
  qed
  with s1 show ?thesis by simp
qed

section \<open>Parsing an origin\<close>

text \<open>An entry is added to the origin and handed to the download function.\<close>

lemma add_then_download:
  assumes inv: "sc_inv s" and i: "mgmt_used (sc_res_info_list s) i"
      "\<not> sc_res_gen_is_ctrl_ld (Some (mg_common (mgmt (sc_res_info_list s) i)))"
    and a: "state_add_ctnt os (Some i) (cstr url) s = Some ((0, Some c), s1)"
    and d: "sc_inv s1 \<Longrightarrow> sc_own s1 c \<Longrightarrow> sc_evolves {c} s1 s2"
  shows "sc_evolves {} s s2"
proof -
  note e = state_add_ctnt_evolves [OF inv i(1) cstr_is_cstr a]
  have i1: "sc_inv s1" using sc_evolves_inv [OF inv e(1)] .
  have c: "\<not> ctnt_used (sc_res_info_list s) c" "ctnt_used (sc_res_info_list s1) c"
    "parent (ctnt (sc_res_info_list s1) c) = Some i" using e(2) by auto
  have "sc_own s1 c" using c(2,3) i(2) sc_mgmt_evolves [OF e(1) i(1)] by (simp add: own_ctnt_def)
  from d [OF i1 this] show ?thesis
    by (rule sc_evolves_trans [OF inv e(1)]) (use c(1) in \<open>auto simp: own_ctnt_def\<close>)
qed

definition plain_mgmt :: "'w sc_state \<Rightarrow> nat \<Rightarrow> bool" where
  "plain_mgmt s i \<longleftrightarrow> mgmt_used (sc_res_info_list s) i
     \<and> \<not> sc_res_gen_is_ctrl_ld (Some (mg_common (mgmt (sc_res_info_list s) i)))"

lemma plain_mgmt_evolves: "plain_mgmt s i \<Longrightarrow> sc_evolves C s s' \<Longrightarrow> plain_mgmt s' i"
  using sc_mgmt_evolves unfolding plain_mgmt_def by metis

lemma plain_mgmt_world [simp]: "plain_mgmt (s\<lparr>sc_world := w\<rparr>) i = plain_mgmt s i"
  by (simp add: plain_mgmt_def)

lemma sc_evolves_step: "sc_inv s \<Longrightarrow> sc_evolves {} s s1 \<Longrightarrow> sc_evolves {} s1 s2 \<Longrightarrow> sc_evolves {} s s2"
  by (rule sc_evolves_trans) auto

lemma add_only_evolves:
  "sc_inv s \<Longrightarrow> plain_mgmt s i \<Longrightarrow> state_add_ctnt os (Some i) (cstr u) s = Some (rp, s') \<Longrightarrow> sc_evolves {} s s'"
  using state_add_ctnt_evolves(1) [of s i "cstr u" os "fst rp" "snd rp" s'] by (simp add: plain_mgmt_def)

lemma add_download_evolves:
  assumes inv: "sc_inv s" "plain_mgmt s i" and a: "add_and_download os down i (cstr u) s = Some s'"
    and e: "\<And>c s1 r. sc_inv s1 \<Longrightarrow> sc_own s1 c \<Longrightarrow> down c s1 = Some (r, s') \<Longrightarrow> sc_evolves {c} s1 s'"
  shows "sc_evolves {} s s'"
proof -
  from a consider rp where "state_add_ctnt os (Some i) (cstr u) s = Some (rp, s')"
    | c s1 r where "state_add_ctnt os (Some i) (cstr u) s = Some ((0, Some c), s1)" "down c s1 = Some (r, s')"
    by (auto simp: add_and_download_def bind_Some_conv split: if_splits)
  then show ?thesis
  proof cases
    case 1
    with add_only_evolves [OF inv] show ?thesis by blast
  next
    case (2 c s1 r)
    with add_then_download [OF inv(1) _ _ 2(1)] e [OF _ _ 2(2)] inv(2) show ?thesis by (simp add: plain_mgmt_def)
  qed
qed

lemma yk_seg_once_evolves:
  assumes inv: "sc_inv s" "plain_mgmt s i" and o: "yk_seg_once os i u strm seg s = Some (go, s')"
  shows "sc_evolves {} s s'"
proof -
  obtain r0 fp where f: "yk_seg_to_flvpath strm seg = Some (r0, fp)"
    using o by (auto simp: yk_seg_once_def bind_Some_conv)
  show ?thesis
  proof (cases "r0 < 0")
    case True
    with f o inv show ?thesis by (auto simp: yk_seg_once_def)
  next
    case False
    obtain r1 resp s1 where l: "lift_world (yk_http_session os (cstr fp) u [] RESP_BUF_LEN) s = Some ((r1, resp), s1)"
      using f False o by (auto simp: yk_seg_once_def bind_Some_conv split_beta)
    obtain w where s1: "s1 = s\<lparr>sc_world := w\<rparr>" using lift_world_state [OF l] by blast
    have i1: "sc_inv s1" "plain_mgmt s1 i" using inv s1 by simp_all
    from f False l o consider "s' = s1"
      | url where "add_and_download os (sc_youku_download os) i (cstr url) s1 = Some s'"
      by (auto simp: yk_seg_once_def bind_Some_conv split: if_split_asm)
    then have "sc_evolves {} s1 s'"
    proof cases
      case 1
      with i1 show ?thesis by auto
    next
      case (2 url)
      show ?thesis by (rule add_download_evolves [OF i1 2]) (rule youku_download_outcome(1))
    qed
    with s1 show ?thesis by simp
  qed
qed

lemma yk_segs_loop_evolves:
  "sc_inv s \<Longrightarrow> plain_mgmt s i \<Longrightarrow> yk_segs_loop os i u strm sgs s = Some (r, s') \<Longrightarrow> sc_evolves {} s s'"
proof (induction sgs arbitrary: s)
  case (Cons seg rest)
  from Cons.prems(3) obtain go s1 where o: "yk_seg_once os i u strm seg s = Some (go, s1)"
    and l: "if go then yk_segs_loop os i u strm rest s1 = Some (r, s') else s' = s1"
    by (auto simp: bind_Some_conv split_beta split: if_splits)
  have e: "sc_evolves {} s s1" using yk_seg_once_evolves [OF Cons.prems(1,2) o] .
  with l Cons.IH [OF sc_evolves_inv [OF Cons.prems(1) e] plain_mgmt_evolves [OF Cons.prems(2) e]] Cons.prems(1)
  show ?case by (auto split: if_splits intro: sc_evolves_step)
qed auto

lemma sohu_m3u8_loop_evolves:
  "sc_inv s \<Longrightarrow> plain_mgmt s i \<Longrightarrow> sohu_m3u8_loop os i cur s = Some s' \<Longrightarrow> sc_evolves {} s s'"
proof (induction os i cur s rule: sohu_m3u8_loop.induct)
  case (1 os i cur s)
  obtain nx fu where p: "sohu_parse_m3u8_response cur [] = (nx, fu)" by fastforce
  from "1.prems"(3) p obtain s1 where a: "add_and_download os (sc_sohu_download os) i (cstr fu) s = Some s1"
    and l: "case nx of None \<Rightarrow> s' = s1 | Some cur' \<Rightarrow> sohu_m3u8_loop os i cur' s1 = Some s'"
    by (subst (asm) sohu_m3u8_loop.simps) (auto simp: bind_Some_conv split: option.splits)
  have e: "sc_evolves {} s s1"
    by (rule add_download_evolves [OF "1.prems"(1,2) a]) (rule sohu_download_evolves)
  from l "1.IH" [OF p [symmetric] a _ sc_evolves_inv [OF "1.prems"(1) e] plain_mgmt_evolves [OF "1.prems"(2) e]] e "1.prems"(1)
  show ?case by (auto split: option.splits intro: sc_evolves_step)
qed

text \<open>The calls of a parsing function one after the other: those that only reach the world, and
  the loop that adds entries.\<close>

definition parses :: "nat \<Rightarrow> 'w sc_state \<Rightarrow> ('a \<times> 'w sc_state) option \<Rightarrow> bool" where
  "parses i s m \<longleftrightarrow> (\<forall>r s'. m = Some (r, s') \<longrightarrow> sc_inv s \<longrightarrow> plain_mgmt s i \<longrightarrow> sc_evolves {} s s')"

lemma parses_done:
  "parses i s None"
  "parses i s (Some (r, s))"
  "parses i s (Some (r, s\<lparr>sc_world := w\<rparr>))"
  "parses i s (yk_segs_loop os i u strm sgs s)"
  "parses i s (do { s2 \<leftarrow> sohu_m3u8_loop os i cur s; Some (r, s2) })"
  using yk_segs_loop_evolves sohu_m3u8_loop_evolves by (auto simp: parses_def bind_Some_conv)

lemma parses_split:
  "parses i s m \<Longrightarrow> parses i s m' \<Longrightarrow> parses i s (if b then m else m')"
  "(\<And>a b. parses i s (f a b)) \<Longrightarrow> parses i s (case x of (a, b) \<Rightarrow> f a b)"
  "(\<And>a b. parses i s (g a b s1)) \<Longrightarrow> parses i s ((case x of (a, b) \<Rightarrow> g a b) s1)"
  by (auto simp: parses_def split: prod.splits)

lemma parses_value: "(\<And>x. parses i s (k x)) \<Longrightarrow> parses i s (m \<bind> k)"
  by (cases m) (auto simp: parses_def)

lemma parses_call:
  assumes "\<And>r w. parses i (s\<lparr>sc_world := w\<rparr>) (k r (s\<lparr>sc_world := w\<rparr>))"
  shows "parses i s (lift_world f (s\<lparr>sc_world := v\<rparr>) \<bind> (\<lambda>(r, s1). k r s1))"
    and "parses i s (lift_world f s \<bind> (\<lambda>(r, s1). k r s1))"
  using assms by (auto simp: parses_def bind_Some_conv dest!: lift_world_state)

lemma yk_tradition_parses: "parses i s (sc_get_yk_video_tradition os junk i s)"
  unfolding sc_get_yk_video_tradition_def Let_def
  by (rule parses_done parses_call parses_split | rule parses_value)+

lemma sohu_m3u8_parses: "parses i s (sc_get_sohu_video_m3u8 os junk i s)"
  unfolding sc_get_sohu_video_m3u8_def Let_def
  by (rule parses_done parses_call parses_split | rule parses_value)+

lemma get_video_evolves:
  "sc_inv s \<Longrightarrow> plain_mgmt s i \<Longrightarrow> sc_get_yk_video os junk i s = Some (r, s') \<Longrightarrow> sc_evolves {} s s'"
  "sc_inv s \<Longrightarrow> plain_mgmt s i \<Longrightarrow> sc_get_sohu_video os junk i s = Some (r, s') \<Longrightarrow> sc_evolves {} s s'"
  using yk_tradition_parses [of i s os junk] sohu_m3u8_parses [of i s os junk]
  by (auto simp: sc_get_yk_video_def sc_get_sohu_video_def parses_def split: if_splits)

section \<open>The groups of a playlist\<close>

fun add_all :: "'w os \<Rightarrow> nat \<Rightarrow> string list \<Rightarrow> 'w sc_state \<Rightarrow> 'w sc_state option" where
  "add_all os origin [] s = Some s"
| "add_all os origin (u # us) s = do { s1 \<leftarrow> add_and_download os (sc_sohu_download os) origin u s; add_all os origin us s1 }"

text \<open>The round that finds no link offers an empty URL, which is refused.\<close>

lemma add_empty [simp]: "add_and_download os d origin [] s = Some s"
  by (simp add: add_and_download_def state_add_ctnt_def sc_res_info_add_ctnt_def site_tests contains_def)

lemma m3u8_loop_rest:
  assumes "m3u8_rest t us"
  shows "sohu_m3u8_loop os origin t s = add_all os origin us s"
  using assms unfolding m3u8_rest_def
proof (elim disjE exE conjE)
  fix e assume e: "m3u8_entry_ok e" "\<not> contains (me_url e @ ''&'' @ me_para e) m3u8_tag2" "t = m3u8_last_text e" "us = [me_url e]"
  then have "cstr (me_url e) = me_url e" by (simp add: m3u8_entry_ok_def)
  with e m3u8_parse_last [OF e(1,2)] show ?thesis
    by (cases "add_and_download os (sc_sohu_download os) origin (me_url e) s") (simp_all add: sohu_m3u8_loop.simps)
qed (simp add: sohu_m3u8_loop.simps m3u8_parse_end)

lemma m3u8_loop_groups:
  assumes "\<forall>e \<in> set es. m3u8_entry_ok e" and "m3u8_rest t us"
  shows "sohu_m3u8_loop os origin (concat (map m3u8_entry_text es) @ t) s = add_all os origin (map me_url es @ us) s
     \<and> sohu_m3u8_loop os origin (m3u8_tag2 @ concat (map m3u8_entry_text es) @ t) s = add_all os origin (map me_url es @ us) s"
  using assms(1)
proof (induction es arbitrary: s)
  case Nil
  show ?case by (simp add: m3u8_loop_rest [OF assms(2)] m3u8_loop_rest [OF m3u8_tag2_rest [OF assms(2)]])
next
  case (Cons e es)
  let ?r = "concat (map m3u8_entry_text es) @ t"
  let ?e = "e\<lparr>me_text := m3u8_tag2 @ me_text e\<rparr>"
  have ok: "m3u8_entry_ok e" and ok': "m3u8_entry_ok ?e"
    using Cons.prems m3u8_rest_ok by simp_all
  have tx: "m3u8_entry_text ?e = m3u8_tag2 @ m3u8_entry_text e" "me_url ?e = me_url e"
    by (simp_all add: m3u8_entry_text_def me_url_def)
  have c: "cstr (me_url e) = me_url e" using ok by (simp add: m3u8_entry_ok_def)
  from Cons m3u8_parse_entry [OF ok, of ?r] m3u8_parse_entry [OF ok', of ?r] tx c show ?case
    by (simp add: sohu_m3u8_loop.simps [of _ _ "m3u8_entry_text e @ ?r"] sohu_m3u8_loop.simps [of _ _ "m3u8_tag2 @ m3u8_entry_text e @ ?r"])
qed

section \<open>Properties\<close>

definition is_flv :: "yk_stream_info \<Rightarrow> bool" where "is_flv st \<longleftrightarrow> strncmp_eq (st_type st) ''flv'' 3"
definition is_mp4 :: "yk_stream_info \<Rightarrow> bool" where "is_mp4 st \<longleftrightarrow> strncmp_eq (st_type st) ''mp4'' 3"

lemma yk_type_loop_none:
  "\<forall>st \<in> set ss. \<not> is_mp4 st \<and> \<not> is_flv st \<Longrightarrow> yk_type_loop i ret ss = ret"
  by (induction ss arbitrary: i) (auto simp: is_mp4_def is_flv_def)

lemma yk_type_loop_mp4:
  "\<exists>st \<in> set ss. is_mp4 st \<Longrightarrow> \<exists>k < length ss. yk_type_loop i ret ss = int (i + k) \<and> is_mp4 (ss ! k) \<and> (\<forall>j < k. \<not> is_mp4 (ss ! j))"
proof (induction ss arbitrary: i ret)
  case (Cons st ss)
  show ?case
  proof (cases "is_mp4 st")
    case True
    then show ?thesis by (intro exI [of _ 0]) (simp add: is_mp4_def)
  next
    case False
    with Cons.prems have "\<exists>st \<in> set ss. is_mp4 st" by auto
    from Cons.IH [OF this, of "Suc i" "if is_flv st then int i else ret"] obtain k where
      "k < length ss" "yk_type_loop (Suc i) (if is_flv st then int i else ret) ss = int (Suc i + k)"
      "is_mp4 (ss ! k)" "\<forall>j < k. \<not> is_mp4 (ss ! j)" by blast
    with False show ?thesis by (intro exI [of _ "Suc k"]) (auto simp: is_mp4_def is_flv_def less_Suc_eq_0_disj)
  qed
qed simp

lemma yk_type_loop_flv:
  "\<forall>st \<in> set ss. \<not> is_mp4 st \<Longrightarrow> \<exists>st \<in> set ss. is_flv st \<Longrightarrow> \<exists>k < length ss. yk_type_loop i ret ss = int (i + k)
     \<and> is_flv (ss ! k) \<and> (\<forall>j. k < j \<and> j < length ss \<longrightarrow> \<not> is_flv (ss ! j))"
proof (induction ss arbitrary: i ret)
  case (Cons st ss)
  have step: "yk_type_loop i ret (st # ss) = yk_type_loop (Suc i) (if is_flv st then int i else ret) ss"
    using Cons.prems(1) by (simp add: is_mp4_def is_flv_def)
  show ?case
  proof (cases "\<exists>st \<in> set ss. is_flv st")
    case True
    with Cons.IH [of "Suc i" "if is_flv st then int i else ret"] Cons.prems(1) obtain k where
      "k < length ss" "yk_type_loop (Suc i) (if is_flv st then int i else ret) ss = int (Suc i + k)"
      "is_flv (ss ! k)" "\<forall>j. k < j \<and> j < length ss \<longrightarrow> \<not> is_flv (ss ! j)" by auto
    with step show ?thesis by (intro exI [of _ "Suc k"]) (auto simp: nth_Cons split: nat.splits)
  next
    case False
    then have "yk_type_loop (Suc i) (int i) ss = int i" using Cons.prems(1) by (intro yk_type_loop_none) auto
    moreover have "is_flv st" using False Cons.prems(2) by auto
    ultimately show ?thesis using step False by (intro exI [of _ 0]) (auto simp: nth_Cons split: nat.splits)
  qed
qed simp

text \<open>Which stream is downloaded: the first mp4 stream if there is one, else the last flv
  stream, else none (-1), whatever other streams the playlist names.\<close>

lemma video_type_choice:
  assumes "length streams \<le> STREAM_TYPE_TOTAL" and "k = sc_get_yk_download_video_type streams"
  shows "if \<exists>st \<in> set streams. is_mp4 st
         then 0 \<le> k \<and> nat k < length streams \<and> is_mp4 (streams ! nat k) \<and> (\<forall>j < nat k. \<not> is_mp4 (streams ! j))
         else if \<exists>st \<in> set streams. is_flv st
         then 0 \<le> k \<and> nat k < length streams \<and> is_flv (streams ! nat k)
           \<and> (\<forall>j. nat k < j \<and> j < length streams \<longrightarrow> \<not> is_flv (streams ! j))
         else k = - 1"
proof -
  have k: "k = yk_type_loop 0 (- 1) streams" using assms by (simp add: sc_get_yk_download_video_type_def)
  consider "\<exists>st \<in> set streams. is_mp4 st" | "\<forall>st \<in> set streams. \<not> is_mp4 st" "\<exists>st \<in> set streams. is_flv st"
    | "\<forall>st \<in> set streams. \<not> is_mp4 st \<and> \<not> is_flv st" by blast
  then show ?thesis
  proof cases
    case 1
    from yk_type_loop_mp4 [OF this, of 0 "- 1"] 1 show ?thesis by (auto simp: k)
  next
    case 2
    from yk_type_loop_flv [OF this, of 0 "- 1"] 2 show ?thesis by (auto simp: k)
  next
    case 3
    from yk_type_loop_none [OF this, of 0 "- 1"] 3 show ?thesis by (auto simp: k)
  qed
qed

text \<open>A world for the examples in which no network works.\<close>

definition offline :: "script os" where
  "offline = scripted\<lparr>os_socket := (\<lambda>w. (- 1, w)), os_recv := (\<lambda>fd n w. ((- 1, []), w))\<rparr>"

lemma offline_ends: "os_recv_ends offline"
  by (simp add: os_recv_ends_def offline_def terminated_def)

text \<open>C24. Downloading a Youku entry: nothing but the entry itself changes among the entries the
  client parsed, every failure (no connection, no memory, a refusal by nginx, a cached file that
  cannot be found again) leaves it flagged for a retry, and a success means that nginx has taken
  the request or that the file was already on disk and the entry now counts as stored.\<close>

theorem youku_failure_flagged:
  assumes "sc_inv s" and "sc_own s k" and "sc_youku_download os k s = Some (r, s')"
  shows "sc_inv s' \<and> sc_evolves {k} s s' \<and> (r \<noteq> 0 \<longrightarrow> sc_res_flag_is_i_fail (sc_ri s' k))
       \<and> (r = 0 \<longrightarrow> sc_res_flag_is_stored (sc_ri s' k) \<or> sc_res_info_list s' = sc_res_info_list s)"
  using youku_download_outcome [OF assms] sc_evolves_inv [OF assms(1)] by blast

theorem youku_failure_flagged_witness:
  "\<exists>s s'. sc_youku_download offline 4095 s = Some (- 1, s') \<and> sc_inv s' \<and> \<not> sc_res_flag_is_i_fail (sc_ri s 4095)
     \<and> sc_res_flag_is_i_fail (sc_ri s' 4095)"
proof -
  from demo_state [of "\<lparr>answers = [], sent = [], opened = 0, closed = 0\<rparr>"] obtain s :: "script sc_state" where
    s: "sc_inv s" "sc_own s 4095" "\<not> sc_res_flag_is_i_fail (sc_ri s 4095)" by blast
  obtain s' where d: "sc_youku_download offline 4095 s = Some (- 1, s')"
    by (simp add: sc_youku_download_def sc_ngx_download_def offline_def lift_world_def hc_codes)
  from youku_failure_flagged [OF s(1,2) d] s(3) d show ?thesis by auto
qed

text \<open>C28. The Sohu playlist: the loop over the answer gives the first link of every group to
  \<open>add_and_download\<close>, in the order of the groups, without the scheme and cut at its first \<open>&\<close>,
  and nothing else; then it ends. A group is what \<open>#EXT-X-DISCONTINUITY\<close> closes or what is left
  behind the last such tag; its first link has a \<open>file=\<close>, an \<open>&\<close> behind it, and fits the buffer.
  Further links of a group are skipped.\<close>

theorem m3u8_all_segments:
  assumes "\<forall>e \<in> set es. m3u8_entry_ok e" and "m3u8_rest t us"
  shows "sohu_m3u8_loop os origin (concat (map m3u8_entry_text es) @ t) s = add_all os origin (map me_url es @ us) s"
  using m3u8_loop_groups [OF assms, of os origin s] by simp

theorem m3u8_all_segments_witness:
  "\<forall>s. sohu_m3u8_loop scripted 1023 (''#EXTM3U http://1.2.3.4/ipad?file=/1/a.mp4&s=1#EXT-X-DISCONTINUITY,http://1.2.3.4/ipad?file=/1/b.mp4&e=2 http://skipped/#EXT-X-DISCONTINUITY#END'') s
     = add_all scripted 1023 [''1.2.3.4/ipad?file=/1/a.mp4'', ''1.2.3.4/ipad?file=/1/b.mp4''] s"
proof -
  let ?es = "[\<lparr>me_text = ''#EXTM3U '', me_host = ''1.2.3.4/ipad?'', me_file = ''/1/a.mp4'', me_para = ''s=1''\<rparr>,
      \<lparr>me_text = '','', me_host = ''1.2.3.4/ipad?'', me_file = ''/1/b.mp4'', me_para = ''e=2 http://skipped/''\<rparr>]"
  have "m3u8_rest ''#END'' []" by (simp add: m3u8_rest_def contains_def HTTP_URL_PREFIX_def)
  from m3u8_all_segments [OF _ this, of ?es scripted 1023] show ?thesis
    by (simp add: m3u8_entry_ok_def me_url_def m3u8_tag1_def m3u8_tag2_def HTTP_URL_PREFIX_def first_at_def hc_limits
        m3u8_entry_text_def)
qed

end
