(* ===== verification/Res_Process.thy ===== *)
theory Res_Process
  imports Site_Client
begin

text \<open>
  The thread that works on the resource list (\<^verbatim>\<open>snooping_client/sc_resource.c\<close> from
  \<open>sc_res_retry_download\<close> on, and \<open>sc_yk_add_symlink\<close>, \<open>sc_yk_add_ctnt_url\<close> of \<^verbatim>\<open>sc_youku.c\<close>):
  every three seconds it walks over the children of each used management entry, starts failed
  downloads again and tells the Snooping module about the files that are stored.
\<close>

section \<open>Telling the Snooping module\<close>

definition sc_res_notify_ri_url :: "'w os \<Rightarrow> nat \<Rightarrow> 'w sc_state \<Rightarrow> (int \<times> 'w sc_state) option" where
  "sc_res_notify_ri_url os c s =
     (if \<not> sc_res_info_is_ctnt (Some (sc_ri s c)) then Some (- 1, s)
      else if \<not> sc_res_flag_is_stored (sc_ri s c) \<or> sc_res_flag_is_notify (sc_ri s c) then Some (- 1, s)
      else do {
        (ret, s1) \<leftarrow> lift_world (sc_snooping_do_add os (ucast (ri_id (sc_ri s c))) (ctnt_url s c)) s;
        if ret \<noteq> 0 then Some (- 1, s1) else Some (0, set_ctnt_flag sc_res_flag_set_notify c s1)
      })"

text \<open>Everything after the first \<open>return ret\<close> of the function is dead code.\<close>

definition sc_yk_add_symlink :: "sc_res_info \<Rightarrow> int" where
  "sc_yk_add_symlink ri = 0"

definition sc_yk_add_ctnt_url :: "'w os \<Rightarrow> nat \<Rightarrow> 'w sc_state \<Rightarrow> (int \<times> 'w sc_state) option" where
  "sc_yk_add_ctnt_url os c s =
     (if \<not> sc_res_site_is_youku (Some (sc_ri s c)) then Some (- 1, s)
      else let ret = sc_yk_add_symlink (sc_ri s c) in sc_res_notify_ri_url os c s)"

definition sc_res_add_ctnt_url :: "'w os \<Rightarrow> nat \<Rightarrow> 'w sc_state \<Rightarrow> (int \<times> 'w sc_state) option" where
  "sc_res_add_ctnt_url os c s =
     (if sc_res_site_is_youku (Some (sc_ri s c)) then sc_yk_add_ctnt_url os c s
      else sc_res_notify_ri_url os c s)"

section \<open>Downloading again\<close>

definition sc_res_retry_download :: "'w os \<Rightarrow> nat \<Rightarrow> 'w sc_state \<Rightarrow> (int \<times> 'w sc_state) option" where
  "sc_res_retry_download os c s =
     (if \<not> sc_res_info_is_ctnt (Some (sc_ri s c)) then Some (- 1, s)
      else if sc_res_site_is_sohu (Some (sc_ri s c)) then sc_sohu_download os c s
      else if sc_res_site_is_youku (Some (sc_ri s c)) then sc_youku_download os c s
      else do {
        (ret, s1) \<leftarrow> lift_world (sc_ngx_download os (ctnt_url s c) (ctnt_path s c)) s;
        Some (ret, if ret \<noteq> 0 then set_ctnt_flag sc_res_flag_set_i_fail c s1 else s1)
      })"

section \<open>A pass over the list\<close>

text \<open>One content entry; the result is what is added to \<open>err\<close>.\<close>

definition process_entry :: "'w os \<Rightarrow> nat \<Rightarrow> 'w sc_state \<Rightarrow> (int \<times> 'w sc_state) option" where
  "process_entry os c s =
     (if ctnt_url s c = [] then Some (1, s)
      else if \<not> sc_res_flag_is_stored (sc_ri s c) then
        if sc_res_flag_is_i_fail (sc_ri s c) then do {
          (ret, s1) \<leftarrow> sc_res_retry_download os c s;
          if ret = 0 then Some (0, set_ctnt_flag sc_res_flag_unset_i_fail c s1) else Some (1, s1)
        }
        else if sc_res_flag_is_d_fail (sc_ri s c) then do {
          (ret, s1) \<leftarrow> sc_res_retry_download os c (set_ctnt_flag sc_res_flag_unset_d_fail c s);
          if ret = 0 then Some (0, s1) else Some (1, s1)
        }
        else Some (0, s)
      else if \<not> sc_res_flag_is_notify (sc_ri s c) then do {
        (ret, s1) \<leftarrow> sc_res_add_ctnt_url os c s;
        if ret \<noteq> 0 then Some (1, s1) else Some (0, s1)
      }
      else Some (0, s))"

text \<open>A chain longer than the array is a cycle, on which the code would not end.\<close>

fun process_ctnt_loop :: "nat \<Rightarrow> 'w os \<Rightarrow> nat option \<Rightarrow> int \<Rightarrow> 'w sc_state \<Rightarrow> (int \<times> 'w sc_state) option" where
  "process_ctnt_loop n os None err s = Some (err, s)"
| "process_ctnt_loop 0 os (Some c) err s = None"
| "process_ctnt_loop (Suc n) os (Some c) err s = do {
     (e, s1) \<leftarrow> process_entry os c s;
     process_ctnt_loop n os (siblings (ctnt (sc_res_info_list s1) c)) (err + e) s1
   }"

definition sc_res_list_process_ctnt :: "'w os \<Rightarrow> nat \<Rightarrow> 'w sc_state \<Rightarrow> (int \<times> 'w sc_state) option" where
  "sc_res_list_process_ctnt os i s =
     process_ctnt_loop SC_RES_INFO_NUM_MAX_CTNT os (child (mgmt (sc_res_info_list s) i)) 0 s"

fun process_mgmt_loop :: "'w os \<Rightarrow> nat list \<Rightarrow> int \<Rightarrow> 'w sc_state \<Rightarrow> (int \<times> 'w sc_state) option" where
  "process_mgmt_loop os [] err s = Some (err, s)"
| "process_mgmt_loop os (i # is) err s =
     (if \<not> mgmt_used (sc_res_info_list s) i then process_mgmt_loop os is err s
      else do {
        (ret, s1) \<leftarrow> sc_res_list_process_ctnt os i s;
        if ret < 0 then Some (ret, s1) else process_mgmt_loop os is (err + ret) s1
      })"

definition sc_res_list_process_mgmt :: "'w os \<Rightarrow> 'w sc_state \<Rightarrow> (int \<times> 'w sc_state) option" where
  "sc_res_list_process_mgmt os s = process_mgmt_loop os [0..<SC_RES_INFO_NUM_MAX_MGMT] 0 s"

definition sc_res_list_process_func :: "'w os \<Rightarrow> 'w sc_state \<Rightarrow> (int \<times> 'w sc_state) option" where
  "sc_res_list_process_func os s = sc_res_list_process_mgmt os s"

text \<open>The thread: \<open>n\<close> rounds of its endless loop; the result tells whether it left the loop.\<close>

fun sc_res_list_process_thread :: "nat \<Rightarrow> 'w os \<Rightarrow> 'w sc_state \<Rightarrow> (bool \<times> 'w sc_state) option" where
  "sc_res_list_process_thread 0 os s = Some (False, s)"
| "sc_res_list_process_thread (Suc n) os s = do {
     (ret, s1) \<leftarrow> sc_res_list_process_func os s;
     if ret < 0 then Some (True, s1)
     else sc_res_list_process_thread n os (s1\<lparr>sc_world := os_sleep os 3 (sc_world s1)\<rparr>)
   }"

section \<open>What visiting one entry does\<close>

lemma notify_cases:
  assumes "sc_res_notify_ri_url os c s = Some (r, s')"
  obtains (failed) w where "s' = s\<lparr>sc_world := w\<rparr>" "r = - 1"
    | (told) w where "s' = set_ctnt_flag sc_res_flag_set_notify c (s\<lparr>sc_world := w\<rparr>)" "r = 0"
proof (cases "\<not> sc_res_info_is_ctnt (Some (sc_ri s c)) \<or> \<not> sc_res_flag_is_stored (sc_ri s c)
    \<or> sc_res_flag_is_notify (sc_ri s c)")
  case True
  with assms have "s' = s\<lparr>sc_world := sc_world s\<rparr>" "r = - 1" by (auto simp: sc_res_notify_ri_url_def split: if_split_asm)
  then show ?thesis by (rule failed)
next
  case False
  with assms obtain ret s1 where l: "lift_world (sc_snooping_do_add os (ucast (ri_id (sc_ri s c))) (ctnt_url s c)) s = Some (ret, s1)"
    and f: "(if ret \<noteq> 0 then Some (- 1, s1) else Some (0, set_ctnt_flag sc_res_flag_set_notify c s1)) = Some (r, s')"
    unfolding sc_res_notify_ri_url_def by (auto simp: bind_Some_conv)
  from lift_world_state [OF l] f failed told show ?thesis by (auto split: if_splits)
qed

lemma notify_evolves:
  assumes inv: "sc_inv s" and c: "ctnt_used (sc_res_info_list s) c" and st: "sc_res_flag_is_stored (sc_ri s c)"
    and n: "sc_res_notify_ri_url os c s = Some (r, s')"
  shows "sc_evolves {c} s s'"
proof -
  have e: "evolves {c} (sc_res_info_list s) (upd_ctnt_ri c sc_res_flag_set_notify (sc_res_info_list s))"
    using evolves_flags(4) [OF _ c st] inv by (simp add: sc_inv_def)
  from n show ?thesis
    by (cases rule: notify_cases) (use e inv in \<open>auto simp: sc_evolves_def sc_inv_def set_ctnt_flag_def\<close>)
qed

lemma add_ctnt_url_eq:
  "sc_res_add_ctnt_url os c s = sc_res_notify_ri_url os c s"
  by (simp add: sc_res_add_ctnt_url_def sc_yk_add_ctnt_url_def Let_def)

lemma retry_evolves:
  assumes inv: "sc_inv s" and c: "sc_own s c" and r: "sc_res_retry_download os c s = Some (r, s')"
  shows "sc_evolves {c} s s'"
proof -
  from r consider "s' = s" | "sc_sohu_download os c s = Some (r, s')" | "sc_youku_download os c s = Some (r, s')"
    | w where "s' = s\<lparr>sc_world := w\<rparr> \<or> s' = set_ctnt_flag sc_res_flag_set_i_fail c (s\<lparr>sc_world := w\<rparr>)"
    by (auto simp: sc_res_retry_download_def bind_Some_conv split: if_splits dest!: lift_world_state)
  then show ?thesis
    using inv c sohu_download_evolves youku_download_outcome(1) set_i_fail_evolves [of "s\<lparr>sc_world := w\<rparr>" c for w]
    by cases (auto; fastforce)+
qed

lemma flag_evolves:
  assumes "sc_inv s" and "sc_own s c"
  shows "sc_evolves {c} s (set_ctnt_flag sc_res_flag_unset_i_fail c s)"
    and "sc_evolves {c} s (set_ctnt_flag sc_res_flag_unset_d_fail c s)"
  using assms evolves_flags(2,3) [of "sc_res_info_list s" c]
  by (auto simp: sc_evolves_def sc_inv_def set_ctnt_flag_def own_ctnt_def)

lemma sohu_download_success:
  assumes inv: "sc_inv s" and k: "sc_own s k" and d: "sc_sohu_download os k s = Some (0, s')"
  shows "sc_res_flag_is_stored (sc_ri s' k) \<or> sc_res_info_list s' = sc_res_info_list s"
proof -
  have fetch: "sohu_fetch os k resp t = Some (0, s') \<Longrightarrow> sc_res_info_list s' = sc_res_info_list t" for resp t
    by (auto simp: sohu_fetch_def bind_Some_conv split: if_splits dest!: lift_world_state)
  from d obtain r1 resp s1 where l: "lift_world (sohu_http_session os (ctnt_url s k) [] BUFFER_LEN) s = Some ((r1, resp), s1)"
    unfolding sc_sohu_download_def by (auto simp: bind_Some_conv split_beta)
  from lift_world_state [OF l] obtain w where s1: "s1 = s\<lparr>sc_world := w\<rparr>" by blast
  have i1: "sc_inv s1" "sc_own s1 k" using inv k s1 by simp_all
  from d l consider "sohu_fetch os k (cstr resp) s1 = Some (0, s')" | "sc_sohu_handle_cached k s1 = Some (HC_SUCCESS, s')"
    | r2 s2 where "sc_sohu_handle_cached k s1 = Some (r2, s2)" "r2 \<noteq> HC_SUCCESS" "sohu_fetch os k (cstr resp) s2 = Some (0, s')"
    unfolding sc_sohu_download_def by (auto simp: bind_Some_conv split_beta split: if_splits)
  then show ?thesis
    by cases (use fetch sohu_cached_outcome [OF i1] s1 in \<open>fastforce simp: cached_outcome_def\<close>)+
qed

lemma retry_success:
  assumes inv: "sc_inv s" and c: "sc_own s c" and r: "sc_res_retry_download os c s = Some (0, s')"
  shows "sc_res_flag_is_stored (sc_ri s' c) \<or> sc_res_info_list s' = sc_res_info_list s"
  using r sohu_download_success [OF inv c] youku_download_outcome(3) [OF inv c]
  by (auto simp: sc_res_retry_download_def bind_Some_conv split: if_splits dest!: lift_world_state)

text \<open>An entry that needs no work after an error-free visit: told if it was stored, and not
  waiting for a retry that the visit did not start.\<close>

definition entry_done :: "nat \<Rightarrow> 'w sc_state \<Rightarrow> 'w sc_state \<Rightarrow> bool" where
  "entry_done c s s' \<longleftrightarrow>
     (if sc_res_flag_is_stored (sc_ri s c) then sc_res_flag_is_notify (sc_ri s' c)
      else sc_res_flag_is_stored (sc_ri s' c) \<or> \<not> sc_res_flag_is_i_fail (sc_ri s' c)
        \<and> (sc_res_flag_is_d_fail (sc_ri s' c) \<longrightarrow> sc_res_flag_is_i_fail (sc_ri s c) \<and> sc_res_flag_is_d_fail (sc_ri s c)))"

definition peers_kept :: "nat \<Rightarrow> sc_res_list \<Rightarrow> sc_res_list \<Rightarrow> bool" where
  "peers_kept c rl rl' \<longleftrightarrow> (\<forall>x. ctnt_used rl x \<and> parent (ctnt rl x) = parent (ctnt rl c) \<longrightarrow>
     ctnt_used rl' x \<and> parent (ctnt rl' x) = parent (ctnt rl x) \<and> siblings (ctnt rl' x) = siblings (ctnt rl x)
     \<and> (x \<noteq> c \<longrightarrow> ctnt rl' x = ctnt rl x))"

lemma not_stored_own:
  assumes "sc_inv s" and "ctnt_used (sc_res_info_list s) c" and "\<not> sc_res_flag_is_stored (sc_ri s c)"
  shows "sc_own s c"
proof -
  from assms(1) obtain fm fc ch where t: "res_tree (sc_res_info_list s) fm fc ch" by (auto simp: sc_inv_def res_inv_def)
  from assms(2) res_treeD(9) [OF t] obtain i where "c \<in> set (ch i)" by (auto simp: ctnt_used_iff [OF t])
  with res_treeD(6,7) [OF t, of c i] assms(2,3) show ?thesis by (auto simp: own_ctnt_def)
qed

lemma own_peers_kept:
  assumes o: "sc_own s c" and e: "sc_evolves {c} s s'"
  shows "peers_kept c (sc_res_info_list s) (sc_res_info_list s')"
  unfolding peers_kept_def
proof (intro allI impI)
  fix x assume x: "ctnt_used (sc_res_info_list s) x \<and> parent (ctnt (sc_res_info_list s) x) = parent (ctnt (sc_res_info_list s) c)"
  with o have "sc_own s x" by (auto simp: own_ctnt_def)
  with e evolvesD(3,4) [of "{c}" "sc_res_info_list s" "sc_res_info_list s'" x]
  show "ctnt_used (sc_res_info_list s') x \<and> parent (ctnt (sc_res_info_list s') x) = parent (ctnt (sc_res_info_list s) x)
      \<and> siblings (ctnt (sc_res_info_list s') x) = siblings (ctnt (sc_res_info_list s) x)
      \<and> (x \<noteq> c \<longrightarrow> ctnt (sc_res_info_list s') x = ctnt (sc_res_info_list s) x)"
    by (auto simp: sc_evolves_def)
qed

definition visit_ok :: "nat \<Rightarrow> 'w sc_state \<Rightarrow> int \<Rightarrow> 'w sc_state \<Rightarrow> bool" where
  "visit_ok c s e s' \<longleftrightarrow> sc_evolves {c} s s' \<and> 0 \<le> e \<and> (e = 0 \<longrightarrow> entry_done c s s')
     \<and> peers_kept c (sc_res_info_list s) (sc_res_info_list s')"

lemma peers_kept_flag: "\<forall>ri. ri_id (f ri) = ri_id ri \<Longrightarrow> peers_kept c rl (upd_ctnt_ri c f rl)"
  by (simp add: peers_kept_def upd_defs ctnt_used_def)

lemma visit_same:
  assumes "sc_inv s" and "sc_res_flag_is_stored (sc_ri s c)" and "e = 1 \<or> e = 0 \<and> sc_res_flag_is_notify (sc_ri s c)"
  shows "visit_ok c s e (s\<lparr>sc_world := w\<rparr>)"
  using assms sc_evolves_refl [OF assms(1)] unfolding visit_ok_def entry_done_def peers_kept_def by auto

lemma visit_told:
  assumes inv: "sc_inv s" and c: "ctnt_used (sc_res_info_list s) c" and st: "sc_res_flag_is_stored (sc_ri s c)"
  shows "visit_ok c s 0 (set_ctnt_flag sc_res_flag_set_notify c (s\<lparr>sc_world := w\<rparr>))"
proof -
  have "res_inv (sc_res_info_list s)" using inv by (simp add: sc_inv_def)
  from evolves_flags(4) [OF this c st] st peers_kept_flag [of sc_res_flag_set_notify c "sc_res_info_list s"]
  show ?thesis unfolding visit_ok_def entry_done_def sc_evolves_def
    by (simp only: set_ctnt_flag_ri) (simp add: set_ctnt_flag_def)
qed

lemma process_entry_stored:
  "sc_res_flag_is_stored (sc_ri s c) \<Longrightarrow> process_entry os c s =
     (if ctnt_url s c = [] then Some (1, s) else if sc_res_flag_is_notify (sc_ri s c) then Some (0, s)
      else map_option (\<lambda>(r, s1). (if r \<noteq> 0 then 1 else 0, s1)) (sc_res_notify_ri_url os c s))"
  by (cases "sc_res_notify_ri_url os c s") (auto simp: process_entry_def add_ctnt_url_eq)

lemma visit_stored:
  assumes inv: "sc_inv s" and c: "ctnt_used (sc_res_info_list s) c" and st: "sc_res_flag_is_stored (sc_ri s c)"
    and v: "process_entry os c s = Some (e, s')"
  shows "visit_ok c s e s'"
proof (cases "ctnt_url s c = [] \<or> sc_res_flag_is_notify (sc_ri s c)")
  case True
  then have "e = 1 \<or> e = 0 \<and> sc_res_flag_is_notify (sc_ri s c)" and "s' = s"
    using v process_entry_stored [OF st, of os] by (auto split: if_split_asm)
  with visit_same [OF inv st this(1), of "sc_world s"] show ?thesis by simp
next
  case False
  then obtain r where n: "sc_res_notify_ri_url os c s = Some (r, s')" and e: "e = (if r \<noteq> 0 then 1 else 0)"
    using v process_entry_stored [OF st, of os] by auto
  from n show ?thesis
  proof (cases rule: notify_cases)
    case (failed w)
    with e visit_same [OF inv st, of e w] show ?thesis by simp
  next
    case (told w)
    with e visit_told [OF inv c st, of w] show ?thesis by simp
  qed
qed

lemma visit_missing:
  assumes inv: "sc_inv s" and c: "ctnt_used (sc_res_info_list s) c" and st: "\<not> sc_res_flag_is_stored (sc_ri s c)"
    and v: "process_entry os c s = Some (e, s')"
  shows "visit_ok c s e s'"
proof -
  have o: "sc_own s c" using not_stored_own [OF inv c st] .
  let ?s0 = "set_ctnt_flag sc_res_flag_unset_d_fail c s"
  have e0: "sc_evolves {c} s ?s0" using flag_evolves(2) [OF inv o] .
  have i0: "sc_inv ?s0" "sc_own ?s0 c" using sc_evolves_inv [OF inv e0] sc_own_evolves [OF inv e0 o] .
  from v st consider (quiet) "s' = s" "e = 1 \<or> e = 0 \<and> \<not> sc_res_flag_is_i_fail (sc_ri s c) \<and> \<not> sc_res_flag_is_d_fail (sc_ri s c)"
    | (i) r s1 where "sc_res_flag_is_i_fail (sc_ri s c)" "sc_res_retry_download os c s = Some (r, s1)"
        "r = 0 \<and> e = 0 \<and> s' = set_ctnt_flag sc_res_flag_unset_i_fail c s1 \<or> r \<noteq> 0 \<and> e = 1 \<and> s' = s1"
    | (d) r where "\<not> sc_res_flag_is_i_fail (sc_ri s c)" "sc_res_retry_download os c ?s0 = Some (r, s')" "e = (if r = 0 then 0 else 1)"
    by (auto simp: process_entry_def bind_Some_conv split: if_splits)
  then have "sc_evolves {c} s s' \<and> 0 \<le> e \<and> (e = 0 \<longrightarrow> entry_done c s s')"
  proof cases
    case quiet
    with sc_evolves_refl [OF inv] st show ?thesis by (auto simp: entry_done_def)
  next
    case (i r s1)
    have e1: "sc_evolves {c} s s1" using retry_evolves [OF inv o i(2)] .
    have i1: "sc_inv s1" "sc_own s1 c" using sc_evolves_inv [OF inv e1] sc_own_evolves [OF inv e1 o] .
    have "sc_evolves {c} s s'" using i(3) e1 sc_evolves_trans [OF inv e1 flag_evolves(1) [OF i1]] by auto
    moreover have "entry_done c s s'" if "e = 0"
      using that i st retry_success [OF inv o, of os s1] by (auto simp: entry_done_def)
    ultimately show ?thesis using i(3) by auto
  next
    case (d r)
    have "sc_evolves {c} s s'" using sc_evolves_trans [OF inv e0 retry_evolves [OF i0 d(2)]] by auto
    moreover have "entry_done c s s'" if "e = 0"
    proof -
      have "sc_res_flag_is_stored (sc_ri s' c) \<or> sc_res_info_list s' = sc_res_info_list ?s0"
        using retry_success [OF i0, of os s'] d(2,3) that by (auto split: if_splits)
      then show ?thesis
      proof
        assume "sc_res_info_list s' = sc_res_info_list ?s0"
        then have "sc_ri s' c = sc_res_flag_unset_d_fail (sc_ri s c)" using set_ctnt_flag_ri [of sc_res_flag_unset_d_fail c s c] by simp
        with st d(1) show ?thesis by (simp add: entry_done_def)
      qed (simp add: entry_done_def st)
    qed
    ultimately show ?thesis using d(3) by auto
  qed
  with own_peers_kept [OF o] show ?thesis by (simp add: visit_ok_def)
qed

lemma visit_entry:
  "sc_inv s \<Longrightarrow> ctnt_used (sc_res_info_list s) c \<Longrightarrow> process_entry os c s = Some (e, s') \<Longrightarrow> visit_ok c s e s'"
  using visit_stored visit_missing by blast

section \<open>What a pass does\<close>

text \<open>The chain from \<open>cur\<close> on holds the entries \<open>cs\<close> of management entry \<open>i\<close>.\<close>

definition chain_from :: "sc_res_list \<Rightarrow> nat \<Rightarrow> nat option \<Rightarrow> nat list \<Rightarrow> bool" where
  "chain_from rl i cur cs \<longleftrightarrow> distinct cs \<and> sib_chain (\<lambda>c. siblings (ctnt rl c)) cur cs
     \<and> (\<forall>c \<in> set cs. ctnt_used rl c \<and> parent (ctnt rl c) = Some i)"

definition walk_ok :: "nat \<Rightarrow> nat list \<Rightarrow> 'w sc_state \<Rightarrow> int \<Rightarrow> 'w sc_state \<Rightarrow> bool" where
  "walk_ok i cs s e s' \<longleftrightarrow> sc_evolves (set cs) s s' \<and> 0 \<le> e \<and> (e = 0 \<longrightarrow> (\<forall>c \<in> set cs. entry_done c s s'))
     \<and> (\<forall>x. ctnt_used (sc_res_info_list s) x \<longrightarrow> parent (ctnt (sc_res_info_list s) x) = Some i \<longrightarrow> x \<notin> set cs
          \<longrightarrow> ctnt (sc_res_info_list s') x = ctnt (sc_res_info_list s) x)"

lemma chain_from_children:
  assumes "sc_inv s" and "mgmt_used (sc_res_info_list s) i"
  obtains cs where "chain_from (sc_res_info_list s) i (child (mgmt (sc_res_info_list s) i)) cs"
    "length cs \<le> SC_RES_INFO_NUM_MAX_CTNT"
    "\<And>c. ctnt_used (sc_res_info_list s) c \<Longrightarrow> parent (ctnt (sc_res_info_list s) c) = Some i \<longleftrightarrow> c \<in> set cs"
proof -
  from assms(1) obtain fm fc ch where t: "res_tree (sc_res_info_list s) fm fc ch" by (auto simp: sc_inv_def res_inv_def)
  have i: "i < SC_RES_INFO_NUM_MAX_MGMT" "i \<notin> set fm" using assms(2) by (auto simp: mgmt_used_iff [OF t])
  from res_treeD(5) [OF t i] child_iff [OF t, of _ i] child_list_bound [OF t i] show ?thesis
    by (intro that [of "ch i"]) (auto simp: chain_from_def mgmt_ok_def)
qed

lemma chain_from_step:
  assumes ch: "chain_from rl i (Some c) (c # cs)" and p: "peers_kept c rl rl'"
  shows "chain_from rl' i (siblings (ctnt rl' c)) cs"
proof -
  have k: "ctnt_used rl' x \<and> parent (ctnt rl' x) = Some i \<and> siblings (ctnt rl' x) = siblings (ctnt rl x)"
    if "x \<in> set (c # cs)" for x
    using ch p that by (auto simp: chain_from_def peers_kept_def)
  then have "sib_chain (\<lambda>c. siblings (ctnt rl' c)) (siblings (ctnt rl c)) cs"
    using ch by (subst sib_chain_cong [of _ _ "\<lambda>c. siblings (ctnt rl c)"]) (auto simp: chain_from_def)
  with ch k show ?thesis by (auto simp: chain_from_def)
qed

lemma entry_done_cong:
  "sc_ri s c = sc_ri t c \<Longrightarrow> sc_ri s' c = sc_ri t' c \<Longrightarrow> entry_done c s s' = entry_done c t t'"
  by (simp add: entry_done_def)

lemma walk_step:
  assumes inv: "sc_inv s" and ch: "chain_from (sc_res_info_list s) i (Some c) (c # cs)"
    and v: "visit_ok c s e s1" and w: "walk_ok i cs s1 f s'"
  shows "walk_ok i (c # cs) s (e + f) s'"
proof -
  note V = v [unfolded visit_ok_def] and W = w [unfolded walk_ok_def]
  have c: "ctnt_used (sc_res_info_list s) c" "parent (ctnt (sc_res_info_list s) c) = Some i" "c \<notin> set cs"
    and cs: "x \<in> set cs \<Longrightarrow> ctnt_used (sc_res_info_list s) x \<and> parent (ctnt (sc_res_info_list s) x) = Some i \<and> x \<noteq> c" for x
    using ch by (auto simp: chain_from_def)
  have pk: "ctnt_used (sc_res_info_list s1) x \<and> parent (ctnt (sc_res_info_list s1) x) = Some i
      \<and> (x \<noteq> c \<longrightarrow> ctnt (sc_res_info_list s1) x = ctnt (sc_res_info_list s) x)"
    if "ctnt_used (sc_res_info_list s) x" "parent (ctnt (sc_res_info_list s) x) = Some i" for x
    using V that c(2) by (auto simp: peers_kept_def)
  have "sc_evolves (set (c # cs)) s s'"
    by (rule sc_evolves_trans [OF inv, of "{c}" s1 "set cs"]) (use V W in auto)
  moreover have "ctnt (sc_res_info_list s') x = ctnt (sc_res_info_list s) x"
    if "ctnt_used (sc_res_info_list s) x" "parent (ctnt (sc_res_info_list s) x) = Some i" "x \<notin> set (c # cs)" for x
    using W pk [OF that(1,2)] that(3) by auto
  moreover have "entry_done x s s'" if "e + f = 0" "x \<in> set (c # cs)" for x
  proof (cases "x = c")
    case True
    have "ctnt (sc_res_info_list s') c = ctnt (sc_res_info_list s1) c" using W pk [OF c(1,2)] c(3) by auto
    with True V W that entry_done_cong [of s c s s1 s'] show ?thesis by auto
  next
    case False
    then have "x \<in> set cs" using that by simp
    with V W that cs [of x] pk [of x] entry_done_cong [of s x s1 s' s'] show ?thesis by auto
  qed
  ultimately show ?thesis using V W by (simp add: walk_ok_def)
qed

lemma process_ctnt_loop_walk:
  "sc_inv s \<Longrightarrow> chain_from (sc_res_info_list s) i cur cs \<Longrightarrow> process_ctnt_loop n os cur err s = Some (e, s') \<Longrightarrow>
     walk_ok i cs s (e - err) s'"
proof (induction cs arbitrary: n cur err s)
  case Nil
  then show ?case by (auto simp: chain_from_def walk_ok_def)
next
  case (Cons c cs)
  from Cons.prems(2) have cur: "cur = Some c" by (simp add: chain_from_def)
  from Cons.prems(3) cur obtain m d s1 where n: "n = Suc m" and v: "process_entry os c s = Some (d, s1)"
    and l: "process_ctnt_loop m os (siblings (ctnt (sc_res_info_list s1) c)) (err + d) s1 = Some (e, s')"
    by (cases n) (auto simp: bind_Some_conv)
  have "ctnt_used (sc_res_info_list s) c" using Cons.prems(2) by (simp add: chain_from_def)
  from visit_entry [OF Cons.prems(1) this v] have ok: "visit_ok c s d s1" .
  then have e1: "sc_evolves {c} s s1" and p: "peers_kept c (sc_res_info_list s) (sc_res_info_list s1)"
    by (simp_all add: visit_ok_def)
  from Cons.IH [OF sc_evolves_inv [OF Cons.prems(1) e1] chain_from_step [OF Cons.prems(2) [unfolded cur] p] l]
  have "walk_ok i cs s1 (e - (err + d)) s'" .
  from walk_step [OF Cons.prems(1) Cons.prems(2) [unfolded cur] ok this] show ?case by simp
qed

abbreviation entries_of :: "'w sc_state \<Rightarrow> nat set \<Rightarrow> nat set" where
  "entries_of s I \<equiv> {c. \<exists>i \<in> I. parent (ctnt (sc_res_info_list s) c) = Some i}"

definition pass_ok :: "nat set \<Rightarrow> 'w sc_state \<Rightarrow> int \<Rightarrow> 'w sc_state \<Rightarrow> bool" where
  "pass_ok I s e s' \<longleftrightarrow> sc_evolves (entries_of s I) s s' \<and> 0 \<le> e
     \<and> (e = 0 \<longrightarrow> (\<forall>c. sc_own s c \<longrightarrow> c \<in> entries_of s I \<longrightarrow> entry_done c s s'))"

lemma own_parent_kept:
  "sc_evolves C s s' \<Longrightarrow> sc_own s c \<Longrightarrow> parent (ctnt (sc_res_info_list s') c) = parent (ctnt (sc_res_info_list s) c)"
  using evolvesD(3) by (auto simp: sc_evolves_def)

lemma own_untouched:
  "sc_evolves C s s' \<Longrightarrow> sc_own s c \<Longrightarrow> c \<notin> C \<Longrightarrow> ctnt (sc_res_info_list s') c = ctnt (sc_res_info_list s) c"
  using evolvesD(4) by (auto simp: sc_evolves_def)

lemma pass_step:
  assumes inv: "sc_inv s" and w: "walk_ok i cs s e s1"
    and cs: "\<And>c. ctnt_used (sc_res_info_list s) c \<Longrightarrow> parent (ctnt (sc_res_info_list s) c) = Some i \<longleftrightarrow> c \<in> set cs"
    and p: "pass_ok I s1 f s'" and i: "i \<notin> I"
  shows "pass_ok (insert i I) s (e + f) s'"
proof -
  note W = w [unfolded walk_ok_def] and P = p [unfolded pass_ok_def]
  have e1: "sc_evolves (set cs) s s1" and e2: "sc_evolves (entries_of s1 I) s1 s'" using W P by auto
  have own1: "sc_own s c \<Longrightarrow> sc_own s1 c" for c using sc_own_evolves [OF inv e1] .
  have cs': "sc_own s c \<Longrightarrow> c \<in> set cs \<longleftrightarrow> parent (ctnt (sc_res_info_list s) c) = Some i" for c
    using cs [of c] by (auto simp: own_ctnt_def)
  have par: "sc_own s c \<Longrightarrow> parent (ctnt (sc_res_info_list s1) c) = parent (ctnt (sc_res_info_list s) c)" for c
    using own_parent_kept [OF e1] .
  have "sc_evolves (entries_of s (insert i I)) s s'"
    by (rule sc_evolves_trans [OF inv e1 e2]) (use cs' par in auto)
  moreover have "entry_done c s s'" if z: "e + f = 0" and o: "sc_own s c" and c: "c \<in> entries_of s (insert i I)" for c
  proof (cases "parent (ctnt (sc_res_info_list s) c) = Some i")
    case True
    then have "c \<notin> entries_of s1 I" using i par [OF o] by auto
    from own_untouched [OF e2 own1 [OF o] this] True cs' [OF o] W P z entry_done_cong [of s c s s1 s']
    show ?thesis by auto
  next
    case False
    then have "ctnt (sc_res_info_list s1) c = ctnt (sc_res_info_list s) c" using own_untouched [OF e1 o] cs' [OF o] by auto
    moreover have "c \<in> entries_of s1 I" using False c par [OF o] by auto
    ultimately show ?thesis using W P z own1 [OF o] entry_done_cong [of s c s1 s' s'] by auto
  qed
  ultimately show ?thesis using W P by (simp add: pass_ok_def)
qed

lemma pass_skip:
  assumes inv: "sc_inv s" and i: "\<not> mgmt_used (sc_res_info_list s) i" and p: "pass_ok I s e s'"
  shows "pass_ok (insert i I) s e s'"
proof -
  have "sc_own s c \<Longrightarrow> parent (ctnt (sc_res_info_list s) c) \<noteq> Some i" for c
    using inv i parent_used [of "sc_res_info_list s" c i] by (auto simp: sc_inv_def own_ctnt_def)
  then show ?thesis using p sc_evolves_mono [of "entries_of s I" s s' "entries_of s (insert i I)"] by (auto simp: pass_ok_def)
qed

lemma process_mgmt_loop_pass:
  "sc_inv s \<Longrightarrow> distinct is \<Longrightarrow> process_mgmt_loop os is err s = Some (e, s') \<Longrightarrow> pass_ok (set is) s (e - err) s'"
proof (induction "is" arbitrary: err s)
  case Nil
  then show ?case by (auto simp: pass_ok_def)
next
  case (Cons i "is")
  show ?case
  proof (cases "mgmt_used (sc_res_info_list s) i")
    case False
    with Cons.prems Cons.IH [of s err] pass_skip [OF Cons.prems(1) False] show ?thesis by simp
  next
    case True
    then obtain cs where ch: "chain_from (sc_res_info_list s) i (child (mgmt (sc_res_info_list s) i)) cs"
      and cs: "\<And>c. ctnt_used (sc_res_info_list s) c \<Longrightarrow> parent (ctnt (sc_res_info_list s) c) = Some i \<longleftrightarrow> c \<in> set cs"
      using chain_from_children [OF Cons.prems(1)] by metis
    from Cons.prems(3) True obtain r s1 where c: "sc_res_list_process_ctnt os i s = Some (r, s1)"
      and l: "(if r < 0 then Some (r, s1) else process_mgmt_loop os is (err + r) s1) = Some (e, s')"
      by (auto simp: bind_Some_conv)
    from process_ctnt_loop_walk [OF Cons.prems(1) ch c [unfolded sc_res_list_process_ctnt_def]]
    have w: "walk_ok i cs s r s1" by simp
    then have "0 \<le> r" "sc_inv s1" using sc_evolves_inv [OF Cons.prems(1)] by (auto simp: walk_ok_def)
    with l Cons.IH [of s1 "err + r"] Cons.prems(2) have "pass_ok (set is) s1 (e - (err + r)) s'" by simp
    from pass_step [OF Cons.prems(1) w cs this] Cons.prems(2) show ?thesis by simp
  qed
qed

lemma process_func_pass:
  assumes inv: "sc_inv s" and f: "sc_res_list_process_func os s = Some (e, s')"
  shows "pass_ok {..<SC_RES_INFO_NUM_MAX_MGMT} s e s'"
proof -
  have "pass_ok (set [0..<SC_RES_INFO_NUM_MAX_MGMT]) s (e - 0) s'"
    by (rule process_mgmt_loop_pass [OF inv])
      (use f in \<open>auto simp: sc_res_list_process_func_def sc_res_list_process_mgmt_def\<close>)
  then show ?thesis by (simp add: atLeast0LessThan)
qed

lemma own_in_all: "sc_inv s \<Longrightarrow> sc_own s c \<Longrightarrow> c \<in> entries_of s {..<SC_RES_INFO_NUM_MAX_MGMT}"
  using parent_used [of "sc_res_info_list s" c] by (fastforce simp: own_ctnt_def sc_inv_def mgmt_used_def)

section \<open>The visits of a pass\<close>

text \<open>The visits a pass makes, in order: the entry, the state the visit starts from and the one it
  leaves. \<open>run_through s V s'\<close>: the visits \<open>V\<close> are all that happens between \<open>s\<close> and \<open>s'\<close>.\<close>

fun ctnt_visits :: "nat \<Rightarrow> 'w os \<Rightarrow> nat option \<Rightarrow> 'w sc_state \<Rightarrow> (nat \<times> 'w sc_state \<times> 'w sc_state) list" where
  "ctnt_visits (Suc n) os (Some c) s = (case process_entry os c s of None \<Rightarrow> []
     | Some (e, s1) \<Rightarrow> (c, s, s1) # ctnt_visits n os (siblings (ctnt (sc_res_info_list s1) c)) s1)"
| "ctnt_visits n os cur s = []"

fun mgmt_visits :: "'w os \<Rightarrow> nat list \<Rightarrow> 'w sc_state \<Rightarrow> (nat \<times> 'w sc_state \<times> 'w sc_state) list" where
  "mgmt_visits os [] s = []"
| "mgmt_visits os (i # is) s =
     (if \<not> mgmt_used (sc_res_info_list s) i then mgmt_visits os is s
      else ctnt_visits SC_RES_INFO_NUM_MAX_CTNT os (child (mgmt (sc_res_info_list s) i)) s
        @ (case sc_res_list_process_ctnt os i s of None \<Rightarrow> []
           | Some (ret, s1) \<Rightarrow> if ret < 0 then [] else mgmt_visits os is s1))"

definition pass_visits :: "'w os \<Rightarrow> 'w sc_state \<Rightarrow> (nat \<times> 'w sc_state \<times> 'w sc_state) list" where
  "pass_visits os s = mgmt_visits os [0..<SC_RES_INFO_NUM_MAX_MGMT] s"

fun run_through :: "'w sc_state \<Rightarrow> (nat \<times> 'w sc_state \<times> 'w sc_state) list \<Rightarrow> 'w sc_state \<Rightarrow> bool" where
  "run_through s [] s' \<longleftrightarrow> s' = s"
| "run_through s ((c, t, t') # V) s' \<longleftrightarrow> t = s \<and> run_through t' V s'"

text \<open>What a visit without failure does for an entry that is as \<open>t\<close> has it: the Snooping module has
  acknowledged the file, or the download has been asked for again and the request went out.\<close>

definition entry_worked :: "'w os \<Rightarrow> nat \<Rightarrow> 'w sc_state \<Rightarrow> 'w sc_state \<Rightarrow> bool" where
  "entry_worked os c t t' \<longleftrightarrow>
     (if sc_res_flag_is_stored (sc_ri t c) then
        if sc_res_flag_is_notify (sc_ri t c) then t' = t
        else \<exists>w. sc_snooping_do_add os (ucast (ri_id (sc_ri t c))) (ctnt_url t c) (sc_world t) = Some (0, w)
               \<and> t' = set_ctnt_flag sc_res_flag_set_notify c (t\<lparr>sc_world := w\<rparr>)
      else if sc_res_flag_is_i_fail (sc_ri t c) then
        \<exists>t1. sc_res_retry_download os c t = Some (0, t1) \<and> t' = set_ctnt_flag sc_res_flag_unset_i_fail c t1
      else if sc_res_flag_is_d_fail (sc_ri t c) then
        sc_res_retry_download os c (set_ctnt_flag sc_res_flag_unset_d_fail c t) = Some (0, t')
      else t' = t)"

definition visited :: "'w os \<Rightarrow> (nat \<times> 'w sc_state \<times> 'w sc_state) list \<Rightarrow> nat \<Rightarrow> 'w sc_state \<Rightarrow> bool" where
  "visited os V c s \<longleftrightarrow> (\<exists>t t'. (c, t, t') \<in> set V \<and> ctnt (sc_res_info_list t) c = ctnt (sc_res_info_list s) c
     \<and> entry_worked os c t t')"

lemma visited_mono: "visited os V c s \<Longrightarrow> set V \<subseteq> set W \<Longrightarrow> ctnt (sc_res_info_list s) c = ctnt (sc_res_info_list r) c \<Longrightarrow>
    visited os W c r"
  unfolding visited_def by (metis subsetD)

lemma run_through_append: "run_through s V t \<Longrightarrow> run_through t W s' \<Longrightarrow> run_through s (V @ W) s'"
  by (induction s V t rule: run_through.induct) auto

lemma entry_workedI:
  assumes "process_entry os c t = Some (0, t')"
  shows "entry_worked os c t t'"
proof (cases "sc_res_flag_is_stored (sc_ri t c)")
  case True
  with assms show ?thesis
    by (auto simp: entry_worked_def process_entry_stored sc_res_notify_ri_url_def lift_world_def bind_Some_conv
        split: if_splits option.splits)
next
  case False
  with assms show ?thesis by (auto simp: entry_worked_def process_entry_def bind_Some_conv split: if_splits)
qed

lemma ctnt_loop_visits:
  "process_ctnt_loop n os cur err s = Some (e, s') \<Longrightarrow> run_through s (ctnt_visits n os cur s) s'"
proof (induction n os cur err s rule: process_ctnt_loop.induct)
  case (3 n os c err s)
  then obtain d s1 where v: "process_entry os c s = Some (d, s1)" by (auto simp: bind_Some_conv)
  with 3 show ?case by simp
qed auto

lemma mgmt_loop_visits:
  "process_mgmt_loop os is err s = Some (e, s') \<Longrightarrow> run_through s (mgmt_visits os is s) s'"
proof (induction "is" arbitrary: err s)
  case (Cons i "is")
  show ?case
  proof (cases "mgmt_used (sc_res_info_list s) i")
    case False
    with Cons show ?thesis by auto
  next
    case True
    with Cons.prems obtain r s1 where c: "sc_res_list_process_ctnt os i s = Some (r, s1)"
      and l: "(if r < 0 then Some (r, s1) else process_mgmt_loop os is (err + r) s1) = Some (e, s')"
      by (auto simp: bind_Some_conv)
    from ctnt_loop_visits [OF c [unfolded sc_res_list_process_ctnt_def]] True c l Cons.IH [of "err + r" s1] show ?thesis
      by (auto split: if_splits intro: run_through_append)
  qed
qed simp

lemma ctnt_loop_visited:
  "sc_inv s \<Longrightarrow> chain_from (sc_res_info_list s) i cur cs \<Longrightarrow> process_ctnt_loop n os cur err s = Some (err, s') \<Longrightarrow>
     c \<in> set cs \<Longrightarrow> visited os (ctnt_visits n os cur s) c s"
proof (induction cs arbitrary: n cur s)
  case (Cons x cs)
  from Cons.prems(2) have cur: "cur = Some x" and d: "x \<notin> set cs" and p: "\<forall>y \<in> set (x # cs). ctnt_used (sc_res_info_list s) y
      \<and> parent (ctnt (sc_res_info_list s) y) = Some i" by (simp_all add: chain_from_def)
  from Cons.prems(3) cur obtain m d s1 where n: "n = Suc m" and v: "process_entry os x s = Some (d, s1)"
    and l: "process_ctnt_loop m os (siblings (ctnt (sc_res_info_list s1) x)) (err + d) s1 = Some (err, s')"
    by (cases n) (auto simp: bind_Some_conv)
  from visit_entry [OF Cons.prems(1) _ v] p have ok: "visit_ok x s d s1" by simp
  then have pk: "peers_kept x (sc_res_info_list s) (sc_res_info_list s1)" and i1: "sc_inv s1"
    using sc_evolves_inv [OF Cons.prems(1)] by (auto simp: visit_ok_def)
  note ch = chain_from_step [OF Cons.prems(2) [unfolded cur] pk]
  from process_ctnt_loop_walk [OF i1 ch l] ok have z: "d = 0" by (simp add: walk_ok_def visit_ok_def)
  show ?case
  proof (cases "c = x")
    case True
    with entry_workedI [of os x s s1] v z n cur show ?thesis by (auto simp: visited_def)
  next
    case False
    then have "visited os (ctnt_visits m os (siblings (ctnt (sc_res_info_list s1) x)) s1) c s1"
      using Cons.IH [OF i1 ch] l z Cons.prems(4) by simp
    moreover have "ctnt (sc_res_info_list s1) c = ctnt (sc_res_info_list s) c"
      using pk p False Cons.prems(4) by (auto simp: peers_kept_def)
    ultimately show ?thesis using v n cur by (auto elim!: visited_mono)
  qed
qed simp

lemma mgmt_loop_visited:
  "sc_inv s \<Longrightarrow> distinct is \<Longrightarrow> process_mgmt_loop os is err s = Some (err, s') \<Longrightarrow> sc_own s c \<Longrightarrow>
     c \<in> entries_of s (set is) \<Longrightarrow> visited os (mgmt_visits os is s) c s"
proof (induction "is" arbitrary: s)
  case (Cons i "is")
  show ?case
  proof (cases "mgmt_used (sc_res_info_list s) i")
    case False
    then have "parent (ctnt (sc_res_info_list s) c) \<noteq> Some i"
      using Cons.prems(1,4) parent_used [of "sc_res_info_list s" c i] by (auto simp: sc_inv_def own_ctnt_def)
    with False Cons show ?thesis by auto
  next
    case True
    then obtain cs where ch: "chain_from (sc_res_info_list s) i (child (mgmt (sc_res_info_list s) i)) cs"
      and cs: "\<And>c. ctnt_used (sc_res_info_list s) c \<Longrightarrow> parent (ctnt (sc_res_info_list s) c) = Some i \<longleftrightarrow> c \<in> set cs"
      using chain_from_children [OF Cons.prems(1)] by metis
    from Cons.prems(3) True obtain r s1 where p: "sc_res_list_process_ctnt os i s = Some (r, s1)"
      and l: "(if r < 0 then Some (r, s1) else process_mgmt_loop os is (err + r) s1) = Some (err, s')"
      by (auto simp: bind_Some_conv)
    note loop = p [unfolded sc_res_list_process_ctnt_def]
    from process_ctnt_loop_walk [OF Cons.prems(1) ch loop] have w: "walk_ok i cs s r s1" by simp
    then have r: "0 \<le> r" and e1: "sc_evolves (set cs) s s1" and i1: "sc_inv s1"
      using sc_evolves_inv [OF Cons.prems(1)] by (auto simp: walk_ok_def)
    with l process_mgmt_loop_pass [OF i1, of "is" os "err + r" err s'] Cons.prems(2) have z: "r = 0" by (simp add: pass_ok_def)
    have own: "c \<in> set cs \<longleftrightarrow> parent (ctnt (sc_res_info_list s) c) = Some i" using cs [of c] Cons.prems(4) by (auto simp: own_ctnt_def)
    show ?thesis
    proof (cases "c \<in> set cs")
      case True
      from ctnt_loop_visited [OF Cons.prems(1) ch loop [unfolded z] True] \<open>mgmt_used (sc_res_info_list s) i\<close>
      show ?thesis by (auto elim: visited_mono)
    next
      case False
      have k: "ctnt (sc_res_info_list s1) c = ctnt (sc_res_info_list s) c" using own_untouched [OF e1 Cons.prems(4) False] .
      have "visited os (mgmt_visits os is s1) c s1"
        using Cons.IH [OF i1 _ _ sc_own_evolves [OF Cons.prems(1) e1 Cons.prems(4)]] l z own False Cons.prems(2,5) k by auto
      with k True p z show ?thesis by (auto elim!: visited_mono)
    qed
  qed
qed simp

lemma pass_visited:
  assumes "sc_inv s" and "sc_res_list_process_func os s = Some (e, s')"
  shows "run_through s (pass_visits os s) s'" and "e = 0 \<Longrightarrow> sc_own s c \<Longrightarrow> visited os (pass_visits os s) c s"
  using assms mgmt_loop_visits mgmt_loop_visited [OF assms(1), of "[0..<SC_RES_INFO_NUM_MAX_MGMT]" os 0 s' c] own_in_all [of s c]
  by (auto simp: sc_res_list_process_func_def sc_res_list_process_mgmt_def pass_visits_def atLeast0LessThan)

section \<open>Properties\<close>

text \<open>C25. A Sohu entry whose file URL could not be fetched is lost: \<open>sc_sohu_download\<close> reports the
  failure but sets no flag, and since only flagged entries are retried, every later visit of the
  list thread leaves the entry as it is and reports no problem.\<close>

theorem sohu_failure_not_retried:
  assumes "\<not> sc_res_flag_is_stored (sc_ri s k)" and "\<not> sc_res_flag_is_i_fail (sc_ri s k)"
    and "\<not> sc_res_flag_is_d_fail (sc_ri s k)" and "ctnt_url s k \<noteq> []"
    and "sohu_http_session os (ctnt_url s k) [] BUFFER_LEN (sc_world s) = Some ((r, resp), w)" and "r < 0"
  shows "\<exists>s'. sc_sohu_download os k s = Some (- 1, s') \<and> (\<forall>os'. process_entry os' k s' = Some (0, s'))"
proof (intro exI conjI allI)
  show "sc_sohu_download os k s = Some (- 1, s\<lparr>sc_world := w\<rparr>)"
    using assms(5,6) by (simp add: sc_sohu_download_def lift_world_def)
  show "process_entry os' k (s\<lparr>sc_world := w\<rparr>) = Some (0, s\<lparr>sc_world := w\<rparr>)" for os'
    using assms(1-4) by (simp add: process_entry_def ctnt_url_def)
qed

lemma offline_session:
  "\<exists>resp w'. sohu_http_session offline demo_content [] BUFFER_LEN w = Some ((- 1, resp), w')"
  by (simp add: sohu_http_session_def session_exchange_def http_host_connect_def offline_def scripted_def
      demo_content_def hc_limits)

theorem sohu_failure_not_retried_witness:
  "\<exists>s s'. sc_inv s \<and> sc_own s 4095 \<and> sc_sohu_download offline 4095 s = Some (- 1, s')
     \<and> process_entry scripted 4095 s' = Some (0, s')"
proof -
  from demo_state [of "\<lparr>answers = [], sent = [], opened = 0, closed = 0\<rparr>"] obtain s :: "script sc_state" where
    s: "sc_inv s" "sc_own s 4095" "ri_url (sc_ri s 4095) = demo_content" "\<not> sc_res_flag_is_stored (sc_ri s 4095)"
      "\<not> sc_res_flag_is_i_fail (sc_ri s 4095)" "\<not> sc_res_flag_is_d_fail (sc_ri s 4095)" by blast
  have u: "ctnt_url s 4095 = demo_content" using s(3) demo_urls(5) by (simp add: ctnt_url_def)
  obtain resp w' where r: "sohu_http_session offline (ctnt_url s 4095) [] BUFFER_LEN (sc_world s) = Some ((- 1, resp), w')"
    using offline_session u by metis
  have "ctnt_url s 4095 \<noteq> []" by (simp add: u demo_content_def)
  from sohu_failure_not_retried [OF s(4-6) this r] s(1,2) show ?thesis by auto
qed

end
