(* ===== verification/Notify_Pass.thy ===== *)
theory Notify_Pass
  imports Res_Process
begin

text \<open>
  The pass of the list thread on a quiet list, one in which no entry waits for a retry: it always
  returns, and when the Snooping module acknowledges every request its effect is exactly that
  every stored entry is marked as notified (\<open>notify_all\<close>). \<open>snoop_acks\<close> is what this needs of the
  other side: a request is sent, and a reply with its session id and status OK comes back.
\<close>

section \<open>The acknowledging module\<close>

definition snoop_acks :: "'w os \<Rightarrow> bool" where
  "snoop_acks os \<longleftrightarrow> (\<forall>w. 0 \<le> fst (os_socket os w)) \<and>
     (\<forall>fd a p w n w1. os_sendto os fd a p w = (n, w1) \<longrightarrow> 0 \<le> n \<and>
        (\<exists>r d b w2. os_recvfrom os fd SC_SNOOPING_SND_RCV_BUF_LEN w1 = ((r, d, b), w2)
           \<and> 0 \<le> r \<and> pkt_session_id d = pkt_session_id p \<and> pkt_status d = HTTP_SP_STATUS_OK))"

definition acking :: "script os" where
  "acking = scripted\<lparr>os_sendto := (\<lambda>fd a p w. (int (length p),
     w\<lparr>answers := (take 4 (p @ replicate 4 NUL) @ bytes_u8 HTTP_SP_STATUS_OK) # answers w\<rparr>))\<rparr>"

lemma acking_acks: "snoop_acks acking"
proof -
  have "pkt_session_id (take 4 (p @ replicate 4 NUL) @ bytes_u8 HTTP_SP_STATUS_OK) = pkt_session_id p" for p
    by (auto simp: pkt_session_id_def get_u32_def byte_at_def nth_append)
  moreover have "pkt_status (take 4 (p @ replicate 4 NUL) @ bytes_u8 HTTP_SP_STATUS_OK) = HTTP_SP_STATUS_OK" for p
    unfolding pkt_status_def by (subst get_u8_skip) (simp_all add: get_bytes_u8 [of _ "[]", simplified])
  ultimately show ?thesis
    by (simp add: snoop_acks_def acking_def scripted_def script_recv_def wire_codes bytes_u8_def)
qed

lemma action_acked:
  assumes "snoop_acks os" and "length url \<le> HTTP_SP_URL_LEN_MAX" and "act = HTTP_C2SP_ACTION_ADD \<or> act = HTTP_C2SP_ACTION_DELETE"
  shows "\<exists>w'. sc_snooping_initiate_action os act ident url w = Some (0, w')"
proof -
  from assms(2) strip_http_length [of url] obtain b where b: "c2sp_req_pkt ident act url = Some b"
    by (auto simp: c2sp_req_pkt_def sc_res_copy_url_def Let_def)
  obtain fd w1 where fd: "os_socket os w = (fd, w1)" "0 \<le> fd"
    using assms(1) unfolding snoop_acks_def by (metis fst_conv surj_pair)
  obtain n w2 where n: "os_sendto os fd SC_SNOOP_MOD_DEFAULT_IP_ADDR (pkt_bytes b) w1 = (n, w2)" by fastforce
  with assms(1) obtain r d a w3 where "os_recvfrom os fd SC_SNOOPING_SND_RCV_BUF_LEN w2 = ((r, d, a), w3)" "0 \<le> r" "0 \<le> n"
    "pkt_session_id d = ident" "pkt_status d = HTTP_SP_STATUS_OK"
    unfolding snoop_acks_def using c2sp_req_fields(1) [OF b] by (metis pkt_fields_bytes(1))
  with n fd b assms(3) show ?thesis by (auto simp: sc_snooping_initiate_action_def Let_def)
qed

lemma do_add_acked:
  "snoop_acks os \<Longrightarrow> length url \<le> HTTP_SP_URL_LEN_MAX \<Longrightarrow> \<exists>w'. sc_snooping_do_add os ident url w = Some (0, w')"
  by (simp add: sc_snooping_do_add_def action_acked)

lemma do_del_acked:
  "snoop_acks os \<Longrightarrow> length url \<le> HTTP_SP_URL_LEN_MAX \<Longrightarrow> \<exists>w'. sc_snooping_do_del os ident url w = Some (0, w')"
  by (simp add: sc_snooping_do_del_def action_acked)

section \<open>The effect on the list\<close>

definition notify_all :: "nat set \<Rightarrow> sc_res_list \<Rightarrow> sc_res_list" where
  "notify_all C rl = rl\<lparr>ctnt := (\<lambda>c. if c \<in> C \<and> sc_res_flag_is_stored (ct_common (ctnt rl c))
     then (ctnt rl c)\<lparr>ct_common := sc_res_flag_set_notify (ct_common (ctnt rl c))\<rparr> else ctnt rl c)\<rparr>"

definition quiet :: "sc_res_list \<Rightarrow> nat \<Rightarrow> bool" where
  "quiet rl c \<longleftrightarrow> sc_res_flag_is_stored (ct_common (ctnt rl c)) \<or>
     \<not> sc_res_flag_is_i_fail (ct_common (ctnt rl c)) \<and> \<not> sc_res_flag_is_d_fail (ct_common (ctnt rl c))"

definition entry_ready :: "sc_res_list \<Rightarrow> nat \<Rightarrow> bool" where
  "entry_ready rl c \<longleftrightarrow> url_ok (ri_url (ct_common (ctnt rl c))) \<and> quiet rl c \<and> sc_res_info_is_ctnt (Some (ct_common (ctnt rl c)))"

lemma set_notify_again: "sc_res_flag_is_notify ri \<Longrightarrow> sc_res_flag_set_notify ri = ri"
proof -
  assume "sc_res_flag_is_notify ri"
  then have b: "bit (ri_flag ri) 11" by (simp only: flag_bits)
  have "bit SC_RES_FLAG_NOTIFY n \<longleftrightarrow> n = 11" for n
    by (auto simp only: flag_exp(4) bit_exp_iff possible_bit_word) simp
  with b have "ri_flag ri OR SC_RES_FLAG_NOTIFY = ri_flag ri"
    by (intro bit_word_eqI) (auto simp: bit_or_iff)
  then show ?thesis by (simp add: sc_res_flag_set_notify_def)
qed

lemma notify_all_fields [simp]:
  "mgmt (notify_all C rl) = mgmt rl" "siblings (ctnt (notify_all C rl) c) = siblings (ctnt rl c)"
  "parent (ctnt (notify_all C rl) c) = parent (ctnt rl c)"
  "mgmt_used (notify_all C rl) i = mgmt_used rl i" "entry_ready (notify_all C rl) c = entry_ready rl c"
  "sc_res_flag_is_stored (ct_common (ctnt (notify_all C rl) c)) = sc_res_flag_is_stored (ct_common (ctnt rl c))"
  by (auto simp: notify_all_def mgmt_used_def entry_ready_def quiet_def kind_defs)

lemma notify_all_step:
  "notify_all C (notify_all D rl) = notify_all (C \<union> D) rl"
  by (cases rl) (auto simp: notify_all_def fun_eq_iff set_notify_again)

lemma notify_all_empty [simp]: "notify_all {} rl = rl"
  by (cases rl) (simp add: notify_all_def)

lemma visit_quiet:
  assumes "snoop_acks os" and "entry_ready (sc_res_info_list s) c"
  shows "\<exists>w. process_entry os c s = Some (0, s\<lparr>sc_res_info_list := notify_all {c} (sc_res_info_list s), sc_world := w\<rparr>)"
proof -
  let ?rl = "sc_res_info_list s"
  have u: "ctnt_url s c \<noteq> []" "length (ctnt_url s c) \<le> HTTP_SP_URL_LEN_MAX"
    using assms(2) by (auto simp: entry_ready_def url_ok_def ctnt_url_def wire_codes hc_limits)
  show ?thesis
  proof (cases "sc_res_flag_is_stored (sc_ri s c) \<and> \<not> sc_res_flag_is_notify (sc_ri s c)")
    case True
    obtain w where w: "sc_snooping_do_add os (ucast (ri_id (sc_ri s c))) (ctnt_url s c) (sc_world s) = Some (0, w)"
      using do_add_acked [OF assms(1) u(2)] by blast
    have "upd_ctnt_ri c sc_res_flag_set_notify ?rl = notify_all {c} ?rl"
      using True by (auto simp: upd_defs notify_all_def fun_eq_iff)
    with True w u assms(2) have "process_entry os c s = Some (0, s\<lparr>sc_res_info_list := notify_all {c} ?rl, sc_world := w\<rparr>)"
      by (simp add: process_entry_stored sc_res_notify_ri_url_def lift_world_def set_ctnt_flag_def entry_ready_def)
    then show ?thesis by blast
  next
    case False
    have "notify_all {c} ?rl = ?rl"
      using False by (cases ?rl) (auto simp: notify_all_def fun_eq_iff set_notify_again)
    then have "s = s\<lparr>sc_res_info_list := notify_all {c} ?rl, sc_world := sc_world s\<rparr>" by simp
    moreover have "process_entry os c s = Some (0, s)"
      using False u assms(2) by (auto simp: process_entry_def entry_ready_def quiet_def)
    ultimately show ?thesis by metis
  qed
qed

lemma walk_quiet:
  "snoop_acks os \<Longrightarrow> sib_chain (\<lambda>c. siblings (ctnt (sc_res_info_list s) c)) cur cs \<Longrightarrow>
   \<forall>c \<in> set cs. entry_ready (sc_res_info_list s) c \<Longrightarrow> length cs \<le> n \<Longrightarrow>
     \<exists>w. process_ctnt_loop n os cur err s =
       Some (err, s\<lparr>sc_res_info_list := notify_all (set cs) (sc_res_info_list s), sc_world := w\<rparr>)"
proof (induction cs arbitrary: n cur s)
  case Nil
  then show ?case by (auto intro: exI [of _ "sc_world s"])
next
  case (Cons c cs)
  then obtain m where n: "n = Suc m" and m: "length cs \<le> m" by (cases n) auto
  let ?rl = "sc_res_info_list s"
  from visit_quiet [OF Cons.prems(1), of s c] Cons.prems(3) obtain w where
    v: "process_entry os c s = Some (0, s\<lparr>sc_res_info_list := notify_all {c} ?rl, sc_world := w\<rparr>)" by auto
  let ?s = "s\<lparr>sc_res_info_list := notify_all {c} ?rl, sc_world := w\<rparr>"
  have "sib_chain (\<lambda>c. siblings (ctnt (sc_res_info_list ?s) c)) (siblings (ctnt ?rl c)) cs"
    using Cons.prems(2) by simp
  from Cons.IH [OF Cons.prems(1) this _ m] Cons.prems(3) obtain w' where
    "process_ctnt_loop m os (siblings (ctnt ?rl c)) err ?s
      = Some (err, s\<lparr>sc_res_info_list := notify_all (set cs) (notify_all {c} ?rl), sc_world := w'\<rparr>)" by auto
  with v n Cons.prems(2) show ?case by (auto simp: notify_all_step)
qed

lemma pass_quiet:
  assumes acks: "snoop_acks os"
    and ch: "\<And>i. i \<in> set is \<Longrightarrow> mgmt_used (sc_res_info_list s) i \<Longrightarrow>
      sib_chain (\<lambda>c. siblings (ctnt (sc_res_info_list s) c)) (child (mgmt (sc_res_info_list s) i)) (ch i)
      \<and> length (ch i) \<le> SC_RES_INFO_NUM_MAX_CTNT"
    and r: "\<And>i c. i \<in> set is \<Longrightarrow> mgmt_used (sc_res_info_list s) i \<Longrightarrow> c \<in> set (ch i) \<Longrightarrow> entry_ready (sc_res_info_list s) c"
  shows "\<exists>w. process_mgmt_loop os is err s = Some (err, s\<lparr>sc_res_info_list :=
    notify_all (\<Union>i \<in> {i \<in> set is. mgmt_used (sc_res_info_list s) i}. set (ch i)) (sc_res_info_list s), sc_world := w\<rparr>)"
  using ch r
proof (induction "is" arbitrary: s)
  case Nil
  then show ?case by (auto intro: exI [of _ "sc_world s"])
next
  case (Cons i "is")
  let ?rl = "sc_res_info_list s"
  show ?case
  proof (cases "mgmt_used ?rl i")
    case False
    have "{j. (j = i \<or> j \<in> set is) \<and> mgmt_used ?rl j} = {j \<in> set is. mgmt_used ?rl j}" using False by auto
    moreover have "\<exists>w. process_mgmt_loop os is err s = Some (err, s\<lparr>sc_res_info_list :=
        notify_all (\<Union>j \<in> {j \<in> set is. mgmt_used ?rl j}. set (ch j)) ?rl, sc_world := w\<rparr>)"
      by (rule Cons.IH) (use Cons.prems in auto)
    ultimately show ?thesis using False by simp
  next
    case True
    from walk_quiet [OF acks, of s "child (mgmt ?rl i)" "ch i" SC_RES_INFO_NUM_MAX_CTNT 0] Cons.prems True
    obtain w where w: "sc_res_list_process_ctnt os i s
        = Some (0, s\<lparr>sc_res_info_list := notify_all (set (ch i)) ?rl, sc_world := w\<rparr>)"
      by (auto simp: sc_res_list_process_ctnt_def)
    let ?s = "s\<lparr>sc_res_info_list := notify_all (set (ch i)) ?rl, sc_world := w\<rparr>"
    have "\<exists>w'. process_mgmt_loop os is err ?s = Some (err, ?s\<lparr>sc_res_info_list :=
        notify_all (\<Union>j \<in> {j \<in> set is. mgmt_used (sc_res_info_list ?s) j}. set (ch j)) (sc_res_info_list ?s), sc_world := w'\<rparr>)"
      by (rule Cons.IH) (use Cons.prems in auto)
    moreover have "{j. (j = i \<or> j \<in> set is) \<and> mgmt_used ?rl j} = insert i {j \<in> set is. mgmt_used ?rl j}" using True by auto
    ultimately show ?thesis using w True by (auto simp: notify_all_step Un_commute)
  qed
qed

lemma all_children:
  assumes t: "res_tree rl fm fc ch"
  shows "(\<Union>i \<in> {i \<in> set [0..<SC_RES_INFO_NUM_MAX_MGMT]. mgmt_used rl i}. set (ch i)) = {c. ctnt_used rl c}"
proof (intro set_eqI iffI)
  fix c assume "c \<in> (\<Union>i \<in> {i \<in> set [0..<SC_RES_INFO_NUM_MAX_MGMT]. mgmt_used rl i}. set (ch i))"
  then obtain i where "c \<in> set (ch i)" by blast
  with child_iff [OF t] show "c \<in> {c. ctnt_used rl c}" by blast
next
  fix c assume "c \<in> {c. ctnt_used rl c}"
  then obtain i where c: "c \<in> set (ch i)" using res_treeD(9) [OF t, of c] by (auto simp: ctnt_used_iff [OF t])
  then have "mgmt_used rl i" using res_treeD(6) [OF t c] by (simp add: mgmt_used_iff [OF t])
  with c show "c \<in> (\<Union>i \<in> {i \<in> set [0..<SC_RES_INFO_NUM_MAX_MGMT]. mgmt_used rl i}. set (ch i))"
    by (auto simp: mgmt_used_def)
qed

lemma quiet_pass:
  assumes inv: "sc_inv s" and acks: "snoop_acks os"
    and q: "\<And>c. ctnt_used (sc_res_info_list s) c \<Longrightarrow> quiet (sc_res_info_list s) c"
  shows "\<exists>w. sc_res_list_process_func os s = Some (0, s\<lparr>sc_res_info_list :=
     notify_all {c. ctnt_used (sc_res_info_list s) c} (sc_res_info_list s), sc_world := w\<rparr>)"
proof -
  let ?rl = "sc_res_info_list s"
  from inv obtain fm fc ch where t: "res_tree ?rl fm fc ch" by (auto simp: sc_inv_def res_inv_def)
  have ch: "sib_chain (\<lambda>c. siblings (ctnt ?rl c)) (child (mgmt ?rl i)) (ch i) \<and> length (ch i) \<le> SC_RES_INFO_NUM_MAX_CTNT"
    if "mgmt_used ?rl i" for i
  proof -
    have i: "i < SC_RES_INFO_NUM_MAX_MGMT" "i \<notin> set fm" using that by (auto simp: mgmt_used_iff [OF t])
    from res_treeD(5) [OF t i] child_list_bound [OF t i] show ?thesis by (simp add: mgmt_ok_def)
  qed
  have rd: "entry_ready ?rl c" if "c \<in> set (ch i)" for i c
  proof -
    have u: "ctnt_used ?rl c" using child_iff [OF t, of c i] that by blast
    from res_treeD(6) [OF t that] have "ctnt_fields_ok c (ctnt ?rl c)" using res_treeD(8) [OF t, of c] by blast
    with q [OF u] show ?thesis by (simp add: entry_ready_def ctnt_fields_ok_def)
  qed
  have "\<exists>w. process_mgmt_loop os [0..<SC_RES_INFO_NUM_MAX_MGMT] 0 s = Some (0, s\<lparr>sc_res_info_list :=
      notify_all (\<Union>i \<in> {i \<in> set [0..<SC_RES_INFO_NUM_MAX_MGMT]. mgmt_used ?rl i}. set (ch i)) ?rl, sc_world := w\<rparr>)"
    by (rule pass_quiet [OF acks], rule ch, assumption, rule rd, assumption)
  then show ?thesis
    unfolding sc_res_list_process_func_def sc_res_list_process_mgmt_def all_children [OF t] .
qed

section \<open>Properties\<close>

text \<open>A state with one stored entry, for the examples.\<close>

lemma stored_state:
  obtains s :: "script sc_state" where "sc_inv s" "sc_own s 4095" "\<forall>c. ctnt_used (sc_res_info_list s) c \<longleftrightarrow> c = 4095"
    "sc_res_flag_is_stored (sc_ri s 4095)"
proof -
  from demo_state [of "\<lparr>answers = [], sent = [], opened = 0, closed = 0\<rparr>"] obtain s :: "script sc_state" where
    s: "sc_inv s" "sc_own s 4095" "\<forall>c. ctnt_used (sc_res_info_list s) c \<longleftrightarrow> c = 4095" by blast
  have inv: "res_inv (sc_res_info_list s)" and u: "ctnt_used (sc_res_info_list s) 4095"
    using s by (simp_all add: sc_inv_def)
  have e: "evolves {4095} (sc_res_info_list s) (upd_ctnt_ri 4095 sc_res_flag_set_stored (sc_res_info_list s))"
    by (rule evolves_flag [OF inv u]) (simp_all, simp add: sc_res_flag_set_stored_def, blast)
  note e' = set_flag_evolves [OF s(1,2) e]
  have "ctnt_used (sc_res_info_list (set_ctnt_flag sc_res_flag_set_stored 4095 s)) c \<longleftrightarrow> c = 4095" for c
    using s(3) by (simp add: set_ctnt_flag_def)
  moreover have "sc_res_flag_is_stored (sc_ri (set_ctnt_flag sc_res_flag_set_stored 4095 s) 4095)"
    by (simp only: set_ctnt_flag_ri if_True refl flag_set)
  ultimately show ?thesis
    using that sc_evolves_inv [OF s(1) e'] sc_own_evolves [OF s(1) e' s(2)] by blast
qed

text \<open>C21. One pass of the list thread that comes back, whatever the sites, nginx and the Snooping
  module answered: the list stays sound and no entry of an origin or a download is lost; the result
  counts the visits that failed and is never negative, so the thread goes on. When it is zero, every
  entry of an origin or a download that was there before the pass has had its visit, found as it was
  then: if it was stored and not yet announced, the Snooping module has acknowledged it and it is
  marked as announced; if its request to nginx or its download had failed, the download has been
  asked for again and the request went out, and afterwards the entry is found stored (from a loaded
  file, or by nginx meanwhile) or has lost the mark of the failure. One mark stays: an entry that had
  both marks is retried for the first one and keeps the second until the next pass. Entries of
  loaded files, and entries that become stored during the pass, are not spoken of.\<close>

theorem list_pass_outcome:
  assumes "sc_inv s" and "sc_res_list_process_func os s = Some (e, s')"
  shows "sc_inv s' \<and> sc_evolves UNIV s s' \<and> 0 \<le> e \<and> run_through s (pass_visits os s) s' \<and>
     (e = 0 \<longrightarrow> (\<forall>c. sc_own s c \<longrightarrow> visited os (pass_visits os s) c s \<and>
        (if sc_res_flag_is_stored (sc_ri s c) then sc_res_flag_is_notify (sc_ri s' c)
         else sc_res_flag_is_stored (sc_ri s' c) \<or> \<not> sc_res_flag_is_i_fail (sc_ri s' c)
           \<and> (sc_res_flag_is_d_fail (sc_ri s' c) \<longrightarrow>
                sc_res_flag_is_i_fail (sc_ri s c) \<and> sc_res_flag_is_d_fail (sc_ri s c)))))"
  using process_func_pass [OF assms] own_in_all [OF assms(1)] sc_evolves_inv [OF assms(1)] sc_evolves_mono
    pass_visited [OF assms]
  unfolding pass_ok_def entry_done_def by blast

text \<open>C22. On a list in which no entry waits for a retry, and with a Snooping module that
  acknowledges, a pass returns, reports no failure and has exactly one effect: the entries that
  are stored are marked as announced, whether they belong to an origin or to a loader. A second
  pass changes nothing more.\<close>

theorem quiet_pass_notifies:
  assumes "sc_inv s" and "snoop_acks os"
    and "\<forall>c. ctnt_used (sc_res_info_list s) c \<longrightarrow> quiet (sc_res_info_list s) c"
  shows "\<exists>s'. sc_res_list_process_func os s = Some (0, s')
     \<and> mgmt (sc_res_info_list s') = mgmt (sc_res_info_list s)
     \<and> (\<forall>c. ctnt_used (sc_res_info_list s) c \<longrightarrow> ctnt (sc_res_info_list s') c =
          (if sc_res_flag_is_stored (sc_ri s c)
           then (ctnt (sc_res_info_list s) c)\<lparr>ct_common := sc_res_flag_set_notify (sc_ri s c)\<rparr>
           else ctnt (sc_res_info_list s) c))
     \<and> (\<exists>s''. sc_res_list_process_func os s' = Some (0, s'') \<and> sc_res_info_list s'' = sc_res_info_list s')"
proof -
  let ?rl = "sc_res_info_list s" and ?U = "{c. ctnt_used (sc_res_info_list s) c}"
  from quiet_pass [OF assms(1,2)] assms(3) obtain w where
    p: "sc_res_list_process_func os s = Some (0, s\<lparr>sc_res_info_list := notify_all ?U ?rl, sc_world := w\<rparr>)" by blast
  let ?s = "s\<lparr>sc_res_info_list := notify_all ?U ?rl, sc_world := w\<rparr>"
  have inv: "sc_inv ?s"
    using process_func_pass [OF assms(1) p] sc_evolves_inv [OF assms(1)] unfolding pass_ok_def by blast
  have U: "{c. ctnt_used (notify_all ?U ?rl) c} = ?U" by (auto simp: ctnt_used_def notify_all_def split: if_splits)
  have q: "quiet (notify_all ?U ?rl) c" if "ctnt_used (notify_all ?U ?rl) c" for c
  proof -
    from that U have "quiet ?rl c" using assms(3) by blast
    then show ?thesis by (auto simp: quiet_def notify_all_def)
  qed
  from quiet_pass [OF inv assms(2)] q obtain w' where
    "sc_res_list_process_func os ?s = Some (0, ?s\<lparr>sc_res_info_list := notify_all ?U (notify_all ?U ?rl), sc_world := w'\<rparr>)"
    using U by auto
  then have again: "\<exists>s''. sc_res_list_process_func os ?s = Some (0, s'') \<and> sc_res_info_list s'' = sc_res_info_list ?s"
    by (simp add: notify_all_step)
  have "ctnt (sc_res_info_list ?s) c = (if sc_res_flag_is_stored (sc_ri s c)
      then (ctnt ?rl c)\<lparr>ct_common := sc_res_flag_set_notify (sc_ri s c)\<rparr> else ctnt ?rl c)" if "ctnt_used ?rl c" for c
    using that by (simp add: notify_all_def)
  then show ?thesis by (intro exI [of _ ?s] conjI p again) simp_all
qed

theorem quiet_pass_notifies_witness:
  "\<exists>s s'. sc_res_list_process_func acking s = Some (0, s') \<and> sc_own s 4095
     \<and> sc_res_flag_is_stored (sc_ri s 4095) \<and> sc_res_flag_is_notify (sc_ri s' 4095)"
proof -
  obtain s :: "script sc_state" where s: "sc_inv s" "sc_own s 4095" "\<forall>c. ctnt_used (sc_res_info_list s) c \<longleftrightarrow> c = 4095"
    and st: "sc_res_flag_is_stored (sc_ri s 4095)" using stored_state by blast
  have "\<forall>c. ctnt_used (sc_res_info_list s) c \<longrightarrow> quiet (sc_res_info_list s) c" by (simp add: s(3) quiet_def st)
  from quiet_pass_notifies [OF s(1) acking_acks this] obtain s' where
    p: "sc_res_list_process_func acking s = Some (0, s')"
    and c: "ctnt (sc_res_info_list s') 4095 = (ctnt (sc_res_info_list s) 4095)\<lparr>ct_common := sc_res_flag_set_notify (sc_ri s 4095)\<rparr>"
    using s(3) st by auto
  have "sc_res_flag_is_notify (sc_ri s' 4095)" by (simp add: c)
  with p s(2) st show ?thesis by blast
qed

theorem list_pass_outcome_witness:
  "\<exists>s s'. sc_res_list_process_func acking s = Some (0, s') \<and> sc_inv s' \<and> sc_res_flag_is_notify (sc_ri s' 4095)"
proof -
  obtain s :: "script sc_state" where s: "sc_inv s" "sc_own s 4095" "\<forall>c. ctnt_used (sc_res_info_list s) c \<longleftrightarrow> c = 4095"
    and st: "sc_res_flag_is_stored (sc_ri s 4095)" using stored_state by blast
  have "quiet (sc_res_info_list s) c" if "ctnt_used (sc_res_info_list s) c" for c using that by (simp add: s(3) quiet_def st)
  from quiet_pass [OF s(1) acking_acks this] obtain s' where p: "sc_res_list_process_func acking s = Some (0, s')" by blast
  have "sc_inv s'" "sc_res_flag_is_notify (sc_ri s' 4095)" using list_pass_outcome [OF s(1) p] s(2) st by (metis (full_types))+
  with p show ?thesis by blast
qed

end
