(* ===== verification/Local_Data.thy ===== *)
theory Local_Data
  imports Notify_Pass
begin

text \<open>
  The files that are on disk when the client starts: \<^verbatim>\<open>snooping_client/sc_localdata.c\<close> and the
  directory walk of \<^verbatim>\<open>util/os_util.c\<close>. Each site has a loader, a management entry of kind
  \<open>ctrl_ld\<close> whose children are the files found below the root. The C library's \<open>ftw\<close> is the
  parameter \<open>ftw\<close>: the paths it reports, each with whether it is a file, and its own result.
\<close>

section \<open>File system calls\<close>

definition os_file_rename :: "'w os \<Rightarrow> string \<Rightarrow> string \<Rightarrow> 'w \<Rightarrow> int \<times> 'w" where
  "os_file_rename os oldname newname w = os_rename os oldname newname w"

definition os_file_remove :: "'w os \<Rightarrow> string \<Rightarrow> 'w \<Rightarrow> int \<times> 'w" where
  "os_file_remove os pathname w = os_remove os pathname w"

section \<open>Processing one file\<close>

text \<open>The backward search for the last underscore; without one the code reads the byte before
  the path.\<close>

definition file_vid :: "string \<Rightarrow> string option" where
  "file_vid fpath = (if CHR ''_'' \<in> set fpath
     then Some (rev (takeWhile (\<lambda>c. c \<noteq> CHR ''_'') (rev fpath))) else None)"

fun dup_loop :: "nat \<Rightarrow> sc_res_list \<Rightarrow> string \<Rightarrow> nat option \<Rightarrow> bool option" where
  "dup_loop n rl vid None = Some False"
| "dup_loop 0 rl vid (Some l) = None"
| "dup_loop (Suc n) rl vid (Some l) =
     (if contains (cstr (ri_url (ct_common (ctnt rl l)))) vid then Some True
      else dup_loop n rl vid (siblings (ctnt rl l)))"

definition sc_ld_is_duplicate_file :: "sc_res_list \<Rightarrow> nat option \<Rightarrow> string \<Rightarrow> bool option" where
  "sc_ld_is_duplicate_file rl ctrl_ld fpath = (case ctrl_ld of
      None \<Rightarrow> Some False
    | Some i \<Rightarrow> do {
        is_lp \<leftarrow> (if sc_yk_is_local_path fpath \<or> sc_sohu_is_local_path fpath then Some True
                  else sc_yk_is_local_path_pure_vid fpath);
        if \<not> is_lp then Some False
        else do {
          vid \<leftarrow> file_vid fpath;
          dup_loop SC_RES_INFO_NUM_MAX_CTNT rl vid (child (mgmt rl i))
        }
      })"

text \<open>Which loader a file goes to and under which name; \<open>None\<close> inside is an early \<open>return 0\<close>.\<close>

definition ld_classify ::
  "'w os \<Rightarrow> string \<Rightarrow> 'w sc_state \<Rightarrow> ((nat option \<times> string) option \<times> 'w sc_state) option" where
  "ld_classify os fpath s =
     (if sc_yk_is_local_path fpath then Some (Some (sc_ld_obtain_ctrl_ld_youku s, fpath), s)
      else do {
        pure \<leftarrow> sc_yk_is_local_path_pure_vid fpath;
        if pure then do {
          (ret, std) \<leftarrow> sc_yk_trans_vid_to_std_path fpath SC_RES_LOCAL_PATH_MAX_LEN;
          if ret \<noteq> 0 then Some (None, s)
          else case os_file_rename os fpath (cstr std) (sc_world s) of (r, w) \<Rightarrow>
            if r \<noteq> 0 then Some (None, s\<lparr>sc_world := w\<rparr>)
            else Some (Some (sc_ld_obtain_ctrl_ld_youku s, cstr std), s\<lparr>sc_world := w\<rparr>)
        }
        else if sc_sohu_is_local_path fpath then Some (Some (sc_ld_obtain_ctrl_ld_sohu s, fpath), s)
        else Some (None, s)
      })"

definition ld_local_path :: "string \<Rightarrow> string" where
  "ld_local_path fpath =
     (if strncmp_eq fpath SC_NGX_ROOT_PATH SC_NGX_ROOT_PATH_LEN then drop SC_NGX_ROOT_PATH_LEN fpath else fpath)"

definition sc_ld_file_process :: "'w os \<Rightarrow> string \<Rightarrow> 'w sc_state \<Rightarrow> (int \<times> 'w sc_state) option" where
  "sc_ld_file_process os fpath s = do {
     (cls, s1) \<leftarrow> ld_classify os fpath s;
     (case cls of
        None \<Rightarrow> Some (0, s1)
      | Some (ctrl_ld, path) \<Rightarrow> do {
          dup \<leftarrow> sc_ld_is_duplicate_file (sc_res_info_list s1) ctrl_ld path;
          if dup then case os_file_remove os path (sc_world s1) of (r, w) \<Rightarrow> Some (0, s1\<lparr>sc_world := w\<rparr>)
          else (case sc_res_recover_url_from_local_path (ld_local_path path) [] of (ret, url) \<Rightarrow>
            if ret \<noteq> 0 then Some (0, s1)
            else do {
              (_, s2) \<leftarrow> state_add_ctnt os ctrl_ld (cstr url) s1;
              Some (0, s2)
            })
        })
   }"

section \<open>The walk\<close>

definition os_dir_walk_func :: "'w os \<Rightarrow> string \<Rightarrow> bool \<Rightarrow> 'w sc_state \<Rightarrow> (int \<times> 'w sc_state) option" where
  "os_dir_walk_func os fpath is_file s =
     (if is_file then sc_ld_file_process os fpath s else Some (0, s))"

text \<open>\<open>ftw\<close> stops at the first entry for which the callback does not return 0.\<close>

fun ftw_loop :: "'w os \<Rightarrow> (string \<times> bool) list \<Rightarrow> int \<Rightarrow> 'w sc_state \<Rightarrow> (int \<times> 'w sc_state) option" where
  "ftw_loop os [] r s = Some (r, s)"
| "ftw_loop os ((fpath, is_file) # rest) r s = do {
     (ret, s1) \<leftarrow> os_dir_walk_func os fpath is_file s;
     if ret \<noteq> 0 then Some (ret, s1) else ftw_loop os rest r s1
   }"

definition os_dir_walk ::
  "'w os \<Rightarrow> (string \<Rightarrow> (string \<times> bool) list \<times> int) \<Rightarrow> string \<Rightarrow> 'w sc_state \<Rightarrow> (int \<times> 'w sc_state) option" where
  "os_dir_walk os ftw dirpath s = (case ftw dirpath of (entries, r) \<Rightarrow> ftw_loop os entries r s)"

definition YOUKU_WEBSITE_URL :: string where "YOUKU_WEBSITE_URL = ''www.youku.com''"
definition SOHU_WEBSITE_URL :: string where "SOHU_WEBSITE_URL = ''www.sohu.com''"

definition sc_ld_init_and_load ::
  "'w os \<Rightarrow> (string \<Rightarrow> (string \<times> bool) list \<times> int) \<Rightarrow> 'w sc_state \<Rightarrow> (int \<times> 'w sc_state) option" where
  "sc_ld_init_and_load os ftw s = do {
     (r1, p1, rl1) \<leftarrow> sc_res_info_add_ctrl_ld (sc_res_info_list s) YOUKU_WEBSITE_URL;
     if r1 \<noteq> 0 then Some (- 1, s\<lparr>sc_res_info_list := rl1\<rparr>)
     else do {
       let s1 = s\<lparr>sc_res_info_list := rl1, youku_controller_of_loaded := p1\<rparr>;
       (r2, p2, rl2) \<leftarrow> sc_res_info_add_ctrl_ld rl1 SOHU_WEBSITE_URL;
       if r2 \<noteq> 0 then Some (- 1, s1\<lparr>sc_res_info_list := rl2\<rparr>)
       else do {
         let s2 = s1\<lparr>sc_res_info_list := rl2, sohu_controller_of_loaded := p2\<rparr>;
         (ret, s3) \<leftarrow> os_dir_walk os ftw SC_NGX_ROOT_PATH s2;
         Some (if ret \<noteq> 0 then - 1 else 0, s3)
       }
     }
   }"

section \<open>No file makes the loader fault\<close>

lemma last_slash_None: "last_slash s k = None \<longleftrightarrow> CHR ''/'' \<notin> set s"
proof (induction s arbitrary: k)
  case (Cons c s)
  from Cons [of "Suc k"] show ?case by (cases "last_slash s (Suc k)") auto
qed simp

lemma pure_vid_total:
  assumes "CHR ''/'' \<in> set lp"
  shows "sc_yk_is_local_path_pure_vid lp \<noteq> None"
proof (cases "contains lp SC_NGX_ROOT_PATH")
  case True
  then show ?thesis
    by (cases "last_slash (uri_start lp) 0") (simp_all add: sc_yk_is_local_path_pure_vid_def Let_def del: not_None_eq)
next
  case False
  then have "uri_start lp = lp" by (simp add: uri_start_def)
  with assms last_slash_None [of lp 0] show ?thesis
    by (auto simp: sc_yk_is_local_path_pure_vid_def Let_def split: option.splits)
qed

lemma pure_vid_slash:
  assumes "sc_yk_is_local_path_pure_vid lp = Some True"
  shows "CHR ''/'' \<in> set (uri_start lp)"
proof (rule ccontr)
  assume a: "CHR ''/'' \<notin> set (uri_start lp)"
  then have "last_slash (uri_start lp) 0 = None" by (simp add: last_slash_None)
  with assms show False
    by (auto simp: sc_yk_is_local_path_pure_vid_def Let_def pure_vid_check_def split: if_splits)
qed

lemma trans_vid_total:
  assumes "sc_yk_is_local_path_pure_vid lp = Some True" and "is_cstr lp"
  shows "\<exists>r b. sc_yk_trans_vid_to_std_path lp n = Some (r, b) \<and>
           (r = 0 \<longrightarrow> is_cstr b \<and> contains b ''youku_'' \<and> CHR ''/'' \<in> set b)"
proof -
  let ?u = "uri_start lp"
  from pure_vid_slash [OF assms(1)] obtain rest where r: "strchr ?u (CHR ''/'') = Some rest"
    using strchr_None_iff [of ?u "CHR ''/''"] by auto
  from strchr_SomeD [OF r] obtain pre post where u: "?u = pre @ CHR ''/'' # post" "rest = CHR ''/'' # post" by blast
  have c: "is_cstr ?u" using assms(2) by (auto simp: uri_start_def is_cstr_def dest: in_set_dropD)
  have root: "is_cstr SC_NGX_ROOT_PATH" by (simp add: SC_NGX_ROOT_PATH_def)
  have tag: "is_cstr yk_std_tag" "contains (yk_std_tag @ post) ''youku_''"
    using contains_refl_prefix [of "''youku_''"] by (simp_all add: yk_std_tag_def)
  have ct: "contains (h @ pre @ CHR ''/'' # yk_std_tag @ post) ''youku_''" for h
    using contains_append2 [OF tag(2), of "h @ pre @ ''/''"] by simp
  show ?thesis
    using assms(1) r u c root tag ct by (auto simp: sc_yk_trans_vid_to_std_path_def Let_def)
qed

lemma file_vid_total: "contains p n \<Longrightarrow> CHR ''_'' \<in> set n \<Longrightarrow> \<exists>v. file_vid p = Some v"
  by (auto simp: file_vid_def contains_iff)

lemma dup_loop_total:
  "sib_chain (\<lambda>c. siblings (ctnt rl c)) q cs \<Longrightarrow> length cs \<le> n \<Longrightarrow> dup_loop n rl vid q \<noteq> None"
proof (induction cs arbitrary: q n)
  case (Cons c cs)
  then show ?case by (cases n) auto
qed simp

text \<open>The name under which a file is kept: its own, or the standard one it is renamed to. A name
  of either site has an underscore, so the search for the video id ends inside it.\<close>

definition kept_as :: "string \<Rightarrow> string \<Rightarrow> bool" where
  "kept_as p q \<longleftrightarrow> q = p \<or> (\<exists>b. sc_yk_trans_vid_to_std_path p SC_RES_LOCAL_PATH_MAX_LEN = Some (0, b) \<and> q = cstr b)"

definition site_name :: "string \<Rightarrow> bool" where
  "site_name q \<longleftrightarrow> is_cstr q \<and> CHR ''/'' \<in> set q \<and> (contains q ''youku_'' \<or> contains q ''_file=_'')"

lemma classify_total:
  assumes p: "is_cstr p" "CHR ''/'' \<in> set p"
  obtains cls w where "ld_classify os p s = Some (cls, s\<lparr>sc_world := w\<rparr>)"
    and "\<forall>ld q. cls = Some (ld, q) \<longrightarrow> site_name q \<and> kept_as p q
           \<and> (ld = youku_controller_of_loaded s \<or> ld = sohu_controller_of_loaded s)
           \<and> (sc_yk_is_local_path q \<longrightarrow> ld = youku_controller_of_loaded s)"
proof -
  note ds = ld_classify_def sc_ld_obtain_ctrl_ld_youku_def sc_ld_obtain_ctrl_ld_sohu_def
  have same: "s = s\<lparr>sc_world := sc_world s\<rparr>" by simp
  obtain pure where pure: "sc_yk_is_local_path_pure_vid p = Some pure" using pure_vid_total [OF p(2)] by blast
  consider (yk) "sc_yk_is_local_path p" | (vid) "\<not> sc_yk_is_local_path p" "pure" 
    | (other) "\<not> sc_yk_is_local_path p" "\<not> pure" by blast
  then show ?thesis
  proof cases
    case yk
    then have "contains p ''youku_''" by (simp add: sc_yk_is_local_path_def split: if_splits)
    with yk p show ?thesis
      by (intro that [of "Some (youku_controller_of_loaded s, p)" "sc_world s"]) (auto simp: ds kept_as_def site_name_def)
  next
    case vid
    from trans_vid_total [of p SC_RES_LOCAL_PATH_MAX_LEN] pure vid p obtain r b where
      t: "sc_yk_trans_vid_to_std_path p SC_RES_LOCAL_PATH_MAX_LEN = Some (r, b)"
        "r = 0 \<longrightarrow> is_cstr b \<and> contains b ''youku_'' \<and> CHR ''/'' \<in> set b" by auto
    obtain r' w where m: "os_file_rename os p (cstr b) (sc_world s) = (r', w)" by fastforce
    show ?thesis
    proof (cases "r = 0 \<and> r' = 0")
      case True
      with vid pure t m show ?thesis
        by (intro that [of "Some (youku_controller_of_loaded s, b)" w]) (auto simp: ds kept_as_def site_name_def)
    next
      case False
      with vid pure t m show ?thesis
        by (intro that [of None "if r = 0 then w else sc_world s"]) (auto simp: ds)
    qed
  next
    case other
    show ?thesis
    proof (cases "sc_sohu_is_local_path p")
      case True
      with other pure p show ?thesis
        by (intro that [of "Some (sohu_controller_of_loaded s, p)" "sc_world s"])
          (auto simp: ds kept_as_def site_name_def sc_sohu_is_local_path_def)
    next
      case False
      with other pure show ?thesis by (intro that [of None "sc_world s"]) (auto simp: ds)
    qed
  qed
qed

lemma is_duplicate_total:
  assumes inv: "res_inv rl" and q: "site_name q" and i: "mgmt_used rl i"
  shows "sc_ld_is_duplicate_file rl (Some i) q \<noteq> None"
proof -
  from inv obtain fm fc ch where t: "res_tree rl fm fc ch" by (auto simp: res_inv_def)
  have i': "i < SC_RES_INFO_NUM_MAX_MGMT" "i \<notin> set fm" using i by (auto simp: mgmt_used_iff [OF t])
  obtain v where v: "file_vid q = Some v"
    using q file_vid_total [of q "''youku_''"] file_vid_total [of q "''_file=_''"] by (auto simp: site_name_def)
  have "dup_loop SC_RES_INFO_NUM_MAX_CTNT rl v (child (mgmt rl i)) \<noteq> None"
    using dup_loop_total [of rl "child (mgmt rl i)" "ch i"] res_treeD(5) [OF t i'] child_list_bound [OF t i']
    by (simp add: mgmt_ok_def)
  moreover obtain pure where "sc_yk_is_local_path_pure_vid q = Some pure"
    using pure_vid_total [of q] q by (auto simp: site_name_def)
  ultimately show ?thesis using v by (cases pure) (auto simp: sc_ld_is_duplicate_file_def)
qed

section \<open>The list while it is loaded\<close>

text \<open>Every entry is stored, has not been announced and has no failure; it belongs to one of the
  loaders and has one of the URLs \<open>U\<close>.\<close>

definition loaded_entry :: "'w sc_state \<Rightarrow> string set \<Rightarrow> sc_res_info_ctnt \<Rightarrow> bool" where
  "loaded_entry s U ct \<longleftrightarrow> sc_res_flag_is_stored (ct_common ct) \<and> \<not> sc_res_flag_is_notify (ct_common ct)
     \<and> \<not> sc_res_flag_is_i_fail (ct_common ct) \<and> \<not> sc_res_flag_is_d_fail (ct_common ct)
     \<and> (parent ct = youku_controller_of_loaded s \<or> parent ct = sohu_controller_of_loaded s)
     \<and> ri_url (ct_common ct) \<in> U"

definition youku_loader :: "'w sc_state \<Rightarrow> bool" where
  "youku_loader s \<longleftrightarrow> (\<exists>y. youku_controller_of_loaded s = Some y
     \<and> ri_site (mg_common (mgmt (sc_res_info_list s) y)) = SC_RES_SITE_YOUKU)"

definition loaded_only :: "'w sc_state \<Rightarrow> string set \<Rightarrow> bool" where
  "loaded_only s U \<longleftrightarrow> sc_inv s \<and> youku_loader s \<and> sohu_controller_of_loaded s \<noteq> None
     \<and> (\<forall>c. ctnt_used (sc_res_info_list s) c \<longrightarrow> loaded_entry s U (ctnt (sc_res_info_list s) c))"

lemma loaded_only_world [simp]: "loaded_only (s\<lparr>sc_world := w\<rparr>) U = loaded_only s U"
  by (simp add: loaded_only_def loaded_entry_def youku_loader_def)

lemma loaded_only_mono: "loaded_only s U \<Longrightarrow> U \<subseteq> V \<Longrightarrow> loaded_only s V"
  by (auto simp: loaded_only_def loaded_entry_def)

text \<open>Nothing is removed or changed while files are loaded, and a file adds at most one entry.\<close>

definition used_ctnts :: "'w sc_state \<Rightarrow> nat set" where
  "used_ctnts s = {c. ctnt_used (sc_res_info_list s) c}"

definition grows :: "nat \<Rightarrow> 'w sc_state \<Rightarrow> 'w sc_state \<Rightarrow> bool" where
  "grows n s s' \<longleftrightarrow> youku_controller_of_loaded s' = youku_controller_of_loaded s
     \<and> sohu_controller_of_loaded s' = sohu_controller_of_loaded s
     \<and> card (used_ctnts s') \<le> card (used_ctnts s) + n
     \<and> (\<forall>c \<in> used_ctnts s. c \<in> used_ctnts s' \<and> ctnt (sc_res_info_list s') c = ctnt (sc_res_info_list s) c)"

lemma grows_refl [simp]: "grows n s s"
  by (simp add: grows_def)

lemma grows_world [simp]: "grows n (s\<lparr>sc_world := w\<rparr>) s' = grows n s s'" "grows n s (s'\<lparr>sc_world := w\<rparr>) = grows n s s'"
  by (simp_all add: grows_def used_ctnts_def)

lemma grows_trans: "grows m s s1 \<Longrightarrow> grows n s1 s2 \<Longrightarrow> grows (m + n) s s2"
  by (auto simp: grows_def)

text \<open>At most one slot is taken, for the URL \<open>u\<close> under the loader \<open>i\<close>.\<close>

definition one_more :: "nat \<Rightarrow> string \<Rightarrow> 'w sc_state \<Rightarrow> 'w sc_state \<Rightarrow> bool" where
  "one_more i u s s' \<longleftrightarrow> used_ctnts s' = used_ctnts s \<or>
     (\<exists>c. c \<notin> used_ctnts s \<and> used_ctnts s' = insert c (used_ctnts s) \<and> parent (ctnt (sc_res_info_list s') c) = Some i
        \<and> ri_url (sc_ri s' c) = u)"

lemma one_more_world [simp]: "one_more i u s (s'\<lparr>sc_world := w\<rparr>) = one_more i u s s'" "one_more i u (s\<lparr>sc_world := w\<rparr>) s' = one_more i u s s'"
  by (simp_all add: one_more_def used_ctnts_def)

lemma finite_used [simp]: "finite (used_ctnts s)"
  by (rule finite_subset [of _ "{..<SC_RES_INFO_NUM_MAX_CTNT}"]) (auto simp: used_ctnts_def ctnt_used_def)

lemma do_del_total:
  assumes "length url \<le> HTTP_SP_URL_LEN_MAX"
  obtains r w' where "sc_snooping_do_del os ident url w = Some (r, w')"
proof -
  from assms strip_http_length [of url] obtain b where "c2sp_req_pkt ident HTTP_C2SP_ACTION_DELETE url = Some b"
    by (auto simp: c2sp_req_pkt_def sc_res_copy_url_def Let_def)
  then have "sc_snooping_do_del os ident url w \<noteq> None"
    by (auto simp: sc_snooping_do_del_def sc_snooping_initiate_action_def Let_def split: prod.splits)
  with that show ?thesis by auto
qed

lemma add_slot_loaded:
  assumes l: "loaded_only s U" and i: "Some i = youku_controller_of_loaded s \<or> Some i = sohu_controller_of_loaded s"
    and u: "is_cstr url" and a: "sc_res_info_permit_adding url" "length url < HTTP_URL_MAX_LEN"
  obtains r p rl where "add_ctnt_slot (sc_res_info_list s) i url = Some (r, p, rl)"
    and "loaded_only (s\<lparr>sc_res_info_list := rl\<rparr>) (insert (strip_http url) U)"
    and "grows 1 s (s\<lparr>sc_res_info_list := rl\<rparr>)" and "one_more i (strip_http url) s (s\<lparr>sc_res_info_list := rl\<rparr>)"
    and "card (used_ctnts s) < SC_RES_INFO_NUM_MAX_CTNT \<Longrightarrow> local_path_ok (mgmt (sc_res_info_list s) i) url \<Longrightarrow>
           \<exists>c. ctnt_used rl c \<and> parent (ctnt rl c) = Some i \<and> ri_url (ct_common (ctnt rl c)) = strip_http url"
proof -
  note finish = that
  let ?rl = "sc_res_info_list s"
  have inv: "sc_inv s" using l by (simp add: loaded_only_def)
  then have ri: "res_inv ?rl" and iu: "mgmt_used ?rl i" "sc_res_gen_is_ctrl_ld (Some (mg_common (mgmt ?rl i)))"
    using i by (auto simp: sc_inv_def loader_ok_def)
  from ri obtain fm fc ch where t: "res_tree ?rl fm fc ch" by (auto simp: res_inv_def)
  have i': "i < SC_RES_INFO_NUM_MAX_MGMT" "i \<notin> set fm" using iu by (auto simp: mgmt_used_iff [OF t])
  have inv': "sc_inv (s\<lparr>sc_res_info_list := rl\<rparr>) \<and> youku_loader (s\<lparr>sc_res_info_list := rl\<rparr>)"
    if "add_ctnt_slot ?rl i url = Some (r, p, rl)" for r p rl
  proof -
    have e: "sc_evolves {} s (s\<lparr>sc_res_info_list := rl\<rparr>)"
      using evolves_add_ctnt_slot(1) [OF ri iu(1) u a that] by (simp add: sc_evolves_def)
    with sc_mgmt_evolves [OF e] sc_evolves_inv [OF inv e] l inv show ?thesis
      by (auto simp: loaded_only_def youku_loader_def sc_inv_def loader_ok_def)
  qed
  have old: "\<forall>k. k \<notin> set fc \<longrightarrow> k < SC_RES_INFO_NUM_MAX_CTNT \<longrightarrow> loaded_entry s U (ctnt ?rl k)"
    using l by (simp add: loaded_only_def ctnt_used_iff [OF t])
  have fail: ?thesis if s: "add_ctnt_slot ?rl i url = Some (- 1, None, rl)" and t': "res_tree rl fm fc ch"
      and k: "\<forall>k. k \<notin> set fc \<longrightarrow> ctnt rl k = ctnt ?rl k"
      and "fc = [] \<or> \<not> local_path_ok (mgmt ?rl i) url" for rl
  proof (rule finish [OF s])
    assume room: "card (used_ctnts s) < SC_RES_INFO_NUM_MAX_CTNT" and lp: "local_path_ok (mgmt ?rl i) url"
    have "used_ctnts s = {..<SC_RES_INFO_NUM_MAX_CTNT}" if "fc = []"
      using that by (auto simp: used_ctnts_def ctnt_used_iff [OF t])
    with room lp that(4) show "\<exists>c. ctnt_used rl c \<and> parent (ctnt rl c) = Some i \<and> ri_url (ct_common (ctnt rl c)) = strip_http url"
      by auto
  next
    show "grows 1 s (s\<lparr>sc_res_info_list := rl\<rparr>)"
      using k by (simp add: grows_def used_ctnts_def ctnt_used_iff [OF t] ctnt_used_iff [OF t'])
  next
    show "one_more i (strip_http url) s (s\<lparr>sc_res_info_list := rl\<rparr>)"
      by (simp add: one_more_def used_ctnts_def ctnt_used_iff [OF t] ctnt_used_iff [OF t'])
  next
    show "loaded_only (s\<lparr>sc_res_info_list := rl\<rparr>) (insert (strip_http url) U)"
      using l inv' [OF s] old k by (auto simp: loaded_only_def loaded_entry_def ctnt_used_iff [OF t'])
  qed
  show ?thesis
    using add_ctnt_slot_tree [OF t i' u a]
  proof (elim disjE exE conjE)
    fix c fc' rl mt
    assume fc: "fc = c # fc'" and s: "add_ctnt_slot ?rl i url = Some (0, Some c, rl)"
      and t': "res_tree rl fm fc' (ch(i := c # ch i))" and k: "\<forall>k. k \<noteq> c \<longrightarrow> ctnt rl k = ctnt ?rl k"
      and n: "ctnt rl c = (snd (fill_ctnt (mgmt ?rl i) (strip_http url) mt (fresh_ctnt c)))
                 \<lparr>siblings := child (mgmt ?rl i), parent := Some i\<rparr>"
    obtain ret ct where f: "fill_ctnt (mgmt ?rl i) (strip_http url) mt (fresh_ctnt c) = (ret, ct)" by fastforce
    have new: "loaded_entry s (insert (strip_http url) U) (ctnt rl c)"
      using n f fill_ctnt_fields [OF f] iu(2) i by (auto simp: loaded_entry_def)
    have "loaded_entry s (insert (strip_http url) U) (ctnt rl x)" if "ctnt_used rl x" for x
      using that new k old fc by (cases "x = c") (auto simp: ctnt_used_iff [OF t'] loaded_entry_def)
    then have "loaded_only (s\<lparr>sc_res_info_list := rl\<rparr>) (insert (strip_http url) U)"
      using l inv' [OF s] by (simp add: loaded_only_def loaded_entry_def)
    moreover have used: "{c. ctnt_used rl c} = insert c (used_ctnts s)"
      using fc res_treeD(2) [OF t] by (auto simp: used_ctnts_def ctnt_used_iff [OF t] ctnt_used_iff [OF t'] ctnt_pool_def)
    then have "grows 1 s (s\<lparr>sc_res_info_list := rl\<rparr>)"
      using k fc card_insert_le_m1 [of "Suc (card (used_ctnts s))" "used_ctnts s" c]
      by (auto simp: grows_def used_ctnts_def ctnt_used_iff [OF t] card_insert_if)
    moreover have new': "ctnt_used rl c" "parent (ctnt rl c) = Some i" "ri_url (ct_common (ctnt rl c)) = strip_http url"
      using used n f fill_ctnt_fields [OF f] by auto
    moreover have "c \<notin> used_ctnts s" using fc by (simp add: used_ctnts_def ctnt_used_iff [OF t])
    then have "one_more i (strip_http url) s (s\<lparr>sc_res_info_list := rl\<rparr>)"
      using used new' unfolding one_more_def by (intro disjI2 exI [of _ c]) (simp add: used_ctnts_def)
    ultimately show ?thesis using finish [OF s] by blast
  qed (use fail in blast)+
qed

lemma add_loaded:
  assumes l: "loaded_only s U" and i: "Some i = youku_controller_of_loaded s \<or> Some i = sohu_controller_of_loaded s"
    and u: "is_cstr url"
  obtains r p s' where "state_add_ctnt os (Some i) url s = Some ((r, p), s')" and "loaded_only s' (insert (strip_http url) U)"
    and "grows 1 s s'" and "one_more i (strip_http url) s s'"
    and "snoop_acks os \<Longrightarrow> card (used_ctnts s) < SC_RES_INFO_NUM_MAX_CTNT \<Longrightarrow> sc_res_info_permit_adding url \<Longrightarrow>
           length url < HTTP_URL_MAX_LEN \<Longrightarrow> local_path_ok (mgmt (sc_res_info_list s) i) url \<Longrightarrow>
           \<exists>c \<in> used_ctnts s'. parent (ctnt (sc_res_info_list s') c) = Some i \<and> ri_url (sc_ri s' c) = strip_http url"
proof -
  let ?rl = "sc_res_info_list s"
  have ld: "sc_res_gen_is_ctrl_ld (Some (mg_common (mgmt ?rl i)))"
    using l i by (auto simp: loaded_only_def sc_inv_def loader_ok_def)
  have l': "loaded_only (s\<lparr>sc_world := w\<rparr>) (insert (strip_http url) U)" for w
    using loaded_only_mono [OF l] by auto
  show ?thesis
  proof (cases "sc_res_info_permit_adding url \<and> length url < HTTP_URL_MAX_LEN")
    case False
    then have "state_add_ctnt os (Some i) url s = Some ((- 1, None), s\<lparr>sc_world := sc_world s\<rparr>)"
      by (auto simp: state_add_ctnt_def sc_res_info_add_ctnt_def)
    from that [OF this l'] False show ?thesis by (auto simp: one_more_def used_ctnts_def)
  next
    case True
    then have len: "length url \<le> HTTP_SP_URL_LEN_MAX" by (simp add: hc_limits wire_codes)
    from do_del_total [OF this] obtain r w where d: "sc_snooping_do_del os (- 1) url (sc_world s) = Some (r, w)" by metis
    show ?thesis
    proof (cases "r = 0")
      case False
      have na: "\<not> snoop_acks os" using do_del_acked [OF _ len, of os "- 1" "sc_world s"] d False by auto
      from d True ld False have "state_add_ctnt os (Some i) url s = Some ((- 1, None), s\<lparr>sc_world := w\<rparr>)"
        by (simp add: state_add_ctnt_def sc_res_info_add_ctnt_def)
      from that [OF this l'] na show ?thesis by (simp add: one_more_def used_ctnts_def)
    next
      case 0: True
      from add_slot_loaded [OF l i u] True obtain r' p rl where
        a: "add_ctnt_slot ?rl i url = Some (r', p, rl)" "loaded_only (s\<lparr>sc_res_info_list := rl\<rparr>) (insert (strip_http url) U)"
          "grows 1 s (s\<lparr>sc_res_info_list := rl\<rparr>)" "one_more i (strip_http url) s (s\<lparr>sc_res_info_list := rl\<rparr>)"
        and c: "card (used_ctnts s) < SC_RES_INFO_NUM_MAX_CTNT \<Longrightarrow> local_path_ok (mgmt ?rl i) url \<Longrightarrow>
           \<exists>c. ctnt_used rl c \<and> parent (ctnt rl c) = Some i \<and> ri_url (ct_common (ctnt rl c)) = strip_http url"
        by metis
      let ?s = "s\<lparr>sc_res_info_list := rl, sc_world := w\<rparr>"
      have "state_add_ctnt os (Some i) url s = Some ((r', p), ?s)"
        using 0 d True ld a(1) by (simp add: state_add_ctnt_def sc_res_info_add_ctnt_def)
      moreover have "loaded_only ?s (insert (strip_http url) U)" "grows 1 s ?s" "one_more i (strip_http url) s ?s"
        using a(2-4) loaded_only_world [of w "s\<lparr>sc_res_info_list := rl\<rparr>"] grows_world(2) [of 1 s w "s\<lparr>sc_res_info_list := rl\<rparr>"]
          one_more_world(1) [of i "strip_http url" s w "s\<lparr>sc_res_info_list := rl\<rparr>"]
        by simp_all
      ultimately show ?thesis
        by (rule that) (use c in \<open>auto simp: used_ctnts_def\<close>)
    qed
  qed
qed

section \<open>Loading\<close>

definition file_url :: "string \<Rightarrow> string" where
  "file_url q = strip_http (cstr (snd (sc_res_recover_url_from_local_path (ld_local_path q) [])))"

definition file_names :: "(string \<times> bool) list \<Rightarrow> string set" where
  "file_names es = {q. \<exists>p. (p, True) \<in> set es \<and> kept_as p q}"

definition file_urls :: "(string \<times> bool) list \<Rightarrow> string set" where
  "file_urls es = file_url ` file_names es"

text \<open>A Youku file in a directory below the root, with a name that fits. Its video id, the part
  of the name behind the last underscore, survives the way back to a URL.\<close>

definition youku_file :: "string \<Rightarrow> string \<Rightarrow> bool" where
  "youku_file p v \<longleftrightarrow> sc_yk_is_local_path p \<and> CHR ''/'' \<notin> set v \<and> CHR ''_'' \<notin> set v \<and>
     (\<exists>d x. p = SC_NGX_ROOT_PATH @ d @ ''youku_'' @ x @ v \<and> (x = [] \<or> last x = CHR ''_'')
        \<and> length (d @ ''youku_'' @ x @ v) < SC_RES_LOCAL_PATH_MAX_LEN)"

lemma contains_update: "contains u n \<Longrightarrow> u ! i \<notin> set n \<Longrightarrow> contains (u[i := c]) n"
proof -
  assume a: "contains u n" "u ! i \<notin> set n"
  then obtain pre post where u: "u = pre @ n @ post" by (auto simp: contains_iff)
  consider "i < length pre" | "length pre \<le> i" "i < length pre + length n" | "length pre + length n \<le> i" by linarith
  then show ?thesis
  proof cases
    case 2
    then have k: "i - length pre < length n" by linarith
    then have "u ! i = n ! (i - length pre)" using 2 by (simp add: u nth_append)
    with k a(2) show ?thesis by simp
  qed (auto simp: u list_update_append contains_iff)
qed

lemma nth_in_prefix: "(x @ v) ! i \<notin> set v \<Longrightarrow> i < length (x @ v) \<Longrightarrow> i < length x"
proof (rule ccontr)
  assume a: "(x @ v) ! i \<notin> set v" "i < length (x @ v)" and "\<not> i < length x"
  then have "i - length x < length v" "(x @ v) ! i = v ! (i - length x)" by (auto simp: nth_append)
  with a(1) show False by simp
qed

lemma strip_http_suffix:
  assumes v: "CHR ''/'' \<notin> set v"
  shows "contains (strip_http (x @ v)) v"
proof -
  have suffix: "contains (y @ v) v" for y using contains_append2 [OF contains_refl_prefix [of v "[]"], of y] by simp
  show ?thesis
  proof (cases "take 7 (x @ v) = ''http://''")
    case True
    then have "(x @ v) ! 6 = CHR ''/''" using nth_take [of 6 7 "x @ v"] by simp
    moreover have "7 \<le> length (x @ v)" using arg_cong [OF True, of length] by simp
    ultimately have "7 \<le> length x" using v nth_in_prefix [of x v 6] by simp
    with suffix [of "drop 7 x"] show ?thesis
      by (simp add: strip_http_def HTTP_URL_PRE_LEN_def suffix)
  qed (use suffix in \<open>simp add: strip_http_def strncmp_eq_def HTTP_URL_PREFIX_def HTTP_URL_PRE_LEN_def\<close>)
qed

lemma recover_append: "\<exists>b'. recover_loop b (x @ y) = recover_loop b x @ recover_loop b' y"
  by (induction x arbitrary: b) auto

lemma length_recovered [simp]: "length (recover_loop b x) = length x" "length (fix_sohu_tag u) = length u"
  by (induction x arbitrary: b) (auto simp: fix_sohu_tag_def split: option.splits)

lemma recover_plain: "CHR ''/'' \<notin> set v \<Longrightarrow> CHR ''_'' \<notin> set v \<Longrightarrow> recover_loop b v = v"
  by (induction v) auto

lemma fix_sohu_tag_contains:
  assumes "contains u n" and "CHR ''/'' \<notin> set n"
  shows "contains (fix_sohu_tag u) n"
proof (cases "strstr u sohu_file_tag")
  case (Some r)
  from strstr_split [OF Some] obtain pre post where u: "u = pre @ sohu_file_tag @ post" "r = sohu_file_tag @ post" by blast
  then have "u ! (length u - length r + 4) = CHR ''/''" by (simp add: nth_append sohu_file_tag_def)
  with assms contains_update [OF assms(1)] Some show ?thesis by (simp add: fix_sohu_tag_def)
qed (simp add: fix_sohu_tag_def assms)

lemma fix_sohu_tag_suffix:
  assumes "CHR ''/'' \<notin> set v"
  shows "\<exists>y. fix_sohu_tag (x @ v) = y @ v"
proof (cases "strstr (x @ v) sohu_file_tag")
  case (Some r)
  let ?i = "length (x @ v) - length r + 4"
  from strstr_split [OF Some] obtain pre post where u: "x @ v = pre @ sohu_file_tag @ post" "r = sohu_file_tag @ post" by blast
  have l: "length x + length v = length pre + length sohu_file_tag + length post" using arg_cong [OF u(1), of length] by simp
  have "(x @ v) ! ?i = CHR ''/''" unfolding u by (simp add: nth_append sohu_file_tag_def)
  moreover have "?i < length (x @ v)" using l u(2) by (simp add: sohu_file_tag_def)
  ultimately have "?i < length x" using assms nth_in_prefix [of x v ?i] by simp
  with Some show ?thesis by (auto simp: fix_sohu_tag_def list_update_append)
qed (simp add: fix_sohu_tag_def)

lemma youku_file_url:
  assumes y: "youku_file p v" and c: "is_cstr p"
  obtains u where "sc_res_recover_url_from_local_path (ld_local_path p) [] = (0, u)" and "file_vid p = Some v"
    and "sc_res_info_permit_adding (cstr u)" and "length (cstr u) < SC_RES_LOCAL_PATH_MAX_LEN" and "contains (strip_http (cstr u)) v"
proof -
  from y obtain d x where p: "p = SC_NGX_ROOT_PATH @ d @ ''youku_'' @ x @ v" and x: "x = [] \<or> last x = CHR ''_''"
    and len: "length (d @ ''youku_'' @ x @ v) < SC_RES_LOCAL_PATH_MAX_LEN"
    and v: "CHR ''/'' \<notin> set v" "CHR ''_'' \<notin> set v" by (auto simp: youku_file_def)
  let ?lp = "d @ ''youku_'' @ x @ v"
  have lp: "ld_local_path p = ?lp"
    by (simp add: ld_local_path_def p strncmp_eq_def SC_NGX_ROOT_PATH_LEN_def)
  obtain y' where e: "''youku_'' @ x = y' @ ''_''"
    using x append_butlast_last_id [of x] that [of "''youku_'' @ butlast x"] that [of "''youku''"]
    by (cases "x = []") (simp_all del: append_butlast_last_id)
  have "file_vid p = Some v"
  proof -
    have "p = (SC_NGX_ROOT_PATH @ d @ y') @ CHR ''_'' # v"
      using p arg_cong [OF e, of "\<lambda>t. SC_NGX_ROOT_PATH @ d @ t @ v"] by simp
    with v(2) show ?thesis by (simp add: file_vid_def takeWhile_append)
  qed
  moreover
  let ?r = "recover_loop False ?lp"
  have "\<exists>z. ?r = z @ v"
    using recover_append [of False "d @ ''youku_'' @ x" v] recover_plain [OF v] by (auto simp del: recover_loop.simps)
  then obtain z where z: "?r = z @ v" by blast
  have yk: "contains ?r ''youku''"
  proof -
    from recover_append [of False d "''youku'' @ ''_'' @ x @ v"] obtain b where
      "?r = recover_loop False d @ recover_loop b (''youku'' @ ''_'' @ x @ v)" by auto
    moreover have "\<exists>t. recover_loop b (''youku'' @ ''_'' @ x @ v) = ''youku'' @ t" by simp
    ultimately show ?thesis by (auto simp: contains_iff)
  qed
  let ?u = "fix_sohu_tag ?r"
  have cs: "is_cstr ?u" using c p by simp
  have "length ?u < SC_RES_LOCAL_PATH_MAX_LEN" using len by simp
  moreover have "sc_res_info_permit_adding ?u"
    using fix_sohu_tag_contains [OF yk] by (simp add: site_tests)
  moreover have "contains (strip_http ?u) v"
    using fix_sohu_tag_suffix [OF v(1), of z] strip_http_suffix [OF v(1)] z by auto
  moreover have "sc_res_recover_url_from_local_path (ld_local_path p) [] = (0, ?u @ [NUL])"
    using len unfolding lp sc_res_recover_url_from_local_path_def by (simp add: hc_limits del: recover_loop.simps)
  ultimately show ?thesis
    using that cs by simp
qed

section \<open>Every Youku file is covered\<close>

definition covered :: "'w sc_state \<Rightarrow> string \<Rightarrow> bool" where
  "covered s v \<longleftrightarrow> (\<exists>c \<in> used_ctnts s. parent (ctnt (sc_res_info_list s) c) = youku_controller_of_loaded s
     \<and> contains (ri_url (sc_ri s c)) v)"

lemma covered_grows: "covered s v \<Longrightarrow> grows n s s' \<Longrightarrow> covered s' v"
  unfolding covered_def grows_def by metis

lemma dup_loop_True:
  "sib_chain (\<lambda>c. siblings (ctnt rl c)) q cs \<Longrightarrow> dup_loop n rl vid q = Some True \<Longrightarrow>
     \<exists>c \<in> set cs. contains (cstr (ri_url (ct_common (ctnt rl c)))) vid"
proof (induction cs arbitrary: q n)
  case (Cons c cs)
  then show ?case by (cases n) (auto split: if_splits)
qed simp

lemma duplicate_covered:
  assumes l: "loaded_only s U" and v: "file_vid q = Some v"
    and d: "sc_ld_is_duplicate_file (sc_res_info_list s) (youku_controller_of_loaded s) q = Some True"
  shows "covered s v"
proof -
  let ?rl = "sc_res_info_list s"
  from l obtain y where y: "youku_controller_of_loaded s = Some y" by (auto simp: loaded_only_def youku_loader_def)
  from l y have inv: "res_inv ?rl" "mgmt_used ?rl y" by (auto simp: loaded_only_def sc_inv_def loader_ok_def)
  from inv(1) obtain fm fc ch where t: "res_tree ?rl fm fc ch" by (auto simp: res_inv_def)
  have y': "y < SC_RES_INFO_NUM_MAX_MGMT" "y \<notin> set fm" using inv(2) by (auto simp: mgmt_used_iff [OF t])
  have "dup_loop SC_RES_INFO_NUM_MAX_CTNT ?rl v (child (mgmt ?rl y)) = Some True"
    using d y v by (auto simp: sc_ld_is_duplicate_file_def bind_Some_conv split: if_splits)
  from dup_loop_True [OF _ this] res_treeD(5) [OF t y'] obtain c where c: "c \<in> set (ch y)"
    "contains (cstr (ri_url (ct_common (ctnt ?rl c)))) v" by (auto simp: mgmt_ok_def)
  have "ctnt_used ?rl c" "parent (ctnt ?rl c) = Some y" using c(1) child_iff [OF t, of c y] by auto
  moreover have "cstr (ri_url (ct_common (ctnt ?rl c))) = ri_url (ct_common (ctnt ?rl c))"
    using live_url(1) [OF t] calculation(1) by (simp add: ctnt_used_iff [OF t])
  ultimately show ?thesis using c(2) y by (auto simp: covered_def used_ctnts_def)
qed

text \<open>Every entry has been made for one of the files \<open>Q\<close>, and no two for Youku files with the same
  video id.\<close>

definition sources :: "'w sc_state \<Rightarrow> string set \<Rightarrow> (nat \<Rightarrow> string) \<Rightarrow> bool" where
  "sources s Q src \<longleftrightarrow> (\<forall>c \<in> used_ctnts s. src c \<in> Q \<and> is_cstr (src c) \<and> ri_url (sc_ri s c) = file_url (src c)
       \<and> (sc_yk_is_local_path (src c) \<longrightarrow> parent (ctnt (sc_res_info_list s) c) = youku_controller_of_loaded s))
     \<and> (\<forall>c \<in> used_ctnts s. \<forall>c' \<in> used_ctnts s. \<forall>v. youku_file (src c) v \<longrightarrow> youku_file (src c') v \<longrightarrow> c = c')"

lemma sources_same:
  "sources s Q src \<Longrightarrow> grows n s s' \<Longrightarrow> used_ctnts s' = used_ctnts s \<Longrightarrow> sources s' Q src"
  by (simp add: sources_def grows_def)

lemma dup_loop_False:
  "sib_chain (\<lambda>c. siblings (ctnt rl c)) q cs \<Longrightarrow> dup_loop n rl vid q = Some False \<Longrightarrow> c \<in> set cs \<Longrightarrow>
     \<not> contains (cstr (ri_url (ct_common (ctnt rl c)))) vid"
proof (induction cs arbitrary: q n)
  case (Cons x cs)
  then show ?case by (cases n) (auto split: if_splits)
qed simp

lemma youku_file_vid: "youku_file q v \<Longrightarrow> is_cstr q \<Longrightarrow> file_vid q = Some v \<and> contains (file_url q) v"
  by (erule (1) youku_file_url) (simp add: file_url_def)

lemma not_duplicate:
  assumes inv: "sc_inv s" and y: "youku_controller_of_loaded s = Some y" and q: "youku_file q v" "is_cstr q"
    and d: "sc_ld_is_duplicate_file (sc_res_info_list s) (Some y) q = Some False"
    and c: "c \<in> used_ctnts s" "parent (ctnt (sc_res_info_list s) c) = Some y"
  shows "\<not> contains (ri_url (sc_ri s c)) v"
proof -
  let ?rl = "sc_res_info_list s"
  from inv y have "mgmt_used ?rl y" by (auto simp: sc_inv_def loader_ok_def)
  from inv obtain fm fc ch where t: "res_tree ?rl fm fc ch" by (auto simp: sc_inv_def res_inv_def)
  have y': "y < SC_RES_INFO_NUM_MAX_MGMT" "y \<notin> set fm" using \<open>mgmt_used ?rl y\<close> by (auto simp: mgmt_used_iff [OF t])
  have "sc_yk_is_local_path q" using q(1) by (simp add: youku_file_def)
  then have "dup_loop SC_RES_INFO_NUM_MAX_CTNT ?rl v (child (mgmt ?rl y)) = Some False"
    using d youku_file_vid [OF q] by (simp add: sc_ld_is_duplicate_file_def)
  moreover have "c \<in> set (ch y)" using c child_iff [OF t, of c y] by (auto simp: used_ctnts_def)
  ultimately have "\<not> contains (cstr (ri_url (ct_common (ctnt ?rl c)))) v"
    using dup_loop_False res_treeD(5) [OF t y'] by (auto simp: mgmt_ok_def)
  then show ?thesis using live_url(1) [OF t] c(1) by (simp add: ctnt_used_iff [OF t] used_ctnts_def)
qed

lemma sources_add:
  assumes inv: "sc_inv s" and src: "sources s Q src" and g: "grows 1 s s'" and o: "one_more i (file_url q) s s'"
    and q: "q \<in> Q" "is_cstr q" and i: "sc_yk_is_local_path q \<longrightarrow> Some i = youku_controller_of_loaded s"
    and d: "sc_ld_is_duplicate_file (sc_res_info_list s) (Some i) q = Some False"
  shows "\<exists>src'. sources s' Q src'"
proof (cases "used_ctnts s' = used_ctnts s")
  case True
  then show ?thesis using sources_same [OF src g] by blast
next
  case False
  with o obtain c where c: "c \<notin> used_ctnts s" "used_ctnts s' = insert c (used_ctnts s)"
    "parent (ctnt (sc_res_info_list s') c) = Some i" "ri_url (sc_ri s' c) = file_url q" by (auto simp: one_more_def)
  have old: "ctnt (sc_res_info_list s') x = ctnt (sc_res_info_list s) x" if "x \<in> used_ctnts s" for x
    using g that by (simp add: grows_def)
  have yk: "youku_controller_of_loaded s' = youku_controller_of_loaded s" using g by (simp add: grows_def)
  have new: "\<not> youku_file (src x) v" if x: "x \<in> used_ctnts s" and v: "youku_file q v" for x v
  proof
    assume f: "youku_file (src x) v"
    then have "parent (ctnt (sc_res_info_list s) x) = youku_controller_of_loaded s" "ri_url (sc_ri s x) = file_url (src x)" "is_cstr (src x)"
      using src x by (auto simp: sources_def youku_file_def)
    moreover have "Some i = youku_controller_of_loaded s" using i v by (simp add: youku_file_def)
    ultimately show False
      using not_duplicate [OF inv _ v q(2) d x] youku_file_vid [OF f] by simp
  qed
  have "sources s' Q (src(c := q))"
    unfolding sources_def c(2)
  proof (intro conjI ballI allI impI)
    fix x assume x: "x \<in> insert c (used_ctnts s)"
    then consider "x = c" | "x \<in> used_ctnts s" "x \<noteq> c" using c(1) by blast
    note x = this
    show "(src(c := q)) x \<in> Q" using x src q by cases (auto simp: sources_def)
    show "is_cstr ((src(c := q)) x)" using x src q by cases (auto simp: sources_def)
    show "ri_url (sc_ri s' x) = file_url ((src(c := q)) x)" using x src c(4) old by cases (auto simp: sources_def)
    show "parent (ctnt (sc_res_info_list s') x) = youku_controller_of_loaded s'" if "sc_yk_is_local_path ((src(c := q)) x)"
      using x that src i c(3) old yk by cases (auto simp: sources_def)
  next
    fix x x' v assume "x \<in> insert c (used_ctnts s)" "x' \<in> insert c (used_ctnts s)"
      "youku_file ((src(c := q)) x) v" "youku_file ((src(c := q)) x') v"
    then show "x = x'" using new src c(1) by (auto simp: sources_def split: if_splits)
  qed
  then show ?thesis by blast
qed

section \<open>Processing a file\<close>

lemma file_process_loaded:
  assumes l: "loaded_only s U" and p: "is_cstr p" "CHR ''/'' \<in> set p" and U: "\<forall>q. kept_as p q \<longrightarrow> file_url q \<in> U \<and> q \<in> Q"
    and src: "sources s Q src"
  obtains s' where "sc_ld_file_process os p s = Some (0, s')" and "loaded_only s' U" and "grows 1 s s'" and "\<exists>src'. sources s' Q src'"
proof -
  from classify_total [OF p] obtain cls w where c: "ld_classify os p s = Some (cls, s\<lparr>sc_world := w\<rparr>)"
    and cls: "\<forall>ld q. cls = Some (ld, q) \<longrightarrow> site_name q \<and> kept_as p q
           \<and> (ld = youku_controller_of_loaded s \<or> ld = sohu_controller_of_loaded s)
           \<and> (sc_yk_is_local_path q \<longrightarrow> ld = youku_controller_of_loaded s)" by metis
  have src': "\<exists>src'. sources (s\<lparr>sc_world := w\<rparr>) Q src'" for w
    using src by (auto simp: sources_def used_ctnts_def)
  let ?s = "s\<lparr>sc_world := w\<rparr>"
  show ?thesis
  proof (cases cls)
    case None
    with c l src' show ?thesis by (intro that [of ?s]) (auto simp: sc_ld_file_process_def)
  next
    case (Some r)
    then obtain ld q where r: "cls = Some (ld, q)" by (cases r) auto
    from cls l r obtain i where i: "ld = Some i" "Some i = youku_controller_of_loaded s \<or> Some i = sohu_controller_of_loaded s"
      by (auto simp: loaded_only_def youku_loader_def)
    have q: "site_name q" "file_url q \<in> U" "q \<in> Q" "is_cstr q" using cls r U by (auto simp: site_name_def)
    have iu: "mgmt_used (sc_res_info_list s) i" "res_inv (sc_res_info_list s)"
      using l i by (auto simp: loaded_only_def sc_inv_def loader_ok_def)
    obtain dup where dup: "sc_ld_is_duplicate_file (sc_res_info_list s) ld q = Some dup"
      using is_duplicate_total [OF iu(2) q(1) iu(1)] i by auto
    obtain rr w2 where rm: "os_file_remove os q w = (rr, w2)" by fastforce
    obtain ret u where u: "sc_res_recover_url_from_local_path (ld_local_path q) [] = (ret, u)" by fastforce
    have ls: "loaded_only ?s U" "Some i = youku_controller_of_loaded ?s \<or> Some i = sohu_controller_of_loaded ?s"
      using l i by simp_all
    from add_loaded [OF ls, of "cstr u" os] obtain a b s' where
      add: "state_add_ctnt os (Some i) (cstr u) ?s = Some ((a, b), s')" "loaded_only s' (insert (strip_http (cstr u)) U)"
        "grows 1 ?s s'" "one_more i (strip_http (cstr u)) ?s s'" by (metis cstr_is_cstr)
    have "insert (strip_http (cstr u)) U = U" using q(2) u by (auto simp: file_url_def)
    with add(2,3) have s': "loaded_only s' U" "grows 1 s s'" by simp_all
    show ?thesis
    proof (cases "dup \<or> ret \<noteq> 0")
      case True
      with c r dup rm u l src' show ?thesis
        by (intro that [of "if dup then s\<lparr>sc_world := w2\<rparr> else ?s"]) (auto simp: sc_ld_file_process_def)
    next
      case False
      have yk: "sc_yk_is_local_path q \<longrightarrow> Some i = youku_controller_of_loaded s" using cls r i(1) by simp
      have "one_more i (file_url q) s s'" using add(4) u by (simp add: file_url_def)
      from sources_add [OF _ src s'(2) this q(3,4) yk] l dup i(1) False have "\<exists>src'. sources s' Q src'" by (simp add: loaded_only_def)
      with False c r dup u add(1) i s' show ?thesis by (intro that [of s']) (auto simp: sc_ld_file_process_def)
    qed
  qed
qed

lemma file_process_covers:
  assumes l: "loaded_only s U" and p: "is_cstr p" "youku_file p v" and acks: "snoop_acks os"
    and room: "card (used_ctnts s) < SC_RES_INFO_NUM_MAX_CTNT" and f: "sc_ld_file_process os p s = Some (r, s')"
  shows "covered s' v"
proof -
  from youku_file_url [OF p(2,1)] obtain u where u: "sc_res_recover_url_from_local_path (ld_local_path p) [] = (0, u)"
    "file_vid p = Some v" "sc_res_info_permit_adding (cstr u)" "length (cstr u) < SC_RES_LOCAL_PATH_MAX_LEN"
    "contains (strip_http (cstr u)) v" by blast
  from l obtain y where y: "youku_controller_of_loaded s = Some y" "ri_site (mg_common (mgmt (sc_res_info_list s) y)) = SC_RES_SITE_YOUKU"
    by (auto simp: loaded_only_def youku_loader_def)
  have "sc_yk_is_local_path p" using p(2) by (simp add: youku_file_def)
  then have c: "ld_classify os p s = Some (Some (youku_controller_of_loaded s, p), s)"
    by (simp add: ld_classify_def sc_ld_obtain_ctrl_ld_youku_def)
  from f c obtain dup where d: "sc_ld_is_duplicate_file (sc_res_info_list s) (youku_controller_of_loaded s) p = Some dup"
    by (auto simp: sc_ld_file_process_def bind_Some_conv)
  show ?thesis
  proof (cases dup)
    case True
    with f c d have "\<exists>w. s' = s\<lparr>sc_world := w\<rparr>" by (auto simp: sc_ld_file_process_def split: prod.splits)
    with duplicate_covered [OF l u(2)] d True show ?thesis by (auto simp: covered_def used_ctnts_def)
  next
    case False
    have lp: "local_path_ok (mgmt (sc_res_info_list s) y) (cstr u)"
      using u(4) strip_http_length [of "cstr u"] y(2) by (simp add: local_path_ok_def Let_def)
    have "length (cstr u) < HTTP_URL_MAX_LEN" using u(4) by (simp add: hc_limits)
    with add_loaded [OF l, of y "cstr u" os] y acks room u(3) lp obtain a b s2 where
      add: "state_add_ctnt os (Some y) (cstr u) s = Some ((a, b), s2)" "grows 1 s s2"
      "\<exists>c \<in> used_ctnts s2. parent (ctnt (sc_res_info_list s2) c) = Some y \<and> ri_url (sc_ri s2 c) = strip_http (cstr u)"
      by (metis cstr_is_cstr)
    have "s' = s2" using f c d False u(1) add(1) y(1) by (simp add: sc_ld_file_process_def)
    with add(2,3) u(5) y(1) show ?thesis by (auto simp: covered_def grows_def)
  qed
qed

lemma ftw_loop_loaded:
  "loaded_only s (file_url ` Q) \<Longrightarrow> sources s Q src \<Longrightarrow> \<forall>p. (p, True) \<in> set es \<longrightarrow> is_cstr p \<and> CHR ''/'' \<in> set p \<Longrightarrow>
   file_names es \<subseteq> Q \<Longrightarrow>
     \<exists>s'. ftw_loop os es r s = Some (r, s') \<and> loaded_only s' (file_url ` Q) \<and> grows (length es) s s' \<and> (\<exists>src'. sources s' Q src')
       \<and> (\<forall>p v. snoop_acks os \<longrightarrow> card (used_ctnts s) + length es \<le> SC_RES_INFO_NUM_MAX_CTNT \<longrightarrow>
            (p, True) \<in> set es \<longrightarrow> youku_file p v \<longrightarrow> covered s' v)"
proof (induction es arbitrary: s src)
  case (Cons e es)
  obtain p f where e: "e = (p, f)" by (cases e)
  have step: "\<exists>s1. os_dir_walk_func os p f s = Some (0, s1) \<and> loaded_only s1 (file_url ` Q) \<and> grows 1 s s1 \<and> (\<exists>src'. sources s1 Q src')"
  proof (cases f)
    case True
    have U: "\<forall>q. kept_as p q \<longrightarrow> file_url q \<in> file_url ` Q \<and> q \<in> Q" using Cons.prems(4) e True by (auto simp: file_names_def)
    have "is_cstr p" "CHR ''/'' \<in> set p" using Cons.prems(3) e True by auto
    from file_process_loaded [OF Cons.prems(1) this U Cons.prems(2)] True show ?thesis
      unfolding os_dir_walk_func_def by (metis (full_types))
  qed (use Cons.prems(1,2) in \<open>auto simp: os_dir_walk_func_def\<close>)
  then obtain s1 src1 where s1: "os_dir_walk_func os p f s = Some (0, s1)" "loaded_only s1 (file_url ` Q)" "grows 1 s s1"
    and src1: "sources s1 Q src1" by blast
  have "file_names es \<subseteq> Q" using Cons.prems(4) by (auto simp: file_names_def)
  from Cons.IH [OF s1(2) src1 _ this] Cons.prems(3) obtain s' where
    s': "ftw_loop os es r s1 = Some (r, s')" "loaded_only s' (file_url ` Q)" "grows (length es) s1 s'" "\<exists>src'. sources s' Q src'"
    and cov: "\<forall>p v. snoop_acks os \<longrightarrow> card (used_ctnts s1) + length es \<le> SC_RES_INFO_NUM_MAX_CTNT \<longrightarrow>
            (p, True) \<in> set es \<longrightarrow> youku_file p v \<longrightarrow> covered s' v" by auto
  have "covered s' v" if a: "snoop_acks os" and room: "card (used_ctnts s) + length (e # es) \<le> SC_RES_INFO_NUM_MAX_CTNT"
    and q: "(q, True) \<in> set (e # es)" "youku_file q v" for q v
  proof (cases "(q, True) \<in> set es")
    case True
    have "card (used_ctnts s1) + length es \<le> SC_RES_INFO_NUM_MAX_CTNT" using room s1(3) by (simp add: grows_def)
    with cov a True q(2) show ?thesis by blast
  next
    case False
    with q(1) e have "q = p" "f" by auto
    with s1(1) have "sc_ld_file_process os q s = Some (0, s1)" by (simp add: os_dir_walk_func_def)
    moreover have "is_cstr q" using Cons.prems(3) q(1) by blast
    ultimately have "covered s1 v" using file_process_covers [OF Cons.prems(1) _ q(2) a] room by simp
    then show ?thesis using covered_grows s'(3) by blast
  qed
  with s1(1) s'(1,2,4) e grows_trans [OF s1(3) s'(3)] show ?case by auto
qed auto

lemma add_ctrl_ld_fresh:
  assumes t: "res_tree rl fm fc ch" and fm: "fm \<noteq> []"
    and u: "is_cstr url" "sc_res_info_permit_adding url" "length url < HTTP_URL_MAX_LEN" "site_known url"
  obtains i fm' rl' where "sc_res_info_add_ctrl_ld rl url = Some (0, Some i, rl')" and "fm = i # fm'" and "res_tree rl' fm' fc ch"
    and "sc_res_gen_is_ctrl_ld (Some (mg_common (mgmt rl' i)))" and "ri_site (mg_common (mgmt rl' i)) = site_of url"
    and "evolves {} rl rl'"
proof -
  have g: "SC_RES_GEN_T_CTRL_LD \<in> mgmt_gens" by (simp add: mgmt_gens_def)
  from add_mgmt_total [OF t g u(1)] fm u obtain p rl' where
    a: "add_mgmt_with (get_mgmt_as SC_RES_GEN_T_CTRL_LD) False rl url = Some (0, p, rl')" by metis
  from add_mgmt_tree [OF t g u(1) a] obtain i fm' mt where "fm = i # fm'" "p = Some i" "res_tree rl' fm' fc ch"
    "mgmt rl' = (mgmt rl)(i := new_mgmt i SC_RES_GEN_T_CTRL_LD url (site_of url) mt)" by auto
  with a that evolves_add_mgmt [OF res_invI [OF t] g u(1) a] show ?thesis
    by (simp add: add_mgmt_variants new_mgmt_def kind_defs)
qed

lemma load_total:
  assumes "shm_ok a" and "sc_res_info_list s = init_list a" and "ftw SC_NGX_ROOT_PATH = (es, r)"
    and "\<forall>p. (p, True) \<in> set es \<longrightarrow> is_cstr p \<and> CHR ''/'' \<in> set p"
  shows "\<exists>s'. sc_ld_init_and_load os ftw s = Some (if r \<noteq> 0 then - 1 else 0, s') \<and> loaded_only s' (file_urls es) \<and> (\<exists>src. sources s' (file_names es) src)
     \<and> (snoop_acks os \<longrightarrow> length es \<le> SC_RES_INFO_NUM_MAX_CTNT \<longrightarrow>
          (\<forall>p v. (p, True) \<in> set es \<longrightarrow> youku_file p v \<longrightarrow> covered s' v))"
proof -
  have urls: "is_cstr u" "sc_res_info_permit_adding u" "length u < HTTP_URL_MAX_LEN" "site_known u"
    if "u = YOUKU_WEBSITE_URL \<or> u = SOHU_WEBSITE_URL" for u
    using that by (auto simp: YOUKU_WEBSITE_URL_def SOHU_WEBSITE_URL_def site_tests site_known_def contains_def
        strip_http_def strncmp_eq_def HTTP_URL_PREFIX_def hc_limits)
  have site: "site_of YOUKU_WEBSITE_URL = SC_RES_SITE_YOUKU"
    by (simp add: YOUKU_WEBSITE_URL_def site_of_def site_tests contains_def strip_http_def strncmp_eq_def HTTP_URL_PREFIX_def hc_limits)
  note t = init_res_tree [OF assms(1)]
  have ne: "rev [0..<SC_RES_INFO_NUM_MAX_MGMT] \<noteq> []" by (simp add: hc_limits)
  from add_ctrl_ld_fresh [OF t ne urls [of YOUKU_WEBSITE_URL]] obtain y fm1 rl1 where
    y: "sc_res_info_add_ctrl_ld (init_list a) YOUKU_WEBSITE_URL = Some (0, Some y, rl1)"
    and f: "rev [0..<SC_RES_INFO_NUM_MAX_MGMT] = y # fm1" and t1: "res_tree rl1 fm1 (rev [0..<SC_RES_INFO_NUM_MAX_CTNT]) (\<lambda>_. [])"
    and yl: "sc_res_gen_is_ctrl_ld (Some (mg_common (mgmt rl1 y)))" "ri_site (mg_common (mgmt rl1 y)) = SC_RES_SITE_YOUKU"
    using site by metis
  have "length fm1 = SC_RES_INFO_NUM_MAX_MGMT - 1" using arg_cong [OF f, of length] by simp
  then have fm1: "fm1 \<noteq> []" by (auto simp: hc_limits)
  from add_ctrl_ld_fresh [OF t1 fm1 urls [of SOHU_WEBSITE_URL]] obtain h fm2 rl2 where
    h: "sc_res_info_add_ctrl_ld rl1 SOHU_WEBSITE_URL = Some (0, Some h, rl2)"
    and f2: "fm1 = h # fm2" and t2: "res_tree rl2 fm2 (rev [0..<SC_RES_INFO_NUM_MAX_CTNT]) (\<lambda>_. [])"
    and hl: "sc_res_gen_is_ctrl_ld (Some (mg_common (mgmt rl2 h)))" and e: "evolves {} rl1 rl2" by metis
  have d: "distinct (y # h # fm2)" "set (y # h # fm2) \<subseteq> {..<SC_RES_INFO_NUM_MAX_MGMT}"
    using arg_cong [OF f, of distinct] arg_cong [OF f, of set] f2 by auto
  then have yu: "mgmt_used rl1 y" "mgmt_used rl2 h" using f2 by (auto simp: mgmt_used_iff [OF t1] mgmt_used_iff [OF t2])
  let ?s = "s\<lparr>youku_controller_of_loaded := Some y, sc_res_info_list := rl2, sohu_controller_of_loaded := Some h\<rparr>"
  have "loader_ok rl2 (Some y)" "loader_ok rl2 (Some h)" and yk: "youku_loader ?s"
    using evolvesD(2) [OF e yu(1)] yu(2) yl hl by (auto simp: loader_ok_def youku_loader_def)
  then have "sc_inv ?s" using res_invI [OF t2] by (simp add: sc_inv_def)
  then have l: "loaded_only ?s (file_urls es)" using yk by (simp add: loaded_only_def ctnt_used_iff [OF t2])
  have "used_ctnts ?s = {}" by (simp add: used_ctnts_def ctnt_used_iff [OF t2])
  then have src: "sources ?s (file_names es) (\<lambda>_. [])" by (simp add: sources_def)
  note l = l [unfolded file_urls_def]
  from ftw_loop_loaded [OF l src assms(4) order_refl, of os r] \<open>used_ctnts ?s = {}\<close> obtain s' where
    "ftw_loop os es r ?s = Some (r, s')" "loaded_only s' (file_urls es)" "\<exists>src. sources s' (file_names es) src"
    "snoop_acks os \<longrightarrow> length es \<le> SC_RES_INFO_NUM_MAX_CTNT \<longrightarrow>
       (\<forall>p v. (p, True) \<in> set es \<longrightarrow> youku_file p v \<longrightarrow> covered s' v)" by (auto simp: file_urls_def)
  with y h assms(2,3) show ?thesis by (auto simp: sc_ld_init_and_load_def os_dir_walk_def)
qed

section \<open>Properties\<close>

text \<open>A root directory with one Youku file and one file of another kind.\<close>

definition demo_ftw :: "string \<Rightarrow> (string \<times> bool) list \<times> int" where
  "demo_ftw d = ([(''/usr/local/hot-cache'', False), (''/usr/local/hot-cache/1_2_3_4/youku_657F3_03-A.flv'', True),
     (''/usr/local/hot-cache/1_2_3_4/notes.txt'', True)], 0)"

definition demo_start :: "script sc_state" where
  "demo_start = \<lparr>sc_res_info_list = init_list 0x7f0000000000, youku_controller_of_loaded = None,
     sohu_controller_of_loaded = None, sc_world = \<lparr>answers = [], sent = [], opened = 0, closed = 0\<rparr>\<rparr>"

lemma demo_start_ok: "shm_ok 0x7f0000000000" "sc_res_info_list demo_start = init_list 0x7f0000000000"
  by (simp_all add: shm_ok_def SC_RES_SHARE_MEM_SIZE_def demo_start_def)

text \<open>C3. From a cold start to the first announcement, for a Snooping module that acknowledges every
  request and a root directory with no more entries than the list has slots: the loading of the files
  returns, and so does the first pass of the list thread, both without failure. Then for every file
  with the name of a Youku video (\<open>youku_file\<close>: under the root, the name fits the buffers) there is an
  entry whose URL carries its video id. Every entry has been made for a file found on disk and is
  marked as stored and as announced; and no two entries have been made for Youku files with the same
  video id. Of files with other names only this is said: what they add to the list is stored and
  announced.\<close>

theorem startup_announces:
  assumes "shm_ok a" and "sc_res_info_list s = init_list a" and "ftw SC_NGX_ROOT_PATH = (es, 0)"
    and "\<forall>p. (p, True) \<in> set es \<longrightarrow> is_cstr p \<and> CHR ''/'' \<in> set p" and "length es \<le> SC_RES_INFO_NUM_MAX_CTNT"
    and "snoop_acks os"
  shows "\<exists>s1 s2 src. sc_ld_init_and_load os ftw s = Some (0, s1) \<and> sc_res_list_process_func os s1 = Some (0, s2)
     \<and> (\<forall>p v. (p, True) \<in> set es \<longrightarrow> youku_file p v \<longrightarrow>
          (\<exists>c. ctnt_used (sc_res_info_list s2) c \<and> contains (ri_url (sc_ri s2 c)) v))
     \<and> (\<forall>c. ctnt_used (sc_res_info_list s2) c \<longrightarrow> sc_res_flag_is_stored (sc_ri s2 c)
          \<and> sc_res_flag_is_notify (sc_ri s2 c) \<and> src c \<in> file_names es \<and> ri_url (sc_ri s2 c) = file_url (src c))
     \<and> (\<forall>c c' v. ctnt_used (sc_res_info_list s2) c \<longrightarrow> ctnt_used (sc_res_info_list s2) c' \<longrightarrow>
          youku_file (src c) v \<longrightarrow> youku_file (src c') v \<longrightarrow> c = c')"
proof -
  from load_total [of a s ftw es 0 os] assms obtain s1 src where
    s1: "sc_ld_init_and_load os ftw s = Some (0, s1)" "loaded_only s1 (file_urls es)" and src: "sources s1 (file_names es) src"
    and cov: "\<forall>p v. (p, True) \<in> set es \<longrightarrow> youku_file p v \<longrightarrow> covered s1 v" by auto
  let ?rl = "sc_res_info_list s1" and ?U = "{c. ctnt_used (sc_res_info_list s1) c}"
  have inv: "sc_inv s1" and le: "\<forall>c. ctnt_used ?rl c \<longrightarrow> loaded_entry s1 (file_urls es) (ctnt ?rl c)"
    using s1(2) by (auto simp: loaded_only_def)
  from quiet_pass [OF inv assms(6)] le obtain w where
    p: "sc_res_list_process_func os s1 = Some (0, s1\<lparr>sc_res_info_list := notify_all ?U ?rl, sc_world := w\<rparr>)"
    by (auto simp: quiet_def loaded_entry_def)
  let ?s2 = "s1\<lparr>sc_res_info_list := notify_all ?U ?rl, sc_world := w\<rparr>"
  have u: "ctnt_used (sc_res_info_list ?s2) c = ctnt_used ?rl c" for c
    by (simp add: ctnt_used_def notify_all_def)
  have url: "ri_url (sc_ri ?s2 c) = ri_url (sc_ri s1 c)" for c by (simp add: notify_all_def)
  have "\<exists>c. ctnt_used (sc_res_info_list ?s2) c \<and> contains (ri_url (sc_ri ?s2 c)) v"
    if "(q, True) \<in> set es" "youku_file q v" for q v
    using cov that unfolding u url by (auto simp: covered_def used_ctnts_def)
  moreover have "sc_res_flag_is_stored (sc_ri ?s2 c) \<and> sc_res_flag_is_notify (sc_ri ?s2 c) \<and> src c \<in> file_names es
      \<and> ri_url (sc_ri ?s2 c) = file_url (src c)"
    if "ctnt_used (sc_res_info_list ?s2) c" for c
    using le src that unfolding u url by (simp add: notify_all_def loaded_entry_def sources_def used_ctnts_def)
  moreover have "c = c'" if "ctnt_used (sc_res_info_list ?s2) c" "ctnt_used (sc_res_info_list ?s2) c'"
    "youku_file (src c) v" "youku_file (src c') v" for c c' v
    using src that unfolding u by (auto simp: sources_def used_ctnts_def)
  ultimately show ?thesis using s1(1) p by (intro exI [of _ s1] exI [of _ ?s2] exI [of _ src]) blast
qed

theorem startup_announces_witness:
  "\<exists>s1 s2 c. sc_ld_init_and_load acking demo_ftw demo_start = Some (0, s1) \<and> sc_res_list_process_func acking s1 = Some (0, s2)
     \<and> ctnt_used (sc_res_info_list s2) c \<and> contains (ri_url (sc_ri s2 c)) ''03-A.flv'' \<and> sc_res_flag_is_notify (sc_ri s2 c)"
proof -
  let ?es = "fst (demo_ftw SC_NGX_ROOT_PATH)" and ?p = "''/usr/local/hot-cache/1_2_3_4/youku_657F3_03-A.flv''"
  have f: "(?p, True) \<in> set ?es" by (simp add: demo_ftw_def)
  have y: "youku_file ?p ''03-A.flv''"
    unfolding youku_file_def
    by (intro conjI exI [of _ "''1_2_3_4/''"] exI [of _ "''657F3_''"])
      (simp_all add: sc_yk_is_local_path_def contains_def SC_NGX_ROOT_PATH_def hc_limits)
  have "\<forall>p. (p, True) \<in> set ?es \<longrightarrow> is_cstr p \<and> CHR ''/'' \<in> set p" "length ?es \<le> SC_RES_INFO_NUM_MAX_CTNT"
    "demo_ftw SC_NGX_ROOT_PATH = (?es, 0)" by (simp_all add: demo_ftw_def hc_limits)
  with startup_announces [OF demo_start_ok, of demo_ftw ?es acking] acking_acks obtain s1 s2 where
    "sc_ld_init_and_load acking demo_ftw demo_start = Some (0, s1)" "sc_res_list_process_func acking s1 = Some (0, s2)"
    "\<forall>p v. (p, True) \<in> set ?es \<longrightarrow> youku_file p v \<longrightarrow>
       (\<exists>c. ctnt_used (sc_res_info_list s2) c \<and> contains (ri_url (sc_ri s2 c)) v)"
    "\<forall>c. ctnt_used (sc_res_info_list s2) c \<longrightarrow> sc_res_flag_is_notify (sc_ri s2 c)" by blast
  with f y show ?thesis by blast
qed

end
