(* ===== verification/Evolution.thy ===== *)
theory Evolution
  imports Site_Client
begin

text \<open>
  What follows for a sequence of activities when each of them keeps a contract. The contract is
  an invariant and a relation between the state before and after that is reflexive and transitive
  on states with the invariant and hands the invariant on. It is instantiated with the invariant
  of the client and its two evolution relations: \<open>sc_evolves {}\<close>, under which no entry of an
  origin is touched, and \<open>sc_evolves UNIV\<close>, under which each of them may be updated.
\<close>

locale evolution =
  fixes inv :: "'s \<Rightarrow> bool" and rel :: "'s \<Rightarrow> 's \<Rightarrow> bool"
  assumes rel_refl: "inv s \<Longrightarrow> rel s s"
    and rel_trans: "inv s \<Longrightarrow> rel s t \<Longrightarrow> rel t u \<Longrightarrow> rel s u"
    and rel_inv: "inv s \<Longrightarrow> rel s t \<Longrightarrow> inv t"
begin

lemma steps_keep:
  assumes step: "\<And>s t. inv s \<Longrightarrow> R s t \<Longrightarrow> rel s t" and run: "R\<^sup>*\<^sup>* s t" and inv: "inv s"
  shows "rel s t" and "inv t"
proof -
  from run have "rel s t \<and> inv t"
  proof induction
    case base
    then show ?case using rel_refl inv by blast
  next
    case (step t u)
    then show ?case using rel_trans rel_inv assms(1) inv by meson
  qed
  then show "rel s t" and "inv t" by blast+
qed

end

interpretation apart: evolution sc_inv "sc_evolves {}"
  by unfold_locales (auto intro: sc_evolves_step sc_evolves_inv)

interpretation shared: evolution sc_inv "sc_evolves UNIV"
  by unfold_locales (auto intro: sc_evolves_inv sc_evolves_trans [of _ UNIV _ UNIV])

lemma apart_shared: "sc_evolves {} s t \<Longrightarrow> sc_evolves UNIV s t"
  by (rule sc_evolves_mono) simp_all

end
