(* ===== verification/Snooping_Serve.thy ===== *)
theory Snooping_Serve
  imports Local_Data Evolution
begin

text \<open>
  The server of \<^verbatim>\<open>snooping_client/sc_snooping.c\<close>: the two requests the Snooping module sends,
  PARSE (find and fetch the video behind a page) and DOWN (fetch one URL), and the loop that
  receives them. A received datagram is the bytes delivered; the rest of the zeroed buffer is NUL.
  \<open>junk\<close> is the content of the callee's uninitialised stack buffer. The reply goes to the sender's
  address; what the request's memory holds afterwards is not used again.
\<close>

section \<open>Handlers\<close>

text \<open>The URL is read up to a NUL; a datagram that fills the buffer and has none is read beyond it.\<close>

definition req_url_data :: "buf \<Rightarrow> string option" where
  "req_url_data req =
     (if SC_SNOOPING_SND_RCV_BUF_LEN \<le> length req \<and> NUL \<notin> set (drop 10 req) then None else Some (pkt_url_data req))"

definition serve_reply :: "'w os \<Rightarrow> int \<Rightarrow> string \<Rightarrow> buf \<Rightarrow> u8 \<Rightarrow> 'w sc_state \<Rightarrow> 'w sc_state" where
  "serve_reply os sockfd sa req status s =
     (case sc_snooping_resp_to_sp os sockfd sa req status (sc_world s) of (_, w) \<Rightarrow> s\<lparr>sc_world := w\<rparr>)"

definition parse_new_origin :: "'w os \<Rightarrow> buf \<Rightarrow> string \<Rightarrow> 'w sc_state \<Rightarrow> (u8 \<times> 'w sc_state) option" where
  "parse_new_origin os junk origin_url s = do {
     (ret, origin, rl) \<leftarrow> sc_res_info_add_origin (sc_res_info_list s) origin_url;
     let s1 = s\<lparr>sc_res_info_list := rl\<rparr>;
     if ret \<noteq> 0 then Some (HTTP_SP_STATUS_DEFAULT_ERROR, s1)
     else do {
       i \<leftarrow> origin;
       (ret, s2) \<leftarrow>
         (if sc_res_site_is_youku (Some (mg_common (mgmt rl i))) then sc_get_yk_video os junk i s1
          else if sc_res_site_is_sohu (Some (mg_common (mgmt rl i))) then sc_get_sohu_video os junk i s1
          else Some (0, s1));
       Some (HTTP_SP_STATUS_OK, s2)
     }
   }"

definition sc_snooping_do_parse ::
  "'w os \<Rightarrow> int \<Rightarrow> string \<Rightarrow> buf \<Rightarrow> buf \<Rightarrow> 'w sc_state \<Rightarrow> 'w sc_state option" where
  "sc_snooping_do_parse os sockfd sa junk req s = do {
     req_url \<leftarrow> req_url_data req;
     (ret, origin_url) \<leftarrow> sc_res_gen_origin_url req_url [];
     (status, s1) \<leftarrow>
       (if ret \<noteq> 0 then Some (HTTP_SP_STATUS_OK, s)
        else case sc_res_info_find_mgmt (sc_res_info_list s) (cstr origin_url) of
          Some _ \<Rightarrow> Some (HTTP_SP_STATUS_OK, s)
        | None \<Rightarrow> parse_new_origin os junk (cstr origin_url) s);
     Some (serve_reply os sockfd sa req status s1)
   }"

definition down_fetch :: "'w os \<Rightarrow> nat \<Rightarrow> 'w sc_state \<Rightarrow> 'w sc_state option" where
  "down_fetch os c s = do {
     (ret, s1) \<leftarrow> lift_world (sc_ngx_download os (ctnt_url s c) (ctnt_path s c)) s;
     Some (if ret \<noteq> 0 then set_ctnt_flag sc_res_flag_set_i_fail c s1 else s1)
   }"

definition down_new :: "'w os \<Rightarrow> string \<Rightarrow> 'w sc_state \<Rightarrow> (u8 \<times> 'w sc_state) option" where
  "down_new os url s = do {
     (ret, normal, rl) \<leftarrow> sc_res_info_add_normal (sc_res_info_list s) url;
     let s1 = s\<lparr>sc_res_info_list := rl\<rparr>;
     if ret \<noteq> 0 then Some (HTTP_SP_STATUS_DEFAULT_ERROR, s1)
     else do {
       i \<leftarrow> normal;
       ((ret, ct), s2) \<leftarrow> state_add_ctnt os (Some i) (mgmt_url s1 i) s1;
       if ret \<noteq> 0 then Some (HTTP_SP_STATUS_DEFAULT_ERROR, s2)
       else do {
         c \<leftarrow> ct;
         s3 \<leftarrow> down_fetch os c s2;
         Some (HTTP_SP_STATUS_OK, s3)
       }
     }
   }"

definition sc_snooping_do_down ::
  "'w os \<Rightarrow> int \<Rightarrow> string \<Rightarrow> buf \<Rightarrow> 'w sc_state \<Rightarrow> 'w sc_state option" where
  "sc_snooping_do_down os sockfd sa req s = do {
     url \<leftarrow> req_url_data req;
     (status, s1) \<leftarrow>
       (case sc_res_info_find_mgmt (sc_res_info_list s) url of
          Some _ \<Rightarrow> Some (HTTP_SP_STATUS_OK, s)
        | None \<Rightarrow> down_new os url s);
     Some (serve_reply os sockfd sa req status s1)
   }"

section \<open>The loop\<close>

definition serve_packet ::
  "'w os \<Rightarrow> int \<Rightarrow> string \<Rightarrow> buf \<Rightarrow> int \<Rightarrow> buf \<Rightarrow> 'w sc_state \<Rightarrow> 'w sc_state option" where
  "serve_packet os sockfd sa junk nrecv d s =
     (if nrecv < int SIZEOF_PKT then Some s
      else
        let req = set_pkt_url_len (ntohs (pkt_url_len d)) d in
        if HTTP_URL_MAX_LEN \<le> unat (pkt_url_len req) then Some s
        else if pkt_action req = HTTP_SP2C_ACTION_PARSE then sc_snooping_do_parse os sockfd sa junk req s
        else if pkt_action req = HTTP_SP2C_ACTION_DOWN then sc_snooping_do_down os sockfd sa req s
        else Some s)"

definition serve_once :: "'w os \<Rightarrow> int \<Rightarrow> buf \<Rightarrow> 'w sc_state \<Rightarrow> 'w sc_state option" where
  "serve_once os sockfd junk s =
     (case os_recvfrom os sockfd SC_SNOOPING_SND_RCV_BUF_LEN (sc_world s) of ((nrecv, d, sa), w) \<Rightarrow>
        let s1 = s\<lparr>sc_world := w\<rparr> in
        if nrecv < 0 then Some s1 else serve_packet os sockfd sa junk nrecv d s1)"

text \<open>\<open>n\<close> rounds of the endless loop; \<open>junk n\<close> is the stack at each of them.\<close>

fun serve_loop :: "nat \<Rightarrow> 'w os \<Rightarrow> int \<Rightarrow> (nat \<Rightarrow> buf) \<Rightarrow> 'w sc_state \<Rightarrow> 'w sc_state option" where
  "serve_loop 0 os sockfd junk s = Some s"
| "serve_loop (Suc n) os sockfd junk s = do { s1 \<leftarrow> serve_once os sockfd (junk n) s; serve_loop n os sockfd junk s1 }"

definition sc_snooping_serve :: "nat \<Rightarrow> 'w os \<Rightarrow> int \<Rightarrow> (nat \<Rightarrow> buf) \<Rightarrow> 'w sc_state \<Rightarrow> 'w sc_state option" where
  "sc_snooping_serve n os sockfd junk s = (if sockfd < 0 then Some s else serve_loop n os sockfd junk s)"

section \<open>What a request does to the list\<close>

lemma add_plain_mgmt:
  assumes inv: "sc_inv s" and u: "is_cstr url" and g: "g = SC_RES_GEN_T_ORIGIN \<or> g = SC_RES_GEN_T_NORMAL"
    and add: "add_mgmt_with (get_mgmt_as g) care (sc_res_info_list s) url = Some (r, p, rl)"
  shows "sc_evolves {} s (s\<lparr>sc_res_info_list := rl\<rparr>)"
    and "r = 0 \<Longrightarrow> \<exists>i. p = Some i \<and> plain_mgmt (s\<lparr>sc_res_info_list := rl\<rparr>) i
           \<and> ri_gen (mg_common (mgmt rl i)) = g \<and> ri_url (mg_common (mgmt rl i)) = strip_http url"
proof -
  have g': "g \<in> mgmt_gens" using g by (auto simp: mgmt_gens_def)
  have ri: "res_inv (sc_res_info_list s)" using inv by (simp add: sc_inv_def)
  then obtain fm fc ch where t: "res_tree (sc_res_info_list s) fm fc ch" by (auto simp: res_inv_def)
  show "sc_evolves {} s (s\<lparr>sc_res_info_list := rl\<rparr>)"
    using evolves_add_mgmt [OF ri g' u add] by (simp add: sc_evolves_def)
  assume "r = 0"
  with add_mgmt_tree [OF t g' u add] obtain i fm' mt where i: "fm = i # fm'" "p = Some i" "res_tree rl fm' fc ch"
    "mgmt rl = (mgmt (sc_res_info_list s))(i := new_mgmt i g url (site_of url) mt)" by auto
  have "i < SC_RES_INFO_NUM_MAX_MGMT" "i \<notin> set fm'" using res_treeD(1) [OF t] i(1) by (auto simp: mgmt_pool_def)
  then have "mgmt_used rl i" by (simp add: mgmt_used_iff [OF i(3)])
  with i(2,4) g show "\<exists>i. p = Some i \<and> plain_mgmt (s\<lparr>sc_res_info_list := rl\<rparr>) i
           \<and> ri_gen (mg_common (mgmt rl i)) = g \<and> ri_url (mg_common (mgmt rl i)) = strip_http url"
    by (auto simp: plain_mgmt_def new_mgmt_def kind_defs)
qed

lemma add_origin_plain:
  assumes "sc_inv s" and "is_cstr url" and "sc_res_info_add_origin (sc_res_info_list s) url = Some (r, p, rl)"
  shows "sc_evolves {} s (s\<lparr>sc_res_info_list := rl\<rparr>)"
    and "r = 0 \<Longrightarrow> \<exists>i. p = Some i \<and> plain_mgmt (s\<lparr>sc_res_info_list := rl\<rparr>) i
           \<and> ri_gen (mg_common (mgmt rl i)) = SC_RES_GEN_T_ORIGIN \<and> ri_url (mg_common (mgmt rl i)) = strip_http url"
  using add_plain_mgmt [OF assms(1,2), of SC_RES_GEN_T_ORIGIN True r p rl] assms(3) by (simp_all add: add_mgmt_variants)

lemma add_normal_plain:
  assumes "sc_inv s" and "is_cstr url" and "sc_res_info_add_normal (sc_res_info_list s) url = Some (r, p, rl)"
  shows "sc_evolves {} s (s\<lparr>sc_res_info_list := rl\<rparr>)"
    and "r = 0 \<Longrightarrow> \<exists>i. p = Some i \<and> plain_mgmt (s\<lparr>sc_res_info_list := rl\<rparr>) i
           \<and> ri_gen (mg_common (mgmt rl i)) = SC_RES_GEN_T_NORMAL \<and> ri_url (mg_common (mgmt rl i)) = strip_http url"
  using add_plain_mgmt [OF assms(1,2), of SC_RES_GEN_T_NORMAL True r p rl] assms(3) by (simp_all add: add_mgmt_variants)

lemma parse_new_cases:
  assumes "parse_new_origin os junk url s = Some (st, s')"
  obtains (refused) r p rl where "sc_res_info_add_origin (sc_res_info_list s) url = Some (r, p, rl)" "r \<noteq> 0"
      "s' = s\<lparr>sc_res_info_list := rl\<rparr>" "st = HTTP_SP_STATUS_DEFAULT_ERROR"
    | (added) i rl r' where "sc_res_info_add_origin (sc_res_info_list s) url = Some (0, Some i, rl)" "st = HTTP_SP_STATUS_OK"
      "sc_get_yk_video os junk i (s\<lparr>sc_res_info_list := rl\<rparr>) = Some (r', s')
       \<or> sc_get_sohu_video os junk i (s\<lparr>sc_res_info_list := rl\<rparr>) = Some (r', s') \<or> s' = s\<lparr>sc_res_info_list := rl\<rparr>"
proof (cases "sc_res_info_add_origin (sc_res_info_list s) url")
  case None
  with assms show ?thesis by (simp add: parse_new_origin_def)
next
  case (Some q)
  obtain r p rl where q: "q = (r, p, rl)" by (cases q) auto
  show ?thesis
  proof (cases "r = 0")
    case True
    with assms Some q obtain i where i: "p = Some i" by (cases p) (auto simp: parse_new_origin_def Let_def)
    have "\<exists>r'. (if sc_res_site_is_youku (Some (mg_common (mgmt rl i))) then sc_get_yk_video os junk i (s\<lparr>sc_res_info_list := rl\<rparr>)
        else if sc_res_site_is_sohu (Some (mg_common (mgmt rl i))) then sc_get_sohu_video os junk i (s\<lparr>sc_res_info_list := rl\<rparr>)
        else Some (0, s\<lparr>sc_res_info_list := rl\<rparr>)) = Some (r', s') \<and> st = HTTP_SP_STATUS_OK"
      using assms Some q True i unfolding parse_new_origin_def Let_def by (auto simp: bind_Some_conv)
    then show ?thesis using added [of i rl] Some q True i by (auto split: if_split_asm)
  qed (use assms Some q refused in \<open>simp add: parse_new_origin_def\<close>)
qed

lemma parse_new_evolves:
  assumes inv: "sc_inv s" and p: "parse_new_origin os junk (cstr b) s = Some (st, s')"
  shows "sc_evolves {} s s'"
  using p
proof (cases rule: parse_new_cases)
  case (refused r p rl)
  with add_origin_plain(1) [OF inv cstr_is_cstr refused(1)] show ?thesis by simp
next
  case (added i rl r')
  let ?s = "s\<lparr>sc_res_info_list := rl\<rparr>"
  note add = add_origin_plain [OF inv cstr_is_cstr added(1)]
  from add(2) have i: "plain_mgmt ?s i" by simp
  have inv': "sc_inv ?s" by (rule sc_evolves_inv [OF inv add(1)])
  have "sc_evolves {} ?s s'" using added(3) get_video_evolves [OF inv' i] sc_evolves_refl [OF inv'] by blast
  with sc_evolves_step [OF inv add(1)] show ?thesis .
qed

lemma down_fetch_evolves:
  assumes inv: "sc_inv s" and c: "sc_own s c" and d: "down_fetch os c s = Some s'"
  shows "sc_evolves {c} s s'"
    and "\<exists>w r. sc_ngx_download os (ctnt_url s c) (ctnt_path s c) (sc_world s) = Some (r, w)
           \<and> (r = 0 \<longrightarrow> s' = s\<lparr>sc_world := w\<rparr>) \<and> (r \<noteq> 0 \<longrightarrow> sc_res_flag_is_i_fail (sc_ri s' c))"
    and "ri_url (sc_ri s' c) = ri_url (sc_ri s c)" "ctnt_path s' c = ctnt_path s c"
proof -
  from d obtain r w where f: "sc_ngx_download os (ctnt_url s c) (ctnt_path s c) (sc_world s) = Some (r, w)"
    and s': "s' = (if r \<noteq> 0 then set_ctnt_flag sc_res_flag_set_i_fail c (s\<lparr>sc_world := w\<rparr>) else s\<lparr>sc_world := w\<rparr>)"
    by (auto simp: down_fetch_def lift_world_def bind_Some_conv)
  have "sc_inv (s\<lparr>sc_world := w\<rparr>)" "sc_own (s\<lparr>sc_world := w\<rparr>) c" using inv c by simp_all
  from set_i_fail_evolves [OF this] sc_evolves_refl [OF inv, of "{c}"] s' show "sc_evolves {c} s s'" by (simp split: if_splits)
  show "\<exists>w r. sc_ngx_download os (ctnt_url s c) (ctnt_path s c) (sc_world s) = Some (r, w)
           \<and> (r = 0 \<longrightarrow> s' = s\<lparr>sc_world := w\<rparr>) \<and> (r \<noteq> 0 \<longrightarrow> sc_res_flag_is_i_fail (sc_ri s' c))"
    using f s' by (intro exI [of _ w] exI [of _ r]) simp
  show "ri_url (sc_ri s' c) = ri_url (sc_ri s c)" "ctnt_path s' c = ctnt_path s c"
    using s' by (auto simp: set_ctnt_flag_def upd_defs ctnt_path_def sc_res_flag_set_i_fail_def split: if_splits)
qed

lemma down_new_cases:
  assumes "down_new os url s = Some (st, s')"
  obtains (refused) r p rl where "sc_res_info_add_normal (sc_res_info_list s) url = Some (r, p, rl)" "r \<noteq> 0"
      "s' = s\<lparr>sc_res_info_list := rl\<rparr>" "st = HTTP_SP_STATUS_DEFAULT_ERROR"
    | (alone) i rl r p where "sc_res_info_add_normal (sc_res_info_list s) url = Some (0, Some i, rl)"
      "state_add_ctnt os (Some i) (mgmt_url (s\<lparr>sc_res_info_list := rl\<rparr>) i) (s\<lparr>sc_res_info_list := rl\<rparr>) = Some ((r, p), s')"
      "r \<noteq> 0" "st = HTTP_SP_STATUS_DEFAULT_ERROR"
    | (added) i rl c s2 where "sc_res_info_add_normal (sc_res_info_list s) url = Some (0, Some i, rl)"
      "state_add_ctnt os (Some i) (mgmt_url (s\<lparr>sc_res_info_list := rl\<rparr>) i) (s\<lparr>sc_res_info_list := rl\<rparr>) = Some ((0, Some c), s2)"
      "down_fetch os c s2 = Some s'" "st = HTTP_SP_STATUS_OK"
proof (cases "sc_res_info_add_normal (sc_res_info_list s) url")
  case None
  with assms show ?thesis by (simp add: down_new_def)
next
  case (Some q)
  obtain r p rl where q: "q = (r, p, rl)" by (cases q) auto
  show ?thesis
  proof (cases "r = 0")
    case True
    with assms Some q obtain i where i: "p = Some i" by (cases p) (auto simp: down_new_def Let_def)
    let ?s = "s\<lparr>sc_res_info_list := rl\<rparr>"
    from assms Some q True i obtain r2 p2 s2 where a: "state_add_ctnt os (Some i) (mgmt_url ?s i) ?s = Some ((r2, p2), s2)"
      and rest: "(if r2 \<noteq> 0 then Some (HTTP_SP_STATUS_DEFAULT_ERROR, s2)
         else do { c \<leftarrow> p2; s3 \<leftarrow> down_fetch os c s2; Some (HTTP_SP_STATUS_OK, s3) }) = Some (st, s')"
      unfolding down_new_def Let_def by (auto simp: bind_Some_conv)
    show ?thesis
      using alone [of i rl r2 p2] added [of i rl _ s2] Some q True i a rest
      by (cases "r2 = 0") (auto simp: bind_Some_conv)
  qed (use assms Some q refused in \<open>simp add: down_new_def\<close>)
qed

lemma down_new_evolves:
  assumes inv: "sc_inv s" and u: "is_cstr url" and d: "down_new os url s = Some (st, s')"
  shows "sc_evolves {} s s'"
  using d
proof (cases rule: down_new_cases)
  case (refused r p rl)
  with add_normal_plain(1) [OF inv u refused(1)] show ?thesis by simp
next
  case (alone i rl r p)
  note add = add_normal_plain [OF inv u alone(1)]
  have "sc_inv (s\<lparr>sc_res_info_list := rl\<rparr>)" "plain_mgmt (s\<lparr>sc_res_info_list := rl\<rparr>) i"
    using sc_evolves_inv [OF inv add(1)] add(2) by auto
  from add_only_evolves [OF this alone(2) [unfolded mgmt_url_def]] sc_evolves_step [OF inv add(1)] show ?thesis by blast
next
  case (added i rl c s2)
  note add = add_normal_plain [OF inv u added(1)]
  have i: "sc_inv (s\<lparr>sc_res_info_list := rl\<rparr>)" "plain_mgmt (s\<lparr>sc_res_info_list := rl\<rparr>) i"
    using sc_evolves_inv [OF inv add(1)] add(2) by auto
  have "sc_evolves {} (s\<lparr>sc_res_info_list := rl\<rparr>) s'"
    by (rule add_then_download [OF i(1) _ _ added(2) [unfolded mgmt_url_def]])
      (use i(2) down_fetch_evolves(1) added(3) in \<open>auto simp: plain_mgmt_def\<close>)
  with sc_evolves_step [OF inv add(1)] show ?thesis .
qed

lemma serve_reply_state: "\<exists>w. serve_reply os sockfd sa req st s = s\<lparr>sc_world := w\<rparr>"
  by (auto simp: serve_reply_def split: prod.splits)

lemma serve_reply_list [simp]: "sc_res_info_list (serve_reply os sockfd sa req st s) = sc_res_info_list s"
  using serve_reply_state [of os sockfd sa req st s] by auto

lemma serve_reply_evolves [simp]: "sc_evolves C s (serve_reply os sockfd sa req st s') = sc_evolves C s s'"
  using serve_reply_state [of os sockfd sa req st s'] by auto

lemma req_url_cstr: "req_url_data req = Some url \<Longrightarrow> is_cstr url"
  by (auto simp: req_url_data_def pkt_url_data_def split: if_splits)

lemma do_parse_cases:
  assumes "sc_snooping_do_parse os fd sa junk req s = Some s'"
  obtains (known) st where "s' = serve_reply os fd sa req st s"
    | (fresh) url b st s1 where "req_url_data req = Some url" "sc_res_gen_origin_url url [] = Some (0, b)"
      "sc_res_info_find_mgmt (sc_res_info_list s) (cstr b) = None"
      "parse_new_origin os junk (cstr b) s = Some (st, s1)" "s' = serve_reply os fd sa req st s1"
proof -
  from assms obtain url ret b where u: "req_url_data req = Some url" and g: "sc_res_gen_origin_url url [] = Some (ret, b)"
    by (auto simp: sc_snooping_do_parse_def bind_Some_conv)
  show ?thesis
  proof (cases "ret = 0 \<and> sc_res_info_find_mgmt (sc_res_info_list s) (cstr b) = None")
    case True
    with assms u g fresh show ?thesis by (auto simp: sc_snooping_do_parse_def bind_Some_conv)
  next
    case False
    with assms u g known show ?thesis by (cases "ret = 0") (auto simp: sc_snooping_do_parse_def)
  qed
qed

lemma do_parse_evolves:
  assumes inv: "sc_inv s" and p: "sc_snooping_do_parse os fd sa junk req s = Some s'"
  shows "sc_evolves {} s s'"
  using p
proof (cases rule: do_parse_cases)
  case known
  then show ?thesis using sc_evolves_refl [OF inv] by simp
next
  case (fresh url b st s1)
  then show ?thesis using parse_new_evolves [OF inv] by simp
qed

lemma do_down_evolves:
  assumes inv: "sc_inv s" and p: "sc_snooping_do_down os fd sa req s = Some s'"
  shows "sc_evolves {} s s'"
proof -
  from p obtain url where u: "req_url_data req = Some url" by (auto simp: sc_snooping_do_down_def bind_Some_conv)
  show ?thesis
  proof (cases "sc_res_info_find_mgmt (sc_res_info_list s) url")
    case None
    with p u obtain st s1 where "down_new os url s = Some (st, s1)" "s' = serve_reply os fd sa req st s1"
      by (auto simp: sc_snooping_do_down_def bind_Some_conv)
    with down_new_evolves [OF inv req_url_cstr [OF u]] show ?thesis by simp
  next
    case (Some i)
    with p u sc_evolves_refl [OF inv] show ?thesis by (auto simp: sc_snooping_do_down_def)
  qed
qed

text \<open>One round of the loop as a step of the client.\<close>

definition serve_round :: "'w os \<Rightarrow> int \<Rightarrow> 'w sc_state \<Rightarrow> 'w sc_state \<Rightarrow> bool" where
  "serve_round os fd s s' \<longleftrightarrow> (\<exists>junk. serve_once os fd junk s = Some s')"

lemma serve_round_evolves:
  assumes "sc_inv s" and "serve_round os fd s s'"
  shows "sc_evolves {} s s'"
proof -
  from assms(2) obtain junk where o: "serve_once os fd junk s = Some s'" by (auto simp: serve_round_def)
  obtain n d sa w where r: "os_recvfrom os fd SC_SNOOPING_SND_RCV_BUF_LEN (sc_world s) = ((n, d, sa), w)"
    by (metis prod.collapse)
  have inv: "sc_inv (s\<lparr>sc_world := w\<rparr>)" using assms(1) by simp
  have "sc_evolves {} (s\<lparr>sc_world := w\<rparr>) s'"
    using o r do_parse_evolves [OF inv] do_down_evolves [OF inv] sc_evolves_refl [OF inv]
    by (auto simp: serve_once_def serve_packet_def Let_def simp del: sc_evolves_world split: if_split_asm)
  then show ?thesis by simp
qed

lemma serve_loop_rounds: "serve_loop n os fd junk s = Some s' \<Longrightarrow> (serve_round os fd)\<^sup>*\<^sup>* s s'"
proof (induction n arbitrary: s)
  case (Suc n)
  then obtain s1 where "serve_once os fd (junk n) s = Some s1" "serve_loop n os fd junk s1 = Some s'"
    by (auto simp: bind_Some_conv)
  with Suc.IH show ?case by (auto simp: serve_round_def intro: converse_rtranclp_into_rtranclp)
qed simp

section \<open>Requests are recorded\<close>

lemma gen_origin_ok:
  assumes "sc_res_gen_origin_url url [] = Some (0, b)" and "is_cstr url"
  shows "sc_res_info_permit_adding (cstr b)" "length (cstr b) < HTTP_URL_MAX_LEN" "site_known (cstr b)"
    and "strip_http (cstr b) = cstr b" "cstr b \<noteq> []"
proof -
  let ?ok = "\<lambda>u. sc_res_info_permit_adding u \<and> length u < HTTP_URL_MAX_LEN \<and> site_known u \<and> strip_http u = u \<and> u \<noteq> []"
  have yk: "?ok (''v.youku.com/v_show/id_'' @ v @ ''.html'')" if "length v = 13" for v
    using that contains_append1 [of "''v.youku.com/v_show/id_''" "''youku''" "v @ ''.html''"]
    by (simp add: site_tests site_known_def strip_http_def strncmp_eq_def HTTP_URL_PREFIX_def hc_limits contains_def)
  have sohu: "?ok (t @ n)" if "t = sohu_tag1 \<or> t = sohu_tag2" "length t + length n < HTTP_URL_MAX_LEN" for t n
    using that contains_append1 [of t "''sohu''" n]
    by (auto simp: sohu_tag1_def sohu_tag2_def site_tests site_known_def strip_http_def strncmp_eq_def
        HTTP_URL_PREFIX_def HTTP_URL_PRE_LEN_def contains_def)
  have "?ok (cstr b)"
  proof (cases "sc_url_is_yk url")
    case True
    with assms(1) have "sc_yk_gen_origin_url url [] = (0, b)" by (simp add: sc_res_gen_origin_url_def)
    then obtain v where v: "yk_origin_loop yk_tags url = Some v" "b = ''v.youku.com/v_show/id_'' @ v @ ''.html'' @ [NUL]"
      by (auto simp: sc_yk_gen_origin_url_def split: option.splits)
    from yk_origin_loop_SomeD [OF v(1)] have l: "length v = 13" "is_cstr v" by (auto intro: alnum_is_cstr)
    have "cstr b = ''v.youku.com/v_show/id_'' @ v @ ''.html''"
      using cstr_append_NUL [of "''v.youku.com/v_show/id_'' @ v @ ''.html''" "[]"] l(2) by (simp add: v(2))
    with yk [OF l(1)] show ?thesis by simp
  next
    case False
    with assms(1) have g: "sc_sohu_gen_origin_url url [] = Some (0, b)"
      by (auto simp: sc_res_gen_origin_url_def split: if_splits)
    then obtain t st where t: "t = sohu_tag1 \<or> t = sohu_tag2" "strstr url t = Some st" "sohu_origin_print t st [] = Some (0, b)"
      by (auto simp: sc_sohu_gen_origin_url_def split: option.splits if_splits)
    let ?n = "takeWhile (\<lambda>c. c \<noteq> CHR ''?'') (drop (length t) st)"
    have b: "b = t @ ?n @ [NUL]" "length t + length ?n < HTTP_URL_MAX_LEN"
      using t(3) by (auto simp: sohu_origin_print_def Let_def split: if_splits)
    have "is_cstr st" using strstr_is_cstr [OF t(2) assms(2)] .
    then have "is_cstr (t @ ?n)" using t(1)
      by (auto simp: is_cstr_def sohu_tag1_def sohu_tag2_def dest!: set_takeWhileD in_set_dropD)
    from cstr_append_NUL [OF this, of "[]"] b(1) have "cstr b = t @ ?n" by simp
    with sohu [OF t(1) b(2)] show ?thesis by simp
  qed
  then show "sc_res_info_permit_adding (cstr b)" "length (cstr b) < HTTP_URL_MAX_LEN" "site_known (cstr b)"
    and "strip_http (cstr b) = cstr b" "cstr b \<noteq> []" by blast+
qed

lemma find_mgmt_used:
  assumes "res_inv rl" and "sc_res_info_find_mgmt rl u = Some i" and "u \<noteq> []"
  shows "mgmt_used rl i" "cstr (ri_url (mg_common (mgmt rl i))) = u"
proof -
  from assms(1) obtain fm fc ch where t: "res_tree rl fm fc ch" by (auto simp: res_inv_def)
  from find_from_SomeD [OF assms(2) [unfolded sc_res_info_find_mgmt_def]]
  have i: "i < SC_RES_INFO_NUM_MAX_MGMT" "cstr (ri_url (mg_common (mgmt rl i))) = u" by auto
  moreover have "i \<notin> set fm" using res_treeD(3) [OF t, of i] i(2) assms(3) by auto
  ultimately show "mgmt_used rl i" "cstr (ri_url (mg_common (mgmt rl i))) = u" by (simp_all add: mgmt_used_iff [OF t])
qed

lemma find_mgmt_evolves:
  assumes "sc_inv s" and "sc_evolves C s s'" and "sc_res_info_find_mgmt (sc_res_info_list s) u \<noteq> None" and "u \<noteq> []"
  shows "sc_res_info_find_mgmt (sc_res_info_list s') u \<noteq> None"
proof -
  from assms(3) obtain i where "sc_res_info_find_mgmt (sc_res_info_list s) u = Some i" by blast
  from find_mgmt_used [OF _ this assms(4)] assms(1) have i: "mgmt_used (sc_res_info_list s) i"
    "cstr (ri_url (mg_common (mgmt (sc_res_info_list s) i))) = u" by (simp_all add: sc_inv_def)
  from sc_mgmt_evolves [OF assms(2) i(1)] i(2) show ?thesis
    by (auto simp: sc_res_info_find_mgmt_def find_from_None_iff mgmt_used_def simp del: not_None_eq)
qed

lemma find_mgmt_added: "mgmt_used rl i \<Longrightarrow> cstr (ri_url (mg_common (mgmt rl i))) = u \<Longrightarrow> sc_res_info_find_mgmt rl u \<noteq> None"
  by (auto simp: sc_res_info_find_mgmt_def find_from_None_iff mgmt_used_def simp del: not_None_eq)

lemma parse_new_found:
  assumes inv: "sc_inv s" and u: "is_cstr url" and g: "sc_res_gen_origin_url url [] = Some (0, b)"
    and room: "mgmt_cnt (sc_res_info_list s) < int SC_RES_INFO_NUM_MAX_MGMT"
    and p: "parse_new_origin os junk (cstr b) s = Some (st, s')"
  shows "sc_res_info_find_mgmt (sc_res_info_list s') (cstr b) \<noteq> None" and "st = HTTP_SP_STATUS_OK"
proof -
  note b = gen_origin_ok [OF g u]
  have gm: "SC_RES_GEN_T_ORIGIN \<in> mgmt_gens" by (simp add: mgmt_gens_def)
  from inv obtain fm fc ch where t: "res_tree (sc_res_info_list s) fm fc ch" by (auto simp: sc_inv_def res_inv_def)
  have "fm \<noteq> []" using room free_slot_iff [OF res_treeD(1) [OF t]] by simp
  with add_mgmt_total [OF t gm cstr_is_cstr, of True b] b obtain q rl where
    a: "sc_res_info_add_origin (sc_res_info_list s) (cstr b) = Some (0, q, rl)" by (auto simp: add_mgmt_variants)
  note add = add_origin_plain [OF inv cstr_is_cstr a]
  from add(2) obtain i where i: "q = Some i" "plain_mgmt (s\<lparr>sc_res_info_list := rl\<rparr>) i" "ri_url (mg_common (mgmt rl i)) = cstr b"
    using b(4) by auto
  have inv': "sc_inv (s\<lparr>sc_res_info_list := rl\<rparr>)" by (rule sc_evolves_inv [OF inv add(1)])
  have f: "sc_res_info_find_mgmt (sc_res_info_list (s\<lparr>sc_res_info_list := rl\<rparr>)) (cstr b) \<noteq> None"
    using find_mgmt_added [of rl i "cstr b"] i(2,3) by (simp add: plain_mgmt_def)
  from p show "sc_res_info_find_mgmt (sc_res_info_list s') (cstr b) \<noteq> None" and "st = HTTP_SP_STATUS_OK"
  proof (atomize (full), cases rule: parse_new_cases)
    case (refused r p' rl')
    with a show "sc_res_info_find_mgmt (sc_res_info_list s') (cstr b) \<noteq> None \<and> st = HTTP_SP_STATUS_OK" by simp
  next
    case (added j rl' r')
    with a i(1) have "j = i" "rl' = rl" by auto
    with added get_video_evolves [OF inv' i(2)] sc_evolves_refl [OF inv', of "{}"] have "sc_evolves {} (s\<lparr>sc_res_info_list := rl\<rparr>) s'" by blast
    from find_mgmt_evolves [OF inv' this f b(5)] added(2)
    show "sc_res_info_find_mgmt (sc_res_info_list s') (cstr b) \<noteq> None \<and> st = HTTP_SP_STATUS_OK" by simp
  qed
qed

text \<open>A URL that a DOWN request can be served for.\<close>

definition downloadable :: "string \<Rightarrow> bool" where
  "downloadable url \<longleftrightarrow> is_cstr url \<and> site_known url \<and> strip_http url = url \<and> length url < SC_RES_LOCAL_PATH_MAX_LEN
     \<and> (site_of url = SC_RES_SITE_SOHU \<longrightarrow> sc_url_is_sohu_file_url url)"

text \<open>The lists differ in two entries that were free before: a management entry \<open>i\<close> and a content
  entry \<open>c\<close>.\<close>

definition only_new :: "sc_res_list \<Rightarrow> nat \<Rightarrow> nat \<Rightarrow> sc_res_list \<Rightarrow> bool" where
  "only_new rl i c rl' \<longleftrightarrow> \<not> mgmt_used rl i \<and> \<not> ctnt_used rl c
     \<and> (\<forall>j. mgmt_used rl' j \<longleftrightarrow> j = i \<or> mgmt_used rl j) \<and> (\<forall>k. ctnt_used rl' k \<longleftrightarrow> k = c \<or> ctnt_used rl k)
     \<and> (\<forall>j. j \<noteq> i \<longrightarrow> mg_common (mgmt rl' j) = mg_common (mgmt rl j)) \<and> (\<forall>k. k \<noteq> c \<longrightarrow> ctnt rl' k = ctnt rl k)"

lemma add_normal_room:
  assumes t: "res_tree rl fm fc ch" and u: "downloadable url" and fm: "fm \<noteq> []"
  obtains i fm' rl' mt where "sc_res_info_add_normal rl url = Some (0, Some i, rl')" and "res_tree rl' fm' fc ch"
    and "i < SC_RES_INFO_NUM_MAX_MGMT" "i \<notin> set fm'" "fm = i # fm'" "\<forall>j. j \<noteq> i \<longrightarrow> mgmt rl' j = mgmt rl j" "ctnt rl' = ctnt rl"
    and "mg_common (mgmt rl' i) = mg_common (new_mgmt i SC_RES_GEN_T_NORMAL url (site_of url) mt)"
proof -
  have gm: "SC_RES_GEN_T_NORMAL \<in> mgmt_gens" by (simp add: mgmt_gens_def)
  have u': "is_cstr url" "sc_res_info_permit_adding url" "length url < HTTP_URL_MAX_LEN" "site_known url"
    using u by (auto simp: downloadable_def site_known_def site_tests hc_limits)
  from add_mgmt_total [OF t gm u'(1), of True] u' fm obtain q rl' where
    am: "add_mgmt_with (get_mgmt_as SC_RES_GEN_T_NORMAL) True rl url = Some (0, q, rl')" by auto
  from add_mgmt_tree [OF t gm u'(1) am] obtain i fm' mt where i: "fm = i # fm'" "q = Some i" "res_tree rl' fm' fc ch"
    "mgmt rl' = (mgmt rl)(i := new_mgmt i SC_RES_GEN_T_NORMAL url (site_of url) mt)" "ctnt rl' = ctnt rl" by auto
  moreover have "i < SC_RES_INFO_NUM_MAX_MGMT" "i \<notin> set fm'" using res_treeD(1) [OF t] i(1) by (auto simp: mgmt_pool_def)
  ultimately show ?thesis using am that by (simp add: add_mgmt_variants)
qed

lemma add_normal_ctnt:
  assumes inv: "sc_inv s" and u: "downloadable url"
    and room: "mgmt_cnt (sc_res_info_list s) < int SC_RES_INFO_NUM_MAX_MGMT" "ctnt_cnt (sc_res_info_list s) < int SC_RES_INFO_NUM_MAX_CTNT"
  obtains i rl c s2 where "sc_res_info_add_normal (sc_res_info_list s) url = Some (0, Some i, rl)"
    and "state_add_ctnt os (Some i) (mgmt_url (s\<lparr>sc_res_info_list := rl\<rparr>) i) (s\<lparr>sc_res_info_list := rl\<rparr>) = Some ((0, Some c), s2)"
    and "sc_inv s2" "mgmt_used (sc_res_info_list s2) i" "sc_own s2 c" "parent (ctnt (sc_res_info_list s2) c) = Some i" "ri_url (sc_ri s2 c) = url"
    and "sc_res_gen_is_normal (Some (mg_common (mgmt (sc_res_info_list s2) i)))" "ri_url (mg_common (mgmt (sc_res_info_list s2) i)) = url"
    and "only_new (sc_res_info_list s) i c (sc_res_info_list s2)" "sc_world s2 = sc_world s" "\<not> sc_res_flag_is_i_fail (sc_ri s2 c)"
proof -
  have u': "is_cstr url" "sc_res_info_permit_adding url" "length url < HTTP_URL_MAX_LEN" "strip_http url = url"
    using u by (auto simp: downloadable_def site_known_def site_tests hc_limits)
  from inv obtain fm fc ch where t: "res_tree (sc_res_info_list s) fm fc ch" by (auto simp: sc_inv_def res_inv_def)
  have ne: "fm \<noteq> []" "fc \<noteq> []"
    using room free_slot_iff [OF res_treeD(1) [OF t]] res_treeD(2) [OF t] by (auto simp: ctnt_pool_def)
  from add_normal_room [OF t u ne(1)] obtain i fm' rl mt where
    a: "sc_res_info_add_normal (sc_res_info_list s) url = Some (0, Some i, rl)" and t1: "res_tree rl fm' fc ch"
    and i: "i < SC_RES_INFO_NUM_MAX_MGMT" "i \<notin> set fm'" and k1: "fm = i # fm'" "\<forall>j. j \<noteq> i \<longrightarrow> mgmt rl j = mgmt (sc_res_info_list s) j"
      "ctnt rl = ctnt (sc_res_info_list s)"
    and mi: "mg_common (mgmt rl i) = mg_common (new_mgmt i SC_RES_GEN_T_NORMAL url (site_of url) mt)" by metis
  let ?s = "s\<lparr>sc_res_info_list := rl\<rparr>"
  have inv': "sc_inv ?s" by (rule sc_evolves_inv [OF inv add_normal_plain(1) [OF inv u'(1) a]])
  have lp: "local_path_ok (mgmt rl i) url" using u u'(4) by (simp add: local_path_ok_def Let_def mi new_mgmt_def downloadable_def)
  from add_ctnt_slot_tree [OF t1 i u'(1-3)] lp ne(2) obtain c fc' rl2 mt2 where
    c: "fc = c # fc'" "add_ctnt_slot rl i url = Some (0, Some c, rl2)" "res_tree rl2 fm' fc' (ch(i := c # ch i))"
      "\<forall>j. mg_common (mgmt rl2 j) = mg_common (mgmt rl j)"
      "ctnt rl2 c = (snd (fill_ctnt (mgmt rl i) (strip_http url) mt2 (fresh_ctnt c)))\<lparr>siblings := child (mgmt rl i), parent := Some i\<rparr>"
      "\<forall>k. k \<noteq> c \<longrightarrow> ctnt rl2 k = ctnt rl k"
    by auto
  let ?s2 = "?s\<lparr>sc_res_info_list := rl2\<rparr>"
  have mu: "mgmt_url ?s i = url" using u'(1,4) by (simp add: mgmt_url_def mi new_mgmt_def)
  have a2: "state_add_ctnt os (Some i) (mgmt_url ?s i) ?s = Some ((0, Some c), ?s2)"
    unfolding mu using u' c(2) by (simp add: state_add_ctnt_def sc_res_info_add_ctnt_def mi new_mgmt_def)
  have e2: "sc_evolves {} ?s ?s2"
    by (rule state_add_ctnt_evolves(1) [OF inv' _ u'(1) a2 [unfolded mu]]) (use i in \<open>simp add: mgmt_used_iff [OF t1]\<close>)
  obtain ret ct where f: "fill_ctnt (mgmt rl i) (strip_http url) mt2 (fresh_ctnt c) = (ret, ct)" by fastforce
  have url: "ri_url (sc_ri ?s2 c) = url" "parent (ctnt rl2 c) = Some i" using c(5) f fill_ctnt_fields(3) [OF f] u'(4) by simp_all
  have "ctnt_used rl2 c" using c(1) res_treeD(2) [OF t] by (auto simp: ctnt_used_iff [OF c(3)] ctnt_pool_def)
  then have "sc_own ?s2 c" using url(2) c(4) by (simp add: own_ctnt_def mi new_mgmt_def kind_defs)
  moreover have "\<not> sc_res_flag_is_i_fail (sc_ri ?s2 c)" using c(5) f fill_ctnt_fields(8) [OF f] by simp
  moreover have "only_new (sc_res_info_list s) i c rl2"
    using k1 c(1,4,6) i res_treeD(2) [OF t]
    by (auto simp: only_new_def mgmt_used_iff [OF t] mgmt_used_iff [OF c(3)] ctnt_used_iff [OF t] ctnt_used_iff [OF c(3)] ctnt_pool_def)
  ultimately show ?thesis
    using that [OF a a2 sc_evolves_inv [OF inv' e2]] url c(4) i u'(4)
    by (simp add: mgmt_used_iff [OF c(3)] mi new_mgmt_def kind_defs)
qed

lemma down_new_total:
  assumes inv: "sc_inv s" and u: "downloadable url"
    and room: "mgmt_cnt (sc_res_info_list s) < int SC_RES_INFO_NUM_MAX_MGMT" "ctnt_cnt (sc_res_info_list s) < int SC_RES_INFO_NUM_MAX_CTNT"
    and e: "os_recv_ends os"
  obtains st s' where "down_new os url s = Some (st, s')"
proof -
  obtain i rl c s2 where a: "sc_res_info_add_normal (sc_res_info_list s) url = Some (0, Some i, rl)"
      "state_add_ctnt os (Some i) (mgmt_url (s\<lparr>sc_res_info_list := rl\<rparr>) i) (s\<lparr>sc_res_info_list := rl\<rparr>) = Some ((0, Some c), s2)"
    using add_normal_ctnt [OF inv u room, of os] by metis
  obtain r w where "sc_ngx_download os (ctnt_url s2 c) (ctnt_path s2 c) (sc_world s2) = Some (r, w)"
    using ngx_download_total [OF e] by blast
  then have "\<exists>s3. down_fetch os c s2 = Some s3" by (simp add: down_fetch_def lift_world_def)
  with a that show ?thesis by (auto simp: down_new_def)
qed

lemma down_new_recorded:
  assumes inv: "sc_inv s" and u: "downloadable url"
    and room: "mgmt_cnt (sc_res_info_list s) < int SC_RES_INFO_NUM_MAX_MGMT" "ctnt_cnt (sc_res_info_list s) < int SC_RES_INFO_NUM_MAX_CTNT"
    and d: "down_new os url s = Some (st, s')"
  shows "st = HTTP_SP_STATUS_OK \<and> (\<exists>i c r w. only_new (sc_res_info_list s) i c (sc_res_info_list s')
     \<and> sc_res_gen_is_normal (Some (mg_common (mgmt (sc_res_info_list s') i)))
     \<and> ri_url (mg_common (mgmt (sc_res_info_list s') i)) = url \<and> sc_own s' c \<and> parent (ctnt (sc_res_info_list s') c) = Some i
     \<and> ri_url (sc_ri s' c) = url \<and> sc_ngx_download os url (ctnt_path s' c) (sc_world s) = Some (r, w)
     \<and> (sc_res_flag_is_i_fail (sc_ri s' c) \<longleftrightarrow> r \<noteq> 0) \<and> sc_world s' = w)"
proof -
  from add_normal_ctnt [OF inv u room, of os] obtain i rl c s2 where
    a: "sc_res_info_add_normal (sc_res_info_list s) url = Some (0, Some i, rl)"
      "state_add_ctnt os (Some i) (mgmt_url (s\<lparr>sc_res_info_list := rl\<rparr>) i) (s\<lparr>sc_res_info_list := rl\<rparr>) = Some ((0, Some c), s2)"
    and s2: "sc_inv s2" "mgmt_used (sc_res_info_list s2) i" "sc_own s2 c" "parent (ctnt (sc_res_info_list s2) c) = Some i" "ri_url (sc_ri s2 c) = url"
    and m: "sc_res_gen_is_normal (Some (mg_common (mgmt (sc_res_info_list s2) i)))" "ri_url (mg_common (mgmt (sc_res_info_list s2) i)) = url"
    and new: "only_new (sc_res_info_list s) i c (sc_res_info_list s2)" "sc_world s2 = sc_world s"
      "\<not> sc_res_flag_is_i_fail (sc_ri s2 c)"
    by metis
  from d a have fetch: "down_fetch os c s2 = Some s'" and st: "st = HTTP_SP_STATUS_OK"
    by (auto simp: down_new_def bind_Some_conv)
  have url: "ctnt_url s2 c = url" using s2(5) u by (simp add: ctnt_url_def downloadable_def)
  from fetch obtain r w where f: "sc_ngx_download os url (ctnt_path s2 c) (sc_world s) = Some (r, w)"
    and s': "s' = (if r \<noteq> 0 then set_ctnt_flag sc_res_flag_set_i_fail c (s2\<lparr>sc_world := w\<rparr>) else s2\<lparr>sc_world := w\<rparr>)"
    by (auto simp: down_fetch_def lift_world_def bind_Some_conv url new(2))
  have ct: "ctnt (sc_res_info_list s') = (ctnt (sc_res_info_list s2))(c := (ctnt (sc_res_info_list s2) c)
      \<lparr>ct_common := (if r \<noteq> 0 then sc_res_flag_set_i_fail else (\<lambda>x. x)) (sc_ri s2 c)\<rparr>)"
    and mg: "mgmt (sc_res_info_list s') = mgmt (sc_res_info_list s2)" and w: "sc_world s' = w"
    by (simp_all add: s' set_ctnt_flag_def upd_defs)
  have "only_new (sc_res_info_list s) i c (sc_res_info_list s')"
    using new(1) by (auto simp: only_new_def mgmt_used_def ctnt_used_def ct mg)
  moreover have "sc_own s' c" using s2(3) by (simp add: own_ctnt_def ctnt_used_def ct mg)
  moreover have "sc_res_flag_is_i_fail (sc_ri s' c) \<longleftrightarrow> r \<noteq> 0" using new(3) by (simp add: ct)
  moreover have "ctnt_path s' c = ctnt_path s2 c" by (simp add: ctnt_path_def ct)
  ultimately show ?thesis
    using f w st m s2(4,5) by (intro conjI exI [of _ i] exI [of _ c] exI [of _ r] exI [of _ w]) (simp_all add: ct mg)
qed

section \<open>Properties\<close>

text \<open>C4. Any number of rounds of the server that come back (a datagram that makes the code read or write
  outside a buffer is not one of them), whatever else arrives and whatever the sites and nginx answer:
  the list stays sound, every management entry that was there is still there, and the content entries
  of origins and of downloads are exactly as they were. Entries for loaded files are excepted: an
  entry of an origin may take one over, which removes it.\<close>

theorem serve_keeps_entries:
  assumes "sc_inv s" and "sc_snooping_serve n os sockfd junk s = Some s'"
  shows "sc_inv s' \<and> sc_evolves {} s s'"
proof -
  have "(serve_round os sockfd)\<^sup>*\<^sup>* s s'"
    using assms(2) serve_loop_rounds by (auto simp: sc_snooping_serve_def split: if_splits)
  with apart.steps_keep [of "serve_round os sockfd" s s'] serve_round_evolves assms(1) show ?thesis by blast
qed

text \<open>C5. A PARSE request for a page of a known site is recorded once: if its origin is in the list
  already or a slot is free, the origin is in the list afterwards, whatever became of the parsing,
  and the same request again, at any later time, comes back at once, changes nothing and is answered
  with OK. The first request has to come back: parsing the answers of the sites can fault.\<close>

theorem parse_recorded_once:
  assumes "sc_inv s" and "req_url_data req = Some url" and "sc_res_gen_origin_url url [] = Some (0, b)"
    and "sc_snooping_do_parse os sockfd sa junk req s = Some s'"
    and "mgmt_cnt (sc_res_info_list s) < int SC_RES_INFO_NUM_MAX_MGMT \<or> sc_res_info_find_mgmt (sc_res_info_list s) (cstr b) \<noteq> None"
    and "sc_evolves C s' s''"
  shows "sc_inv s' \<and> sc_res_info_find_mgmt (sc_res_info_list s') (cstr b) \<noteq> None
     \<and> sc_snooping_do_parse os' sockfd' sa' junk' req s'' = Some (serve_reply os' sockfd' sa' req HTTP_SP_STATUS_OK s'')"
proof -
  have u: "is_cstr url" by (rule req_url_cstr [OF assms(2)])
  have inv': "sc_inv s'" by (rule sc_evolves_inv [OF assms(1) do_parse_evolves [OF assms(1,4)]])
  have found: "sc_res_info_find_mgmt (sc_res_info_list s') (cstr b) \<noteq> None"
    using assms(4)
  proof (cases "sc_res_info_find_mgmt (sc_res_info_list s) (cstr b)")
    case None
    with assms(2-5) obtain st s1 where "parse_new_origin os junk (cstr b) s = Some (st, s1)" "s' = serve_reply os sockfd sa req st s1"
      by (auto simp: sc_snooping_do_parse_def bind_Some_conv)
    with parse_new_found(1) [OF assms(1) u assms(3)] assms(5) None show ?thesis by auto
  next
    case (Some i)
    with assms(2-4) show ?thesis by (auto simp: sc_snooping_do_parse_def)
  qed
  obtain i where "sc_res_info_find_mgmt (sc_res_info_list s'') (cstr b) = Some i"
    using find_mgmt_evolves [OF inv' assms(6) found gen_origin_ok(5) [OF assms(3) u]] by blast
  with assms(2,3) have "sc_snooping_do_parse os' sockfd' sa' junk' req s'' = Some (serve_reply os' sockfd' sa' req HTTP_SP_STATUS_OK s'')"
    by (simp add: sc_snooping_do_parse_def)
  with inv' found show ?thesis by blast
qed


text \<open>A datagram, and a world in which it is the next one to arrive.\<close>

definition demo_datagram :: "u8 \<Rightarrow> string \<Rightarrow> buf" where
  "demo_datagram act url = pkt_bytes (replicate 4 NUL @ bytes_u8 act @ replicate 5 NUL @ url)"

lemma demo_datagram_fields:
  assumes "is_cstr url" and "length url < HTTP_URL_MAX_LEN"
  shows "pkt_action (demo_datagram act url) = act" "pkt_url_len (demo_datagram act url) = 0"
    and "req_url_data (demo_datagram act url) = Some url" "length (demo_datagram act url) = SIZEOF_PKT"
proof -
  let ?b = "replicate 4 NUL @ bytes_u8 act @ replicate 5 NUL @ url"
  show "pkt_action (demo_datagram act url) = act"
    unfolding demo_datagram_def pkt_fields_bytes unfolding pkt_action_def by (subst get_u8_skip) (simp_all add: get_bytes_u8)
  have "get_u16 ((replicate 4 NUL @ bytes_u8 act @ replicate 3 NUL) @ (replicate 2 NUL @ url)) 8 = 0"
    by (subst get_u16_skip) (simp_all add: get_u16_def byte_at_def numeral_2_eq_2 ord_def)
  then show "pkt_url_len (demo_datagram act url) = 0"
    unfolding demo_datagram_def pkt_fields_bytes unfolding pkt_url_len_def by (simp add: numeral_eq_Suc)
  show l: "length (demo_datagram act url) = SIZEOF_PKT" by (simp add: demo_datagram_def)
  have "pkt_url_data (demo_datagram act url) = url"
    using assms pkt_url_data_bytes [of ?b] by (simp add: demo_datagram_def pkt_url_data_def hc_limits wire_codes)
  then show "req_url_data (demo_datagram act url) = Some url" using l by (simp add: req_url_data_def wire_codes)
qed

lemma demo_page: "sc_res_gen_origin_url demo_origin [] = Some (0, demo_origin @ [NUL])"
  by (simp add: sc_res_gen_origin_url_def sc_yk_gen_origin_url_def demo_origin_def site_tests contains_def yk_tags_def char_class_defs)

lemma demo_known:
  assumes "mgmt_used (sc_res_info_list s) 1023" and "ri_url (mg_common (mgmt (sc_res_info_list s) 1023)) = demo_origin"
  obtains i where "sc_res_info_find_mgmt (sc_res_info_list s) demo_origin = Some i"
  using find_mgmt_added [of "sc_res_info_list s" 1023 demo_origin] assms demo_urls(1) by auto

theorem serve_keeps_entries_witness:
  "\<exists>s s'. sc_snooping_serve 1 scripted 3 (\<lambda>_. []) s = Some s' \<and> sc_inv s' \<and> sc_evolves {} s s'
     \<and> answers (sc_world s) = [demo_datagram HTTP_SP2C_ACTION_PARSE demo_origin] \<and> answers (sc_world s') = []"
proof -
  let ?d = "demo_datagram HTTP_SP2C_ACTION_PARSE demo_origin"
  let ?w = "\<lparr>answers = [?d], sent = [], opened = 0, closed = 0\<rparr>"
  note f = demo_datagram_fields [OF demo_urls(1,3)]
  from demo_state [of ?w] obtain s :: "script sc_state" where s: "sc_inv s" "sc_world s = ?w"
    and m: "mgmt_used (sc_res_info_list s) 1023" "ri_url (mg_common (mgmt (sc_res_info_list s) 1023)) = demo_origin" by blast
  obtain i where i: "sc_res_info_find_mgmt (sc_res_info_list s) demo_origin = Some i" by (rule demo_known [OF m])
  have ul: "set_pkt_url_len (ntohs (pkt_url_len ?d)) ?d = ?d"
    using pkt_set_get(3) [of ?d] f(2,4) by (simp add: wire_codes htons_def)
  have r: "os_recvfrom scripted 3 SC_SNOOPING_SND_RCV_BUF_LEN ?w = ((int SIZEOF_PKT, ?d, ''peer''), ?w\<lparr>answers := []\<rparr>)"
    using f(4) by (simp add: scripted_def script_recv_def wire_codes)
  have "\<exists>s'. serve_once scripted 3 [] s = Some s' \<and> answers (sc_world s') = []"
    using r s(2) f ul i demo_page demo_urls(1)
    by (auto simp: serve_once_def serve_packet_def Let_def sc_snooping_do_parse_def serve_reply_def sc_snooping_resp_to_sp_def
        hc_limits scripted_def split: prod.splits)
  then obtain s' where s': "sc_snooping_serve 1 scripted 3 (\<lambda>_. []) s = Some s'" "answers (sc_world s') = []"
    by (auto simp: sc_snooping_serve_def)
  with serve_keeps_entries [OF s(1) s'(1)] s(2) show ?thesis by (intro exI [of _ s] exI [of _ s']) simp
qed

theorem parse_recorded_once_witness:
  "\<exists>s s'. sc_snooping_do_parse scripted 3 ''peer'' [] (demo_datagram HTTP_SP2C_ACTION_PARSE demo_origin) s = Some s'
     \<and> sc_res_info_find_mgmt (sc_res_info_list s') demo_origin \<noteq> None"
proof -
  let ?d = "demo_datagram HTTP_SP2C_ACTION_PARSE demo_origin"
  note f = demo_datagram_fields [OF demo_urls(1,3)]
  from demo_state [of "\<lparr>answers = [], sent = [], opened = 0, closed = 0\<rparr>"] obtain s :: "script sc_state" where s: "sc_inv s"
    and m: "mgmt_used (sc_res_info_list s) 1023" "ri_url (mg_common (mgmt (sc_res_info_list s) 1023)) = demo_origin" by blast
  obtain i where i: "sc_res_info_find_mgmt (sc_res_info_list s) demo_origin = Some i" by (rule demo_known [OF m])
  have c: "cstr (demo_origin @ [NUL]) = demo_origin" using demo_urls(1) by simp
  obtain s' where p: "sc_snooping_do_parse scripted 3 ''peer'' [] ?d s = Some s'"
    using f(3) i demo_page c by (simp add: sc_snooping_do_parse_def)
  have "sc_evolves {} s' s'" using sc_evolves_inv [OF s do_parse_evolves [OF s p]] by blast
  with parse_recorded_once [OF s f(3) demo_page p _ this] i p show ?thesis
    unfolding c by (intro exI [of _ s] exI [of _ s'] conjI) auto
qed


end
