(* ===== verification/Getfile_Module.thy ===== *)
theory Getfile_Module
  imports Http_Session
begin

text \<open>
  The nginx module \<^verbatim>\<open>ngx_http_getfile_module.c\<close>, which fetches a file from a video server when
  the client asks for \<open>/getfile?host/uri?localpath=path\<close>. A request is its argument string, as
  nginx has split it off, and the bytes that follow it in the request buffer, since several loops
  of the module look for a character and not at the length. The nginx services it calls (memory,
  the upstream machinery) are parameters: whether they succeed.
\<close>

section \<open>Requests\<close>

record ngx_request =
  ngx_args :: string
  ngx_rest :: string
  ngx_is_getfile :: bool

text \<open>Result codes of nginx.\<close>

definition NGX_OK :: int where "NGX_OK = 0"
definition NGX_ERROR :: int where "NGX_ERROR = - 1"
definition NGX_AGAIN :: int where "NGX_AGAIN = - 2"
definition NGX_DONE :: int where "NGX_DONE = - 4"
definition NGX_DECLINED :: int where "NGX_DECLINED = - 5"
definition NGX_HTTP_OK :: int where "NGX_HTTP_OK = 200"
definition NGX_HTTP_FORBIDDEN :: int where "NGX_HTTP_FORBIDDEN = 403"
definition NGX_HTTP_NOT_FOUND :: int where "NGX_HTTP_NOT_FOUND = 404"
definition NGX_HTTP_NOT_ALLOWED :: int where "NGX_HTTP_NOT_ALLOWED = 405"
definition NGX_HTTP_INTERNAL_SERVER_ERROR :: int where "NGX_HTTP_INTERNAL_SERVER_ERROR = 500"

declare NGX_OK_def [hc_codes] NGX_ERROR_def [hc_codes] NGX_AGAIN_def [hc_codes] NGX_DONE_def [hc_codes]
  NGX_DECLINED_def [hc_codes] NGX_HTTP_OK_def [hc_codes] NGX_HTTP_FORBIDDEN_def [hc_codes]
  NGX_HTTP_NOT_FOUND_def [hc_codes] NGX_HTTP_NOT_ALLOWED_def [hc_codes] NGX_HTTP_INTERNAL_SERVER_ERROR_def [hc_codes]

definition BUFLEN :: nat where "BUFLEN = 64"
definition BUFLEN_L :: nat where "BUFLEN_L = 512"
definition IP_ADDR_LEN_MAX :: nat where "IP_ADDR_LEN_MAX = 15"
definition IP_ADDR_LEN_MIN :: nat where "IP_ADDR_LEN_MIN = 7"
definition FILE_URL_LEN_MIN :: nat where "FILE_URL_LEN_MIN = 21"

lemmas getfile_limits = BUFLEN_def BUFLEN_L_def IP_ADDR_LEN_MAX_def IP_ADDR_LEN_MIN_def FILE_URL_LEN_MIN_def

text \<open>The bytes from the start of the arguments on.\<close>

definition args_mem :: "ngx_request \<Rightarrow> string" where
  "args_mem r = ngx_args r @ ngx_rest r"

section \<open>The request to the video server\<close>

definition getfile_get_real_uri_from_uri :: "ngx_request \<Rightarrow> string" where
  "getfile_get_real_uri_from_uri r =
     (let u = dropWhile (\<lambda>c. c \<noteq> CHR ''/'') (ngx_args r) in
      if length u < BUFLEN_L then u else take (BUFLEN_L - 1) u)"

definition query_line_1 :: string where "query_line_1 = ''GET ''"
definition query_line_2 :: string where "query_line_2 = '' HTTP/1.0'' @ crlf @ ''Host: ''"
definition query_line_3 :: string where
  "query_line_3 = crlf @ ''User-Agent: Mozilla/5.0 (Windows NT 6.1; WOW64) AppleWebKit/537.36 ''
     @ ''(KHTML, like Gecko) Chrome/32.0.1700.107 Safari/537.36'' @ crlf @ ''Connection: close'' @ crlf @ crlf"

text \<open>The length of \<open>backendQueryLine\<close>, its conversions \<open>%s\<close> and \<open>%V\<close> included.\<close>

definition query_line_len :: nat where
  "query_line_len = length query_line_1 + length query_line_2 + length query_line_3 + 4"

text \<open>\<open>ngx_snprintf\<close> writes at most the given number of bytes; what it does not write of the new
  buffer is not initialised, here \<open>junk\<close>.\<close>

definition getfile_upstream_create_request :: "bool \<Rightarrow> bool \<Rightarrow> buf \<Rightarrow> string \<Rightarrow> ngx_request \<Rightarrow> string option" where
  "getfile_upstream_create_request buf_ok chain_ok junk host r =
     (let real_uri = cstr (getfile_get_real_uri_from_uri r);
          queryLineLen = query_line_len + length real_uri - 2 + length host - 2;
          text = query_line_1 @ real_uri @ query_line_2 @ host @ query_line_3
      in if \<not> buf_ok then None
         else if \<not> chain_ok then None
         else Some (take queryLineLen (take queryLineLen text @ drop (length text) junk)))"

section \<open>The host\<close>

text \<open>The loop ends at a slash or after 63 characters; it does not look at the length of the
  arguments, and past the end of the request buffer it is a fault.\<close>

definition getfile_get_host_from_uri :: "ngx_request \<Rightarrow> string option" where
  "getfile_get_host_from_uri r =
     (let h = take (BUFLEN - 1) (takeWhile (\<lambda>c. c \<noteq> CHR ''/'') (args_mem r)) in
      if CHR ''/'' \<in> set (take (BUFLEN - 1) (args_mem r)) \<or> BUFLEN - 1 < length (args_mem r) then Some h else None)"

definition suffix_is :: "string \<Rightarrow> string \<Rightarrow> bool" where
  "suffix_is args t \<longleftrightarrow> drop (length args - length t) args = t"

definition getfile_support_type :: "ngx_request \<Rightarrow> bool" where
  "getfile_support_type r =
     (let a = ngx_args r in
      suffix_is a ''flv'' \<or> suffix_is a ''mp4'' \<or> suffix_is a ''gif'' \<or> suffix_is a ''png'' \<or> suffix_is a ''jpg''
      \<or> suffix_is a ''zip'' \<or> suffix_is a ''ico'' \<or> suffix_is a ''html'' \<or> suffix_is a ''mov'')"

text \<open>\<open>asc\<close> has four bytes: a fifth digit in a row is written behind it, and so is a terminator
  at index 4 or above, which the test of \<open>digits\<close> excludes.\<close>

fun ip_addr_loop :: "string \<Rightarrow> nat \<Rightarrow> string \<Rightarrow> (bool \<times> nat \<times> string) option" where
  "ip_addr_loop [] dot_cnt asc = Some (True, dot_cnt, asc)"
| "ip_addr_loop (c # cs) dot_cnt asc =
     (if c = CHR ''.'' then
        if length asc > 3 \<or> length asc < 1 then Some (False, dot_cnt, asc)
        else if dec_val asc > 255 then Some (False, dot_cnt, asc)
        else if dot_cnt + 1 > 3 then Some (False, dot_cnt + 1, [])
        else ip_addr_loop cs (dot_cnt + 1) []
      else if \<not> isdigit c then Some (False, dot_cnt, asc)
      else if length asc \<ge> 4 then None
      else ip_addr_loop cs dot_cnt (asc @ [c]))"

definition getfile_host_is_ip_addr :: "string \<Rightarrow> bool option" where
  "getfile_host_is_ip_addr host =
     (if length host > IP_ADDR_LEN_MAX \<or> length host < IP_ADDR_LEN_MIN then Some False
      else do {
        (go, dot_cnt, asc) \<leftarrow> ip_addr_loop host 0 [];
        Some (go \<and> dot_cnt = 3 \<and> \<not> (length asc > 3 \<or> length asc < 1) \<and> \<not> dec_val asc > 255)
      })"

section \<open>The configuration of a location\<close>

text \<open>What \<open>ngx_http_getfile_create_loc_conf\<close> sets; every other field of the structure is zero, among
  them \<open>next_upstream\<close>, \<open>ignore_headers\<close>, \<open>change_buffering\<close> and the cache, so that a failed
  download is not tried elsewhere and no header of the answer is passed over. \<open>store_access\<close> is unset.\<close>

record getfile_conf =
  gc_connect_timeout :: nat
  gc_send_timeout :: nat
  gc_read_timeout :: nat
  gc_store_access :: "nat option"
  gc_buffering :: bool
  gc_store :: bool
  gc_bufs_num :: nat
  gc_bufs_size :: nat
  gc_buffer_size :: nat
  gc_busy_buffers_size :: nat
  gc_temp_file_write_size :: nat
  gc_max_temp_file_size :: nat

definition ngx_http_getfile_create_loc_conf :: "bool \<Rightarrow> nat \<Rightarrow> getfile_conf option" where
  "ngx_http_getfile_create_loc_conf alloc pagesize =
     (if \<not> alloc then None
      else Some \<lparr>gc_connect_timeout = 60000, gc_send_timeout = 60000, gc_read_timeout = 60000, gc_store_access = None,
        gc_buffering = True, gc_store = True, gc_bufs_num = 8, gc_bufs_size = pagesize, gc_buffer_size = pagesize,
        gc_busy_buffers_size = 2 * pagesize, gc_temp_file_write_size = 2 * pagesize,
        gc_max_temp_file_size = 1024 * 1024 * 1024\<rparr>)"

text \<open>The two services of nginx that are called may fail; \<open>0600\<close> is octal.\<close>

definition ngx_http_getfile_merge_loc_conf :: "bool \<Rightarrow> bool \<Rightarrow> getfile_conf \<Rightarrow> getfile_conf \<Rightarrow> getfile_conf option" where
  "ngx_http_getfile_merge_loc_conf hide_ok path_ok prev conf =
     (if \<not> hide_ok then None
      else if \<not> path_ok then None
      else Some (conf\<lparr>gc_store_access := Some (case gc_store_access conf of
          Some a \<Rightarrow> a
        | None \<Rightarrow> (case gc_store_access prev of Some a \<Rightarrow> a | None \<Rightarrow> 384))\<rparr>))"

section \<open>The handler\<close>

text \<open>Where the upstream connection goes: an address used directly, or a name to resolve.\<close>

datatype ngx_peer = ByAddr string | ByName string

record ngx_services =
  ctx_ok :: bool
  upstream_ok :: bool
  pipe_ok :: bool
  resolved_ok :: bool

definition ngx_http_getfile_handler :: "ngx_services \<Rightarrow> ngx_request \<Rightarrow> (int \<times> ngx_peer option \<times> ngx_request) option" where
  "ngx_http_getfile_handler sv r =
     (if \<not> ctx_ok sv then Some (NGX_ERROR, None, r)
      else if length (ngx_args r) < FILE_URL_LEN_MIN then Some (NGX_ERROR, None, r)
      else if \<not> getfile_support_type r then Some (NGX_ERROR, None, r)
      else if \<not> upstream_ok sv then Some (NGX_ERROR, None, r)
      else
        let r1 = r\<lparr>ngx_is_getfile := True\<rparr> in
        if \<not> pipe_ok sv then Some (NGX_HTTP_INTERNAL_SERVER_ERROR, None, r1)
        else if \<not> resolved_ok sv then Some (NGX_ERROR, None, r1)
        else do {
          host \<leftarrow> getfile_get_host_from_uri r1;
          ip \<leftarrow> getfile_host_is_ip_addr (cstr host);
          Some (NGX_DONE, Some (if ip then ByAddr (cstr host) else ByName host), r1)
        })"

section \<open>Dotted quads\<close>

definition octet :: "string \<Rightarrow> bool" where
  "octet s \<longleftrightarrow> 1 \<le> length s \<and> length s \<le> 3 \<and> (\<forall>c \<in> set s. isdigit c) \<and> dec_val s \<le> 255"

definition dotted_quad :: "string \<Rightarrow> bool" where
  "dotted_quad h \<longleftrightarrow> (\<exists>a b c d. octet a \<and> octet b \<and> octet c \<and> octet d \<and> h = a @ ''.'' @ b @ ''.'' @ c @ ''.'' @ d)"

lemma isdigit_dot [simp]: "\<not> isdigit (CHR ''.'')"
  by (simp add: char_class_defs)

text \<open>An octet at the front of the host is read into the buffer.\<close>

lemma ip_addr_digits:
  "\<forall>c \<in> set s. isdigit c \<Longrightarrow> length asc + length s \<le> 4 \<Longrightarrow> ip_addr_loop (s @ t) n asc = ip_addr_loop t n (asc @ s)"
proof (induction s arbitrary: asc)
  case (Cons c s)
  then have "c \<noteq> CHR ''.''" by auto
  with Cons show ?case by auto
qed simp

lemma ip_addr_octet:
  assumes "octet s" and "n < 3"
  shows "ip_addr_loop (s @ ''.'' @ t) n [] = ip_addr_loop t (Suc n) []"
  using assms ip_addr_digits [of s "[]" "''.'' @ t" n] by (auto simp: octet_def)

text \<open>What the loop has read when it gets through.\<close>

fun quads :: "nat \<Rightarrow> string \<Rightarrow> string \<Rightarrow> bool" where
  "quads 0 h r \<longleftrightarrow> h = r"
| "quads (Suc n) h r \<longleftrightarrow> (\<exists>a t. octet a \<and> h = a @ ''.'' @ t \<and> quads n t r)"

lemma ip_addr_loop_through:
  "ip_addr_loop h n asc = Some (True, m, d) \<Longrightarrow> \<forall>c \<in> set asc. isdigit c \<Longrightarrow>
     n \<le> m \<and> quads (m - n) (asc @ h) d \<and> (\<forall>c \<in> set d. isdigit c)"
proof (induction h n asc rule: ip_addr_loop.induct)
  case (1 n asc)
  then show ?case by simp
next
  case (2 c cs n asc)
  show ?case
  proof (cases "c = CHR ''.''")
    case True
    with "2.prems"(1) have ok: "length asc \<le> 3" "1 \<le> length asc" "dec_val asc \<le> 255" "ip_addr_loop cs (n + 1) [] = Some (True, m, d)"
      "\<not> n + 1 > 3" by (auto simp: Suc_le_eq split: if_splits)
    have "asc \<noteq> []" using ok(2) by auto
    with "2.IH"(1) [OF True] ok have q: "Suc n \<le> m" "quads (m - Suc n) cs d" "\<forall>c \<in> set d. isdigit c" by auto
    have "octet asc" using ok "2.prems"(2) by (simp add: octet_def)
    moreover have "m - n = Suc (m - Suc n)" using q(1) by simp
    ultimately have "quads (m - n) (asc @ c # cs) d" using True q(2) by auto
    with q show ?thesis by simp
  next
    case False
    with "2.prems"(1) have ok: "isdigit c" "\<not> length asc \<ge> 4" "ip_addr_loop cs n (asc @ [c]) = Some (True, m, d)"
      by (auto split: if_splits)
    from "2.IH"(2) [OF False _ _ ok(3)] ok "2.prems"(2) show ?thesis by auto
  qed
qed

lemma octet_length: "octet s \<Longrightarrow> 1 \<le> length s \<and> length s \<le> 3"
  by (simp add: octet_def)

lemma dotted_quad_accepted:
  assumes "dotted_quad h"
  shows "getfile_host_is_ip_addr h = Some True"
proof -
  from assms obtain a b c d where o: "octet a" "octet b" "octet c" "octet d" and h: "h = a @ ''.'' @ b @ ''.'' @ c @ ''.'' @ d"
    by (auto simp: dotted_quad_def)
  have "ip_addr_loop h 0 [] = ip_addr_loop d 3 []"
    using ip_addr_octet [OF o(1), of 0 "b @ ''.'' @ c @ ''.'' @ d"] ip_addr_octet [OF o(2), of 1 "c @ ''.'' @ d"]
      ip_addr_octet [OF o(3), of 2 d] by (simp add: h numeral_3_eq_3 numeral_2_eq_2)
  also have "\<dots> = Some (True, 3, d)" using ip_addr_digits [of d "[]" "[]" 3] o(4) by (simp add: octet_def)
  finally have l: "ip_addr_loop h 0 [] = Some (True, 3, d)" .
  have "7 \<le> length h" "length h \<le> 15" using octet_length [OF o(1)] octet_length [OF o(2)] octet_length [OF o(3)] octet_length [OF o(4)]
    by (simp_all add: h)
  with l o(4) show ?thesis by (auto simp: getfile_host_is_ip_addr_def getfile_limits octet_def)
qed

section \<open>Properties\<close>

text \<open>C37. The test of an IP address is right where it is defined: it answers yes exactly for the
  strings that are four numbers of one to three digits, none above 255, separated by dots. On a host
  of seven to fifteen characters that starts with five digits it writes beyond its buffer of four
  bytes.\<close>

theorem host_is_ip_addr_exact:
  "(getfile_host_is_ip_addr h = Some True \<longleftrightarrow> dotted_quad h)
   \<and> (\<forall>d t. (\<forall>c \<in> set d. isdigit c) \<and> length d = 5 \<and> 2 \<le> length t \<and> length t \<le> 10 \<longrightarrow>
        getfile_host_is_ip_addr (d @ t) = None)"
proof (intro conjI iffI allI impI dotted_quad_accepted)
  assume "getfile_host_is_ip_addr h = Some True"
  then obtain d where l: "ip_addr_loop h 0 [] = Some (True, 3, d)" and d: "length d \<le> 3" "1 \<le> length d" "dec_val d \<le> 255"
    by (auto simp: getfile_host_is_ip_addr_def bind_Some_conv Suc_le_eq split: if_splits)
  from ip_addr_loop_through [OF l] have q: "quads 3 h d" "\<forall>c \<in> set d. isdigit c" by auto
  with d have "octet d" by (simp add: octet_def)
  with q(1) show "dotted_quad h" by (auto simp: dotted_quad_def numeral_3_eq_3)
next
  fix d t :: string
  assume a: "(\<forall>c \<in> set d. isdigit c) \<and> length d = 5 \<and> 2 \<le> length t \<and> length t \<le> 10"
  then have d: "d = take 4 d @ [d ! 4]" using take_Suc_conv_app_nth [of 4 d] by simp
  have dg: "\<forall>c \<in> set (take 4 d). isdigit c" "isdigit (d ! 4)" using a by (auto dest: in_set_takeD)
  then have "d ! 4 \<noteq> CHR ''.''" by auto
  moreover have "ip_addr_loop (take 4 d @ [d ! 4] @ t) 0 [] = ip_addr_loop ([d ! 4] @ t) 0 (take 4 d)"
    using ip_addr_digits [of "take 4 d" "[]" "[d ! 4] @ t" 0] dg(1) a by simp
  ultimately have "ip_addr_loop ((take 4 d @ [d ! 4]) @ t) 0 [] = None" using dg a by simp
  then have "ip_addr_loop (d @ t) 0 [] = None" using d by simp
  with a show "getfile_host_is_ip_addr (d @ t) = None" by (simp add: getfile_host_is_ip_addr_def getfile_limits)
qed

theorem host_is_ip_addr_exact_witness:
  "getfile_host_is_ip_addr ''101.226.245.141'' = Some True \<and> getfile_host_is_ip_addr ''12345.6.7'' = None"
proof -
  have "dotted_quad ''101.226.245.141''"
    unfolding dotted_quad_def
    by (intro exI [of _ "''101''"] exI [of _ "''226''"] exI [of _ "''245''"] exI [of _ "''141''"])
      (simp add: octet_def dec_val_def char_class_defs)
  moreover have "(\<forall>c \<in> set ''12345''. isdigit c) \<and> length ''12345'' = 5 \<and> 2 \<le> length ''.6.7'' \<and> length ''.6.7'' \<le> 10"
    by (simp add: char_class_defs)
  ultimately show ?thesis
    using host_is_ip_addr_exact [of "''101.226.245.141''"] host_is_ip_addr_exact [of "[]"] by (metis append_Cons append_Nil)
qed

end
