(* ===== verification/Ngx_Hooks.thy ===== *)
theory Ngx_Hooks
  imports Getfile_Module Evolution
begin

text \<open>
  What nginx does to the shared resource list when a download it made for the client ends: the
  code added to \<^verbatim>\<open>ngx_http_upstream.c\<close> (\<open>ngx_http_upstream_process_request\<close> marks the entry as
  stored, \<open>ngx_http_upstream_finalize_request\<close> marks it as failed) and to
  \<^verbatim>\<open>ngx_http_core_module.c\<close> (\<open>ngx_http_map_uri_to_path\<close> names the file), and the start of
  \<^verbatim>\<open>nginx.c\<close>, which attaches the list. Of the upstream object only the fields the added code looks
  at are kept. The list is the one the client works on: both
  processes attach the same memory.
\<close>

section \<open>The shared segment\<close>

text \<open>At its start nginx attaches the segment of the client, or ends with 1; so
  \<open>sc_resource_info_list\<close> is not NULL where the hooks test it. When attaching fails it also asks
  for the segment to be removed.\<close>

definition ngx_attach :: "'w os \<Rightarrow> 'w \<Rightarrow> (int \<times> ulong option) \<times> 'w" where
  "ngx_attach os w =
     (case os_shmget os w of (shmid, w1) \<Rightarrow>
        if shmid < 0 then ((1, None), w1)
        else case os_shmat os shmid w1 of (p, w2) \<Rightarrow>
          if p = INVALID_PTR then ((1, None), snd (os_shmctl os shmid w2))
          else ((0, Some p), w2))"

section \<open>The path a request names\<close>

text \<open>The arguments are not terminated; \<open>strstr\<close> reads on to the next NUL, and the length that
  is left is an unsigned number, which wraps when the match lies behind the arguments.\<close>

definition localpath_tag :: string where "localpath_tag = ''localpath=''"

definition args_localpath :: "ngx_request \<Rightarrow> (string \<times> nat) option" where
  "args_localpath r = (let m = cstr (args_mem r) in
     case strstr m localpath_tag of
       None \<Rightarrow> None
     | Some t \<Rightarrow> Some (drop 10 t, nat ((int (length (ngx_args r)) - int (length m - length t) - 10) mod 2 ^ 64)))"

definition ngx_http_upstream_sc_res_match_localpath :: "sc_res_info_ctnt \<Rightarrow> string \<Rightarrow> nat \<Rightarrow> bool" where
  "ngx_http_upstream_sc_res_match_localpath act lp len \<longleftrightarrow> strncmp_eq (cstr (localpath act)) lp len"

definition mark_entry :: "(sc_res_info \<Rightarrow> sc_res_info) \<Rightarrow> ngx_request \<Rightarrow> sc_res_list \<Rightarrow> sc_res_list" where
  "mark_entry f r rl = (if \<not> ngx_is_getfile r then rl else
     case args_localpath r of
       None \<Rightarrow> rl
     | Some (lp, len) \<Rightarrow>
         (case find_from (\<lambda>i. ngx_http_upstream_sc_res_match_localpath (ctnt rl i) lp len) 0 SC_RES_INFO_NUM_MAX_CTNT of
            None \<Rightarrow> rl
          | Some i \<Rightarrow> if sc_res_flag_is_stored (ct_common (ctnt rl i)) then rl else upd_ctnt_ri i f rl))"

section \<open>The end of a download\<close>

record ngx_upstream =
  us_connection :: bool
  us_store :: bool
  upstream_eof :: bool
  upstream_done :: bool
  pipe_length :: int
  status_n :: nat
  content_length_n :: int
  temp_offset :: int
  temp_file :: bool

text \<open>The file is complete: status 200 and as many bytes as announced.\<close>

definition download_complete :: "ngx_upstream \<Rightarrow> bool" where
  "download_complete u \<longleftrightarrow> status_n u = 200 \<and> (upstream_done u \<or> pipe_length u = - 1)
     \<and> (content_length_n u = - 1 \<or> content_length_n u = temp_offset u)"

definition ngx_http_upstream_process_request :: "ngx_request \<Rightarrow> ngx_upstream \<Rightarrow> sc_res_list \<Rightarrow> ngx_upstream \<times> sc_res_list" where
  "ngx_http_upstream_process_request r u rl =
     (if us_connection u \<and> us_store u \<and> (upstream_eof u \<or> upstream_done u) \<and> download_complete u
      then (u\<lparr>us_store := False\<rparr>, mark_entry sc_res_flag_set_stored r rl) else (u, rl))"

definition ngx_http_upstream_finalize_request :: "ngx_request \<Rightarrow> ngx_upstream \<Rightarrow> sc_res_list \<Rightarrow> ngx_upstream \<times> sc_res_list" where
  "ngx_http_upstream_finalize_request r u rl =
     (let u1 = u\<lparr>us_connection := False\<rparr> in
      (u1, if us_store u \<and> temp_file u then mark_entry sc_res_flag_set_d_fail r rl else rl))"

text \<open>The page for an error: the first one configured for it, except that a bad gateway always gets
  the built-in page, which \<open>None\<close> stands for; with the new value of \<open>r->error_page\<close>.\<close>

definition NGX_HTTP_BAD_GATEWAY :: int where "NGX_HTTP_BAD_GATEWAY = 502"

definition special_error_page ::
  "bool \<Rightarrow> bool \<Rightarrow> bool \<Rightarrow> (int \<times> string) list option \<Rightarrow> int \<Rightarrow> bool \<times> string option" where
  "special_error_page recursive in_error_page uri_changes_left error_pages error =
     (case error_pages of
        None \<Rightarrow> (in_error_page, None)
      | Some pages \<Rightarrow>
          if in_error_page \<or> \<not> uri_changes_left then (in_error_page, None)
          else (\<not> recursive,
            case find (\<lambda>(status, page). status = error) pages of
              None \<Rightarrow> None
            | Some (status, page) \<Rightarrow> if error = NGX_HTTP_BAD_GATEWAY then None else Some page))"

text \<open>The room for the name of a file: the root, the URI and the terminator.\<close>

definition path_alloc :: "string \<Rightarrow> string \<Rightarrow> nat" where
  "path_alloc root uri = length root + length uri + 1"

text \<open>The name of the stored file: the root of the location, a slash and the path. The number of
  bytes to copy, the terminator included, is kept in an \<open>unsigned int\<close>. With it comes the size of the
  allocation; nothing compares the text with it.\<close>

definition ngx_http_map_uri_to_path :: "string \<Rightarrow> string \<Rightarrow> ngx_request \<Rightarrow> nat \<times> string" where
  "ngx_http_map_uri_to_path root uri r =
     (path_alloc root uri,
      if \<not> ngx_is_getfile r then root @ uri else
      case args_localpath r of
        None \<Rightarrow> root @ uri
      | Some (lp, len) \<Rightarrow> root @ ''/'' @ take ((len + 1) mod 2 ^ 32 - 1) lp)"

section \<open>The list stays sound\<close>

lemma tree_free_flag:
  assumes t: "res_tree rl fm fc ch" and c: "c \<in> set fc" and f: "\<And>ri. \<exists>x. f ri = ri\<lparr>ri_flag := x\<rparr>"
  shows "res_tree (upd_ctnt_ri c f rl) fm fc ch"
proof -
  let ?rl = "upd_ctnt_ri c f rl"
  have id: "ri_id (f ri) = ri_id ri" "ri_url (f ri) = ri_url ri" for ri using f [of ri] by auto
  have same: "k \<notin> set fc \<Longrightarrow> ctnt ?rl k = ctnt rl k" for k using c by (auto simp: upd_defs)
  have fields: "ri_id (ct_common (ctnt ?rl k)) = ri_id (ct_common (ctnt rl k))" "ri_url (ct_common (ctnt ?rl k)) = ri_url (ct_common (ctnt rl k))"
    "localpath (ctnt ?rl k) = localpath (ctnt rl k)" "siblings (ctnt ?rl k) = siblings (ctnt rl k)" "parent (ctnt ?rl k) = parent (ctnt rl k)"
    for k using id by (auto simp: upd_defs)
  have frame: "mgmt ?rl = mgmt rl" "rl_addr ?rl = rl_addr rl" "mgmt_free ?rl = mgmt_free rl" "mgmt_cnt ?rl = mgmt_cnt rl"
    "ctnt_free ?rl = ctnt_free rl" "ctnt_cnt ?rl = ctnt_cnt rl" by (simp_all add: upd_defs)
  have ptr: "mgmt_ptr ?rl = mgmt_ptr rl" "ctnt_ptr ?rl = ctnt_ptr rl"
    by (simp_all add: fun_eq_iff mgmt_ptr_def ctnt_ptr_def mgmt_base_def ctnt_base_def frame)
  have rest: "mgmt ?rl = mgmt rl" "mgmt_pool ?rl fm = mgmt_pool rl fm" "ctnt_pool ?rl fc = ctnt_pool rl fc"
    unfolding mgmt_pool_def ctnt_pool_def frame ptr fields by (rule refl)+
  have ok: "mgmt_ok ?rl i cs = mgmt_ok rl i cs" for i cs using mgmt_ok_cong [of ?rl i rl cs] rest fields by simp
  note D = res_treeD [OF t]
  have kids: "sc_res_flag_is_stored (ct_common (ctnt ?rl k))"
    if "k \<in> set (ch i)" "sc_res_gen_is_ctrl_ld (Some (mg_common (mgmt rl i)))" for i k
    using D(6) [OF that(1)] D(7) [OF that] same by simp
  have used: "ctnt_fields_ok k (ctnt ?rl k) \<and> (\<exists>i. k \<in> set (ch i))" if "k < SC_RES_INFO_NUM_MAX_CTNT" "k \<notin> set fc" for k
    using D(8,9) [OF that] same that(2) by simp
  show ?thesis
    unfolding res_tree_def rest ok fields using D(1-6) kids used by simp
qed

lemma mark_flag_evolves:
  assumes inv: "res_inv rl" and i: "i < SC_RES_INFO_NUM_MAX_CTNT"
    and f: "f = sc_res_flag_set_stored \<or> f = sc_res_flag_set_d_fail"
  shows "evolves {i} rl (upd_ctnt_ri i f rl)"
proof (cases "ctnt_used rl i")
  case True
  show ?thesis
    by (rule evolves_flag [OF inv True]) (use f in \<open>auto simp: flag_updates flag_bits flag_exp bit_simps\<close>)
next
  case False
  from inv obtain fm fc ch where t: "res_tree rl fm fc ch" by (auto simp: res_inv_def)
  have t': "res_tree (upd_ctnt_ri i f rl) fm fc ch"
    by (rule tree_free_flag [OF t]) (use False i f in \<open>auto simp: ctnt_used_iff [OF t] flag_updates\<close>)
  have "ctnt (upd_ctnt_ri i f rl) c = ctnt rl c" if "own_ctnt rl c" for c
    using that False by (auto simp: upd_defs own_ctnt_def)
  moreover have "ctnt_used (upd_ctnt_ri i f rl) c = ctnt_used rl c" "mgmt_used (upd_ctnt_ri i f rl) j = mgmt_used rl j" for c j
    by (simp_all add: mgmt_used_iff [OF t] mgmt_used_iff [OF t'] ctnt_used_iff [OF t] ctnt_used_iff [OF t'])
  moreover have "mgmt (upd_ctnt_ri i f rl) = mgmt rl" by (simp add: upd_defs)
  ultimately show ?thesis using res_invI [OF t'] by (simp add: evolves_def own_ctnt_def)
qed

lemma mark_entry_evolves:
  assumes "res_inv rl" and "f = sc_res_flag_set_stored \<or> f = sc_res_flag_set_d_fail"
  shows "evolves UNIV rl (mark_entry f r rl)"
proof -
  have "evolves UNIV rl (upd_ctnt_ri i f rl)" if "i < SC_RES_INFO_NUM_MAX_CTNT" for i
    using evolves_mono [OF mark_flag_evolves [OF assms(1) that assms(2)]] by simp
  with evolves_refl [OF assms(1)] show ?thesis
    by (auto simp: mark_entry_def split: option.splits prod.splits dest!: find_from_SomeD)
qed

section \<open>The requests of the client\<close>

text \<open>What nginx has of a request that \<open>sc_ngx_build_get\<close> wrote: the arguments end at the space.\<close>

definition client_request :: "string \<Rightarrow> string \<Rightarrow> string \<Rightarrow> ngx_request" where
  "client_request ip uri lp = \<lparr>
     ngx_args = uri @ (if strchr uri (CHR ''?'') \<noteq> None then ''&'' else ''?'') @ localpath_tag @ lp,
     ngx_rest = ngx_get_2 @ ip @ ngx_get_3, ngx_is_getfile = True\<rparr>"

lemma client_request_sent:
  assumes "sc_ngx_build_get ip uri lp [] len = (0, b)" and "is_cstr ip" "is_cstr uri" "is_cstr lp"
  shows "cstr b = ngx_get_1 @ args_mem (client_request ip uri lp)"
proof -
  let ?t = "ngx_get_1 @ args_mem (client_request ip uri lp)"
  have "b = ?t @ [NUL]"
    using assms(1) by (auto simp: sc_ngx_build_get_def Let_def client_request_def args_mem_def localpath_tag_def split: if_splits)
  moreover have "is_cstr ?t"
    using assms(2-4) by (simp add: client_request_def args_mem_def localpath_tag_def ngx_get_1_def ngx_get_2_def ngx_get_3_def crlf_def)
  ultimately show ?thesis using cstr_append_NUL [of ?t "[]"] by simp
qed

lemma strstr_behind:
  assumes "c \<notin> set n" and "n \<noteq> []"
  shows "\<not> contains a n \<Longrightarrow> strstr (a @ c # n @ post) n = Some (n @ post)"
proof (induction a)
  case Nil
  have "take (length n) (c # n @ post) \<noteq> n" using assms by (cases n) auto
  with strstr_prefix show ?case by simp
next
  case (Cons x a)
  have "take (length n) ((x # a) @ c # n @ post) \<noteq> n"
  proof
    assume e: "take (length n) ((x # a) @ c # n @ post) = n"
    show False
    proof (cases "length n \<le> length (x # a)")
      case True
      with e have "n = take (length n) (x # a)" by (subst (asm) take_append) simp
      then have "x # a = [] @ n @ drop (length n) (x # a)" by (metis append_Nil append_take_drop_id)
      with Cons.prems show False unfolding contains_iff by blast
    next
      case False
      then have "c \<in> set (take (length n) ((x # a) @ c # n @ post))" using assms(2) by (simp add: take_Cons' split: if_splits)
      with e assms(1) show False by simp
    qed
  qed
  moreover have "\<not> contains a n" using Cons.prems contains_append2 [of a n "[x]"] by auto
  ultimately show ?case using Cons.IH by simp
qed

lemma client_request_path:
  assumes "is_cstr ip" "is_cstr uri" "is_cstr lp" and "\<not> contains uri localpath_tag" and "length lp < SC_RES_LOCAL_PATH_MAX_LEN"
  shows "args_localpath (client_request ip uri lp) = Some (lp @ ngx_rest (client_request ip uri lp), length lp)"
proof -
  let ?r = "client_request ip uri lp" and ?c = "if strchr uri (CHR ''?'') \<noteq> None then CHR ''&'' else CHR ''?''"
  let ?p = "lp @ ngx_rest ?r"
  have m: "args_mem ?r = uri @ ?c # localpath_tag @ ?p" by (simp add: client_request_def args_mem_def)
  have "is_cstr (args_mem ?r)"
    using assms(1-3) by (simp add: client_request_def args_mem_def localpath_tag_def ngx_get_2_def ngx_get_3_def crlf_def)
  moreover have "strstr (args_mem ?r) localpath_tag = Some (localpath_tag @ ?p)"
    unfolding m by (rule strstr_behind) (use assms(4) in \<open>auto simp: localpath_tag_def\<close>)
  moreover have "length (args_mem ?r) - length (localpath_tag @ ?p) = Suc (length uri)" by (simp add: m)
  moreover have "int (length (ngx_args ?r)) - int (Suc (length uri)) - 10 = int (length lp)"
    by (simp add: client_request_def localpath_tag_def)
  ultimately show ?thesis using assms(5) by (simp add: args_localpath_def Let_def localpath_tag_def hc_limits)
qed

text \<open>What the end of a download records: that the file is stored, that the download has failed, or
  nothing. A download that fails before a byte is in a temporary file leaves no mark.\<close>

definition recorded_mark :: "ngx_upstream \<Rightarrow> (sc_res_info \<Rightarrow> sc_res_info) option" where
  "recorded_mark u =
     (if us_connection u \<and> us_store u \<and> (upstream_eof u \<or> upstream_done u) \<and> download_complete u then Some sc_res_flag_set_stored
      else if us_store u \<and> temp_file u then Some sc_res_flag_set_d_fail else None)"

lemma recorded_mark_flag: "recorded_mark u = Some f \<Longrightarrow> f = sc_res_flag_set_stored \<or> f = sc_res_flag_set_d_fail"
  by (auto simp: recorded_mark_def split: if_splits)

lemma download_marks:
  assumes "res_inv rl" and "lp \<noteq> []" and "is_cstr ip" "is_cstr uri" "is_cstr lp" and "\<not> contains uri localpath_tag"
    and "length lp < SC_RES_LOCAL_PATH_MAX_LEN" and "r = client_request ip uri lp"
    and "k < SC_RES_INFO_NUM_MAX_CTNT" and "prefix lp (cstr (localpath (ctnt rl k)))"
    and "\<forall>j < k. \<not> prefix lp (cstr (localpath (ctnt rl j)))"
    and "ngx_http_upstream_process_request r u rl = (u1, rl1)" and "ngx_http_upstream_finalize_request r u1 rl1 = (u2, rl2)"
  shows "rl2 = (if sc_res_flag_is_stored (ct_common (ctnt rl k)) then rl
           else case recorded_mark u of None \<Rightarrow> rl | Some f \<Rightarrow> upd_ctnt_ri k f rl)
     \<and> evolves {k} rl rl2 \<and> ctnt_used rl k
     \<and> snd (ngx_http_map_uri_to_path (butlast SC_NGX_ROOT_PATH) x r) = SC_NGX_ROOT_PATH @ lp"
proof -
  have al: "args_localpath r = Some (lp @ ngx_rest r, length lp)" and g: "ngx_is_getfile r"
    using client_request_path [OF assms(3-7)] assms(8) by (simp_all add: client_request_def)
  have match: "ngx_http_upstream_sc_res_match_localpath ct (lp @ q) (length lp) \<longleftrightarrow> prefix lp (cstr (localpath ct))" for ct q
    by (auto simp: ngx_http_upstream_sc_res_match_localpath_def strncmp_eq_def prefix_def) (metis append_take_drop_id)
  have "find_from (\<lambda>i. ngx_http_upstream_sc_res_match_localpath (ctnt rl i) (lp @ ngx_rest r) (length lp)) 0 SC_RES_INFO_NUM_MAX_CTNT = Some k"
    by (rule find_from_eqI) (use assms(9-11) match in auto)
  then have mark: "mark_entry f r rl = (if sc_res_flag_is_stored (ct_common (ctnt rl k)) then rl else upd_ctnt_ri k f rl)" for f
    using al g by (simp add: mark_entry_def)
  have rl2: "rl2 = (if sc_res_flag_is_stored (ct_common (ctnt rl k)) then rl
           else case recorded_mark u of None \<Rightarrow> rl | Some f \<Rightarrow> upd_ctnt_ri k f rl)"
    using assms(12,13) mark
    by (auto simp: ngx_http_upstream_process_request_def ngx_http_upstream_finalize_request_def recorded_mark_def split: if_splits)
  moreover have "evolves {k} rl rl2"
    unfolding rl2 using mark_flag_evolves [OF assms(1,9)] evolves_refl [OF assms(1)] recorded_mark_flag [of u]
    by (auto split: option.splits)
  moreover have "ctnt_used rl k"
  proof -
    from assms(1) obtain fm fc ch where t: "res_tree rl fm fc ch" by (auto simp: res_inv_def)
    have "cstr (localpath (ctnt rl k)) \<noteq> []" using assms(2,10) by auto
    with res_treeD(4) [OF t, of k] assms(9) show ?thesis by (auto simp: ctnt_used_iff [OF t])
  qed
  moreover have "snd (ngx_http_map_uri_to_path (butlast SC_NGX_ROOT_PATH) x r) = SC_NGX_ROOT_PATH @ lp"
    using al g assms(7) by (simp add: ngx_http_map_uri_to_path_def SC_NGX_ROOT_PATH_def hc_limits)
  ultimately show ?thesis by blast
qed

section \<open>Properties\<close>

text \<open>C7. What the end of a download records. For a request the client built, nginx names the stored file
  as the client does. When the download ends, the first entry whose local path begins with the
  requested one is marked: as stored if the answer was read to its end, had status 200 and as many
  bytes as announced; as failed if not, provided that a byte had come into a temporary file; and
  never both. A download that fails earlier (no connection, an answer without a body) leaves no mark.
  An entry that is stored stays as it is, and so does everything else in the list, which stays sound.
  (An entry in a lower slot whose path only begins with the requested path is marked in place of the
  entry itself.)\<close>

theorem download_recorded:
  assumes "res_inv rl" and "lp \<noteq> []" and "is_cstr ip" "is_cstr uri" "is_cstr lp" and "\<not> contains uri localpath_tag"
    and "length lp < SC_RES_LOCAL_PATH_MAX_LEN" and "r = client_request ip uri lp"
    and "k < SC_RES_INFO_NUM_MAX_CTNT" and "prefix lp (cstr (localpath (ctnt rl k)))"
    and "\<forall>j < k. \<not> prefix lp (cstr (localpath (ctnt rl j)))"
    and "ngx_http_upstream_process_request r u rl = (u1, rl1)" and "ngx_http_upstream_finalize_request r u1 rl1 = (u2, rl2)"
  shows "rl2 = (if sc_res_flag_is_stored (ct_common (ctnt rl k)) then rl
           else if us_connection u \<and> us_store u \<and> (upstream_eof u \<or> upstream_done u) \<and> download_complete u
           then upd_ctnt_ri k sc_res_flag_set_stored rl
           else if us_store u \<and> temp_file u then upd_ctnt_ri k sc_res_flag_set_d_fail rl else rl)
     \<and> evolves {k} rl rl2 \<and> ctnt_used rl k
     \<and> snd (ngx_http_map_uri_to_path (butlast SC_NGX_ROOT_PATH) x r) = SC_NGX_ROOT_PATH @ lp"
  using download_marks [OF assms, of x] by (auto simp: recorded_mark_def split: if_splits)

text \<open>A list with one entry that waits for its file, and a download that has come to its end.\<close>

definition demo_path :: string where "demo_path = ''1_2_3_4/youku_657F3_030008-A.mp4''"

definition demo_upstream :: ngx_upstream where
  "demo_upstream = \<lparr>us_connection = True, us_store = True, upstream_eof = True, upstream_done = True, pipe_length = 0,
     status_n = 200, content_length_n = 7, temp_offset = 7, temp_file = True\<rparr>"

lemma demo_path_list:
  obtains rl fm fc ch where "res_tree rl fm fc ch" "set fc = {..<4095}" "cstr (localpath (ctnt rl 4095)) = demo_path"
    "\<not> sc_res_flag_is_stored (ct_common (ctnt rl 4095))" "own_ctnt rl 4095"
proof -
  define fm fc where "fm = rev [0..<1022 :: nat]" and "fc = rev [0..<4095 :: nat]"
  from demo_list obtain rl ch where t: "res_tree rl fm fc ch" and f: "\<not> sc_res_flag_is_stored (ct_common (ctnt rl 4095))"
    and p: "parent (ctnt rl 4095) = Some 1023" "sc_res_gen_is_origin (Some (mg_common (mgmt rl 1023)))" unfolding fm_def fc_def by blast
  have fc: "set fc = {..<4095}" unfolding fc_def set_rev set_upt by auto
  let ?rl = "upd_ctnt 4095 (\<lambda>ct. ct\<lparr>localpath := demo_path\<rparr>) rl"
  have k: "4095 < SC_RES_INFO_NUM_MAX_CTNT" "4095 \<notin> set fc" by (simp_all add: hc_limits fc)
  have dp: "cstr demo_path = demo_path" by (simp add: demo_path_def)
  have t': "res_tree ?rl fm fc ch"
    by (rule tree_upd_ctnt [OF t k]) (use res_treeD(8) [OF t k] dp in \<open>auto simp: ctnt_fields_ok_def confined_def hc_limits demo_path_def\<close>)
  have "ctnt_used ?rl 4095" using k by (simp add: ctnt_used_iff [OF t'])
  with that [OF t' fc] f p dp show ?thesis by (simp add: upd_defs own_ctnt_def kind_defs)
qed

text \<open>What the examples need of the names in that list.\<close>

lemma demo_names:
  assumes t: "res_tree rl fm fc ch" and fc: "set fc = {..<4095}" and d: "cstr (localpath (ctnt rl 4095)) = demo_path"
  obtains "prefix demo_path (cstr (localpath (ctnt rl 4095)))" "\<forall>j < 4095. \<not> prefix demo_path (cstr (localpath (ctnt rl j)))"
    "\<not> contains demo_content localpath_tag" "4095 < SC_RES_INFO_NUM_MAX_CTNT" "is_cstr demo_path" "demo_path \<noteq> []"
    "length demo_path < SC_RES_LOCAL_PATH_MAX_LEN"
proof
  show "prefix demo_path (cstr (localpath (ctnt rl 4095)))" unfolding d by (rule prefix_order.refl)
  show "\<forall>j < 4095. \<not> prefix demo_path (cstr (localpath (ctnt rl j)))" using res_treeD(4) [OF t] fc by (auto simp: demo_path_def)
  show "\<not> contains demo_content localpath_tag" by (simp add: demo_content_def localpath_tag_def contains_def)
qed (simp_all add: demo_path_def hc_limits)

lemma demo_stored:
  assumes "download_complete u" "us_connection u" "us_store u" "upstream_eof u" "temp_file u"
  shows "\<exists>rl u1 rl1 u2 rl2. ngx_http_upstream_process_request (client_request ''127.0.0.1'' demo_content demo_path) u rl = (u1, rl1)
     \<and> ngx_http_upstream_finalize_request (client_request ''127.0.0.1'' demo_content demo_path) u1 rl1 = (u2, rl2)
     \<and> \<not> sc_res_flag_is_stored (ct_common (ctnt rl 4095)) \<and> sc_res_flag_is_stored (ct_common (ctnt rl2 4095))"
proof -
  obtain rl fm fc ch where t: "res_tree rl fm fc ch" and fc: "set fc = {..<4095}" and d: "cstr (localpath (ctnt rl 4095)) = demo_path"
    and st: "\<not> sc_res_flag_is_stored (ct_common (ctnt rl 4095))" by (rule demo_path_list)
  obtain u1 rl1 u2 rl2 where p: "ngx_http_upstream_process_request (client_request ''127.0.0.1'' demo_content demo_path) u rl = (u1, rl1)"
    "ngx_http_upstream_finalize_request (client_request ''127.0.0.1'' demo_content demo_path) u1 rl1 = (u2, rl2)" by (metis prod.collapse)
  obtain h: "prefix demo_path (cstr (localpath (ctnt rl 4095)))" "\<forall>j < 4095. \<not> prefix demo_path (cstr (localpath (ctnt rl j)))"
    "\<not> contains demo_content localpath_tag" "4095 < SC_RES_INFO_NUM_MAX_CTNT" "is_cstr demo_path" "demo_path \<noteq> []"
    "length demo_path < SC_RES_LOCAL_PATH_MAX_LEN" by (rule demo_names [OF t fc d])
  have ip: "is_cstr ''127.0.0.1''" by simp
  have "rl2 = upd_ctnt_ri 4095 sc_res_flag_set_stored rl"
    using download_marks [OF res_invI [OF t] h(6) ip demo_urls(5) h(5,3,7) refl h(4,1,2) p, THEN conjunct1] st assms
    by (simp add: recorded_mark_def)
  then have "sc_res_flag_is_stored (ct_common (ctnt rl2 4095))" by (simp add: upd_defs)
  with st p show ?thesis by blast
qed

theorem download_recorded_witness:
  "\<exists>rl u1 rl1 u2 rl2. \<not> sc_res_flag_is_stored (ct_common (ctnt rl 4095)) \<and> sc_res_flag_is_stored (ct_common (ctnt rl2 4095))
     \<and> ngx_http_upstream_process_request (client_request ''127.0.0.1'' demo_content demo_path) demo_upstream rl = (u1, rl1)
     \<and> ngx_http_upstream_finalize_request (client_request ''127.0.0.1'' demo_content demo_path) u1 rl1 = (u2, rl2)"
proof -
  obtain rl fm fc ch where t: "res_tree rl fm fc ch" and fc: "set fc = {..<4095}" and d: "cstr (localpath (ctnt rl 4095)) = demo_path"
    and st: "\<not> sc_res_flag_is_stored (ct_common (ctnt rl 4095))" by (rule demo_path_list)
  obtain u1 rl1 u2 rl2 where p: "ngx_http_upstream_process_request (client_request ''127.0.0.1'' demo_content demo_path) demo_upstream rl = (u1, rl1)"
    "ngx_http_upstream_finalize_request (client_request ''127.0.0.1'' demo_content demo_path) u1 rl1 = (u2, rl2)" by (metis prod.collapse)
  obtain h: "prefix demo_path (cstr (localpath (ctnt rl 4095)))" "\<forall>j < 4095. \<not> prefix demo_path (cstr (localpath (ctnt rl j)))"
    "\<not> contains demo_content localpath_tag" "4095 < SC_RES_INFO_NUM_MAX_CTNT" "is_cstr demo_path" "demo_path \<noteq> []"
    "length demo_path < SC_RES_LOCAL_PATH_MAX_LEN" by (rule demo_names [OF t fc d])
  have ip: "is_cstr ''127.0.0.1''" by simp
  have "rl2 = upd_ctnt_ri 4095 sc_res_flag_set_stored rl"
    using download_recorded [OF res_invI [OF t] h(6) ip demo_urls(5) h(5,3,7) refl h(4,1,2) p, THEN conjunct1] st
    by (simp add: demo_upstream_def download_complete_def)
  then have "sc_res_flag_is_stored (ct_common (ctnt rl2 4095))" by (simp add: upd_defs)
  with st p show ?thesis by blast
qed

lemma suffix_is_append: "suffix_is s t \<Longrightarrow> length t \<le> length s \<Longrightarrow> suffix_is (x @ s) t"
  by (simp add: suffix_is_def)

lemma dotted_quad_host:
  assumes "dotted_quad h"
  shows "CHR ''/'' \<notin> set h" "7 \<le> length h" "length h \<le> 15" "is_cstr h"
proof -
  from assms obtain a b c d where o: "octet a" "octet b" "octet c" "octet d" and h: "h = a @ ''.'' @ b @ ''.'' @ c @ ''.'' @ d"
    by (auto simp: dotted_quad_def)
  have "CHR ''/'' \<notin> set s \<and> is_cstr s" if "octet s" for s
    using that by (auto simp: octet_def is_cstr_def char_class_defs)
  with o octet_length [OF o(1)] octet_length [OF o(2)] octet_length [OF o(3)] octet_length [OF o(4)]
  show "CHR ''/'' \<notin> set h" "7 \<le> length h" "length h \<le> 15" "is_cstr h" by (auto simp: h)
qed

text \<open>What the module makes of the arguments of such a request, whatever bytes follow them.\<close>

lemma getfile_forwards:
  assumes "dotted_quad h" and "uri = h @ ''/'' @ p" and "is_cstr uri" "is_cstr lp"
    and "suffix_is lp t" and "t \<in> {''flv'', ''mp4'', ''mov'', ''zip'', ''gif'', ''png'', ''jpg'', ''ico''}" and "3 \<le> length lp"
    and "length uri + 11 + length lp < BUFLEN_L"
    and "ngx_args r = uri @ (if strchr uri (CHR ''?'') \<noteq> None then ''&'' else ''?'') @ localpath_tag @ lp"
    and "ctx_ok sv" "upstream_ok sv" "pipe_ok sv" "resolved_ok sv"
  shows "ngx_http_getfile_handler sv r = Some (NGX_DONE, Some (ByAddr h), r\<lparr>ngx_is_getfile := True\<rparr>)"
    and "getfile_upstream_create_request True True junk h r
         = Some (''GET /'' @ p @ (if strchr uri (CHR ''?'') \<noteq> None then ''&'' else ''?'') @ ''localpath='' @ lp
             @ query_line_2 @ h @ query_line_3)"
proof -
  note h = dotted_quad_host [OF assms(1)]
  let ?q = "p @ (if strchr uri (CHR ''?'') \<noteq> None then ''&'' else ''?'') @ localpath_tag @ lp"
  have args: "ngx_args r = h @ CHR ''/'' # ?q" by (simp add: assms(2,9))
  have tw: "takeWhile (\<lambda>c. c \<noteq> CHR ''/'') (args_mem r) = h" "dropWhile (\<lambda>c. c \<noteq> CHR ''/'') (ngx_args r) = CHR ''/'' # ?q"
    using h(1) by (auto simp: args_mem_def args takeWhile_append dropWhile_append)
  have host: "getfile_get_host_from_uri (r\<lparr>ngx_is_getfile := True\<rparr>) = Some h"
  proof -
    have "CHR ''/'' \<in> set (take (BUFLEN - 1) (args_mem r))" using h(3) by (simp add: args_mem_def args getfile_limits take_Cons')
    with tw(1) h(3) show ?thesis by (simp add: getfile_get_host_from_uri_def args_mem_def getfile_limits Let_def)
  qed
  have ipa: "getfile_host_is_ip_addr h = Some True"
    by (rule dotted_quad_accepted [OF assms(1)])
  have t: "length t = 3" "t \<in> {''flv'', ''mp4'', ''mov'', ''zip'', ''gif'', ''png'', ''jpg'', ''ico''}" using assms(6) by auto
  have "suffix_is (ngx_args r) t"
    using suffix_is_append [OF assms(5), of "uri @ (if strchr uri (CHR ''?'') \<noteq> None then ''&'' else ''?'') @ localpath_tag"] assms(7) t(1)
    by (simp add: assms(9))
  then have ty: "getfile_support_type r" using t(2) unfolding getfile_support_type_def Let_def by blast
  have len: "FILE_URL_LEN_MIN \<le> length (ngx_args r)" using h(2) assms(7) by (simp add: args localpath_tag_def getfile_limits)
  show "ngx_http_getfile_handler sv r = Some (NGX_DONE, Some (ByAddr h), r\<lparr>ngx_is_getfile := True\<rparr>)"
    using host ipa ty len h(4) assms(10-13) by (simp add: ngx_http_getfile_handler_def)
  have "getfile_get_real_uri_from_uri r = CHR ''/'' # ?q"
    using tw(2) assms(8) by (simp add: getfile_get_real_uri_from_uri_def Let_def assms(2) localpath_tag_def)
  moreover have "is_cstr (CHR ''/'' # ?q)" using assms(2-4) by (simp add: localpath_tag_def)
  ultimately show "getfile_upstream_create_request True True junk h r
         = Some (''GET /'' @ p @ (if strchr uri (CHR ''?'') \<noteq> None then ''&'' else ''?'') @ ''localpath='' @ lp
             @ query_line_2 @ h @ query_line_3)"
    by (simp add: getfile_upstream_create_request_def Let_def query_line_len_def query_line_1_def localpath_tag_def)
qed

end
