(* ===== verification/Client_Run.thy ===== *)
theory Client_Run
  imports Snooping_Serve Ngx_Hooks
begin

text \<open>
  The whole program: \<open>main\<close> of \<^verbatim>\<open>snooping_client/sc_main.c\<close> up to the server loop, and the run of
  its parts. After the start three activities work on the resource list: the server, the list
  thread and nginx, which is another process on the same memory. A step is one round of the server,
  one pass of the thread, or the end of one download in nginx. Each is taken as a whole: the program
  has no lock (a comment in \<open>main\<close> says so) and finer interleavings are not modelled. Whether the
  thread can be created and detached is a parameter of \<open>main\<close>.
\<close>

section \<open>Start\<close>

definition HTTP_SP2C_PORT :: nat where "HTTP_SP2C_PORT = 9999"
definition SC_CLIENT_DEFAULT_IP_ADDR :: string where "SC_CLIENT_DEFAULT_IP_ADDR = ''0.0.0.0''"

definition server_addr :: "string \<Rightarrow> string" where
  "server_addr ip = ip @ '':'' @ fmt_d (int HTTP_SP2C_PORT)"

definition sc_init_advertisement :: "'w os \<Rightarrow> 'w sc_state \<Rightarrow> 'w sc_state option" where
  "sc_init_advertisement os s = do {
     (_, s1) \<leftarrow> lift_world (sc_snooping_do_add os (- 1) ''ad.api.3g.youku.com/adv'') s;
     (_, s2) \<leftarrow> lift_world (sc_snooping_do_add os (- 1) ''valf.atm.youku.com/vf'') s1;
     (_, s3) \<leftarrow> lift_world (sc_snooping_do_add os (- 1) ''m.aty.sohu.com/m'') s2;
     Some s3
   }"

text \<open>The program has ended with a result, or it serves: segment, socket and state.\<close>

datatype 'w sc_start = Stopped int 'w | Serving int int "'w sc_state"

definition serve_start ::
  "'w os \<Rightarrow> bool \<Rightarrow> bool \<Rightarrow> string \<Rightarrow> int \<Rightarrow> 'w sc_state \<Rightarrow> 'w sc_start" where
  "serve_start os create_ok detach_ok ip_addr shmid s =
     (case sock_init_server os False (server_addr ip_addr) 0 (sc_world s) of (sockfd, w) \<Rightarrow>
        if sockfd < 0 then Stopped (- 1) (snd (sc_res_list_destroy_and_uninit os shmid w))
        else if \<not> create_ok then Stopped (- 1) (snd (sc_res_list_destroy_and_uninit os shmid (os_close os sockfd w)))
        else if \<not> detach_ok then Stopped (- 1) (snd (sc_res_list_destroy_and_uninit os shmid (os_close os sockfd w)))
        else Serving shmid sockfd (s\<lparr>sc_world := os_sleep os 5 w\<rparr>))"

text \<open>\<open>args\<close> are the arguments behind the program's name.\<close>

definition sc_main ::
  "'w os \<Rightarrow> (string \<Rightarrow> (string \<times> bool) list \<times> int) \<Rightarrow> bool \<Rightarrow> bool \<Rightarrow> string list \<Rightarrow> 'w \<Rightarrow> 'w sc_start option" where
  "sc_main os ftw create_ok detach_ok args w =
     (if 1 < length args then Some (Stopped (- 1) w)
      else
        let ip_addr = (case args of [] \<Rightarrow> SC_CLIENT_DEFAULT_IP_ADDR | a # _ \<Rightarrow> a) in
        case sc_res_list_alloc_and_init os w of ((shmid, rl), w1) \<Rightarrow>
          if shmid < 0 then Some (Stopped (- 1) w1)
          else do {
            l \<leftarrow> rl;
            (_, s1) \<leftarrow> sc_ld_init_and_load os ftw \<lparr>sc_res_info_list = l, youku_controller_of_loaded = None,
                          sohu_controller_of_loaded = None, sc_world = w1\<rparr>;
            s2 \<leftarrow> sc_init_advertisement os s1;
            Some (serve_start os create_ok detach_ok ip_addr shmid s2)
          })"

section \<open>Steps\<close>

inductive client_step :: "'w os \<Rightarrow> int \<Rightarrow> 'w sc_state \<Rightarrow> 'w sc_state \<Rightarrow> bool" for os fd where
  served: "serve_once os fd junk s = Some s' \<Longrightarrow> client_step os fd s s'"
| passed: "sc_res_list_process_func os s = Some (e, s') \<Longrightarrow>
     client_step os fd s (s'\<lparr>sc_world := os_sleep os 3 (sc_world s')\<rparr>)"
| processed: "ngx_http_upstream_process_request r u (sc_res_info_list s) = (u', rl) \<Longrightarrow>
     client_step os fd s (s\<lparr>sc_res_info_list := rl\<rparr>)"
| finalized: "ngx_http_upstream_finalize_request r u (sc_res_info_list s) = (u', rl) \<Longrightarrow>
     client_step os fd s (s\<lparr>sc_res_info_list := rl\<rparr>)"

inductive_cases client_stepE: "client_step os fd s s'"

lemma hook_evolves:
  assumes inv: "sc_inv s"
    and h: "ngx_http_upstream_process_request r u (sc_res_info_list s) = (u', rl)
       \<or> ngx_http_upstream_finalize_request r u (sc_res_info_list s) = (u', rl)"
  shows "sc_evolves UNIV s (s\<lparr>sc_res_info_list := rl\<rparr>)"
proof -
  have ri: "res_inv (sc_res_info_list s)" using inv by (simp add: sc_inv_def)
  from h have "evolves UNIV (sc_res_info_list s) rl"
    using mark_entry_evolves [OF ri] evolves_refl [OF ri]
    by (auto simp: ngx_http_upstream_process_request_def ngx_http_upstream_finalize_request_def Let_def split: if_splits)
  then show ?thesis by (simp add: sc_evolves_def)
qed

lemma client_step_evolves:
  assumes inv: "sc_inv s" and step: "client_step os fd s s'"
  shows "sc_evolves UNIV s s'"
  using step
proof (cases rule: client_step.cases)
  case (served junk)
  then show ?thesis using apart_shared [OF serve_round_evolves [OF inv]] by (auto simp: serve_round_def)
next
  case (passed e t)
  from process_func_pass [OF inv passed(2)] have "sc_evolves UNIV s t"
    using sc_evolves_mono unfolding pass_ok_def by blast
  with passed(1) show ?thesis by simp
next
  case (processed r u u' rl)
  then show ?thesis using hook_evolves [OF inv] by blast
next
  case (finalized r u u' rl)
  then show ?thesis using hook_evolves [OF inv] by blast
qed

section \<open>The start returns\<close>

lemma do_add_total:
  assumes "length url \<le> HTTP_SP_URL_LEN_MAX"
  obtains r w' where "sc_snooping_do_add os ident url w = Some (r, w')"
proof -
  from assms strip_http_length [of url] obtain b where "c2sp_req_pkt ident HTTP_C2SP_ACTION_ADD url = Some b"
    by (auto simp: c2sp_req_pkt_def sc_res_copy_url_def Let_def)
  then have "sc_snooping_do_add os ident url w \<noteq> None"
    by (auto simp: sc_snooping_do_add_def sc_snooping_initiate_action_def Let_def split: prod.splits)
  with that show ?thesis by auto
qed

lemma lift_add_total:
  assumes "length url \<le> HTTP_SP_URL_LEN_MAX"
  obtains r w where "lift_world (sc_snooping_do_add os ident url) s = Some (r, s\<lparr>sc_world := w\<rparr>)"
proof -
  obtain r w where "sc_snooping_do_add os ident url (sc_world s) = Some (r, w)" by (rule do_add_total [OF assms])
  with that show ?thesis by (simp add: lift_world_def)
qed

lemma advertisement_total:
  obtains w where "sc_init_advertisement os s = Some (s\<lparr>sc_world := w\<rparr>)"
proof -
  let ?add = "\<lambda>u. lift_world (sc_snooping_do_add os (- 1) u)"
  obtain r1 w1 where 1: "?add ''ad.api.3g.youku.com/adv'' s = Some (r1, s\<lparr>sc_world := w1\<rparr>)"
    by (rule lift_add_total [of "''ad.api.3g.youku.com/adv''" os "- 1" s]) (simp_all add: wire_codes)
  obtain r2 w2 where 2: "?add ''valf.atm.youku.com/vf'' (s\<lparr>sc_world := w1\<rparr>) = Some (r2, s\<lparr>sc_world := w2\<rparr>)"
    by (rule lift_add_total [of "''valf.atm.youku.com/vf''" os "- 1" "s\<lparr>sc_world := w1\<rparr>"]) (simp_all add: wire_codes)
  obtain r3 w3 where 3: "?add ''m.aty.sohu.com/m'' (s\<lparr>sc_world := w2\<rparr>) = Some (r3, s\<lparr>sc_world := w3\<rparr>)"
    by (rule lift_add_total [of "''m.aty.sohu.com/m''" os "- 1" "s\<lparr>sc_world := w2\<rparr>"]) (simp_all add: wire_codes)
  show ?thesis by (rule that [of w3]) (simp add: sc_init_advertisement_def 1 2 3)
qed

text \<open>What the system promises of the segment: attaching it fails with -1 or gives an address in
  the lower half, so that no slot's address is an index or the invalid pointer.\<close>

definition os_shmat_ok :: "'w os \<Rightarrow> bool" where
  "os_shmat_ok os \<longleftrightarrow> (\<forall>i w a w'. os_shmat os i w = (a, w') \<longrightarrow> a = INVALID_PTR \<or> shm_ok a)"

definition ftw_ok :: "(string \<Rightarrow> (string \<times> bool) list \<times> int) \<Rightarrow> bool" where
  "ftw_ok ftw \<longleftrightarrow> (\<forall>p. (p, True) \<in> set (fst (ftw SC_NGX_ROOT_PATH)) \<longrightarrow> is_cstr p \<and> CHR ''/'' \<in> set p)"

lemma main_total:
  assumes "os_shmat_ok os" and "ftw_ok ftw"
  obtains (stopped) r w' where "sc_main os ftw create_ok detach_ok args w = Some (Stopped r w')" "r = - 1"
    | (serving) shmid fd s where "sc_main os ftw create_ok detach_ok args w = Some (Serving shmid fd s)" "0 \<le> fd"
        "loaded_only s (file_urls (fst (ftw SC_NGX_ROOT_PATH)))"
proof (cases "1 < length args")
  case True
  then show ?thesis using stopped by (simp add: sc_main_def)
next
  case args: False
  obtain shmid rl w1 where a: "sc_res_list_alloc_and_init os w = ((shmid, rl), w1)" by (metis prod.collapse)
  show ?thesis
  proof (cases "shmid < 0")
    case True
    with args a stopped show ?thesis by (simp add: sc_main_def Let_def)
  next
    case False
    then obtain b where b: "rl = Some (init_list b)" "shm_ok b"
      using a assms(1) by (auto simp: sc_res_list_alloc_and_init_def sc_res_list_alloc_share_mem_def os_shmat_ok_def
          split: prod.splits if_splits)
    let ?s = "\<lparr>sc_res_info_list = init_list b, youku_controller_of_loaded = None, sohu_controller_of_loaded = None, sc_world = w1\<rparr>"
    obtain es r where f: "ftw SC_NGX_ROOT_PATH = (es, r)" by (metis prod.collapse)
    from load_total [of b ?s ftw es r os] b(2) f assms(2) obtain q s1 where
      l: "sc_ld_init_and_load os ftw ?s = Some (q, s1)" "loaded_only s1 (file_urls es)" by (auto simp: ftw_ok_def)
    obtain w2 where w2: "sc_init_advertisement os s1 = Some (s1\<lparr>sc_world := w2\<rparr>)" by (rule advertisement_total)
    let ?ip = "case args of [] \<Rightarrow> SC_CLIENT_DEFAULT_IP_ADDR | a # _ \<Rightarrow> a"
    have m: "sc_main os ftw create_ok detach_ok args w = Some (serve_start os create_ok detach_ok ?ip shmid (s1\<lparr>sc_world := w2\<rparr>))"
      using args a False b l w2 by (simp add: sc_main_def Let_def)
    obtain fd w3 where fd: "sock_init_server os False (server_addr ?ip) 0 w2 = (fd, w3)" by (metis prod.collapse)
    show ?thesis
    proof (cases "fd < 0 \<or> \<not> create_ok \<or> \<not> detach_ok")
      case True
      then show ?thesis using stopped m fd by (auto simp: serve_start_def split: if_splits)
    next
      case False
      with serving m fd l(2) f show ?thesis by (simp add: serve_start_def)
    qed
  qed
qed

section \<open>Properties\<close>

text \<open>C1. The program as a whole. Its start returns whatever is on disk and whatever the other side
  answers: it has ended with -1, or it serves a sound list of loaded files. From there on, in any
  order in which the server, the list thread and nginx take their turns (steps that come back), and
  whatever they receive, the list stays sound, no management entry is lost or changed, and every entry of an origin or a
  download stays in its place, once stored stays stored and once announced stays announced.\<close>

theorem client_run_safe:
  assumes "os_shmat_ok os" and "ftw_ok ftw"
  shows "(\<exists>w'. sc_main os ftw create_ok detach_ok args w = Some (Stopped (- 1) w'))
     \<or> (\<exists>shmid fd s. sc_main os ftw create_ok detach_ok args w = Some (Serving shmid fd s) \<and> sc_inv s
          \<and> (\<forall>s1 s2. (client_step os fd)\<^sup>*\<^sup>* s s1 \<longrightarrow> (client_step os fd)\<^sup>*\<^sup>* s1 s2 \<longrightarrow> sc_inv s2 \<and> sc_evolves UNIV s1 s2))"
proof (cases rule: main_total [OF assms, of create_ok detach_ok args w])
  case (1 r w')
  then show ?thesis by blast
next
  case serving: (2 shmid fd s)
  then have inv: "sc_inv s" by (simp add: loaded_only_def)
  have "sc_inv s2 \<and> sc_evolves UNIV s1 s2" if "(client_step os fd)\<^sup>*\<^sup>* s s1" "(client_step os fd)\<^sup>*\<^sup>* s1 s2" for s1 s2
    using shared.steps_keep [of "client_step os fd" s s1] shared.steps_keep [of "client_step os fd" s1 s2]
      client_step_evolves that inv by blast
  with serving(1) inv show ?thesis by blast
qed

theorem client_run_safe_witness:
  "\<exists>shmid fd s. sc_main acking demo_ftw True True [] \<lparr>answers = [], sent = [], opened = 0, closed = 0\<rparr> = Some (Serving shmid fd s)
     \<and> sc_inv s"
proof -
  let ?w = "\<lparr>answers = [], sent = [], opened = 0, closed = 0\<rparr>"
  have ok: "os_shmat_ok acking" "ftw_ok demo_ftw"
    by (auto simp: os_shmat_ok_def acking_def scripted_def shm_ok_def SC_RES_SHARE_MEM_SIZE_def ftw_ok_def demo_ftw_def)
  let ?s = "\<lparr>sc_res_info_list = init_list 0x7f0000000000, youku_controller_of_loaded = None, sohu_controller_of_loaded = None, sc_world = ?w\<rparr>"
  from load_total [of "0x7f0000000000" ?s demo_ftw "fst (demo_ftw SC_NGX_ROOT_PATH)" 0 acking] demo_start_ok(1) obtain s1 where
    l: "sc_ld_init_and_load acking demo_ftw ?s = Some (0, s1)" by (auto simp: demo_ftw_def)
  obtain w2 where w2: "sc_init_advertisement acking s1 = Some (s1\<lparr>sc_world := w2\<rparr>)" by (rule advertisement_total)
  have a: "sc_res_list_alloc_and_init acking ?w = ((7, Some (init_list 0x7f0000000000)), ?w)"
    by (simp add: sc_res_list_alloc_and_init_def sc_res_list_alloc_share_mem_def acking_def scripted_def INVALID_PTR_def)
  have "\<exists>fd s. sc_main acking demo_ftw True True [] ?w = Some (Serving 7 fd s)"
    using l w2 a by (simp add: sc_main_def Let_def serve_start_def sock_init_server_def acking_def scripted_def)
  with client_run_safe [OF ok, of True True "[]" ?w] show ?thesis by auto
qed



end
