(* ===== verification/Vf_Advert.thy ===== *)
theory Vf_Advert
  imports Site_Client
begin

text \<open>
  The advertisement list of Youku, \<open>sc_yk_get_vf\<close> and \<open>sc_yk_init_vf_adv\<close> of
  \<^verbatim>\<open>snooping_client/sc_youku.c\<close>: the list is fetched, stored as a file under the cache root, and
  the real URL of every advertisement in it is announced to the Snooping module. The call in
  \<open>main\<close> is compiled out; the functions are complete. They do not use the resource list, so they
  are functions of the world alone. Opening, writing and closing the file is one call.
\<close>

section \<open>The file\<close>

text \<open>The path is written into \<open>vf_local_path[SC_RES_LOCAL_PATH_MAX_LEN]\<close> without a check.\<close>

definition vf_local_path :: "string \<Rightarrow> string option" where
  "vf_local_path url =
     (if SC_RES_LOCAL_PATH_MAX_LEN \<le> SC_NGX_ROOT_PATH_LEN + length url then None
      else Some (SC_NGX_ROOT_PATH @ map (\<lambda>c. if c = CHR ''.'' then CHR ''_'' else c) url))"

section \<open>The advertisements\<close>

definition vf_adv_once :: "'w os \<Rightarrow> string \<Rightarrow> string \<Rightarrow> 'w \<Rightarrow> 'w option" where
  "vf_adv_once os referer fp_url w = do {
     ((r1, resp2), w1) \<leftarrow> yk_http_session os fp_url referer [] BUFFER_LEN w;
     if r1 < 0 then Some w1
     else do {
       (r2, status) \<leftarrow> parse_response_status BUFFER_LEN resp2;
       if r2 < 0 then Some w1
       else if status \<noteq> Some 200 \<and> status \<noteq> Some 302 then Some w1
       else do {
         (r3, real_url) \<leftarrow> yk_parse_flvpath (cstr resp2);
         if r3 \<noteq> 0 then Some w1
         else do { (_, w2) \<leftarrow> sc_snooping_do_add os (- 1) (cstr real_url) w1; Some w2 }
       }
     }
   }"

lemma vf_response_shorter: "yk_parse_vf_response cur fp = (Some nxt, u) \<Longrightarrow> length nxt < length cur"
proof -
  assume a: "yk_parse_vf_response cur fp = (Some nxt, u)"
  then obtain p q where p: "strstr cur vf_tag = Some p" "strstr p HTTP_URL_PREFIX = Some q"
    and n: "strstr (drop HTTP_URL_PRE_LEN q) vf_tag = Some nxt"
    by (auto simp: yk_parse_vf_response_def Let_def split: option.splits)
  have "length nxt \<le> length q - 7" "7 \<le> length q"
    using strstr_length [OF n] strstr_needle_length [OF p(2)] by (simp_all add: hc_limits HTTP_URL_PREFIX_def)
  with strstr_length [OF p(1)] strstr_length [OF p(2)] show ?thesis by linarith
qed

function vf_adv_loop :: "'w os \<Rightarrow> string \<Rightarrow> string option \<Rightarrow> 'w \<Rightarrow> 'w option" where
  "vf_adv_loop os referer None w = Some w"
| "vf_adv_loop os referer (Some cur) w =
     (case yk_parse_vf_response cur [] of (nxt, fp_url) \<Rightarrow>
        do { w1 \<leftarrow> vf_adv_once os referer (cstr fp_url) w; vf_adv_loop os referer nxt w1 })"
  by pat_completeness auto
termination
  by (relation "measure (\<lambda>(os, referer, cur, w). case cur of None \<Rightarrow> 0 | Some c \<Rightarrow> Suc (length c))")
    (auto split: option.splits dest!: vf_response_shorter [OF sym])

section \<open>Fetching the list\<close>

definition vf_body_tag :: string where "vf_body_tag = ''{'' @ [CHR 0x22] @ ''N'' @ [CHR 0x22] @ '':''"

text \<open>Storing the body and announcing what it lists.\<close>

definition vf_store :: "'w os \<Rightarrow> string \<Rightarrow> string \<Rightarrow> buf \<Rightarrow> string \<Rightarrow> 'w \<Rightarrow> (int \<times> 'w) option" where
  "vf_store os referer vf_no_para_url resp body w = do {
     path \<leftarrow> vf_local_path vf_no_para_url;
     (case os_write_file os path body w of (open_ok, w1) \<Rightarrow>
        if \<not> open_ok then Some (- 1, w1)
        else do {
          (ret, resp1) \<leftarrow> util_json_to_ascii_string RESP_BUF_LEN resp (int (length (cstr resp)));
          if ret \<noteq> 0 then Some (- 1, w1)
          else do {
            w2 \<leftarrow> vf_adv_loop os referer (Some (cstr resp1)) w1;
            (ret, w3) \<leftarrow> sc_snooping_do_add os (- 1) vf_no_para_url w2;
            Some (if ret \<noteq> 0 then - 1 else 0, w3)
          }
        })
   }"

definition sc_yk_get_vf :: "'w os \<Rightarrow> string \<Rightarrow> string \<Rightarrow> 'w \<Rightarrow> (int \<times> 'w) option" where
  "sc_yk_get_vf os vf_url referer w = do {
     b \<leftarrow> sc_res_copy_url [] vf_url HTTP_URL_MAX_LEN False;
     if \<not> terminated HTTP_URL_MAX_LEN b then None
     else do {
       let vf_no_para_url = cstr b;
       (_, w1) \<leftarrow> sc_snooping_do_del os (- 1) vf_no_para_url w;
       ((ret, resp), w2) \<leftarrow> yk_http_session os vf_url referer [] RESP_BUF_LEN w1;
       if ret \<noteq> 0 then Some (- 1, w2)
       else do {
         (r, status) \<leftarrow> parse_response_status RESP_BUF_LEN resp;
         if r < 0 then Some (- 1, w2)
         else if status \<noteq> Some 200 then Some (- 1, w2)
         else (case strstr (cstr resp) vf_body_tag of
             None \<Rightarrow> Some (- 1, w2)
           | Some body \<Rightarrow> vf_store os referer vf_no_para_url resp body w2)
       }
     }
   }"

definition vf_adv_url :: string where
  "vf_adv_url = ''valf.atm.youku.com/vf?vip=0&site=1&rt=MHwxMzk3NDQ0MzA3ODI1fFhOamd5TURrNU1qTXk=&p=1&vl=5272''
     @ ''&fu=0&ct=c&cs=2034&paid=0&s=177092&td=0&sid=739744430145310e7d997&v=170524808&wintype=interior''
     @ ''&u=97454045&vs=1.0&rst=flv&partnerid=null&dq=mp4&k=%u6536%u8D39&os=Windows%207&d=0''
     @ ''&ti=%E5%A4%A7%E8%AF%9D%E5%A4%A9%E4%BB%99''"

definition vf_adv_referer :: string where
  "vf_adv_referer = ''http://v.youku.com/v_show/id_XNjgyMDk5MjMy.html''"

definition sc_yk_init_vf_adv :: "'w os \<Rightarrow> 'w \<Rightarrow> (int \<times> 'w) option" where
  "sc_yk_init_vf_adv os w = do {
     (ret, w1) \<leftarrow> sc_yk_get_vf os vf_adv_url vf_adv_referer w;
     Some (if ret \<noteq> 0 then - 1 else 0, w1)
   }"

text \<open>The built-in request: the parameters are cut off, and the file it stores fits its buffer.\<close>

lemma vf_adv_no_para:
  "sc_res_copy_url [] vf_adv_url HTTP_URL_MAX_LEN False = Some ''valf.atm.youku.com/vf''"
  "vf_local_path ''valf.atm.youku.com/vf'' = Some (SC_NGX_ROOT_PATH @ ''valf_atm_youku_com/vf'')"
  by (simp_all add: sc_res_copy_url_def vf_adv_url_def strip_http_def strncmp_eq_def HTTP_URL_PREFIX_def hc_limits
      vf_local_path_def SC_NGX_ROOT_PATH_LEN_def SC_NGX_ROOT_PATH_def)

end
