(* ===== verification/Catalog.thy ===== *)
theory Catalog
  imports Res_Inv
begin

text \<open>
  What the shared resource list of \<^verbatim>\<open>src/hot_cache/snooping_client/sc_resource.c\<close> stands for: a
  catalog of groups (the origins, normal entries and loaders) and of the contents each group owns,
  newest first. The catalog has no free lists, no slot numbers in entries, no counters, no sibling
  pointers and no flag word. \<open>catalog\<close> reads a catalog off a list; the theorems show that every
  operation of the list is the corresponding operation of the catalog, that the catalog grants or
  refuses a request for the reasons stated here only, and that the two lookups of the code are
  lookups in the catalog.
\<close>

section \<open>Data refinement\<close>

text \<open>The runs of a machine that serves requests: each request comes with the answer it got.\<close>

inductive runs :: "('s \<Rightarrow> bool) \<Rightarrow> ('o \<Rightarrow> 's \<Rightarrow> bool) \<Rightarrow> ('o \<Rightarrow> 'r \<Rightarrow> 's \<Rightarrow> 's \<Rightarrow> bool) \<Rightarrow> ('o \<times> 'r) list \<Rightarrow> 's \<Rightarrow> bool"
  for start :: "'s \<Rightarrow> bool" and ok :: "'o \<Rightarrow> 's \<Rightarrow> bool" and step :: "'o \<Rightarrow> 'r \<Rightarrow> 's \<Rightarrow> 's \<Rightarrow> bool" where
  fresh: "start s \<Longrightarrow> runs start ok step [] s"
| served: "runs start ok step xs s \<Longrightarrow> ok x s \<Longrightarrow> step x r s s' \<Longrightarrow> runs start ok step (xs @ [(x, r)]) s'"

lemma runs_invariant:
  assumes "runs start ok step xs s" and "\<And>s. start s \<Longrightarrow> P s"
    and "\<And>x r s s'. P s \<Longrightarrow> ok x s \<Longrightarrow> step x r s s' \<Longrightarrow> P s'"
  shows "P s"
  using assms(1)
proof (induction rule: runs.induct)
  case (fresh s)
  then show ?case by (rule assms(2))
next
  case (served xs s x r s')
  show ?case by (rule assms(3) [OF served(4,2,3)])
qed

text \<open>What it takes for the states of one machine to stand for those of another: the initial states
  stand for initial states, and every concrete step whose obligation holds keeps the invariant and
  is an abstract step with the same answer.\<close>

locale data_refinement =
  fixes cstart inv :: "'c \<Rightarrow> bool" and abs :: "'c \<Rightarrow> 'a" and astart :: "'a \<Rightarrow> bool"
    and ok :: "'o \<Rightarrow> 'a \<Rightarrow> bool"
    and cstep :: "'o \<Rightarrow> 'r \<Rightarrow> 'c \<Rightarrow> 'c \<Rightarrow> bool" and astep :: "'o \<Rightarrow> 'r \<Rightarrow> 'a \<Rightarrow> 'a \<Rightarrow> bool"
  assumes start_refines: "cstart c \<Longrightarrow> inv c \<and> astart (abs c)"
    and step_refines: "inv c \<Longrightarrow> ok x (abs c) \<Longrightarrow> cstep x r c c' \<Longrightarrow> inv c' \<and> astep x r (abs c) (abs c')"
begin

lemma runs_refine:
  "runs cstart (\<lambda>x c. ok x (abs c)) cstep xs c \<Longrightarrow> inv c \<and> runs astart ok astep xs (abs c)"
proof (induction rule: runs.induct)
  case (fresh s)
  from start_refines [OF this] show ?case by (simp add: runs.fresh)
next
  case (served xs s x r s')
  then have "inv s' \<and> astep x r (abs s) (abs s')" using step_refines [of s x r s'] by simp
  with served show ?case using runs.served [of astart ok astep xs "abs s"] by simp
qed

lemma abstract_invariant:
  assumes "\<And>a. astart a \<Longrightarrow> P a" and "\<And>x r a a'. P a \<Longrightarrow> ok x a \<Longrightarrow> astep x r a a' \<Longrightarrow> P a'"
    and "runs cstart (\<lambda>x c. ok x (abs c)) cstep xs c"
  shows "P (abs c)"
  by (rule runs_invariant [OF conjunct2 [OF runs_refine [OF assms(3)]]]) (fact assms)+

end

section \<open>The catalog\<close>

datatype mark = Stored | Notified | Download_failed | Inform_failed

record group =
  g_gen :: sc_res_gen
  g_site :: sc_res_site
  g_url :: string
  g_files :: "nat list"

record content =
  c_site :: sc_res_site
  c_url :: string
  c_path :: string
  c_marks :: "mark set"

record catalog =
  groups :: "nat \<rightharpoonup> group"
  contents :: "nat \<rightharpoonup> content"

definition empty_catalog :: catalog where
  "empty_catalog = \<lparr>groups = (\<lambda>_. None), contents = (\<lambda>_. None)\<rparr>"

text \<open>The requests, and what the caller owes for each: a group it got from the catalog, a content
  that is not already owned by the loader it is compared with, and a notification only of what is
  stored.\<close>

datatype request =
    New_group sc_res_gen string
  | New_file nat string
  | Take_over nat nat
  | Set_mark nat mark
  | Clear_mark nat mark

fun request_ok :: "request \<Rightarrow> catalog \<Rightarrow> bool" where
  "request_ok (New_group g url) C = (is_cstr url \<and> g \<in> mgmt_gens)"
| "request_ok (New_file h url) C = (is_cstr url \<and> h \<in> dom (groups C))"
| "request_ok (Take_over h k) C = (k \<in> dom (contents C) \<and> (case groups C h of None \<Rightarrow> False | Some g \<Rightarrow> k \<notin> set (g_files g)))"
| "request_ok (Set_mark k m) C = (case contents C k of None \<Rightarrow> False | Some c \<Rightarrow> m = Notified \<longrightarrow> Stored \<in> c_marks c)"
| "request_ok (Clear_mark k m) C = (k \<in> dom (contents C) \<and> m \<in> {Download_failed, Inform_failed})"

text \<open>When a group or a file is granted.\<close>

definition url_fits :: "string \<Rightarrow> bool" where
  "url_fits url \<longleftrightarrow> sc_res_info_permit_adding url \<and> length url < HTTP_URL_MAX_LEN"

definition group_granted :: "string \<Rightarrow> catalog \<Rightarrow> bool" where
  "group_granted url C \<longleftrightarrow> url_fits url \<and> site_known url \<and> card (dom (groups C)) < SC_RES_INFO_NUM_MAX_MGMT"

definition file_granted :: "group \<Rightarrow> string \<Rightarrow> catalog \<Rightarrow> bool" where
  "file_granted g url C \<longleftrightarrow> url_fits url \<and> length (strip_http url) < SC_RES_LOCAL_PATH_MAX_LEN
     \<and> (g_site g = SC_RES_SITE_SOHU \<longrightarrow> sc_url_is_sohu_file_url (strip_http url))
     \<and> card (dom (contents C)) < SC_RES_INFO_NUM_MAX_CTNT"

text \<open>The four changes.\<close>

definition new_group :: "nat \<Rightarrow> sc_res_gen \<Rightarrow> string \<Rightarrow> catalog \<Rightarrow> catalog" where
  "new_group h gen url C = C\<lparr>groups := (groups C)(h \<mapsto>
     \<lparr>g_gen = gen, g_site = site_of url, g_url = strip_http url, g_files = []\<rparr>)\<rparr>"

definition path_of :: "sc_res_site \<Rightarrow> string \<Rightarrow> string" where
  "path_of site url = (if site = SC_RES_SITE_SOHU then lp_sohu_loop True url else lp_default_loop True url)"

definition new_file :: "nat \<Rightarrow> nat \<Rightarrow> group \<Rightarrow> string \<Rightarrow> catalog \<Rightarrow> catalog" where
  "new_file c h g url C = C\<lparr>
     groups := (groups C)(h \<mapsto> g\<lparr>g_files := c # g_files g\<rparr>),
     contents := (contents C)(c \<mapsto> \<lparr>c_site = g_site g, c_url = strip_http url,
        c_path = path_of (g_site g) (strip_http url),
        c_marks = (if g_gen g = SC_RES_GEN_T_CTRL_LD then {Stored} else {})\<rparr>)\<rparr>"

definition same_video :: "catalog \<Rightarrow> nat \<Rightarrow> nat \<Rightarrow> bool" where
  "same_video C k l = (case (contents C k, contents C l) of
     (Some ck, Some cl) \<Rightarrow> (case vid_of (c_url ck) of None \<Rightarrow> False | Some vid \<Rightarrow> contains (c_url cl) vid)
   | _ \<Rightarrow> False)"

definition merge :: "content \<Rightarrow> content \<Rightarrow> content" where
  "merge l k = k\<lparr>c_url := c_url l, c_path := c_path l, c_marks := c_marks k \<union> c_marks l \<inter> {Stored, Notified}\<rparr>"

definition take_over :: "nat \<Rightarrow> nat \<Rightarrow> nat \<Rightarrow> catalog \<Rightarrow> catalog" where
  "take_over h l k C = C\<lparr>
     groups := (groups C)(h := map_option (\<lambda>g. g\<lparr>g_files := remove1 l (g_files g)\<rparr>) (groups C h)),
     contents := (contents C)(k \<mapsto> merge (the (contents C l)) (the (contents C k)), l := None)\<rparr>"

definition on_marks :: "nat \<Rightarrow> (mark set \<Rightarrow> mark set) \<Rightarrow> catalog \<Rightarrow> catalog" where
  "on_marks k f C = C\<lparr>contents := (contents C)(k := map_option (\<lambda>c. c\<lparr>c_marks := f (c_marks c)\<rparr>) (contents C k))\<rparr>"

text \<open>The catalog as a machine. A loader is first deleted from the Snooping module, which may
  refuse; that is the only refusal the catalog does not decide.\<close>

inductive cat_step :: "request \<Rightarrow> int \<Rightarrow> catalog \<Rightarrow> catalog \<Rightarrow> bool" where
  group_new: "group_granted url C \<Longrightarrow> groups C h = None \<Longrightarrow> cat_step (New_group gen url) 0 C (new_group h gen url C)"
| group_refused: "\<not> group_granted url C \<Longrightarrow> cat_step (New_group gen url) (- 1) C C"
| file_new: "groups C h = Some g \<Longrightarrow> file_granted g url C \<Longrightarrow> contents C c = None \<Longrightarrow>
    cat_step (New_file h url) 0 C (new_file c h g url C)"
| file_refused: "groups C h = Some g \<Longrightarrow> \<not> file_granted g url C \<or> g_gen g = SC_RES_GEN_T_CTRL_LD \<Longrightarrow>
    cat_step (New_file h url) (- 1) C C"
| taken: "groups C h = Some g \<Longrightarrow> find (same_video C k) (g_files g) = Some l \<Longrightarrow>
    cat_step (Take_over h k) HC_SUCCESS C (take_over h l k C)"
| not_loaded: "groups C h = Some g \<Longrightarrow> find (same_video C k) (g_files g) = None \<Longrightarrow>
    cat_step (Take_over h k) HC_ERR_INTERNAL C C"
| marked: "cat_step (Set_mark k m) 0 C (on_marks k (insert m) C)"
| cleared: "cat_step (Clear_mark k m) 0 C (on_marks k (\<lambda>M. M - {m}) C)"

inductive_simps cat_step_simps:
  "cat_step (New_group gen url) r C C'" "cat_step (New_file h url) r C C'" "cat_step (Take_over h k) r C C'"
  "cat_step (Set_mark k m) r C C'" "cat_step (Clear_mark k m) r C C'"

text \<open>The same requests on the list: the functions of the code that serve them.\<close>

definition flag_setter :: "mark \<Rightarrow> sc_res_info \<Rightarrow> sc_res_info" where
  "flag_setter m = (case m of Stored \<Rightarrow> sc_res_flag_set_stored | Notified \<Rightarrow> sc_res_flag_set_notify
     | Download_failed \<Rightarrow> sc_res_flag_set_d_fail | Inform_failed \<Rightarrow> sc_res_flag_set_i_fail)"

definition flag_clearer :: "mark \<Rightarrow> sc_res_info \<Rightarrow> sc_res_info" where
  "flag_clearer m = (if m = Download_failed then sc_res_flag_unset_d_fail else sc_res_flag_unset_i_fail)"

definition add_group :: "sc_res_gen \<Rightarrow> sc_res_list \<Rightarrow> string \<Rightarrow> (int \<times> nat option \<times> sc_res_list) option" where
  "add_group g = (if g = SC_RES_GEN_T_ORIGIN then sc_res_info_add_origin
     else if g = SC_RES_GEN_T_NORMAL then sc_res_info_add_normal else sc_res_info_add_ctrl_ld)"

fun list_run :: "'w os \<Rightarrow> request \<Rightarrow> sc_res_list \<Rightarrow> 'w \<Rightarrow> (int \<times> sc_res_list) option" where
  "list_run os (New_group g url) rl w = map_option (\<lambda>(r, p, rl'). (r, rl')) (add_group g rl url)"
| "list_run os (New_file h url) rl w =
     map_option (\<lambda>((r, p, rl'), w'). (r, rl')) (sc_res_info_add_ctnt os rl (Some h) url w)"
| "list_run os (Take_over h k) rl w = sc_res_info_handle_cached (Some h) (Some k) rl"
| "list_run os (Set_mark k m) rl w = Some (0, upd_ctnt_ri k (flag_setter m) rl)"
| "list_run os (Clear_mark k m) rl w = Some (0, upd_ctnt_ri k (flag_clearer m) rl)"

section \<open>The catalog of a list\<close>

primrec files_from :: "nat \<Rightarrow> sc_res_list \<Rightarrow> nat option \<Rightarrow> nat list" where
  "files_from 0 rl p = []"
| "files_from (Suc n) rl p = (case p of None \<Rightarrow> [] | Some c \<Rightarrow> c # files_from n rl (siblings (ctnt rl c)))"

definition marks_of :: "sc_res_info \<Rightarrow> mark set" where
  "marks_of ri = (if sc_res_flag_is_stored ri then {Stored} else {})
     \<union> (if sc_res_flag_is_notify ri then {Notified} else {})
     \<union> (if sc_res_flag_is_d_fail ri then {Download_failed} else {})
     \<union> (if sc_res_flag_is_i_fail ri then {Inform_failed} else {})"

definition group_of :: "sc_res_info_mgmt \<Rightarrow> nat list \<Rightarrow> group" where
  "group_of m cs = \<lparr>g_gen = ri_gen (mg_common m), g_site = ri_site (mg_common m), g_url = ri_url (mg_common m),
     g_files = cs\<rparr>"

definition content_of :: "sc_res_info_ctnt \<Rightarrow> content" where
  "content_of c = \<lparr>c_site = ri_site (ct_common c), c_url = ri_url (ct_common c), c_path = cstr (localpath c),
     c_marks = marks_of (ct_common c)\<rparr>"

definition catalog :: "sc_res_list \<Rightarrow> catalog" where
  "catalog rl = \<lparr>
     groups = (\<lambda>i. if mgmt_used rl i
        then Some (group_of (mgmt rl i) (files_from SC_RES_INFO_NUM_MAX_CTNT rl (child (mgmt rl i)))) else None),
     contents = (\<lambda>c. if ctnt_used rl c then Some (content_of (ctnt rl c)) else None)\<rparr>"

lemma files_from_chain:
  "sib_chain (\<lambda>c. siblings (ctnt rl c)) p cs \<Longrightarrow> length cs \<le> n \<Longrightarrow> files_from n rl p = cs"
proof (induction cs arbitrary: n p)
  case Nil
  then show ?case by (cases n) auto
next
  case (Cons c cs)
  then show ?case by (cases n) auto
qed

lemma catalog_tree:
  assumes t: "res_tree rl fm fc ch"
  shows "catalog rl = \<lparr>
     groups = (\<lambda>i. if i < SC_RES_INFO_NUM_MAX_MGMT \<and> i \<notin> set fm then Some (group_of (mgmt rl i) (ch i)) else None),
     contents = (\<lambda>c. if c < SC_RES_INFO_NUM_MAX_CTNT \<and> c \<notin> set fc then Some (content_of (ctnt rl c)) else None)\<rparr>"
proof -
  have "files_from SC_RES_INFO_NUM_MAX_CTNT rl (child (mgmt rl i)) = ch i"
    if "i < SC_RES_INFO_NUM_MAX_MGMT" "i \<notin> set fm" for i
    using files_from_chain child_list_bound [OF t that] res_treeD(5) [OF t that] by (auto simp: mgmt_ok_def)
  then show ?thesis
    by (auto simp: catalog_def mgmt_used_iff [OF t] ctnt_used_iff [OF t] fun_eq_iff)
qed


section \<open>Every operation of the list is one of the catalog\<close>

lemma marks_of_updates:
  "marks_of (flag_setter m ri) = insert m (marks_of ri)"
  "m \<in> {Download_failed, Inform_failed} \<Longrightarrow> marks_of (flag_clearer m ri) = marks_of ri - {m}"
  by (cases m; auto simp: marks_of_def flag_setter_def flag_clearer_def)+

lemma marks_dup_fields:
  "marks_of (ct_common (dup_fields fc c)) = marks_of (ct_common c) \<union> marks_of (ct_common fc) \<inter> {Stored, Notified}"
  by (auto simp: dup_fields_def Let_def marks_of_def)

lemma content_of_siblings [simp]:
  "content_of (c\<lparr>siblings := s\<rparr>) = content_of c" "content_of (c\<lparr>siblings := s, parent := p\<rparr>) = content_of c"
  by (simp_all add: content_of_def)

lemma content_of_dup: "content_of (dup_fields fc c) = merge (content_of fc) (content_of c)"
  by (simp add: content_of_def merge_def marks_dup_fields) (simp add: dup_fields_def Let_def flag_updates)

lemma room_iff:
  fixes n :: nat
  assumes "distinct fl" and "set fl \<subseteq> {..<n}"
  shows "card (dom (\<lambda>i. if i < n \<and> i \<notin> set fl then Some (f i) else None)) < n \<longleftrightarrow> fl \<noteq> []"
proof -
  have d: "dom (\<lambda>i. if i < n \<and> i \<notin> set fl then Some (f i) else None) = {..<n} - set fl"
    by (auto split: if_splits)
  have le: "length fl \<le> n" using card_mono [OF _ assms(2)] distinct_card [OF assms(1)] by simp
  have "card ({..<n} - set fl) = n - length fl"
    using assms by (simp add: card_Diff_subset distinct_card)
  with d le show ?thesis by (cases fl) auto
qed

lemma room_tree:
  assumes t: "res_tree rl fm fc ch"
  shows "card (dom (groups (catalog rl))) < SC_RES_INFO_NUM_MAX_MGMT \<longleftrightarrow> fm \<noteq> []"
    "card (dom (contents (catalog rl))) < SC_RES_INFO_NUM_MAX_CTNT \<longleftrightarrow> fc \<noteq> []"
  using res_treeD(1,2) [OF t] by (simp_all add: catalog_tree [OF t] mgmt_pool_def ctnt_pool_def room_iff)

text \<open>Adding a group.\<close>

lemma group_step:
  assumes t: "res_tree rl fm fc ch" and g: "g \<in> mgmt_gens" and u: "is_cstr url"
    and add: "add_mgmt_with (get_mgmt_as g) care rl url = Some (r, p, rl')"
  shows "cat_step (New_group g url) r (catalog rl) (catalog rl')"
proof -
  have granted: "r = 0 \<longleftrightarrow> group_granted url (catalog rl)"
    using add_mgmt_total [OF t g u, of care] add
    by (auto simp: group_granted_def url_fits_def room_tree [OF t])
  from add_mgmt_tree [OF t g u add] show ?thesis
  proof (elim disjE exE conjE)
    fix i fm' mt
    assume r: "r = 0" and fm: "fm = i # fm'" and t': "res_tree rl' fm' fc ch"
      and m: "mgmt rl' = (mgmt rl)(i := new_mgmt i g url (site_of url) mt)" and c: "ctnt rl' = ctnt rl"
    have i: "i < SC_RES_INFO_NUM_MAX_MGMT" "i \<notin> set fm'" using res_treeD(1) [OF t] fm by (auto simp: mgmt_pool_def)
    have "catalog rl' = new_group i g url (catalog rl)"
      using i free_mgmt_childless [OF t, of i]
      by (auto simp: catalog_tree [OF t] catalog_tree [OF t'] new_group_def group_of_def new_mgmt_def m c fm fun_eq_iff)
    moreover have "groups (catalog rl) i = None" by (simp add: catalog_tree [OF t] fm)
    ultimately show ?thesis using granted r by (auto simp: cat_step_simps)
  next
    assume r: "r = - 1" and t': "res_tree rl' fm fc ch" and c: "ctnt rl' = ctnt rl"
      and m: "\<forall>j. j \<notin> set fm \<longrightarrow> mgmt rl' j = mgmt rl j"
    have "catalog rl' = catalog rl" using m by (auto simp: catalog_tree [OF t] catalog_tree [OF t'] c)
    with granted r show ?thesis by (auto simp: cat_step_simps)
  qed
qed

text \<open>Adding a file.\<close>

lemma local_path_group:
  "url_fits url \<Longrightarrow> fc \<noteq> [] \<Longrightarrow> res_tree rl fm fc ch \<Longrightarrow>
     local_path_ok m url \<longleftrightarrow> file_granted (group_of m cs) url (catalog rl)"
  by (simp add: file_granted_def local_path_ok_def Let_def group_of_def room_tree)

lemma content_of_fill:
  assumes f: "fill_ctnt m u mt (fresh_ctnt c) = (0, ct)" and u: "is_cstr u"
  shows "content_of ct = \<lparr>c_site = ri_site (mg_common m), c_url = u, c_path = path_of (ri_site (mg_common m)) u,
     c_marks = (if ri_gen (mg_common m) = SC_RES_GEN_T_CTRL_LD then {Stored} else {})\<rparr>"
proof -
  have "cstr (localpath ct) = path_of (ri_site (mg_common m)) u"
    using f u
    by (auto simp: fill_ctnt_def Let_def sc_res_info_gen_ctnt_local_path_def sc_res_site_inherit_def kind_defs
        flag_updates path_of_def sc_yk_url_to_local_path_def sc_res_url_to_local_path_default_def
        sc_sohu_file_url_to_local_path_def split: if_splits)
  with fill_ctnt_fields [OF f] show ?thesis by (simp add: content_of_def marks_of_def)
qed

lemma file_slot_step:
  assumes t: "res_tree rl fm fc ch" and i: "i < SC_RES_INFO_NUM_MAX_MGMT" "i \<notin> set fm"
    and u: "is_cstr url" and fits: "url_fits url" and add: "add_ctnt_slot rl i url = Some (r, p, rl')"
  shows "cat_step (New_file i url) r (catalog rl) (catalog rl')"
proof -
  let ?g = "group_of (mgmt rl i) (ch i)"
  have g: "groups (catalog rl) i = Some ?g" using i by (simp add: catalog_tree [OF t])
  have granted: "file_granted ?g url (catalog rl) \<longleftrightarrow> fc \<noteq> [] \<and> local_path_ok (mgmt rl i) url"
    using local_path_group [OF fits _ t] by (auto simp: file_granted_def room_tree [OF t])
  from add_ctnt_slot_tree [OF t i u] fits add have "
      (\<exists>c fc' mt. fc = c # fc' \<and> local_path_ok (mgmt rl i) url \<and> r = 0
            \<and> res_tree rl' fm fc' (ch(i := c # ch i)) \<and> (\<forall>k. k \<noteq> c \<longrightarrow> ctnt rl' k = ctnt rl k)
            \<and> (\<forall>j. mg_common (mgmt rl' j) = mg_common (mgmt rl j))
            \<and> ctnt rl' c = (snd (fill_ctnt (mgmt rl i) (strip_http url) mt (fresh_ctnt c)))
                 \<lparr>siblings := child (mgmt rl i), parent := Some i\<rparr>)
       \<or> (fc = [] \<or> \<not> local_path_ok (mgmt rl i) url) \<and> r = - 1 \<and> res_tree rl' fm fc ch
            \<and> mgmt rl' = mgmt rl \<and> (\<forall>k. k \<notin> set fc \<longrightarrow> ctnt rl' k = ctnt rl k)"
    by (auto simp: url_fits_def)
  then show ?thesis
  proof (elim disjE [of "Ex _"] exE conjE)
    fix c fc' mt
    assume fc: "fc = c # fc'" and lp: "local_path_ok (mgmt rl i) url" and r: "r = 0"
      and t': "res_tree rl' fm fc' (ch(i := c # ch i))" and o: "\<forall>k. k \<noteq> c \<longrightarrow> ctnt rl' k = ctnt rl k"
      and mg: "\<forall>j. mg_common (mgmt rl' j) = mg_common (mgmt rl j)"
      and n: "ctnt rl' c = (snd (fill_ctnt (mgmt rl i) (strip_http url) mt (fresh_ctnt c)))
                 \<lparr>siblings := child (mgmt rl i), parent := Some i\<rparr>"
    obtain ret ct where f: "fill_ctnt (mgmt rl i) (strip_http url) mt (fresh_ctnt c) = (ret, ct)" by fastforce
    with fill_ctnt_result [OF f u] lp n content_of_fill [of "mgmt rl i" "strip_http url" mt c ct] u
    have new: "content_of (ctnt rl' c) = \<lparr>c_site = g_site ?g, c_url = strip_http url,
        c_path = path_of (g_site ?g) (strip_http url),
        c_marks = (if g_gen ?g = SC_RES_GEN_T_CTRL_LD then {Stored} else {})\<rparr>" by (simp add: group_of_def)
    have c: "c < SC_RES_INFO_NUM_MAX_CTNT" "c \<notin> set fc'" using res_treeD(2) [OF t] fc by (auto simp: ctnt_pool_def)
    have "catalog rl' = new_file c i ?g url (catalog rl)"
      using c i o mg new fc by (auto simp: catalog_tree [OF t] catalog_tree [OF t'] new_file_def group_of_def fun_eq_iff)
    moreover have "contents (catalog rl) c = None" by (simp add: catalog_tree [OF t] fc)
    ultimately show ?thesis using granted lp fc r g by (auto simp: cat_step_simps)
  next
    assume no: "fc = [] \<or> \<not> local_path_ok (mgmt rl i) url" and r: "r = - 1" and t': "res_tree rl' fm fc ch"
      and m: "mgmt rl' = mgmt rl" and o: "\<forall>k. k \<notin> set fc \<longrightarrow> ctnt rl' k = ctnt rl k"
    have "catalog rl' = catalog rl" using o by (auto simp: catalog_tree [OF t] catalog_tree [OF t'] m)
    with granted no r g show ?thesis by (auto simp: cat_step_simps)
  qed
qed

lemma file_step:
  assumes t: "res_tree rl fm fc ch" and i: "i < SC_RES_INFO_NUM_MAX_MGMT" "i \<notin> set fm" and u: "is_cstr url"
    and add: "sc_res_info_add_ctnt os rl (Some i) url w = Some ((r, p, rl'), w')"
  shows "cat_step (New_file i url) r (catalog rl) (catalog rl')"
proof (cases "url_fits url \<and> add_ctnt_slot rl i url = Some (r, p, rl')")
  case True
  with file_slot_step [OF t i u] show ?thesis by blast
next
  case False
  let ?g = "group_of (mgmt rl i) (ch i)"
  have "groups (catalog rl) i = Some ?g" using i by (simp add: catalog_tree [OF t])
  moreover have "r = - 1" "rl' = rl" "\<not> url_fits url \<or> g_gen ?g = SC_RES_GEN_T_CTRL_LD"
    using False add
    by (auto simp: sc_res_info_add_ctnt_def bind_Some_conv url_fits_def group_of_def split: if_splits prod.splits)
  ultimately show ?thesis by (auto simp: cat_step_simps file_granted_def)
qed

text \<open>Taking over a loaded file.\<close>

lemma same_video_tree:
  assumes t: "res_tree rl fm fc ch" and "k < SC_RES_INFO_NUM_MAX_CTNT" "k \<notin> set fc" and "l \<in> set (ch i)"
  shows "same_video (catalog rl) k l \<longleftrightarrow> loaded_match rl l k"
  using assms(2-) res_treeD(6) [OF t assms(4)]
  by (auto simp: same_video_def catalog_tree [OF t] loaded_match_def content_of_def split: option.splits)

lemma find_first: "P l \<Longrightarrow> \<forall>x \<in> set xs. \<not> P x \<Longrightarrow> find P (xs @ l # ys) = Some l"
  by (induction xs) auto

lemma take_over_step:
  assumes t: "res_tree rl fm fc ch" and i: "i < SC_RES_INFO_NUM_MAX_MGMT" "i \<notin> set fm"
    and k: "k < SC_RES_INFO_NUM_MAX_CTNT" "k \<notin> set fc" "k \<notin> set (ch i)"
    and run: "sc_res_info_handle_cached (Some i) (Some k) rl = Some (r, rl')"
  shows "cat_step (Take_over i k) r (catalog rl) (catalog rl')"
proof -
  let ?g = "group_of (mgmt rl i) (ch i)"
  have g: "groups (catalog rl) i = Some ?g" using i by (simp add: catalog_tree [OF t])
  note sv = same_video_tree [OF t k(1,2), of _ i]
  from handle_cached_tree [OF t i k] show ?thesis
  proof (elim disjE exE conjE)
    fix xs l ys rl2 s
    assume h: "sc_res_info_handle_cached (Some i) (Some k) rl = Some (HC_SUCCESS, rl2)" and cs: "ch i = xs @ l # ys"
      and lm: "loaded_match rl l k" "\<forall>x \<in> set xs. \<not> loaded_match rl x k"
      and t': "res_tree rl2 fm (l # fc) (ch(i := xs @ ys))"
      and d: "ctnt rl2 k = (dup_fields (ctnt rl l) (ctnt rl k))\<lparr>siblings := s\<rparr>"
      and o: "\<forall>x. x \<noteq> l \<longrightarrow> x \<noteq> k \<longrightarrow> (\<exists>s. ctnt rl2 x = (ctnt rl x)\<lparr>siblings := s\<rparr>)"
      and mg: "\<forall>j. mg_common (mgmt rl2 j) = mg_common (mgmt rl j)"
    have r: "r = HC_SUCCESS" "rl' = rl2" using h run by auto
    have f: "find (same_video (catalog rl) k) (ch i) = Some l"
      unfolding cs by (rule find_first) (use lm sv cs in auto)
    have l: "l < SC_RES_INFO_NUM_MAX_CTNT" "l \<notin> set fc" "l \<noteq> k" using res_treeD(6) [OF t, of l i] cs k(3) by auto
    have "distinct (ch i)" using res_treeD(5) [OF t i] by (simp add: mgmt_ok_def)
    then have rm: "remove1 l (ch i) = xs @ ys" by (simp add: cs remove1_append)
    have same: "content_of (ctnt rl2 x) = content_of (ctnt rl x)" if "x \<noteq> l" "x \<noteq> k" for x
    proof -
      from o that obtain s where "ctnt rl2 x = (ctnt rl x)\<lparr>siblings := s\<rparr>" by blast
      then show ?thesis by simp
    qed
    have kc: "content_of (ctnt rl2 k) = merge (content_of (ctnt rl l)) (content_of (ctnt rl k))"
      by (simp add: d content_of_dup)
    have "catalog rl2 = take_over i l k (catalog rl)"
      using k l i mg same kc rm
      by (auto simp: catalog_tree [OF t] catalog_tree [OF t'] take_over_def group_of_def fun_eq_iff)
    with f g r show ?thesis by (auto simp: cat_step_simps group_of_def)
  next
    assume no: "\<forall>l \<in> set (ch i). \<not> loaded_match rl l k"
      and h: "sc_res_info_handle_cached (Some i) (Some k) rl = Some (HC_ERR_INTERNAL, rl)"
    have "find (same_video (catalog rl) k) (ch i) = None" using no sv by (auto simp: find_None_iff)
    with g h run show ?thesis by (auto simp: cat_step_simps group_of_def)
  qed
qed

text \<open>The flags.\<close>

lemma mark_catalog:
  assumes t: "res_tree rl fm fc ch" and k: "k < SC_RES_INFO_NUM_MAX_CTNT" "k \<notin> set fc"
    and f: "\<And>ri. marks_of (f ri) = F (marks_of ri)" "\<And>ri. \<exists>x. f ri = ri\<lparr>ri_flag := x\<rparr>"
    and t': "res_tree (upd_ctnt_ri k f rl) fm fc ch"
  shows "catalog (upd_ctnt_ri k f rl) = on_marks k F (catalog rl)"
proof -
  obtain x where x: "f (ct_common (ctnt rl k)) = (ct_common (ctnt rl k))\<lparr>ri_flag := x\<rparr>" using f(2) by blast
  with f(1) [of "ct_common (ctnt rl k)"]
  have "content_of (ctnt (upd_ctnt_ri k f rl) k) = (content_of (ctnt rl k))\<lparr>c_marks := F (c_marks (content_of (ctnt rl k)))\<rparr>"
    by (simp add: content_of_def upd_defs)
  then show ?thesis
    unfolding catalog_tree [OF t] catalog_tree [OF t'] using k by (auto simp: on_marks_def upd_defs fun_eq_iff)
qed

lemma flag_setter_only: "\<exists>x. flag_setter m ri = ri\<lparr>ri_flag := x\<rparr>"
  by (cases m) (auto simp: flag_setter_def flag_updates)

lemma flag_clearer_only: "\<exists>x. flag_clearer m ri = ri\<lparr>ri_flag := x\<rparr>"
  by (auto simp: flag_clearer_def flag_updates)

lemma mark_step:
  assumes t: "res_tree rl fm fc ch" and ok: "request_ok (Set_mark k m) (catalog rl)"
  shows "res_inv (upd_ctnt_ri k (flag_setter m) rl)
       \<and> cat_step (Set_mark k m) 0 (catalog rl) (catalog (upd_ctnt_ri k (flag_setter m) rl))"
proof -
  have k: "k < SC_RES_INFO_NUM_MAX_CTNT" "k \<notin> set fc" and st: "m = Notified \<Longrightarrow> sc_res_flag_is_stored (ct_common (ctnt rl k))"
    using ok by (auto simp: catalog_tree [OF t] content_of_def marks_of_def split: option.splits if_splits)
  have t': "res_tree (upd_ctnt_ri k (flag_setter m) rl) fm fc ch"
    by (rule flag_tree [OF t _ flag_setter_only])
      (use k st in \<open>cases m; auto simp: ctnt_used_iff [OF t] flag_setter_def\<close>)+
  from mark_catalog [OF t k marks_of_updates(1) flag_setter_only t'] t' show ?thesis
    by (auto simp: cat_step_simps res_invI)
qed

lemma clear_step:
  assumes t: "res_tree rl fm fc ch" and ok: "request_ok (Clear_mark k m) (catalog rl)"
  shows "res_inv (upd_ctnt_ri k (flag_clearer m) rl)
       \<and> cat_step (Clear_mark k m) 0 (catalog rl) (catalog (upd_ctnt_ri k (flag_clearer m) rl))"
proof -
  have k: "k < SC_RES_INFO_NUM_MAX_CTNT" "k \<notin> set fc" and m: "m \<in> {Download_failed, Inform_failed}"
    using ok by (auto simp: catalog_tree [OF t] split: if_splits)
  have t': "res_tree (upd_ctnt_ri k (flag_clearer m) rl) fm fc ch"
    by (rule flag_tree [OF t _ flag_clearer_only])
      (use k m in \<open>auto simp: ctnt_used_iff [OF t] flag_clearer_def\<close>)+
  from mark_catalog [OF t k marks_of_updates(2) [OF m] flag_clearer_only t'] t' show ?thesis
    by (auto simp: cat_step_simps res_invI)
qed

section \<open>The refinement\<close>

lemma list_run_refines:
  assumes inv: "res_inv rl" and ok: "request_ok x (catalog rl)" and run: "list_run os x rl w = Some (r, rl')"
  shows "res_inv rl' \<and> cat_step x r (catalog rl) (catalog rl')"
proof -
  from inv obtain fm fc ch where t: "res_tree rl fm fc ch" by (auto simp: res_inv_def)
  show ?thesis
  proof (cases x)
    case (New_group g url)
    then obtain p where a: "add_group g rl url = Some (r, p, rl')" and g: "g \<in> mgmt_gens" and u: "is_cstr url"
      using ok run by auto
    then obtain care where "add_mgmt_with (get_mgmt_as g) care rl url = Some (r, p, rl')"
      by (auto simp: add_group_def add_mgmt_variants mgmt_gens_def split: if_splits)
    with group_step [OF t g u] add_mgmt_inv [OF inv g u] New_group show ?thesis by blast
  next
    case (New_file h url)
    then obtain p w' where a: "sc_res_info_add_ctnt os rl (Some h) url w = Some ((r, p, rl'), w')" and u: "is_cstr url"
      and h: "h < SC_RES_INFO_NUM_MAX_MGMT" "h \<notin> set fm"
      using ok run by (auto simp: catalog_tree [OF t] split: if_splits)
    with file_step [OF t h u a] add_ctnt_inv [OF inv _ u a] New_file show ?thesis by (auto simp: mgmt_used_iff [OF t])
  next
    case (Take_over h k)
    then have a: "sc_res_info_handle_cached (Some h) (Some k) rl = Some (r, rl')"
      and h: "h < SC_RES_INFO_NUM_MAX_MGMT" "h \<notin> set fm"
      and k: "k < SC_RES_INFO_NUM_MAX_CTNT" "k \<notin> set fc" "k \<notin> set (ch h)"
      using ok run by (auto simp: catalog_tree [OF t] group_of_def split: if_splits option.splits)
    have "res_inv rl'"
      using handle_cached_inv [OF inv, of h k] h k a child_iff [OF t, of k h]
      by (auto simp: mgmt_used_iff [OF t] ctnt_used_iff [OF t])
    with take_over_step [OF t h k a] Take_over show ?thesis by blast
  next
    case (Set_mark k m)
    with mark_step [OF t, of k m] ok run show ?thesis by auto
  next
    case (Clear_mark k m)
    with clear_step [OF t, of k m] ok run show ?thesis by auto
  qed
qed

lemma list_run_total:
  assumes inv: "res_inv rl" and ok: "request_ok x (catalog rl)"
  shows "\<exists>r rl'. list_run os x rl w = Some (r, rl')"
proof -
  from inv obtain fm fc ch where t: "res_tree rl fm fc ch" by (auto simp: res_inv_def)
  show ?thesis
  proof (cases x)
    case (New_group g url)
    then obtain care where "add_group g rl url = add_mgmt_with (get_mgmt_as g) care rl url" "g \<in> mgmt_gens" "is_cstr url"
      using ok by (auto simp: add_group_def add_mgmt_variants mgmt_gens_def)
    with add_mgmt_total [OF t, of g url care] New_group show ?thesis by auto
  next
    case (New_file h url)
    then have "mgmt_used rl h" "is_cstr url"
      using ok by (auto simp: mgmt_used_iff [OF t] catalog_tree [OF t] split: if_splits)
    with add_ctnt_total [OF inv, of h url os w] New_file show ?thesis by (auto split: prod.splits)
  next
    case (Take_over h k)
    then have "mgmt_used rl h" "ctnt_used rl k" "k \<notin> set (ch h)"
      using ok by (auto simp: mgmt_used_iff [OF t] ctnt_used_iff [OF t] catalog_tree [OF t] group_of_def
          split: if_splits option.splits)
    with handle_cached_inv [OF inv, of h k] child_iff [OF t, of k h] Take_over show ?thesis by auto
  qed auto
qed

definition list_step :: "'w os \<Rightarrow> request \<Rightarrow> int \<Rightarrow> sc_res_list \<Rightarrow> sc_res_list \<Rightarrow> bool" where
  "list_step os x r rl rl' \<longleftrightarrow> (\<exists>w. list_run os x rl w = Some (r, rl'))"

lemma init_catalog: "shm_ok a \<Longrightarrow> catalog (init_list a) = empty_catalog"
  by (simp add: catalog_tree [OF init_res_tree] empty_catalog_def)

interpretation cat: data_refinement "\<lambda>rl. \<exists>a. shm_ok a \<and> rl = init_list a" res_inv catalog "\<lambda>C. C = empty_catalog"
  request_ok "list_step os" cat_step for os :: "'w os"
proof
  show "res_inv rl \<and> catalog rl = empty_catalog" if "\<exists>a. shm_ok a \<and> rl = init_list a" for rl
    using that res_invI [OF init_res_tree] init_catalog by blast
  show "res_inv rl' \<and> cat_step x r (catalog rl) (catalog rl')"
    if "res_inv rl" "request_ok x (catalog rl)" "list_step os x r rl rl'" for rl x r rl'
    using that(3) unfolding list_step_def by (elim exE) (rule list_run_refines [OF that(1,2)])
qed

section \<open>What the catalog guarantees\<close>

definition owners :: "catalog \<Rightarrow> nat \<Rightarrow> nat set" where
  "owners C k = {h. \<exists>g. groups C h = Some g \<and> k \<in> set (g_files g)}"

definition cat_wf :: "catalog \<Rightarrow> bool" where
  "cat_wf C \<longleftrightarrow>
     (\<forall>k. if k \<in> dom (contents C) then \<exists>h. owners C k = {h} else owners C k = {}) \<and>
     (\<forall>g \<in> ran (groups C). distinct (g_files g)) \<and>
     (\<forall>c \<in> ran (contents C). Notified \<in> c_marks c \<longrightarrow> Stored \<in> c_marks c) \<and>
     (\<forall>g \<in> ran (groups C). g_gen g = SC_RES_GEN_T_CTRL_LD \<longrightarrow>
        (\<forall>k \<in> set (g_files g). \<forall>c. contents C k = Some c \<longrightarrow> Stored \<in> c_marks c))"

lemma cat_wfI:
  assumes "\<And>k c. contents C k = Some c \<Longrightarrow> \<exists>h. owners C k = {h}" and "\<And>k. contents C k = None \<Longrightarrow> owners C k = {}"
    and "\<And>h g. groups C h = Some g \<Longrightarrow> distinct (g_files g)"
    and "\<And>k c. contents C k = Some c \<Longrightarrow> Notified \<in> c_marks c \<Longrightarrow> Stored \<in> c_marks c"
    and "\<And>h g k c. groups C h = Some g \<Longrightarrow> g_gen g = SC_RES_GEN_T_CTRL_LD \<Longrightarrow> k \<in> set (g_files g) \<Longrightarrow>
           contents C k = Some c \<Longrightarrow> Stored \<in> c_marks c"
  shows "cat_wf C"
  unfolding cat_wf_def ran_def using assms by (auto simp: domIff)

lemma cat_wfD:
  assumes "cat_wf C"
  shows "contents C k = Some c \<Longrightarrow> \<exists>h. owners C k = {h}" and "contents C k = None \<Longrightarrow> owners C k = {}"
    and "groups C h = Some g \<Longrightarrow> distinct (g_files g)"
    and "contents C k = Some c \<Longrightarrow> Notified \<in> c_marks c \<Longrightarrow> Stored \<in> c_marks c"
    and "groups C h = Some g \<Longrightarrow> g_gen g = SC_RES_GEN_T_CTRL_LD \<Longrightarrow> k \<in> set (g_files g) \<Longrightarrow>
           contents C k = Some c \<Longrightarrow> Stored \<in> c_marks c"
  using assms unfolding cat_wf_def ran_def by (auto simp: domIff)

lemma cat_wf_new_group:
  assumes wf: "cat_wf C" and h: "groups C h = None"
  shows "cat_wf (new_group h gen url C)"
proof -
  have "owners (new_group h gen url C) k = owners C k" for k
    using h by (auto simp: owners_def new_group_def)
  then show ?thesis
    by (intro cat_wfI) (use cat_wfD [OF wf] in \<open>auto simp: new_group_def split: if_splits\<close>)
qed

lemma cat_wf_new_file:
  assumes wf: "cat_wf C" and h: "groups C h = Some g" and c: "contents C c = None"
  shows "cat_wf (new_file c h g url C)"
proof -
  have no: "owners C c = {}" by (rule cat_wfD(2) [OF wf c])
  then have nf: "c \<notin> set (g_files g')" if "groups C h' = Some g'" for h' g'
    using that by (auto simp: owners_def)
  have "owners (new_file c h g url C) k = (if k = c then {h} else owners C k)" for k
    using h no by (auto simp: owners_def new_file_def)
  then show ?thesis
    by (intro cat_wfI) (use cat_wfD [OF wf] h nf in \<open>auto simp: new_file_def split: if_splits\<close>)
qed

lemma cat_wf_marks:
  assumes wf: "cat_wf C" and c: "contents C k = Some c"
    and f: "Stored \<in> c_marks c \<Longrightarrow> Stored \<in> F (c_marks c)" "Notified \<in> F (c_marks c) \<Longrightarrow> Stored \<in> F (c_marks c)"
  shows "cat_wf (on_marks k F C)"
proof -
  have "owners (on_marks k F C) l = owners C l" for l by (auto simp: owners_def on_marks_def)
  then show ?thesis
    by (intro cat_wfI) (use cat_wfD [OF wf] c f in \<open>auto simp: on_marks_def split: if_splits\<close>)
qed

lemma cat_wf_take_over:
  assumes wf: "cat_wf C" and h: "groups C h = Some g" and k: "k \<in> dom (contents C)" "k \<notin> set (g_files g)"
    and l: "l \<in> set (g_files g)"
  shows "cat_wf (take_over h l k C)"
proof -
  let ?C = "take_over h l k C"
  have "h \<in> owners C l" using h l by (auto simp: owners_def)
  with cat_wfD(1,2) [OF wf, of l] have lo: "owners C l = {h}" by (cases "contents C l") auto
  have dg: "distinct (g_files g)" by (rule cat_wfD(3) [OF wf h])
  have own: "owners ?C x = (if x = l then {} else owners C x)" for x
  proof -
    have "h' \<noteq> h \<Longrightarrow> groups C h' = Some g' \<Longrightarrow> l \<notin> set (g_files g')" for h' g' using lo by (auto simp: owners_def)
    then show ?thesis using h dg by (auto simp: owners_def take_over_def)
  qed
  obtain ck cl where ck: "contents C k = Some ck" and cl: "contents C l = Some cl"
    using k cat_wfD(2) [OF wf, of l] lo by (cases "contents C l") auto
  have st: "Stored \<in> c_marks (merge cl ck)" if "Stored \<in> c_marks ck" using that by (simp add: merge_def)
  have no: "Stored \<in> c_marks (merge cl ck)" if "Notified \<in> c_marks (merge cl ck)"
    using that cat_wfD(4) [OF wf ck] cat_wfD(4) [OF wf cl] by (auto simp: merge_def)
  show ?thesis
  proof (rule cat_wfI)
    show "\<exists>h. owners ?C x = {h}" if "contents ?C x = Some c" for x c
      using that own cat_wfD(1) [OF wf, of x] k by (auto simp: take_over_def split: if_splits)
    show "owners ?C x = {}" if "contents ?C x = None" for x
      using that own cat_wfD(2) [OF wf, of x] by (auto simp: take_over_def split: if_splits)
    show "distinct (g_files g')" if "groups ?C h' = Some g'" for h' g'
      using that cat_wfD(3) [OF wf] dg by (auto simp: take_over_def split: if_splits)
    show "Stored \<in> c_marks c" if "contents ?C x = Some c" "Notified \<in> c_marks c" for x c
      using that cat_wfD(4) [OF wf] no ck cl by (auto simp: take_over_def split: if_splits)
    show "Stored \<in> c_marks c"
      if x: "groups ?C h' = Some g'" "g_gen g' = SC_RES_GEN_T_CTRL_LD" "x \<in> set (g_files g')" "contents ?C x = Some c" for h' g' x c
    proof -
      obtain g0 where g0: "groups C h' = Some g0" "g_gen g0 = SC_RES_GEN_T_CTRL_LD" "x \<in> set (g_files g0)"
        using x(1-3) h by (auto simp: take_over_def set_remove1_eq [OF dg] split: if_splits)
      show ?thesis
        using x(4) cat_wfD(5) [OF wf g0] st ck cl by (auto simp: take_over_def split: if_splits)
    qed
  qed
qed

lemma cat_step_wf: "cat_step x r C C' \<Longrightarrow> request_ok x C \<Longrightarrow> cat_wf C \<Longrightarrow> cat_wf C'"
proof (induction rule: cat_step.induct)
  case (taken C h g k l)
  then have "l \<in> set (g_files g)" by (auto simp: find_Some_iff)
  with taken show ?case by (intro cat_wf_take_over) auto
next
  case (marked k m C)
  then show ?case using cat_wfD(4) [OF marked(2), of k] by (auto intro!: cat_wf_marks split: option.splits)
next
  case (cleared k m C)
  then show ?case using cat_wfD(4) [OF cleared(2), of k] by (auto intro!: cat_wf_marks)
qed (auto intro: cat_wf_new_group cat_wf_new_file)

lemma cat_wf_empty: "cat_wf empty_catalog"
  by (rule cat_wfI) (auto simp: empty_catalog_def owners_def)

section \<open>Lookups\<close>

definition group_named :: "catalog \<Rightarrow> string \<Rightarrow> nat \<Rightarrow> bool" where
  "group_named C url h = (case groups C h of None \<Rightarrow> False | Some g \<Rightarrow> g_url g = url)"

definition content_named :: "catalog \<Rightarrow> string \<Rightarrow> nat \<Rightarrow> bool" where
  "content_named C url k = (case contents C k of None \<Rightarrow> False | Some c \<Rightarrow> c_url c = url)"

lemma find_from_named: "find_from P 0 n = find P [0..<n]"
proof (cases "find P [0..<n]")
  case None
  then have "find_from P 0 n = None" by (simp add: find_None_iff find_from_None_iff)
  with None show ?thesis by simp
next
  case (Some k)
  then have "find_from P 0 n = Some k" by (intro find_from_eqI) (auto simp: find_Some_iff)
  with Some show ?thesis by simp
qed

lemma named_tree:
  assumes t: "res_tree rl fm fc ch" and u: "url \<noteq> []"
  shows "i < SC_RES_INFO_NUM_MAX_MGMT \<Longrightarrow> cstr (ri_url (mg_common (mgmt rl i))) = url \<longleftrightarrow> group_named (catalog rl) url i"
    "k < SC_RES_INFO_NUM_MAX_CTNT \<Longrightarrow> cstr (ri_url (ct_common (ctnt rl k))) = url \<longleftrightarrow> content_named (catalog rl) url k"
  using res_treeD(3-5,8) [OF t] u
  by (auto simp: catalog_tree [OF t] group_named_def content_named_def group_of_def content_of_def
      mgmt_ok_def ctnt_fields_ok_def url_ok_def)

section \<open>Properties\<close>

text \<open>C18. The list refines the catalog: on a sound list every request whose obligation holds is
  served without a fault, leaves a sound list, and is answered and carried out as the catalog does
  it. In particular a group or file is refused only when its URL does not fit, its site or path is
  not accepted, or the slots are used up, or, for a file of a loader, when the Snooping module
  did not take the deletion.\<close>

theorem catalog_refinement:
  assumes "res_inv rl" and "request_ok x (catalog rl)"
  shows "\<exists>r rl'. list_run os x rl w = Some (r, rl') \<and> res_inv rl' \<and> cat_step x r (catalog rl) (catalog rl')"
  using list_run_total [OF assms, of os w] list_run_refines [OF assms, of os w] by blast

theorem catalog_refinement_witness:
  "\<exists>r rl'. list_run scripted (New_group SC_RES_GEN_T_ORIGIN demo_origin) (init_list demo_addr)
       \<lparr>answers = [], sent = [], opened = 0, closed = 0\<rparr> = Some (r, rl') \<and> res_inv rl'
     \<and> cat_step (New_group SC_RES_GEN_T_ORIGIN demo_origin) r empty_catalog (catalog rl')"
  using catalog_refinement [OF res_invI [OF init_res_tree [OF demo_shm]],
      of "New_group SC_RES_GEN_T_ORIGIN demo_origin" scripted "\<lparr>answers = [], sent = [], opened = 0, closed = 0\<rparr>"]
    demo_urls(1)
  by (simp add: init_catalog [OF demo_shm] mgmt_gens_def)

text \<open>C19. Runs: whatever sequence of requests was served since the segment was initialised, the
  list stands for the catalog that the same requests with the same answers lead to, and in that
  catalog every content is owned by exactly one group, listed there once, files of loaders are
  stored, and only stored files are notified.\<close>

theorem catalog_runs:
  assumes "shm_ok a" and "runs (\<lambda>rl. rl = init_list a) (\<lambda>x rl. request_ok x (catalog rl)) (list_step os) xs rl"
  shows "runs (\<lambda>C. C = empty_catalog) request_ok cat_step xs (catalog rl) \<and> cat_wf (catalog rl)"
proof
  have r: "runs (\<lambda>rl. \<exists>a. shm_ok a \<and> rl = init_list a) (\<lambda>x rl. request_ok x (catalog rl)) (list_step os) xs rl"
    using assms(2) by (induction rule: runs.induct) (auto intro: runs.intros assms(1))
  show "runs (\<lambda>C. C = empty_catalog) request_ok cat_step xs (catalog rl)" using cat.runs_refine [OF r] by blast
  show "cat_wf (catalog rl)"
    by (rule cat.abstract_invariant [OF _ _ r]) (auto intro: cat_wf_empty cat_step_wf)
qed

theorem catalog_runs_witness:
  "\<exists>r rl. runs (\<lambda>C. C = empty_catalog) request_ok cat_step [(New_group SC_RES_GEN_T_ORIGIN demo_origin, r)] (catalog rl)
     \<and> cat_wf (catalog rl)"
proof -
  let ?x = "New_group SC_RES_GEN_T_ORIGIN demo_origin" and ?rl = "init_list demo_addr"
  let ?w = "\<lparr>answers = [], sent = [], opened = 0, closed = 0\<rparr>"
  have ok: "request_ok ?x (catalog ?rl)" using demo_urls(1) by (simp add: mgmt_gens_def)
  from list_run_total [OF res_invI [OF init_res_tree [OF demo_shm]] ok, of scripted ?w]
  obtain r rl where "list_step scripted ?x r ?rl rl" unfolding list_step_def by blast
  then have "runs (\<lambda>rl. rl = ?rl) (\<lambda>x rl. request_ok x (catalog rl)) (list_step scripted) ([] @ [(?x, r)]) rl"
    using ok by (intro runs.served [of _ _ _ "[]" ?rl] runs.fresh) auto
  from catalog_runs [OF demo_shm this] show ?thesis by auto
qed

text \<open>C20. Lookups: on a sound list \<open>sc_res_info_find_mgmt\<close> and \<open>sc_res_info_find_ctnt\<close> return
  the first group and the first content of the catalog with the given URL, and nothing when the
  catalog has none; the free slots are never found.\<close>

theorem catalog_lookup:
  assumes "res_inv rl" and "url \<noteq> []"
  shows "sc_res_info_find_mgmt rl url = find (group_named (catalog rl) url) [0..<SC_RES_INFO_NUM_MAX_MGMT]
       \<and> sc_res_info_find_ctnt rl url = find (content_named (catalog rl) url) [0..<SC_RES_INFO_NUM_MAX_CTNT]"
proof -
  from assms(1) obtain fm fc ch where t: "res_tree rl fm fc ch" by (auto simp: res_inv_def)
  show ?thesis
    unfolding sc_res_info_find_mgmt_def sc_res_info_find_ctnt_def find_from_named [symmetric]
    by (intro conjI find_from_cong named_tree [OF t assms(2)])
qed

theorem catalog_lookup_witness:
  "\<exists>rl. ctnt_used rl 4095 \<and> ri_url (ct_common (ctnt rl 4095)) = demo_content
     \<and> sc_res_info_find_ctnt rl demo_content = find (content_named (catalog rl) demo_content) [0..<SC_RES_INFO_NUM_MAX_CTNT]"
proof -
  obtain rl where rl: "res_reach scripted demo_addr rl" "ctnt_used rl 4095" "ri_url (ct_common (ctnt rl 4095)) = demo_content"
    using demo_list by blast
  have "demo_content \<noteq> []" by (simp add: demo_content_def)
  from catalog_lookup [OF res_reach_inv [OF rl(1) demo_shm] this] rl(2,3) show ?thesis by blast
qed

end
