(* ===== verification/Flv_Seek.thy ===== *)
theory Flv_Seek
  imports Complex_Main Getfile_Module
begin

text \<open>
  Seeking in a stored FLV file: what was added to \<^verbatim>\<open>ngx_http_flv_module.c\<close>. A player asks for
  \<open>?start=t\<close> with a time in seconds; the module looks up the table of keyframes in the file's
  metadata and sends the part of the file before the second keyframe, and then the file from the
  keyframe at that time on. The first 16 KB of the file are read into a zeroed array; reading
  outside of it is a fault (\<open>None\<close>), and so is the conversion of a \<open>double\<close> that does not fit into
  an \<open>off_t\<close>, which C leaves undefined. The request's argument is found by \<open>ngx_http_arg\<close> and read
  by \<open>ngx_atoof\<close>, which are modelled too; the other nginx services are the fields of \<open>flv_env\<close>.
\<close>

section \<open>Numbers in the metadata\<close>

definition FLV_METADATA_READ_LEN :: nat where "FLV_METADATA_READ_LEN = 16384"

definition be_val :: "buf \<Rightarrow> nat" where
  "be_val cs = foldl (\<lambda>a c. 256 * a + ord c) 0 cs"

text \<open>The big-endian number of \<open>k\<close> bytes at index \<open>i\<close> of the array.\<close>

definition flv_be :: "buf \<Rightarrow> nat \<Rightarrow> nat \<Rightarrow> nat option" where
  "flv_be d k i = (if i + k \<le> FLV_METADATA_READ_LEN then Some (be_val (map (byte_at d) [i..<i + k])) else None)"

text \<open>\<open>(off_t)dd\<close> for the \<open>double\<close> with these bits: truncation towards zero.\<close>

definition double_trunc :: "nat \<Rightarrow> int option" where
  "double_trunc b =
     (let s = b div 2 ^ 63; e = b div 2 ^ 52 mod 2 ^ 11; f = b mod 2 ^ 52;
          m = (if e < 1023 then 0
               else if e < 1075 then (2 ^ 52 + f) div 2 ^ (1075 - e)
               else (2 ^ 52 + f) * 2 ^ (e - 1075));
          v = (if s = 0 then int m else - int m)
      in if e = 2047 \<or> v < - (2 ^ 63) \<or> 2 ^ 63 \<le> v then None else Some v)"

section \<open>Looking up a keyframe\<close>

definition is_script_tag :: "nat \<Rightarrow> bool" where "is_script_tag v \<longleftrightarrow> v = 0x12"
definition is_video_tag :: "nat \<Rightarrow> bool" where "is_video_tag v \<longleftrightarrow> v = 0x09"
definition is_audio_tag :: "nat \<Rightarrow> bool" where "is_audio_tag v \<longleftrightarrow> v = 0x08"

text \<open>Whether a tag starts at \<open>i\<close>: a known type, stream 0, and a size that is repeated, with the
  header, behind the tag. The result is the size with its header.\<close>

definition kf_tag_at :: "buf \<Rightarrow> nat \<Rightarrow> nat \<Rightarrow> nat option option" where
  "kf_tag_at d n i = do {
     t \<leftarrow> flv_be d 1 i;
     if \<not> (is_script_tag t \<or> is_audio_tag t \<or> is_video_tag t) then Some None
     else do {
       s8 \<leftarrow> flv_be d 1 (i + 8);
       if s8 \<noteq> 0 then Some None
       else do {
         s9 \<leftarrow> flv_be d 1 (i + 9);
         if s9 \<noteq> 0 then Some None
         else do {
           s10 \<leftarrow> flv_be d 1 (i + 10);
           if s10 \<noteq> 0 then Some None
           else do {
             sz \<leftarrow> flv_be d 3 (i + 1);
             if i + sz \<le> n \<and> 0 < sz then do {
               e \<leftarrow> flv_be d 3 (i + sz + 12);
               Some (if int sz = int e - 11 then Some (sz + 11) else None)
             }
             else Some None
           }
         }
       }
     }
   }"

function ngx_http_flv_kf_find_tag_pos :: "buf \<Rightarrow> nat \<Rightarrow> nat \<Rightarrow> (nat \<times> nat) option option" where
  "ngx_http_flv_kf_find_tag_pos d n i =
     (if i < n then do {
        r \<leftarrow> kf_tag_at d n i;
        (case r of Some sz \<Rightarrow> Some (Some (i, sz)) | None \<Rightarrow> ngx_http_flv_kf_find_tag_pos d n (Suc i))
      }
      else Some None)"
  by pat_completeness auto
termination by (relation "measure (\<lambda>(d, n, i). n - i)") auto

declare ngx_http_flv_kf_find_tag_pos.simps [simp del]

definition kf_word :: string where "kf_word = ''keyframes''"

text \<open>\<open>strstr(buf + i, "keyframes")\<close>: the index of the match. The string ends at a NUL, and every
  byte of the array behind those read is one.\<close>

definition kf_strstr :: "buf \<Rightarrow> nat \<Rightarrow> nat option option" where
  "kf_strstr d i =
     (case strstr (cstr (drop i d)) kf_word of
        Some t \<Rightarrow> Some (Some (i + (length (cstr (drop i d)) - length t)))
      | None \<Rightarrow> if FLV_METADATA_READ_LEN \<le> length d \<and> NUL \<notin> set (drop i d) then None else Some None)"

function kf_search :: "buf \<Rightarrow> nat \<Rightarrow> nat \<Rightarrow> nat option option" where
  "kf_search d n i =
     (if i < n then
        if byte_at d i = CHR ''k'' then do {
          r \<leftarrow> kf_strstr d i;
          (case r of Some k \<Rightarrow> Some (Some k) | None \<Rightarrow> kf_search d n (Suc i))
        }
        else kf_search d n (Suc i)
      else Some None)"
  by pat_completeness auto
termination by (relation "measure (\<lambda>(d, n, i). n - i)") auto

declare kf_search.simps [simp del]

function kf_time_loop :: "buf \<Rightarrow> int \<Rightarrow> nat \<Rightarrow> nat \<Rightarrow> nat \<Rightarrow> nat option" where
  "kf_time_loop d start cnt i p =
     (if i < cnt then do {
        bits \<leftarrow> flv_be d 8 (p + 1);
        t \<leftarrow> double_trunc bits;
        if start < t then Some i else kf_time_loop d start cnt (Suc i) (p + 9)
      }
      else Some i)"
  by pat_completeness auto
termination by (relation "measure (\<lambda>(d, start, cnt, i, p). cnt - i)") auto

declare kf_time_loop.simps [simp del]

text \<open>The result is \<open>NGX_ERROR\<close> (\<open>Some None\<close>), or the offset and the position of the second
  keyframe. The number of keyframes is read into four bytes through a pointer to eight; the
  conversion \<open>be32toh\<close> only looks at the four that were written.\<close>

definition ngx_http_flv_kf_compute_offset :: "buf \<Rightarrow> nat \<Rightarrow> int \<Rightarrow> (int \<times> int) option option" where
  "ngx_http_flv_kf_compute_offset d n start = do {
     tag \<leftarrow> ngx_http_flv_kf_find_tag_pos d n 0;
     (case tag of
        None \<Rightarrow> Some None
      | Some (tag_index, tag_size) \<Rightarrow> do {
          t \<leftarrow> flv_be d 1 tag_index;
          if \<not> is_script_tag t then Some None
          else do {
            kf \<leftarrow> kf_search d n (tag_index + 1);
            (case kf of
               None \<Rightarrow> Some None
             | Some kf_ptr \<Rightarrow> do {
                 keyframe_total \<leftarrow> flv_be d 4 (kf_ptr + 26);
                 let fpos_start = kf_ptr + 30;
                 i \<leftarrow> kf_time_loop d start keyframe_total 0 (fpos_start + 9 * keyframe_total + 12);
                 let start_kf_num = (if i = 0 then 0 else i - 1);
                 b1 \<leftarrow> flv_be d 8 (fpos_start + 9 * start_kf_num + 1);
                 offset \<leftarrow> double_trunc b1;
                 b2 \<leftarrow> flv_be d 8 (fpos_start + 9 + 1);
                 pre_kf2_size \<leftarrow> double_trunc b2;
                 Some (Some (offset, pre_kf2_size))
               })
          }
        })
   }"

text \<open>\<open>contents\<close> is the file, \<open>None\<close> if it cannot be read.\<close>

definition ngx_http_flv_time_to_offset :: "buf option \<Rightarrow> int \<Rightarrow> (int \<times> int) option option" where
  "ngx_http_flv_time_to_offset contents start =
     (case contents of
        None \<Rightarrow> Some None
      | Some c \<Rightarrow> let d = take FLV_METADATA_READ_LEN c in ngx_http_flv_kf_compute_offset d (length d) start)"

section \<open>The argument\<close>

definition ngx_tolower :: "char \<Rightarrow> char" where
  "ngx_tolower c = (if isupper c then char_of (ord c + 32) else c)"

text \<open>\<open>ngx_strlcasestrn(s + p, s + stop, name, n)\<close> with \<open>n\<close> one less than the length of the name:
  the first match from \<open>p\<close> on that starts before \<open>stop - n\<close>.\<close>

definition ngx_strlcasestrn :: "string \<Rightarrow> nat \<Rightarrow> nat \<Rightarrow> string \<Rightarrow> nat option" where
  "ngx_strlcasestrn s p stop name =
     find_from (\<lambda>q. map ngx_tolower (take (length name) (drop q s)) = map ngx_tolower name) p (stop - (length name - 1))"

function ngx_arg_loop :: "string \<Rightarrow> string \<Rightarrow> nat \<Rightarrow> string option" where
  "ngx_arg_loop args name p =
     (if p < length args then
        case ngx_strlcasestrn args p (length args - 1) name of
          None \<Rightarrow> None
        | Some q \<Rightarrow>
            if (q = 0 \<or> args ! (q - 1) = CHR ''&'') \<and> args ! (q + length name) = CHR ''=''
            then Some (takeWhile (\<lambda>c. c \<noteq> CHR ''&'') (drop (q + length name + 1) args))
            else ngx_arg_loop args name (Suc q)
      else None)"
  by pat_completeness auto
termination
proof (relation "measure (\<lambda>(args, name, p). length args - p)")
  fix args name :: string and p q
  assume p: "p < length args" and q: "ngx_strlcasestrn args p (length args - 1) name = Some q"
  from find_from_SomeD [OF q [unfolded ngx_strlcasestrn_def]] p
  show "((args, name, Suc q), (args, name, p)) \<in> measure (\<lambda>(args, name, p). length args - p)" by auto
qed simp

declare ngx_arg_loop.simps [simp del]

definition ngx_http_arg :: "string \<Rightarrow> string \<Rightarrow> string option" where
  "ngx_http_arg args name = (if args = [] then None else ngx_arg_loop args name 0)"

text \<open>\<open>off_t\<close> is a signed number of 64 bits; an overflow is undefined.\<close>

fun atoof_loop :: "int \<Rightarrow> string \<Rightarrow> int option" where
  "atoof_loop value [] = Some value"
| "atoof_loop value (c # cs) =
     (if \<not> isdigit c then Some NGX_ERROR
      else
        let v = value * 10 + (int (ord c) - 48) in
        if 2 ^ 63 \<le> v then None else atoof_loop v cs)"

definition ngx_atoof :: "string \<Rightarrow> int option" where
  "ngx_atoof line = (if line = [] then Some NGX_ERROR else atoof_loop 0 line)"

lemma atoof_loop_range: "atoof_loop x cs = Some v \<Longrightarrow> 0 \<le> x \<Longrightarrow> v = NGX_ERROR \<or> 0 \<le> v"
  by (induction cs arbitrary: x) (auto simp: Let_def char_class_defs split: if_splits)

lemma ngx_atoof_range: "ngx_atoof l = Some v \<Longrightarrow> v = NGX_ERROR \<or> 0 \<le> v"
  using atoof_loop_range [of 0 l v] by (auto simp: ngx_atoof_def split: if_splits)

section \<open>The handler\<close>

definition ngx_flv_header :: buf where
  "ngx_flv_header = ''FLV'' @ [CHR 0x01, CHR 0x05, NUL, NUL, NUL, CHR 0x09, NUL, NUL, NUL, NUL]"

datatype flv_open_err = Open_Other0 | Open_NotFound | Open_Access | Open_Failed

definition flv_open_rc :: "flv_open_err \<Rightarrow> int" where
  "flv_open_rc e = (case e of
      Open_Other0 \<Rightarrow> NGX_HTTP_INTERNAL_SERVER_ERROR
    | Open_NotFound \<Rightarrow> NGX_HTTP_NOT_FOUND
    | Open_Access \<Rightarrow> NGX_HTTP_FORBIDDEN
    | Open_Failed \<Rightarrow> NGX_HTTP_INTERNAL_SERVER_ERROR)"

record flv_env =
  fe_method_ok :: bool
  fe_uri :: string
  fe_discard :: int
  fe_path_ok :: bool
  fe_symlinks_ok :: bool
  fe_open :: "flv_open_err option"
  fe_is_file :: bool
  fe_size :: int
  fe_contents :: "buf option"
  fe_alloc :: "nat \<Rightarrow> bool"
  fe_etag_ok :: bool
  fe_type_ok :: bool
  fe_send_header :: int
  fe_header_only :: bool
  fe_main :: bool

text \<open>A buffer of the output chain: bytes in memory, or a part of the file with its position, its
  end, whether there is anything in it, and whether it is the last of the response.\<close>

datatype flv_buf = Flv_Mem string | Flv_File (file_pos: int) (file_last: int) (in_file: bool) (last_buf: bool)

text \<open>How a request ends: with a code, after the header only, or with a body. The number is the
  \<open>Content-Length\<close>.\<close>

datatype flv_out = Flv_Rc int | Flv_Head int int | Flv_Body int "flv_buf list"

text \<open>Where the response starts, its length, the size of the part before the second keyframe, and
  whether a part goes ahead of the file; \<open>None\<close> is the failed allocation.\<close>

definition flv_range :: "flv_env \<Rightarrow> string \<Rightarrow> (int \<times> int \<times> int \<times> bool) option option" where
  "flv_range env args =
     (case (if args = [] then None else ngx_http_arg args ''start'') of
        None \<Rightarrow> Some (Some (0, fe_size env, 0, False))
      | Some value \<Rightarrow> do {
          v \<leftarrow> ngx_atoof value;
          let start = (if v = NGX_ERROR \<or> fe_size env \<le> v then 0 else v);
          if start = 0 then Some (Some (0, fe_size env, 0, False))
          else if \<not> fe_alloc env 0 then Some None
          else do {
            r \<leftarrow> ngx_http_flv_time_to_offset (fe_contents env) start;
            Some (Some (case r of
                None \<Rightarrow> (start, int (length ngx_flv_header) + fe_size env - start, 0, True)
              | Some (offset, pre_kf2_size) \<Rightarrow> (offset, fe_size env - offset + pre_kf2_size, pre_kf2_size, True)))
          }
        })"

definition flv_first_buf :: "flv_env \<Rightarrow> int \<Rightarrow> flv_buf" where
  "flv_first_buf env pre_kf2_size =
     (if pre_kf2_size \<noteq> 0 then Flv_File 0 pre_kf2_size (pre_kf2_size \<noteq> 0) (fe_main env) else Flv_Mem ngx_flv_header)"

definition flv_respond :: "flv_env \<Rightarrow> int \<times> int \<times> int \<times> bool \<Rightarrow> flv_out" where
  "flv_respond env rng = (case rng of (start, len, pre_kf2_size, ahead) \<Rightarrow>
     if \<not> fe_etag_ok env then Flv_Rc NGX_HTTP_INTERNAL_SERVER_ERROR
     else if \<not> fe_type_ok env then Flv_Rc NGX_HTTP_INTERNAL_SERVER_ERROR
     else if ahead \<and> \<not> fe_alloc env 1 then Flv_Rc NGX_HTTP_INTERNAL_SERVER_ERROR
     else if ahead \<and> pre_kf2_size \<noteq> 0 \<and> \<not> fe_alloc env 2 then Flv_Rc NGX_HTTP_INTERNAL_SERVER_ERROR
     else if \<not> fe_alloc env 3 then Flv_Rc NGX_HTTP_INTERNAL_SERVER_ERROR
     else if \<not> fe_alloc env 4 then Flv_Rc NGX_HTTP_INTERNAL_SERVER_ERROR
     else if fe_send_header env = NGX_ERROR \<or> NGX_OK < fe_send_header env \<or> fe_header_only env
     then Flv_Head (fe_send_header env) len
     else Flv_Body len ((if ahead then [flv_first_buf env pre_kf2_size] else [])
            @ [Flv_File start (fe_size env) (fe_size env \<noteq> 0) (fe_main env)]))"

definition ngx_http_flv_handler :: "flv_env \<Rightarrow> string \<Rightarrow> flv_out option" where
  "ngx_http_flv_handler env args =
     (if \<not> fe_method_ok env then Some (Flv_Rc NGX_HTTP_NOT_ALLOWED)
      else if fe_uri env = [] then None
      else if last (fe_uri env) = CHR ''/'' then Some (Flv_Rc NGX_DECLINED)
      else if fe_discard env \<noteq> NGX_OK then Some (Flv_Rc (fe_discard env))
      else if \<not> fe_path_ok env then Some (Flv_Rc NGX_HTTP_INTERNAL_SERVER_ERROR)
      else if \<not> fe_symlinks_ok env then Some (Flv_Rc NGX_HTTP_INTERNAL_SERVER_ERROR)
      else case fe_open env of
        Some e \<Rightarrow> Some (Flv_Rc (flv_open_rc e))
      | None \<Rightarrow>
          if \<not> fe_is_file env then Some (Flv_Rc NGX_DECLINED)
          else do {
            rng \<leftarrow> flv_range env args;
            Some (case rng of None \<Rightarrow> Flv_Rc NGX_HTTP_INTERNAL_SERVER_ERROR | Some x \<Rightarrow> flv_respond env x)
          })"

section \<open>Big-endian numbers\<close>

fun be_bytes :: "nat \<Rightarrow> nat \<Rightarrow> buf" where
  "be_bytes 0 n = []"
| "be_bytes (Suc k) n = be_bytes k (n div 256) @ [char_of (n mod 256)]"

lemma length_be_bytes [simp]: "length (be_bytes k n) = k"
  by (induction k arbitrary: n) simp_all

lemma be_val_bytes: "n < 256 ^ k \<Longrightarrow> be_val (be_bytes k n) = n"
proof (induction k arbitrary: n)
  case (Suc k)
  then have "n div 256 < 256 ^ k" by (simp add: div_less_iff_less_mult mult.commute)
  from Suc.IH [OF this] show ?case by (simp add: be_val_def)
qed (simp add: be_val_def)

lemma map_byte_at: "map (byte_at (x @ y @ z)) [length x..<length x + length y] = y"
  by (rule nth_equalityI) (simp_all add: byte_at_def nth_append)

text \<open>Reading a number where one was written.\<close>

lemma flv_be_at:
  assumes "d = x @ be_bytes k n @ z" and "i = length x" and "n < 256 ^ k" and "i + k \<le> FLV_METADATA_READ_LEN"
  shows "flv_be d k i = Some n"
  using assms map_byte_at [of x "be_bytes k n" z] be_val_bytes [OF assms(3)] by (simp add: flv_be_def)

lemma be_bytes_1: "be_bytes 1 (ord c) = [c]"
  by simp

lemma flv_be_byte:
  assumes "d = x @ c # z" and "i = length x" and "i < FLV_METADATA_READ_LEN"
  shows "flv_be d 1 i = Some (ord c)"
  using flv_be_at [of d x 1 "ord c" z i] assms ord_less [of c] by (simp only: be_bytes_1) simp

section \<open>Doubles\<close>

text \<open>The value of a finite double, and that \<open>double_trunc\<close> is its integer part.\<close>

definition double_val :: "nat \<Rightarrow> real" where
  "double_val b =
     (let e = b div 2 ^ 52 mod 2 ^ 11; f = b mod 2 ^ 52;
          m = (if e = 0 then real f / 2 ^ 1074 else real (2 ^ 52 + f) * 2 ^ e / 2 ^ 1075)
      in if b div 2 ^ 63 = 0 then m else - m)"

lemma shift_down: "e \<le> c \<Longrightarrow> real m * 2 ^ e / 2 ^ c = real m / real (2 ^ (c - e))"
  by (simp add: power_diff [of "2 :: real"] field_simps)

lemma shift_up: "c \<le> e \<Longrightarrow> real m * 2 ^ e / 2 ^ c = real (m * 2 ^ (e - c))"
  by (simp add: power_diff [of "2 :: real"])

lemma double_magnitude:
  fixes e f :: nat
  assumes f: "f < 2 ^ 52"
  shows "\<lfloor>if e = 0 then real f / 2 ^ 1074 else real (2 ^ 52 + f) * 2 ^ e / 2 ^ 1075\<rfloor>
       = int (if e < 1023 then 0 else if e < 1075 then (2 ^ 52 + f) div 2 ^ (1075 - e) else (2 ^ 52 + f) * 2 ^ (e - 1075))"
proof -
  let ?m = "2 ^ 52 + f"
  have m: "real ?m < 2 ^ 53" using f by (simp add: of_nat_less_numeral_power_cancel_iff [symmetric] del: of_nat_add)
  consider "e = 0" | "0 < e" "e < 1023" | "1023 \<le> e" "e < 1075" | "1075 \<le> e" by linarith
  then show ?thesis
  proof cases
    case 1
    have "real f < 2 ^ 52" using f by (metis of_nat_less_iff of_nat_numeral of_nat_power)
    also have "\<dots> \<le> (2 :: real) ^ 1074" by (rule power_increasing) simp_all
    finally have "real f < 2 ^ 1074" .
    with 1 show ?thesis by (simp add: floor_eq_iff divide_less_eq)
  next
    case 2
    have "real ?m * 2 ^ e < 2 ^ 53 * 2 ^ e" using m by simp
    also have "\<dots> \<le> (2 :: real) ^ 1075" using 2 power_increasing [of "53 + e" 1075 "2 :: real"] by (simp add: power_add)
    finally show ?thesis using 2 by (simp add: floor_eq_iff divide_less_eq)
  next
    case 3
    then have "\<lfloor>real ?m * 2 ^ e / 2 ^ 1075\<rfloor> = int (?m div 2 ^ (1075 - e))"
      by (subst shift_down) (simp_all only: floor_divide_of_nat_eq less_imp_le)
    moreover have "e \<noteq> 0" "\<not> e < 1023" using 3 by simp_all
    ultimately show ?thesis using 3(2) by (simp only: if_True if_False)
  next
    case 4
    then have "\<lfloor>real ?m * 2 ^ e / 2 ^ 1075\<rfloor> = int (?m * 2 ^ (e - 1075))" by (simp only: shift_up floor_of_nat)
    moreover have "e \<noteq> 0" "\<not> e < 1023" "\<not> e < 1075" using 4 by simp_all
    ultimately show ?thesis by (simp only: if_False)
  qed
qed

lemma double_trunc_val:
  assumes "double_trunc b = Some k"
  shows "k = (if 0 \<le> double_val b then \<lfloor>double_val b\<rfloor> else \<lceil>double_val b\<rceil>)"
proof -
  define e f where "e = b div 2 ^ 52 mod 2 ^ 11" and "f = b mod 2 ^ 52"
  define r where "r = (if e = 0 then real f / 2 ^ 1074 else real (2 ^ 52 + f) * 2 ^ e / 2 ^ 1075)"
  have "f < 2 ^ 52" by (simp add: f_def)
  note fl = double_magnitude [OF this, of e, folded r_def]
  have r: "0 \<le> r" by (simp add: r_def)
  have v: "double_val b = (if b div 2 ^ 63 = 0 then r else - r)" by (simp add: double_val_def Let_def r_def e_def f_def)
  have k: "k = (if b div 2 ^ 63 = 0 then \<lfloor>r\<rfloor> else - \<lfloor>r\<rfloor>)"
    using assms unfolding double_trunc_def Let_def fl e_def [symmetric] f_def [symmetric] by (simp split: if_splits)
  show ?thesis unfolding k v using r by (simp add: ceiling_minus)
qed

section \<open>Finding the table\<close>

lemma kf_word [simp]: "length kf_word = 9" "is_cstr kf_word" "kf_word \<noteq> []" "kf_word ! 0 = CHR ''k''"
  by (simp_all add: kf_word_def)

lemma strstr_leftmost: "strstr h n = Some t \<Longrightarrow> h = x @ n @ y \<Longrightarrow> length (n @ y) \<le> length t"
proof (induction h arbitrary: x)
  case (Cons c cs)
  show ?case
  proof (cases "take (length n) (c # cs) = n")
    case True
    with Cons.prems(1) have "t = c # cs" by simp
    with Cons.prems(2) show ?thesis by simp
  next
    case False
    with Cons.prems have "x \<noteq> []" by (auto simp: append_eq_conv_conj)
    then obtain x' where "x = c # x'" "cs = x' @ n @ y" using Cons.prems(2) by (cases x) auto
    with Cons.IH [of x'] Cons.prems(1) False show ?thesis by simp
  qed
qed simp

lemma cstr_append_cstr: "is_cstr a \<Longrightarrow> cstr (a @ b) = a @ cstr b"
  by (auto simp: cstr_def is_cstr_def takeWhile_append)

lemma cstr_shorter: "NUL \<in> set b \<Longrightarrow> length (cstr b) < length b"
  by (induction b) (auto simp: cstr_def)

lemma cstr_occurrence:
  assumes "cstr (drop i d) = x @ kf_word @ y"
  shows "take 9 (drop (i + length x) d) = kf_word"
proof -
  have "drop i d = cstr (drop i d) @ drop (length (cstr (drop i d))) (drop i d)"
    unfolding cstr_def by (rule takeWhile_drop_append [symmetric])
  then have "drop i d = x @ kf_word @ y @ drop (length (cstr (drop i d))) (drop i d)" unfolding assms by simp
  then have "drop (length x) (drop i d) = kf_word @ y @ drop (length (cstr (drop i d))) (drop i d)" by (metis append_eq_conv_conj)
  then have "take 9 (drop (length x) (drop i d)) = kf_word" by (metis append_eq_conv_conj kf_word(1))
  then show ?thesis by (simp add: add.commute)
qed

lemma kf_strstr_at:
  assumes "take 9 (drop j d) = kf_word" and "i \<le> j" and "\<forall>m. i \<le> m \<and> m < j \<longrightarrow> take 9 (drop m d) \<noteq> kf_word"
  shows "kf_strstr d i = Some None \<and> i < j \<or> kf_strstr d i = Some (Some j)"
proof -
  let ?h = "cstr (drop i d)" and ?g = "take (j - i) (drop i d)"
  have d: "drop i d = ?g @ kf_word @ drop 9 (drop j d)"
    using assms(1,2) by (metis add.commute append_take_drop_id drop_drop le_add_diff_inverse2)
  have jd: "j \<le> length d" using arg_cong [OF assms(1), of length] by simp
  have later: "j \<le> i + length x" if "?h = x @ kf_word @ y" for x y
    using cstr_occurrence [OF that] assms(3) by (meson le_add1 not_le)
  show ?thesis
  proof (cases "is_cstr ?g")
    case True
    have h: "?h = ?g @ kf_word @ cstr (drop 9 (drop j d))"
      by (subst d) (use True in \<open>simp add: cstr_append_cstr\<close>)
    obtain t where t: "strstr ?h kf_word = Some t" using strstr_occurs [of ?g kf_word] h by auto
    from strstr_split [OF t] obtain x y where xy: "?h = x @ kf_word @ y" "t = kf_word @ y" by blast
    have "length (kf_word @ cstr (drop 9 (drop j d))) \<le> length t" by (rule strstr_leftmost [OF t h])
    then have "length x \<le> j - i" using arg_cong [OF xy(1), of length] arg_cong [OF h, of length] xy(2) jd by simp
    with later [OF xy(1)] assms(2) have "length x = j - i" by linarith
    moreover have "length ?h - length t = length x" using xy by simp
    ultimately have "kf_strstr d i = Some (Some j)" using t assms(2) by (simp add: kf_strstr_def)
    then show ?thesis ..
  next
    case False
    then have nul: "NUL \<in> set ?g" by (simp add: is_cstr_def)
    have "?h = cstr ?g" using nul by (subst d) (simp add: cstr_def)
    moreover have "length (cstr ?g) < length ?g" by (rule cstr_shorter [OF nul])
    ultimately have lt: "length ?h < j - i" using jd by simp
    have "strstr ?h kf_word = None"
    proof (rule ccontr)
      assume "strstr ?h kf_word \<noteq> None"
      then obtain x y where xy: "?h = x @ kf_word @ y" using strstr_split by fastforce
      from later [OF xy] lt arg_cong [OF xy, of length] show False by simp
    qed
    with nul lt show ?thesis by (auto simp: kf_strstr_def dest: in_set_takeD)
  qed
qed

lemma kf_search_first:
  assumes "take 9 (drop j d) = kf_word" and "j < n" and "i \<le> j" and "\<forall>m. i \<le> m \<and> m < j \<longrightarrow> take 9 (drop m d) \<noteq> kf_word"
  shows "kf_search d n i = Some (Some j)"
  using assms(3,4)
proof (induction "j - i" arbitrary: i)
  case 0
  then have "i = j" by simp
  moreover have "kf_strstr d j = Some (Some j)" using kf_strstr_at [OF assms(1) order_refl] by fastforce
  moreover have "j + 9 \<le> length d" using arg_cong [OF assms(1), of length] by simp
  then have "byte_at d j = take 9 (drop j d) ! 0" by (simp add: byte_at_def)
  then have "byte_at d j = CHR ''k''" by (simp add: assms(1))
  ultimately show ?case
    using assms(2) by (subst kf_search.simps) simp
next
  case (Suc m)
  then have "kf_search d n (Suc i) = Some (Some j)" by (intro Suc.hyps(1)) auto
  with kf_strstr_at [OF assms(1) Suc.prems] Suc.hyps(2) assms(2) show ?case
    by (subst kf_search.simps) auto
qed

section \<open>Well-formed files\<close>

text \<open>An array of doubles, the table of keyframes (file positions and times), a script tag and a file
  that starts with one.\<close>

definition flv_doubles :: "nat list \<Rightarrow> buf" where
  "flv_doubles xs = concat (map (\<lambda>x. NUL # be_bytes 8 x) xs)"

definition flv_keyframes :: "nat list \<Rightarrow> nat list \<Rightarrow> buf" where
  "flv_keyframes ps ts = kf_word @ [CHR 0x03, NUL, CHR 0x0D] @ ''filepositions'' @ [CHR 0x0A] @ be_bytes 4 (length ps) @ flv_doubles ps
     @ [NUL, CHR 0x05] @ ''times'' @ [CHR 0x0A] @ be_bytes 4 (length ts) @ flv_doubles ts"

definition flv_script_tag :: "buf \<Rightarrow> buf" where
  "flv_script_tag payload = CHR 0x12 # be_bytes 3 (length payload) @ replicate 7 NUL @ payload @ be_bytes 4 (length payload + 11)"

definition flv_file :: "buf \<Rightarrow> nat list \<Rightarrow> nat list \<Rightarrow> buf \<Rightarrow> buf \<Rightarrow> buf" where
  "flv_file a ps ts z rest = ngx_flv_header @ flv_script_tag (a @ flv_keyframes ps ts @ z) @ rest"

lemma length_flv_doubles [simp]: "length (flv_doubles xs) = 9 * length xs"
  by (induction xs) (simp_all add: flv_doubles_def)

text \<open>The \<open>j\<close>-th double of an array.\<close>

lemma flv_doubles_nth:
  assumes d: "d = x @ flv_doubles xs @ z" and j: "j < length xs" and b: "xs ! j < 2 ^ 64"
    and len: "length x + 9 * length xs \<le> FLV_METADATA_READ_LEN"
  shows "flv_be d 8 (length x + 9 * j + 1) = Some (xs ! j)"
proof -
  have "flv_doubles xs = flv_doubles (take j xs @ xs ! j # drop (Suc j) xs)" by (simp add: id_take_nth_drop [OF j, symmetric])
  also have "\<dots> = flv_doubles (take j xs) @ NUL # be_bytes 8 (xs ! j) @ flv_doubles (drop (Suc j) xs)"
    by (simp add: flv_doubles_def)
  finally have "flv_doubles xs = flv_doubles (take j xs) @ NUL # be_bytes 8 (xs ! j) @ flv_doubles (drop (Suc j) xs)" .
  then have "d = (x @ flv_doubles (take j xs) @ [NUL]) @ be_bytes 8 (xs ! j) @ flv_doubles (drop (Suc j) xs) @ z"
    using d by simp
  then show ?thesis by (rule flv_be_at) (use j b len in simp_all)
qed

text \<open>The search over the times stops at the first keyframe behind the requested time.\<close>

lemma kf_time_loop_first:
  assumes ts: "\<And>j. j < length ts \<Longrightarrow> flv_be d 8 (p + 9 * j + 1) = Some (ts ! j) \<and> double_trunc (ts ! j) = Some (tv ! j)"
    and len: "length tv = length ts"
  shows "i \<le> length ts \<Longrightarrow> kf_time_loop d start (length ts) i (p + 9 * i)
       = Some (i + length (takeWhile (\<lambda>t. t \<le> start) (drop i tv)))"
proof (induction "length ts - i" arbitrary: i)
  case 0
  then have "\<not> i < length ts" "drop i tv = []" using len by simp_all
  then show ?case by (subst kf_time_loop.simps) simp
next
  case (Suc m)
  then have i: "i < length ts" by simp
  then have dr: "drop i tv = tv ! i # drop (Suc i) tv" using len by (simp add: Cons_nth_drop_Suc)
  have "kf_time_loop d start (length ts) (Suc i) (p + 9 * Suc i) = Some (Suc i + length (takeWhile (\<lambda>t. t \<le> start) (drop (Suc i) tv)))"
    by (rule Suc.hyps(1)) (use Suc.hyps(2) i in auto)
  then have "kf_time_loop d start (length ts) (Suc i) (p + 9 * i + 9) = Some (Suc i + length (takeWhile (\<lambda>t. t \<le> start) (drop (Suc i) tv)))"
    by (simp add: algebra_simps)
  with i ts [OF i] dr show ?case by (subst kf_time_loop.simps) auto
qed

text \<open>The first tag of a file is the script tag behind the header.\<close>

lemma find_tag_skip:
  "i \<le> k \<Longrightarrow> k \<le> n \<Longrightarrow> \<forall>j. i \<le> j \<and> j < k \<longrightarrow> kf_tag_at d n j = Some None \<Longrightarrow>
     ngx_http_flv_kf_find_tag_pos d n i = ngx_http_flv_kf_find_tag_pos d n k"
proof (induction "k - i" arbitrary: i)
  case (Suc m)
  then have "ngx_http_flv_kf_find_tag_pos d n (Suc i) = ngx_http_flv_kf_find_tag_pos d n k" by (intro Suc.hyps(1)) auto
  with Suc.prems Suc.hyps(2) show ?case by (subst ngx_http_flv_kf_find_tag_pos.simps) auto
qed simp

lemma flv_be_1:
  "i < FLV_METADATA_READ_LEN \<Longrightarrow> flv_be d 1 i = Some (ord (byte_at d i))"
  "i < FLV_METADATA_READ_LEN \<Longrightarrow> flv_be d (Suc 0) i = Some (ord (byte_at d i))"
  by (simp_all add: flv_be_def be_val_def)

lemma header_no_tag:
  assumes d: "d = ngx_flv_header @ x" and i: "i < 13"
  shows "kf_tag_at d n i = Some None"
proof (cases "i = 8")
  case False
  have "length ngx_flv_header = 13" by (simp add: ngx_flv_header_def)
  then have "byte_at d i = ngx_flv_header ! i" using d i by (simp add: byte_at_def nth_append)
  moreover have "ord (ngx_flv_header ! i) \<notin> {0x12, 8, 9}"
    using i False by (auto simp: ngx_flv_header_def less_Suc_eq numeral_eq_Suc ord_def)
  ultimately show ?thesis
    using i by (simp add: kf_tag_at_def flv_be_1 FLV_METADATA_READ_LEN_def is_script_tag_def is_audio_tag_def is_video_tag_def)
next
  case True
  have "flv_be d 3 9 = Some 0"
    using d by (simp add: flv_be_def be_val_def FLV_METADATA_READ_LEN_def upt_rec byte_at_def ngx_flv_header_def nth_append ord_def)
  with True show ?thesis by (simp add: kf_tag_at_def flv_be_1 FLV_METADATA_READ_LEN_def)
qed

lemma be_bytes_Cons: "be_bytes (Suc k) m = char_of (m div 256 ^ k) # be_bytes k m"
proof (induction k arbitrary: m)
  case 0
  have "char_of (m mod 256) = char_of m" by (metis ord_char_of ord_inject mod_mod_trivial)
  then show ?case by simp
next
  case (Suc k)
  have "be_bytes (Suc (Suc k)) m = be_bytes (Suc k) (m div 256) @ [char_of (m mod 256)]" by (rule be_bytes.simps)
  also have "\<dots> = char_of (m div 256 div 256 ^ k) # be_bytes k (m div 256) @ [char_of (m mod 256)]"
    by (simp only: Suc.IH append_Cons)
  finally show ?case by (simp add: div_mult2_eq)
qed

lemma be_bytes_4: "be_bytes 4 m = char_of (m div 16777216) # be_bytes 3 m"
  using be_bytes_Cons [of 3 m] by (simp del: be_bytes.simps)

lemma byte_at_replicate: "j < k \<Longrightarrow> byte_at (x @ replicate k c @ y) (length x + j) = c"
  by (simp add: byte_at_def nth_append)

lemma script_tag_at:
  assumes d: "d = ngx_flv_header @ flv_script_tag pay @ rest" and p: "pay \<noteq> []"
    and len: "28 + length pay \<le> FLV_METADATA_READ_LEN"
  shows "kf_tag_at d (length d) 13 = Some (Some (length pay + 11))" and "flv_be d 1 13 = Some 0x12"
proof -
  let ?L = "length pay" and ?h = ngx_flv_header
  have h: "length ?h = 13" by (simp add: ngx_flv_header_def)
  have cap: "?L < 16384" using len by (simp add: FLV_METADATA_READ_LEN_def)
  show t: "flv_be d 1 13 = Some 0x12"
    using flv_be_byte [of d ?h "CHR 0x12" "be_bytes 3 ?L @ replicate 7 NUL @ pay @ be_bytes 4 (?L + 11) @ rest" 13] h len
    by (simp add: d flv_script_tag_def FLV_METADATA_READ_LEN_def ord_def)
  have sz: "flv_be d 3 14 = Some ?L"
    by (rule flv_be_at [of _ "?h @ [CHR 0x12]" _ _ "replicate 7 NUL @ pay @ be_bytes 4 (?L + 11) @ rest"])
      (use h len cap in \<open>simp_all add: d flv_script_tag_def FLV_METADATA_READ_LEN_def\<close>)
  have e: "flv_be d 3 (25 + ?L) = Some (?L + 11)"
    by (rule flv_be_at [of _ "?h @ [CHR 0x12] @ be_bytes 3 ?L @ replicate 7 NUL @ pay @ [char_of ((?L + 11) div 16777216)]" _ _ rest])
      (use h len cap in \<open>simp_all add: d flv_script_tag_def FLV_METADATA_READ_LEN_def be_bytes_4 del: be_bytes.simps\<close>)
  have z: "flv_be d 1 (17 + j) = Some 0" if "j < 7" for j
    using h that len byte_at_replicate [of j 7 "?h @ [CHR 0x12] @ be_bytes 3 ?L" NUL "pay @ be_bytes 4 (?L + 11) @ rest"]
    by (simp add: flv_be_1 FLV_METADATA_READ_LEN_def d flv_script_tag_def ord_def)
  from t sz e z [of 4] z [of 5] z [of 6] p show "kf_tag_at d (length d) 13 = Some (Some (?L + 11))"
    by (simp add: kf_tag_at_def is_script_tag_def d flv_script_tag_def h)
qed

lemma find_script_tag:
  assumes d: "d = ngx_flv_header @ flv_script_tag pay @ rest" and p: "pay \<noteq> []"
    and len: "28 + length pay \<le> FLV_METADATA_READ_LEN"
  shows "ngx_http_flv_kf_find_tag_pos d (length d) 0 = Some (Some (13, length pay + 11))"
proof -
  have n: "13 < length d" by (simp add: d ngx_flv_header_def flv_script_tag_def)
  have "ngx_http_flv_kf_find_tag_pos d (length d) 0 = ngx_http_flv_kf_find_tag_pos d (length d) 13"
    by (rule find_tag_skip) (use n header_no_tag [OF d] in auto)
  with script_tag_at(1) [OF assms] n show ?thesis by (subst (asm) (2) ngx_http_flv_kf_find_tag_pos.simps) simp
qed

text \<open>The table is found where it is, unless its name occurs before.\<close>

lemma nth_take_drop: "q \<le> length xs \<Longrightarrow> k < n \<Longrightarrow> take n (drop q xs) ! k = xs ! (q + k)"
  by simp

lemma take_drop_middle: "take (length y) (drop (length x) (x @ y @ z)) = y"
  by simp

lemma table_first:
  assumes d: "d = ngx_flv_header @ CHR 0x12 # be_bytes 3 l @ replicate 7 NUL @ a @ kf_word @ y"
    and w: "\<not> contains (a @ butlast kf_word) kf_word" and m: "14 \<le> m" "m < 24 + length a"
  shows "take 9 (drop m d) \<noteq> kf_word"
proof
  assume e: "take 9 (drop m d) = kf_word"
  define q where "q = m - 14"
  let ?S = "be_bytes 3 l @ replicate 7 NUL @ a @ kf_word @ y"
  have "d = (ngx_flv_header @ [CHR 0x12]) @ ?S" "length (ngx_flv_header @ [CHR 0x12]) = 14" by (simp_all add: d ngx_flv_header_def)
  then have dm: "drop m d = drop q ?S" using m(1) by (simp only: drop_append q_def) simp
  have q: "q < 10 + length a" using m by (simp add: q_def)
  show False
  proof (cases "q < 10")
    case True
    let ?t = "max 3 q"
    have nul: "?S ! ?t = NUL" using True by (auto simp: nth_append max_def)
    have t: "?t - q < 9" and tq: "q + (?t - q) = ?t" using True by auto
    have "q \<le> length ?S" using True by simp
    from nth_take_drop [OF this t] have "take 9 (drop q ?S) ! (?t - q) = ?S ! ?t" unfolding tq .
    then have "kf_word ! (?t - q) = ?S ! ?t" by (simp only: e dm [symmetric])
    moreover have "kf_word ! (?t - q) \<noteq> NUL" using t by (metis is_cstr_def kf_word(1,2) nth_mem)
    ultimately show False using nul by simp
  next
    case False
    define r where "r = q - 10"
    let ?T = "a @ butlast kf_word"
    have r: "r < length a" using q False by (simp add: r_def)
    have "take (length a + 8) (a @ kf_word @ y) = ?T" by (simp add: butlast_conv_take)
    then have "drop r ?T = take (length a + 8 - r) (drop r (a @ kf_word @ y))" by (metis drop_take)
    then have "take 9 (drop r ?T) = take 9 (drop r (a @ kf_word @ y))" using r by (simp add: min_absorb1)
    moreover have "take 9 (drop r (a @ kf_word @ y)) = kf_word" using e dm False by (simp add: r_def)
    ultimately have "take 9 (drop r ?T) = kf_word" by simp
    then have "?T = take r ?T @ kf_word @ drop 9 (drop r ?T)" by (metis append_take_drop_id)
    with w show False unfolding contains_iff by blast
  qed
qed

lemma seek_file:
  fixes ps ts :: "nat list"
  defines "pay a z \<equiv> a @ flv_keyframes ps ts @ z"
  assumes d: "d = ngx_flv_header @ flv_script_tag (pay a z) @ rest"
    and cap: "28 + length (pay a z) \<le> FLV_METADATA_READ_LEN"
    and w: "\<not> contains (a @ butlast kf_word) kf_word" and len: "length ts = length ps" "2 \<le> length ps"
    and bits: "\<forall>b \<in> set ps \<union> set ts. b < 2 ^ 64"
    and pv: "map double_trunc ps = map Some pv" and tv: "map double_trunc ts = map Some tv"
  shows "ngx_http_flv_kf_compute_offset d (length d) start
       = Some (Some (pv ! (length (takeWhile (\<lambda>t. t \<le> start) tv) - 1), pv ! 1))"
proof -
  let ?N = "length ps" and ?j = "24 + length a" and ?i = "length (takeWhile (\<lambda>t. t \<le> start) tv)"
  let ?X = "ngx_flv_header @ CHR 0x12 # be_bytes 3 (length (pay a z)) @ replicate 7 NUL @ a"
  let ?K = "[CHR 0x03, NUL, CHR 0x0D] @ ''filepositions'' @ [CHR 0x0A]" and ?M = "[NUL, CHR 0x05] @ ''times'' @ [CHR 0x0A]"
  let ?Z = "z @ be_bytes 4 (length (pay a z) + 11) @ rest"
  have lens: "length pv = ?N" "length tv = ?N" using arg_cong [OF pv, of length] arg_cong [OF tv, of length] len by simp_all
  have h: "length ?X = ?j" by (simp add: ngx_flv_header_def)
  have pl: "length (pay a z) = length a + length z + 18 * ?N + 42" by (simp add: pay_def flv_keyframes_def len)
  have size: "?j + 46 + 18 * ?N \<le> FLV_METADATA_READ_LEN" using cap pl by simp
  have dx: "d = ?X @ kf_word @ ?K @ be_bytes 4 ?N @ flv_doubles ps @ ?M @ be_bytes 4 (length ts) @ flv_doubles ts @ ?Z"
    by (simp add: d pay_def flv_script_tag_def flv_keyframes_def)
  have tag: "ngx_http_flv_kf_find_tag_pos d (length d) 0 = Some (Some (13, length (pay a z) + 11))" "flv_be d 1 13 = Some 0x12"
    using find_script_tag [OF d _ cap] script_tag_at(2) [OF d _ cap] by (auto simp: pay_def flv_keyframes_def)
  have kf: "kf_search d (length d) (13 + 1) = Some (Some ?j)"
  proof (rule kf_search_first)
    show "take 9 (drop ?j d) = kf_word" using take_drop_middle [of kf_word ?X] unfolding dx h kf_word(1) .
    show "?j < length d" using h by (simp add: dx)
    show "\<forall>m. 13 + 1 \<le> m \<and> m < ?j \<longrightarrow> take 9 (drop m d) \<noteq> kf_word"
      using table_first [OF _ w, of d "length (pay a z)"] dx by simp
  qed simp
  have cnt: "flv_be d 4 (?j + 26) = Some ?N"
    by (rule flv_be_at [of d "?X @ kf_word @ ?K"]) (use dx h size in \<open>simp_all add: FLV_METADATA_READ_LEN_def\<close>)
  have bitsN: "ps ! k < 2 ^ 64" "ts ! k < 2 ^ 64" if "k < ?N" for k using bits that len nth_mem by auto
  have nths: "double_trunc (ps ! k) = Some (pv ! k)" "double_trunc (ts ! k) = Some (tv ! k)" if "k < ?N" for k
    using pv tv that lens len by (metis length_map nth_map)+
  have pos: "flv_be d 8 (?j + 30 + 9 * k + 1) = Some (ps ! k)" if "k < ?N" for k
    using flv_doubles_nth [of d "?X @ kf_word @ ?K @ be_bytes 4 ?N" ps _ k] dx h size bitsN that by simp
  have tim: "flv_be d 8 (?j + 30 + 9 * ?N + 12 + 9 * k + 1) = Some (ts ! k)" if "k < ?N" for k
    using flv_doubles_nth [of d "?X @ kf_word @ ?K @ be_bytes 4 ?N @ flv_doubles ps @ ?M @ be_bytes 4 (length ts)" ts _ k]
      dx h size bitsN that len by simp
  have "kf_time_loop d start (length ts) 0 (?j + 30 + 9 * ?N + 12 + 9 * 0) = Some (0 + length (takeWhile (\<lambda>t. t \<le> start) (drop 0 tv)))"
    by (rule kf_time_loop_first) (use tim nths lens len in auto)
  then have loop: "kf_time_loop d start ?N 0 (?j + 30 + 9 * ?N + 12) = Some ?i" using len by simp
  have i: "?i - 1 < ?N" "1 < ?N" using length_takeWhile_le [of "\<lambda>t. t \<le> start" tv] lens len(2) by auto
  show ?thesis
    unfolding ngx_http_flv_kf_compute_offset_def tag(1)
    using tag(2) kf cnt loop pos [OF i(1)] pos [OF i(2)] nths(1) [OF i(1)] nths(1) [OF i(2)]
    by (cases "takeWhile (\<lambda>t. t \<le> start) tv = []") (simp_all add: is_script_tag_def Let_def)
qed

lemma double_trunc_nonneg:
  assumes "b < 2 ^ 63" and "double_val b < 2 ^ 63"
  shows "double_trunc b = Some \<lfloor>double_val b\<rfloor>"
proof -
  define e f where "e = b div 2 ^ 52 mod 2 ^ 11" and "f = b mod 2 ^ 52"
  define r where "r = (if e = 0 then real f / 2 ^ 1074 else real (2 ^ 52 + f) * 2 ^ e / 2 ^ 1075)"
  have "f < 2 ^ 52" by (simp add: f_def)
  note fl = double_magnitude [OF this, of e, folded r_def]
  have s: "b div 2 ^ 63 = 0" using assms(1) by simp
  have v: "double_val b = r" using s by (simp add: double_val_def Let_def r_def e_def f_def)
  have lt: "\<lfloor>r\<rfloor> < 2 ^ 63" using assms(2) v by (simp add: floor_less_iff)
  have "e \<noteq> 2047"
  proof
    assume e: "e = 2047"
    have "2 ^ 63 \<le> (2 ^ 52 + f) * 2 ^ (2047 - 1075 :: nat)"
      using mult_le_mono [of "2 ^ 52" "2 ^ 52 + f" "2 ^ 11" "2 ^ (2047 - 1075 :: nat)"] by simp
    then have "(2 :: int) ^ 63 \<le> \<lfloor>r\<rfloor>" unfolding fl e by simp
    with lt show False by simp
  qed
  moreover have "0 \<le> \<lfloor>r\<rfloor>" by (simp add: r_def)
  ultimately show ?thesis
    unfolding double_trunc_def Let_def e_def [symmetric] f_def [symmetric] fl [symmetric] v using s lt by simp
qed

section \<open>Properties\<close>

text \<open>The services are there and a body is wanted.\<close>

definition flv_env_ok :: "flv_env \<Rightarrow> bool" where
  "flv_env_ok env \<longleftrightarrow> fe_method_ok env \<and> fe_uri env \<noteq> [] \<and> last (fe_uri env) \<noteq> CHR ''/'' \<and> fe_discard env = NGX_OK
     \<and> fe_path_ok env \<and> fe_symlinks_ok env \<and> fe_open env = None \<and> fe_is_file env \<and> (\<forall>i. fe_alloc env i)
     \<and> fe_etag_ok env \<and> fe_type_ok env \<and> fe_send_header env = NGX_OK \<and> \<not> fe_header_only env"

text \<open>C11. Seeking in a well-formed file. When the file starts with a script tag that holds a table of
  at least two keyframes within the first 16 KB, a request for a time \<open>start\<close> is answered with the
  file up to the second keyframe, followed by the file from keyframe \<open>k\<close> on, where \<open>k\<close> is the last
  keyframe that is not behind the requested second, or the first one if all of them are.\<close>

theorem flv_seek_keyframe:
  assumes "flv_env_ok env" and "fe_contents env = Some (flv_file a ps ts z rest)"
    and "ngx_http_arg args ''start'' = Some value" and "ngx_atoof value = Some start" "0 < start" "start < fe_size env"
    and "length ts = length ps" "2 \<le> length ps" and "28 + length (a @ flv_keyframes ps ts @ z) \<le> FLV_METADATA_READ_LEN"
    and "\<not> contains (a @ butlast kf_word) kf_word"
    and "\<forall>b \<in> set ps \<union> set ts. b < 2 ^ 63 \<and> double_val b < 2 ^ 63" and "sorted (map double_val ts)" and "1 \<le> double_val (ps ! 1)"
  shows "\<exists>k < length ps. (k = 0 \<or> \<lfloor>double_val (ts ! k)\<rfloor> \<le> start) \<and> (\<forall>j. k < j \<and> j < length ps \<longrightarrow> start < \<lfloor>double_val (ts ! j)\<rfloor>)
     \<and> ngx_http_flv_handler env args = Some (Flv_Body (fe_size env - \<lfloor>double_val (ps ! k)\<rfloor> + \<lfloor>double_val (ps ! 1)\<rfloor>)
         [Flv_File 0 \<lfloor>double_val (ps ! 1)\<rfloor> True (fe_main env), Flv_File \<lfloor>double_val (ps ! k)\<rfloor> (fe_size env) True (fe_main env)])"
proof -
  let ?f = "\<lambda>b. \<lfloor>double_val b\<rfloor>" and ?pay = "a @ flv_keyframes ps ts @ z"
  let ?tv = "map ?f ts" and ?i = "length (takeWhile (\<lambda>t. t \<le> start) (map ?f ts))"
  let ?k = "?i - 1"
  have tr: "map double_trunc ps = map Some (map ?f ps)" "map double_trunc ts = map Some (map ?f ts)"
    using assms(11) double_trunc_nonneg by simp_all
  have d: "take FLV_METADATA_READ_LEN (flv_file a ps ts z rest)
      = ngx_flv_header @ flv_script_tag ?pay @ take (FLV_METADATA_READ_LEN - (28 + length ?pay)) rest"
    using assms(9) by (simp add: flv_file_def flv_script_tag_def ngx_flv_header_def FLV_METADATA_READ_LEN_def take_Cons')
  have "b < 2 ^ 64" if "b < 2 ^ 63" for b :: nat by (rule less_trans [OF that]) simp
  with assms(11) have bits: "\<forall>b \<in> set ps \<union> set ts. b < 2 ^ 64" by blast
  have le: "?i \<le> length ps" using length_takeWhile_le [of "\<lambda>t. t \<le> start" ?tv] assms(7) by simp
  then have k: "?k < length ps" "1 < length ps" using assms(8) by linarith+
  from seek_file [OF d assms(9,10,7,8) bits tr, of start]
  have "ngx_http_flv_time_to_offset (fe_contents env) start = Some (Some (?f (ps ! ?k), ?f (ps ! 1)))"
    using k by (simp add: ngx_http_flv_time_to_offset_def assms(2) Let_def)
  moreover have "args \<noteq> []" using assms(3) by (auto simp: ngx_http_arg_def)
  moreover have "1 \<le> ?f (ps ! 1)" using assms(13) by (simp add: le_floor_iff)
  then have "?f (ps ! Suc 0) \<noteq> 0" by (metis One_nat_def not_one_le_zero)
  ultimately have "ngx_http_flv_handler env args = Some (Flv_Body (fe_size env - ?f (ps ! ?k) + ?f (ps ! 1))
         [Flv_File 0 (?f (ps ! 1)) True (fe_main env), Flv_File (?f (ps ! ?k)) (fe_size env) True (fe_main env)])"
    using assms(1,3-6)
    by (simp add: ngx_http_flv_handler_def flv_env_ok_def flv_range_def flv_respond_def flv_first_buf_def hc_codes Let_def)
  moreover have "?k = 0 \<or> ?f (ts ! ?k) \<le> start"
  proof (cases "?i = 0")
    case False
    then have "?k < ?i" by linarith
    from nth_mem [OF this] set_takeWhileD have "takeWhile (\<lambda>t. t \<le> start) ?tv ! ?k \<le> start" by fast
    then show ?thesis using takeWhile_nth [OF \<open>?k < ?i\<close>] k(1) assms(7) by simp
  qed simp
  moreover have "start < ?f (ts ! j)" if "?k < j" "j < length ps" for j
  proof -
    have i: "?i \<le> j" using that by linarith
    then have "start < ?f (ts ! ?i)" using nth_length_takeWhile [of "\<lambda>t. t \<le> start" ?tv] that(2) assms(7) by simp
    also have "?f (ts ! ?i) \<le> ?f (ts ! j)"
      using sorted_nth_mono [OF assms(12) i] that(2) i assms(7) by (simp add: floor_mono)
    finally show ?thesis .
  qed
  ultimately show ?thesis using k(1) by blast
qed

text \<open>The bytes a buffer of the response sends from a file with the contents \<open>d\<close>, and the time the request
  asks for, 0 when it asks for none that lies in the file.\<close>

fun flv_bytes :: "buf \<Rightarrow> flv_buf \<Rightarrow> buf" where
  "flv_bytes d (Flv_Mem s) = s"
| "flv_bytes d (Flv_File p l i _) = (if i then take (nat (l - p)) (drop (nat p) d) else [])"

definition seek_time :: "flv_env \<Rightarrow> string \<Rightarrow> int option" where
  "seek_time env args = (case ngx_http_arg args ''start'' of
      None \<Rightarrow> Some 0
    | Some value \<Rightarrow> map_option (\<lambda>v. if v = NGX_ERROR \<or> fe_size env \<le> v then 0 else v) (ngx_atoof value))"

lemma flv_range_cases:
  assumes "flv_range env args = Some (Some rng)"
  obtains (all) "seek_time env args = Some 0" "rng = (0, fe_size env, 0, False)"
    | (plain) start where "seek_time env args = Some start" "0 < start" "start < fe_size env"
        "ngx_http_flv_time_to_offset (fe_contents env) start = Some None" "rng = (start, 13 + fe_size env - start, 0, True)"
    | (table) start off pre where "seek_time env args = Some start" "0 < start" "start < fe_size env"
        "ngx_http_flv_time_to_offset (fe_contents env) start = Some (Some (off, pre))" "rng = (off, fe_size env - off + pre, pre, True)"
proof (cases "ngx_http_arg args ''start''")
  case None
  with assms all show ?thesis by (auto simp: flv_range_def seek_time_def split: if_splits)
next
  case (Some val)
  then have "args \<noteq> []" by (auto simp: ngx_http_arg_def)
  with assms Some obtain v where v: "ngx_atoof val = Some v" by (auto simp: flv_range_def bind_Some_conv)
  let ?start = "if v = NGX_ERROR \<or> fe_size env \<le> v then 0 else v"
  have st: "seek_time env args = Some ?start" using Some v by (simp add: seek_time_def)
  show ?thesis
  proof (cases "?start = 0")
    case True
    with assms Some v \<open>args \<noteq> []\<close> st all show ?thesis by (simp add: flv_range_def Let_def)
  next
    case False
    then have "v \<noteq> NGX_ERROR" "v < fe_size env" "v \<noteq> 0" by (auto split: if_splits)
    then have s: "?start = v" "0 < v" "v < fe_size env" using ngx_atoof_range [OF v] by auto
    have h: "int (length ngx_flv_header) = 13" by (simp add: ngx_flv_header_def)
    from assms Some v \<open>args \<noteq> []\<close> s obtain r where t: "ngx_http_flv_time_to_offset (fe_contents env) v = Some r"
      and rng: "rng = (case r of None \<Rightarrow> (v, 13 + fe_size env - v, 0, True)
              | Some (offset, pre) \<Rightarrow> (offset, fe_size env - offset + pre, pre, True))"
      unfolding flv_range_def h by (auto simp: bind_Some_conv Let_def split: if_splits)
    show ?thesis
    proof (cases r)
      case None
      with plain [of v] st s t rng show ?thesis by simp
    next
      case (Some x)
      obtain off pre where "x = (off, pre)" by (cases x)
      with table [of v off pre] Some st s t rng show ?thesis by simp
    qed
  qed
qed

text \<open>C27. What a response of the seeking module consists of, byte by byte, and the length it announces,
  for a file whose size is what \<open>fstat\<close> says. Without a time to seek to it is the whole file. With a
  time but no usable table of keyframes it is the fixed header of 13 bytes and the file from that
  offset on. With a table whose two positions lie in the file it is the file up to the second
  keyframe, then the file from the chosen one on; a second keyframe at position 0 puts the fixed
  header in the place of the first part. The announced length is the number of these bytes in every
  case but the last, where it is short by the 13 bytes of the header.\<close>

theorem flv_content_length:
  assumes "ngx_http_flv_handler env args = Some (Flv_Body len bufs)"
    and "fe_contents env = Some d" and "fe_size env = int (length d)" and "bytes = concat (map (flv_bytes d) bufs)"
  shows "\<exists>start. seek_time env args = Some start \<and> 0 \<le> start \<and>
    (if start = 0 then bytes = d \<and> len = int (length bytes)
     else case ngx_http_flv_time_to_offset (Some d) start of
       None \<Rightarrow> False
     | Some None \<Rightarrow> bytes = ngx_flv_header @ drop (nat start) d \<and> len = int (length bytes)
     | Some (Some (off, pre)) \<Rightarrow> 0 \<le> off \<and> off \<le> int (length d) \<and> 0 \<le> pre \<and> pre \<le> int (length d) \<longrightarrow>
         bytes = (if pre = 0 then ngx_flv_header else take (nat pre) d) @ drop (nat off) d
         \<and> int (length bytes) = len + (if pre = 0 then 13 else 0))"
proof -
  have h: "length ngx_flv_header = 13" by (simp add: ngx_flv_header_def)
  from assms(1) obtain x where r: "flv_range env args = Some (Some x)" and b: "flv_respond env x = Flv_Body len bufs"
    unfolding ngx_http_flv_handler_def by (auto simp: bind_Some_conv split: if_splits option.splits)
  obtain start l pre ahead where x: "x = (start, l, pre, ahead)" by (cases x)
  have body: "len = l" "bytes = (if ahead then flv_bytes d (flv_first_buf env pre) else []) @ drop (nat start) d" if "0 \<le> start" "start \<le> fe_size env"
    using b that assms(3,4) by (auto simp: flv_respond_def x min_def nat_diff_distrib split: if_splits)
  from r [unfolded x] show ?thesis
  proof (cases rule: flv_range_cases)
    case all
    with body assms(3) show ?thesis by auto
  next
    case (plain st)
    with body assms(2,3) h show ?thesis by (auto simp: flv_first_buf_def of_nat_diff)
  next
    case (table st off p)
    with body assms(2,3) h show ?thesis by (auto simp: flv_first_buf_def of_nat_diff)
  qed
qed

text \<open>A file with keyframes at the seconds 0 and 5, and a request for second 7.\<close>

definition demo_flv :: buf where
  "demo_flv = flv_file [] [0x4079000000000000, 0x408C200000000000] [0, 0x4014000000000000] [] (replicate 1000 (CHR ''x''))"

definition demo_flv_env :: flv_env where
  "demo_flv_env = \<lparr>fe_method_ok = True, fe_uri = ''/a.flv'', fe_discard = NGX_OK, fe_path_ok = True, fe_symlinks_ok = True,
     fe_open = None, fe_is_file = True, fe_size = int (length demo_flv), fe_contents = Some demo_flv, fe_alloc = (\<lambda>_. True),
     fe_etag_ok = True, fe_type_ok = True, fe_send_header = NGX_OK, fe_header_only = False, fe_main = True\<rparr>"

lemma demo_doubles:
  "double_val 0x4079000000000000 = 400" "double_val 0x408C200000000000 = 900" "double_val 0 = 0" "double_val 0x4014000000000000 = 5"
  by (simp_all add: double_val_def Let_def)

lemma demo_arg: "ngx_http_arg ''start=7'' ''start'' = Some ''7''"
  by code_simp

lemma demo_flv_length: "length demo_flv = 1106"
  by (simp add: demo_flv_def flv_file_def flv_script_tag_def flv_keyframes_def ngx_flv_header_def)

theorem flv_seek_keyframe_witness:
  "ngx_http_flv_handler demo_flv_env ''start=7'' = Some (Flv_Body 1106 [Flv_File 0 900 True True, Flv_File 900 1106 True True])"
proof -
  let ?ps = "[0x4079000000000000, 0x408C200000000000] :: nat list" and ?ts = "[0, 0x4014000000000000] :: nat list"
  have c: "fe_contents demo_flv_env = Some (flv_file [] ?ps ?ts [] (replicate 1000 (CHR ''x'')))"
    by (simp add: demo_flv_env_def demo_flv_def)
  have ok: "flv_env_ok demo_flv_env" by (simp add: flv_env_ok_def demo_flv_env_def)
  have sz: "fe_size demo_flv_env = 1106" "fe_main demo_flv_env" by (simp_all add: demo_flv_env_def demo_flv_length)
  have v: "ngx_atoof ''7'' = Some 7" by (simp add: ngx_atoof_def char_class_defs)
  have w: "\<not> contains ([] @ butlast kf_word) kf_word" by (simp add: kf_word_def contains_def)
  have len: "28 + length ([] @ flv_keyframes ?ps ?ts @ []) \<le> FLV_METADATA_READ_LEN"
    by (simp add: flv_keyframes_def FLV_METADATA_READ_LEN_def)
  have bits: "\<forall>b \<in> set ?ps \<union> set ?ts. b < 2 ^ 63 \<and> double_val b < 2 ^ 63" by (simp add: demo_doubles)
  have srt: "sorted (map double_val ?ts)" by (simp add: demo_doubles)
  have p1: "1 \<le> double_val (?ps ! 1)" by (simp add: demo_doubles)
  have lens: "(0 :: int) < 7" "7 < fe_size demo_flv_env" "length ?ts = length ?ps" "2 \<le> length ?ps" using sz by simp_all
  from flv_seek_keyframe [OF ok c demo_arg v lens len w bits srt p1] obtain k where k: "k < length ?ps"
    "\<forall>j. k < j \<and> j < length ?ps \<longrightarrow> 7 < \<lfloor>double_val (?ts ! j)\<rfloor>"
    "ngx_http_flv_handler demo_flv_env ''start=7'' = Some (Flv_Body (fe_size demo_flv_env - \<lfloor>double_val (?ps ! k)\<rfloor> + \<lfloor>double_val (?ps ! 1)\<rfloor>)
       [Flv_File 0 \<lfloor>double_val (?ps ! 1)\<rfloor> True (fe_main demo_flv_env),
        Flv_File \<lfloor>double_val (?ps ! k)\<rfloor> (fe_size demo_flv_env) True (fe_main demo_flv_env)])" by blast
  have "k = 1"
  proof (rule ccontr)
    assume "k \<noteq> 1"
    with k(1) have "k = 0" by auto
    with k(2) show False by (auto simp: demo_doubles dest!: spec [of _ 1])
  qed
  with k(3) sz show ?thesis by (simp add: demo_doubles)
qed

lemma no_tag:
  assumes "\<forall>c \<in> set d. ord c \<noteq> 8 \<and> ord c \<noteq> 9 \<and> ord c \<noteq> 18" and "length d \<le> FLV_METADATA_READ_LEN"
  shows "ngx_http_flv_time_to_offset (Some d) start = Some None"
proof -
  have no: "kf_tag_at d (length d) i = Some None" if "i < length d" for i
  proof -
    have "flv_be d 1 i = Some (ord (d ! i))" using that assms(2) by (simp add: flv_be_def be_val_def byte_at_def ord_def)
    with assms(1) nth_mem [OF that] show ?thesis by (simp add: kf_tag_at_def is_script_tag_def is_video_tag_def is_audio_tag_def)
  qed
  have "ngx_http_flv_kf_find_tag_pos d (length d) 0 = Some None"
    by (rule inc_induct [of 0 "length d"]) (simp_all add: ngx_http_flv_kf_find_tag_pos.simps no)
  with assms(2) show ?thesis by (simp add: ngx_http_flv_time_to_offset_def ngx_http_flv_kf_compute_offset_def)
qed

theorem flv_content_length_witness:
  "\<exists>bufs. ngx_http_flv_handler (demo_flv_env\<lparr>fe_contents := Some ''0123456789'', fe_size := 10\<rparr>) ''start=7'' = Some (Flv_Body 16 bufs)
     \<and> concat (map (flv_bytes ''0123456789'') bufs) = ngx_flv_header @ ''789''"
proof -
  let ?env = "demo_flv_env\<lparr>fe_contents := Some ''0123456789'', fe_size := 10\<rparr>"
  have v: "ngx_atoof ''7'' = Some 7" by (simp add: ngx_atoof_def char_class_defs)
  have t: "ngx_http_flv_time_to_offset (Some ''0123456789'') 7 = Some None"
    by (rule no_tag) (simp_all add: FLV_METADATA_READ_LEN_def ord_def of_char_def)
  have s: "seek_time ?env ''start=7'' = Some 7" by (simp add: seek_time_def demo_arg v hc_codes)
  obtain bufs where h: "ngx_http_flv_handler ?env ''start=7'' = Some (Flv_Body 16 bufs)"
    by (simp add: ngx_http_flv_handler_def demo_flv_env_def flv_range_def flv_respond_def demo_arg v t hc_codes ngx_flv_header_def)
  have e: "fe_contents ?env = Some ''0123456789''" "fe_size ?env = int (length ''0123456789'')" by simp_all
  from flv_content_length [OF h e refl] s t have "concat (map (flv_bytes ''0123456789'') bufs) = ngx_flv_header @ drop (nat 7) ''0123456789''"
    by simp
  with h show ?thesis by simp
qed

end
