(* ===== verification/Ngx_Response.thy ===== *)
theory Ngx_Response
  imports Flv_Seek Ngx_Hooks
begin

text \<open>
  How nginx reads the answer of a video server for the getfile module: the incremental parsers of
  \<^verbatim>\<open>nginx-1.5.13/src/http/ngx_http_parse.c\<close> (\<open>ngx_http_parse_status_line\<close>,
  \<open>ngx_http_parse_header_line\<close>), the two callbacks of the getfile module
  (\<open>getfile_process_status_line\<close>, \<open>getfile_upstream_process_header\<close>), the table
  \<open>ngx_http_upstream_headers_in\<close> with its handlers, and the reading loop of
  \<open>ngx_http_upstream_process_header\<close>. The buffer holds everything received; a pointer into it is an
  index, and a parser that runs out of bytes keeps its state and goes on when more have arrived. The
  configuration is that of \<open>ngx_http_getfile_create_loc_conf\<close>: no cache, no header ignored, no
  change of buffering, no next server. \<open>None\<close> is an overflow of a signed number.
\<close>

section \<open>Scanning byte by byte\<close>

text \<open>One round of a parser's loop goes on or leaves it with a code; the loop stops there or at the
  end of the bytes.\<close>

datatype 's scan_step = Go 's | Leave int 's

datatype 's scanned = Again nat 's | Stopped int nat 's

fun scan :: "(nat \<Rightarrow> char \<Rightarrow> 's \<Rightarrow> 's scan_step) \<Rightarrow> nat \<Rightarrow> string \<Rightarrow> 's \<Rightarrow> 's scanned" where
  "scan f p [] s = Again p s"
| "scan f p (c # cs) s = (case f p c s of Go s' \<Rightarrow> scan f (Suc p) cs s' | Leave rc s' \<Rightarrow> Stopped rc p s')"

section \<open>The status line\<close>

definition NGX_HTTP_PARSE_HEADER_DONE :: int where "NGX_HTTP_PARSE_HEADER_DONE = 1"
definition NGX_HTTP_PARSE_INVALID_HEADER :: int where "NGX_HTTP_PARSE_INVALID_HEADER = 13"
definition NGX_HTTP_UPSTREAM_INVALID_HEADER :: int where "NGX_HTTP_UPSTREAM_INVALID_HEADER = 40"
definition NGX_HTTP_LC_HEADER_LEN :: nat where "NGX_HTTP_LC_HEADER_LEN = 32"

lemmas parse_codes = NGX_OK_def NGX_ERROR_def NGX_AGAIN_def NGX_HTTP_PARSE_HEADER_DONE_def
  NGX_HTTP_PARSE_INVALID_HEADER_def NGX_HTTP_UPSTREAM_INVALID_HEADER_def

text \<open>\<open>r->state\<close>, \<open>r->http_major\<close> and \<open>r->http_minor\<close> (bit fields of 16 bits) and the fields of
  \<open>ngx_http_status_t\<close>. The states have the names of the client's own parser.\<close>

record sl_regs =
  sl_at :: sl_state
  http_major :: "16 word"
  http_minor :: "16 word"
  st_code :: ulong
  st_count :: ulong
  st_start :: "nat option"
  st_stop :: "nat option"
  st_version :: ulong

definition sl_goto :: "sl_state \<Rightarrow> sl_regs \<Rightarrow> sl_regs scan_step" where
  "sl_goto q s = Go (s\<lparr>sl_at := q\<rparr>)"

definition sl_expect :: "char \<Rightarrow> sl_state \<Rightarrow> char \<Rightarrow> sl_regs \<Rightarrow> sl_regs scan_step" where
  "sl_expect c q ch s = (if ch = c then sl_goto q s else Leave NGX_ERROR s)"

definition dig :: "char \<Rightarrow> 'a::len word" where "dig ch = of_nat (ord ch) - 48"

definition ngx_sl_step :: "nat \<Rightarrow> char \<Rightarrow> sl_regs \<Rightarrow> sl_regs scan_step" where
  "ngx_sl_step p ch s = (case sl_at s of
      sw_start \<Rightarrow> sl_expect (CHR ''H'') sw_H ch s
    | sw_H \<Rightarrow> sl_expect (CHR ''T'') sw_HT ch s
    | sw_HT \<Rightarrow> sl_expect (CHR ''T'') sw_HTT ch s
    | sw_HTT \<Rightarrow> sl_expect (CHR ''P'') sw_HTTP ch s
    | sw_HTTP \<Rightarrow> sl_expect (CHR ''/'') sw_first_major_digit ch s
    | sw_first_major_digit \<Rightarrow>
        if ord ch < 49 \<or> 57 < ord ch then Leave NGX_ERROR s
        else sl_goto sw_major_digit (s\<lparr>http_major := dig ch\<rparr>)
    | sw_major_digit \<Rightarrow>
        if ch = CHR ''.'' then sl_goto sw_first_minor_digit s
        else if ord ch < 48 \<or> 57 < ord ch then Leave NGX_ERROR s
        else Go (s\<lparr>http_major := http_major s * 10 + dig ch\<rparr>)
    | sw_first_minor_digit \<Rightarrow>
        if ord ch < 48 \<or> 57 < ord ch then Leave NGX_ERROR s
        else sl_goto sw_minor_digit (s\<lparr>http_minor := dig ch\<rparr>)
    | sw_minor_digit \<Rightarrow>
        if ch = CHR '' '' then sl_goto sw_status s
        else if ord ch < 48 \<or> 57 < ord ch then Leave NGX_ERROR s
        else Go (s\<lparr>http_minor := http_minor s * 10 + dig ch\<rparr>)
    | sw_status \<Rightarrow>
        if ch = CHR '' '' then Go s
        else if ord ch < 48 \<or> 57 < ord ch then Leave NGX_ERROR s
        else let s1 = s\<lparr>st_code := st_code s * 10 + dig ch, st_count := st_count s + 1\<rparr> in
          if st_count s1 = 3 then sl_goto sw_space_after_status (s1\<lparr>st_start := Some (p - 2)\<rparr>) else Go s1
    | sw_space_after_status \<Rightarrow>
        if ch = CHR '' '' \<or> ch = CHR ''.'' then sl_goto sw_status_text s
        else if ch = CR then sl_goto sw_almost_done s
        else if ch = LF then Leave NGX_OK s
        else Leave NGX_ERROR s
    | sw_status_text \<Rightarrow>
        if ch = CR then sl_goto sw_almost_done s
        else if ch = LF then Leave NGX_OK s
        else Go s
    | sw_almost_done \<Rightarrow>
        let s1 = s\<lparr>st_stop := Some (p - 1)\<rparr> in
        if ch = LF then Leave NGX_OK s1 else Leave NGX_ERROR s1)"

text \<open>The new \<open>b->pos\<close> comes with the code. An error leaves \<open>b->pos\<close> and \<open>r->state\<close> alone.\<close>

definition ngx_http_parse_status_line :: "string \<Rightarrow> nat \<Rightarrow> sl_regs \<Rightarrow> int \<times> nat \<times> sl_regs" where
  "ngx_http_parse_status_line b pos s = (case scan ngx_sl_step pos (drop pos b) s of
      Again p s' \<Rightarrow> (NGX_AGAIN, p, s')
    | Stopped rc p s' \<Rightarrow>
        if rc = NGX_OK
        then (NGX_OK, Suc p, s'\<lparr>st_stop := Some (case st_stop s' of None \<Rightarrow> p | Some e \<Rightarrow> e),
                st_version := of_nat (unat (http_major s') * 1000 + unat (http_minor s')), sl_at := sw_start\<rparr>)
        else (NGX_ERROR, pos, s'\<lparr>sl_at := sl_at s\<rparr>))"

section \<open>A header line\<close>

datatype hl_state =
    hs_start | hs_name | hs_space_before_value | hs_value | hs_space_after_value | hs_ignore_line
  | hs_almost_done | hs_header_almost_done

record hl_regs =
  hl_at :: hl_state
  header_hash :: ulong
  lowcase_index :: nat
  lowcase_header :: string
  name_start :: nat
  name_stop :: nat
  value_start :: nat
  value_stop :: nat
  invalid_header :: bool

text \<open>The table \<open>lowcase\<close>: the lower-case letter, digit or dash, or \<open>None\<close> for its zeros.\<close>

definition lowcase :: "char \<Rightarrow> char option" where
  "lowcase c = (if isalnum c \<or> c = CHR ''-'' then Some (ngx_tolower c) else None)"

definition ngx_hash :: "ulong \<Rightarrow> char \<Rightarrow> ulong" where
  "ngx_hash key c = key * 31 + of_nat (ord c)"

text \<open>A byte of the name that counts: the first one resets hash and index, the others go on. The
  callers allow underscores.\<close>

definition hl_first :: "char \<Rightarrow> hl_regs \<Rightarrow> hl_regs" where
  "hl_first c s = s\<lparr>header_hash := ngx_hash 0 c, lowcase_header := (lowcase_header s)[0 := c], lowcase_index := 1\<rparr>"

definition hl_more :: "char \<Rightarrow> hl_regs \<Rightarrow> hl_regs" where
  "hl_more c s = s\<lparr>header_hash := ngx_hash (header_hash s) c,
     lowcase_header := (lowcase_header s)[lowcase_index s := c],
     lowcase_index := (lowcase_index s + 1) mod NGX_HTTP_LC_HEADER_LEN\<rparr>"

definition name_byte :: "char \<Rightarrow> char option" where
  "name_byte ch = (case lowcase ch of Some c \<Rightarrow> Some c | None \<Rightarrow> if ch = CHR ''_'' then Some ch else None)"

text \<open>The cases of the switch.\<close>

definition hl_start_step :: "nat \<Rightarrow> char \<Rightarrow> hl_regs \<Rightarrow> hl_regs scan_step" where
  "hl_start_step p ch s0 =
     (let s = s0\<lparr>name_start := p, invalid_header := False\<rparr> in
      if ch = CR then Go (s\<lparr>value_stop := p, hl_at := hs_header_almost_done\<rparr>)
      else if ch = LF then Leave NGX_HTTP_PARSE_HEADER_DONE (s\<lparr>value_stop := p\<rparr>)
      else let s1 = s\<lparr>hl_at := hs_name\<rparr> in
        case name_byte ch of
          Some c \<Rightarrow> Go (hl_first c s1)
        | None \<Rightarrow> if ch = NUL then Leave NGX_HTTP_PARSE_INVALID_HEADER s1 else Go (s1\<lparr>invalid_header := True\<rparr>))"

definition hl_name_step :: "string \<Rightarrow> nat \<Rightarrow> char \<Rightarrow> hl_regs \<Rightarrow> hl_regs scan_step" where
  "hl_name_step b p ch s =
     (case name_byte ch of
        Some c \<Rightarrow> Go (hl_more c s)
      | None \<Rightarrow>
          if ch = CHR '':'' then Go (s\<lparr>name_stop := p, hl_at := hs_space_before_value\<rparr>)
          else if ch = CR then Go (s\<lparr>name_stop := p, value_start := p, value_stop := p, hl_at := hs_almost_done\<rparr>)
          else if ch = LF then Leave NGX_OK (s\<lparr>name_stop := p, value_start := p, value_stop := p\<rparr>)
          else if ch = CHR ''/'' \<and> p = name_start s + 4 \<and> take 4 (drop (name_start s) b) = ''HTTP''
          then Go (s\<lparr>hl_at := hs_ignore_line\<rparr>)
          else if ch = NUL then Leave NGX_HTTP_PARSE_INVALID_HEADER s
          else Go (s\<lparr>invalid_header := True\<rparr>))"

definition hl_value_step :: "nat \<Rightarrow> char \<Rightarrow> hl_regs \<Rightarrow> hl_regs scan_step" where
  "hl_value_step p ch s = (case hl_at s of
      hs_space_before_value \<Rightarrow>
        if ch = CHR '' '' then Go s
        else if ch = CR then Go (s\<lparr>value_start := p, value_stop := p, hl_at := hs_almost_done\<rparr>)
        else if ch = LF then Leave NGX_OK (s\<lparr>value_start := p, value_stop := p\<rparr>)
        else if ch = NUL then Leave NGX_HTTP_PARSE_INVALID_HEADER s
        else Go (s\<lparr>value_start := p, hl_at := hs_value\<rparr>)
    | hs_value \<Rightarrow>
        if ch = CHR '' '' then Go (s\<lparr>value_stop := p, hl_at := hs_space_after_value\<rparr>)
        else if ch = CR then Go (s\<lparr>value_stop := p, hl_at := hs_almost_done\<rparr>)
        else if ch = LF then Leave NGX_OK (s\<lparr>value_stop := p\<rparr>)
        else if ch = NUL then Leave NGX_HTTP_PARSE_INVALID_HEADER s
        else Go s
    | _ \<Rightarrow>
        if ch = CHR '' '' then Go s
        else if ch = CR then Go (s\<lparr>hl_at := hs_almost_done\<rparr>)
        else if ch = LF then Leave NGX_OK s
        else if ch = NUL then Leave NGX_HTTP_PARSE_INVALID_HEADER s
        else Go (s\<lparr>hl_at := hs_value\<rparr>))"

definition ngx_hl_step :: "string \<Rightarrow> nat \<Rightarrow> char \<Rightarrow> hl_regs \<Rightarrow> hl_regs scan_step" where
  "ngx_hl_step b p ch s = (case hl_at s of
      hs_start \<Rightarrow> hl_start_step p ch s
    | hs_name \<Rightarrow> hl_name_step b p ch s
    | hs_ignore_line \<Rightarrow> Go (if ch = LF then s\<lparr>hl_at := hs_start\<rparr> else s)
    | hs_almost_done \<Rightarrow>
        if ch = LF then Leave NGX_OK s
        else if ch = CR then Go s
        else Leave NGX_HTTP_PARSE_INVALID_HEADER s
    | hs_header_almost_done \<Rightarrow>
        if ch = LF then Leave NGX_HTTP_PARSE_HEADER_DONE s else Leave NGX_HTTP_PARSE_INVALID_HEADER s
    | _ \<Rightarrow> hl_value_step p ch s)"

text \<open>\<open>hash\<close> and \<open>i\<close> are local variables: they reach the request only when the line is complete or
  the bytes are used up.\<close>

definition ngx_http_parse_header_line :: "string \<Rightarrow> nat \<Rightarrow> hl_regs \<Rightarrow> int \<times> nat \<times> hl_regs" where
  "ngx_http_parse_header_line b pos s = (case scan (ngx_hl_step b) pos (drop pos b) s of
      Again p s' \<Rightarrow> (NGX_AGAIN, p, s')
    | Stopped rc p s' \<Rightarrow>
        if rc = NGX_OK then (NGX_OK, Suc p, s'\<lparr>hl_at := hs_start\<rparr>)
        else let s1 = s'\<lparr>header_hash := header_hash s, lowcase_index := lowcase_index s\<rparr> in
          if rc = NGX_HTTP_PARSE_HEADER_DONE then (rc, Suc p, s1\<lparr>hl_at := hs_start\<rparr>)
          else (rc, pos, s1\<lparr>hl_at := hl_at s\<rparr>))"

section \<open>The headers nginx knows\<close>

record ngx_elt =
  elt_hash :: ulong
  elt_key :: string
  elt_value :: string
  elt_lowcase :: string

text \<open>The fields of \<open>ngx_http_upstream_headers_in_t\<close> that point to a header line.\<close>

datatype hdr_slot =
    h_status | h_date | h_server | h_connection | h_expires | h_etag | h_x_accel_expires | h_x_accel_redirect
  | h_x_accel_limit_rate | h_content_type | h_content_length | h_last_modified | h_location | h_accept_ranges
  | h_www_authenticate | h_transfer_encoding | h_content_encoding

text \<open>With the fields of the request the handlers set, and the number of allocations made so far.\<close>

record ngx_headers_in =
  hi_headers :: "ngx_elt list"
  hi_status_n :: ulong
  hi_status_line :: string
  hi_slot :: "hdr_slot \<Rightarrow> ngx_elt option"
  hi_content_length_n :: int
  hi_cache_control :: "ngx_elt list"
  hi_connection_close :: bool
  hi_chunked :: bool
  hi_cacheable :: bool
  hi_limit_rate :: int
  hi_charset :: "string option"
  hi_allocs :: nat

datatype h_handler =
    process_header_line hdr_slot | ignore_header_line | process_content_length | process_set_cookie
  | process_cache_control | process_expires | process_accel_expires | process_limit_rate | process_buffering
  | process_charset | process_connection | process_transfer_encoding

definition ngx_http_upstream_headers_in :: "(string \<times> h_handler) list" where
  "ngx_http_upstream_headers_in = [
     (''Status'', process_header_line h_status),
     (''Content-Type'', process_header_line h_content_type),
     (''Content-Length'', process_content_length),
     (''Date'', process_header_line h_date),
     (''Last-Modified'', process_header_line h_last_modified),
     (''ETag'', process_header_line h_etag),
     (''Server'', process_header_line h_server),
     (''WWW-Authenticate'', process_header_line h_www_authenticate),
     (''Location'', process_header_line h_location),
     (''Refresh'', ignore_header_line),
     (''Set-Cookie'', process_set_cookie),
     (''Content-Disposition'', ignore_header_line),
     (''Cache-Control'', process_cache_control),
     (''Expires'', process_expires),
     (''Accept-Ranges'', process_header_line h_accept_ranges),
     (''Connection'', process_connection),
     (''Keep-Alive'', ignore_header_line),
     (''X-Powered-By'', ignore_header_line),
     (''X-Accel-Expires'', process_accel_expires),
     (''X-Accel-Redirect'', process_header_line h_x_accel_redirect),
     (''X-Accel-Limit-Rate'', process_limit_rate),
     (''X-Accel-Buffering'', process_buffering),
     (''X-Accel-Charset'', process_charset),
     (''Transfer-Encoding'', process_transfer_encoding),
     (''Content-Encoding'', process_header_line h_content_encoding)]"

definition ngx_hash_key_lc :: "string \<Rightarrow> ulong" where
  "ngx_hash_key_lc s = foldl (\<lambda>k c. ngx_hash k (ngx_tolower c)) 0 s"

text \<open>The hash table has \<open>nb\<close> (\<open>hash->size\<close>) buckets, and the lower-case names in them; the bucket is chosen by
  the given hash value, whatever the name.\<close>

definition ngx_hash_find :: "nat \<Rightarrow> (string \<times> 'h) list \<Rightarrow> ulong \<Rightarrow> string \<Rightarrow> 'h option" where
  "ngx_hash_find nb table key name =
     map_option snd (find (\<lambda>(n, h). unat (ngx_hash_key_lc n) mod nb = unat key mod nb \<and> map ngx_tolower n = name) table)"

definition ngx_atoi :: "string \<Rightarrow> int option" where
  "ngx_atoi line = (if line = [] then Some NGX_ERROR else atoof_loop 0 line)"

text \<open>Allocations are answered by \<open>alloc\<close> in the order they are made.\<close>

definition set_slot :: "hdr_slot \<Rightarrow> ngx_elt \<Rightarrow> ngx_headers_in \<Rightarrow> ngx_headers_in" where
  "set_slot f h hin = hin\<lparr>hi_slot := (hi_slot hin)(f := Some h)\<rparr>"

definition took :: "ngx_headers_in \<Rightarrow> ngx_headers_in" where
  "took hin = hin\<lparr>hi_allocs := hi_allocs hin + 1\<rparr>"

definition ngx_http_upstream_process_header_line :: "hdr_slot \<Rightarrow> ngx_elt \<Rightarrow> ngx_headers_in \<Rightarrow> ngx_headers_in" where
  "ngx_http_upstream_process_header_line f h hin = (if hi_slot hin f = None then set_slot f h hin else hin)"

definition ngx_http_upstream_process_content_length :: "ngx_elt \<Rightarrow> ngx_headers_in \<Rightarrow> ngx_headers_in option" where
  "ngx_http_upstream_process_content_length h hin = do {
     n \<leftarrow> ngx_atoof (elt_value h);
     Some ((set_slot h_content_length h hin)\<lparr>hi_content_length_n := n\<rparr>)
   }"

definition ngx_http_upstream_process_cache_control ::
  "(nat \<Rightarrow> bool) \<Rightarrow> ngx_elt \<Rightarrow> ngx_headers_in \<Rightarrow> int \<times> ngx_headers_in" where
  "ngx_http_upstream_process_cache_control alloc h hin =
     (if hi_cache_control hin = [] \<and> \<not> alloc (hi_allocs hin) then (NGX_ERROR, took hin)
      else let hin1 = (if hi_cache_control hin = [] then took hin else hin) in
        if \<not> alloc (hi_allocs hin1) then (NGX_ERROR, took hin1)
        else (NGX_OK, (took hin1)\<lparr>hi_cache_control := hi_cache_control hin1 @ [h]\<rparr>))"

definition ngx_http_upstream_process_limit_rate :: "ngx_elt \<Rightarrow> ngx_headers_in \<Rightarrow> ngx_headers_in option" where
  "ngx_http_upstream_process_limit_rate h hin = do {
     n \<leftarrow> ngx_atoi (elt_value h);
     let hin1 = set_slot h_x_accel_limit_rate h hin;
     Some (if n \<noteq> NGX_ERROR then hin1\<lparr>hi_limit_rate := n\<rparr> else hin1)
   }"

definition ngx_http_upstream_process_connection :: "ngx_elt \<Rightarrow> ngx_headers_in \<Rightarrow> ngx_headers_in" where
  "ngx_http_upstream_process_connection h hin =
     (let hin1 = set_slot h_connection h hin in
      if ngx_strlcasestrn (elt_value h) 0 (length (elt_value h)) ''close'' \<noteq> None then hin1\<lparr>hi_connection_close := True\<rparr> else hin1)"

definition ngx_http_upstream_process_transfer_encoding :: "ngx_elt \<Rightarrow> ngx_headers_in \<Rightarrow> ngx_headers_in" where
  "ngx_http_upstream_process_transfer_encoding h hin =
     (let hin1 = set_slot h_transfer_encoding h hin in
      if ngx_strlcasestrn (elt_value h) 0 (length (elt_value h)) ''chunked'' \<noteq> None then hin1\<lparr>hi_chunked := True\<rparr> else hin1)"

definition ngx_http_upstream_process_set_cookie :: "ngx_headers_in \<Rightarrow> ngx_headers_in" where
  "ngx_http_upstream_process_set_cookie hin = hin\<lparr>hi_cacheable := False\<rparr>"

definition ngx_http_upstream_process_expires :: "ngx_elt \<Rightarrow> ngx_headers_in \<Rightarrow> ngx_headers_in" where
  "ngx_http_upstream_process_expires h hin = set_slot h_expires h hin"

definition ngx_http_upstream_process_accel_expires :: "ngx_elt \<Rightarrow> ngx_headers_in \<Rightarrow> ngx_headers_in" where
  "ngx_http_upstream_process_accel_expires h hin = set_slot h_x_accel_expires h hin"

definition ngx_http_upstream_process_charset :: "ngx_elt \<Rightarrow> ngx_headers_in \<Rightarrow> ngx_headers_in" where
  "ngx_http_upstream_process_charset h hin = hin\<lparr>hi_charset := Some (elt_value h)\<rparr>"

lemmas plain_handlers [simp] = ngx_http_upstream_process_set_cookie_def ngx_http_upstream_process_expires_def
  ngx_http_upstream_process_accel_expires_def ngx_http_upstream_process_charset_def

text \<open>The handler of a known header. The buffering handler does nothing, as the configuration does not
  let a header change the buffering.\<close>

definition handle_header ::
  "(nat \<Rightarrow> bool) \<Rightarrow> h_handler \<Rightarrow> ngx_elt \<Rightarrow> ngx_headers_in \<Rightarrow> (int \<times> ngx_headers_in) option" where
  "handle_header alloc handler h hin = (case handler of
      process_header_line f \<Rightarrow> Some (NGX_OK, ngx_http_upstream_process_header_line f h hin)
    | ignore_header_line \<Rightarrow> Some (NGX_OK, hin)
    | process_content_length \<Rightarrow> map_option (Pair NGX_OK) (ngx_http_upstream_process_content_length h hin)
    | process_set_cookie \<Rightarrow> Some (NGX_OK, ngx_http_upstream_process_set_cookie hin)
    | process_cache_control \<Rightarrow> Some (ngx_http_upstream_process_cache_control alloc h hin)
    | process_expires \<Rightarrow> Some (NGX_OK, ngx_http_upstream_process_expires h hin)
    | process_accel_expires \<Rightarrow> Some (NGX_OK, ngx_http_upstream_process_accel_expires h hin)
    | process_limit_rate \<Rightarrow> map_option (Pair NGX_OK) (ngx_http_upstream_process_limit_rate h hin)
    | process_buffering \<Rightarrow> Some (NGX_OK, hin)
    | process_charset \<Rightarrow> Some (NGX_OK, ngx_http_upstream_process_charset h hin)
    | process_connection \<Rightarrow> Some (NGX_OK, ngx_http_upstream_process_connection h hin)
    | process_transfer_encoding \<Rightarrow> Some (NGX_OK, ngx_http_upstream_process_transfer_encoding h hin))"

section \<open>The callbacks of the getfile module\<close>

record ngx_response =
  rp_buf :: string
  rp_pos :: nat
  rp_sl :: sl_regs
  rp_hl :: hl_regs
  rp_in :: ngx_headers_in
  rp_in_headers :: bool
  rp_version_9 :: bool
  rp_state_status :: ulong

text \<open>A parsed line as an element of the list: \<open>lowcase_header\<close> is used when it has as many bytes as
  the name, otherwise the name is lowered again.\<close>

definition cut :: "string \<Rightarrow> nat \<Rightarrow> nat \<Rightarrow> string" where
  "cut b i j = take (j - i) (drop i b)"

definition header_elt :: "string \<Rightarrow> hl_regs \<Rightarrow> ngx_elt" where
  "header_elt b s =
     (let key = cut b (name_start s) (name_stop s) in
      \<lparr>elt_hash = header_hash s, elt_key = key, elt_value = cut b (value_start s) (value_stop s),
       elt_lowcase = (if length key = lowcase_index s then take (length key) (lowcase_header s)
                      else map ngx_tolower key)\<rparr>)"

definition add_header ::
  "(nat \<Rightarrow> bool) \<Rightarrow> nat \<Rightarrow> ngx_elt \<Rightarrow> ngx_headers_in \<Rightarrow> (int \<times> ngx_headers_in) option" where
  "add_header alloc nb h hin =
     (if \<not> alloc (hi_allocs hin) then Some (NGX_ERROR, took hin)
      else let hin1 = took hin in
      if \<not> alloc (hi_allocs hin1) then Some (NGX_ERROR, took hin1)
      else let hin2 = (took hin1)\<lparr>hi_headers := hi_headers hin1 @ [h]\<rparr> in
      case ngx_hash_find nb ngx_http_upstream_headers_in (elt_hash h) (elt_lowcase h) of
        None \<Rightarrow> Some (NGX_OK, hin2)
      | Some handler \<Rightarrow> handle_header alloc handler h hin2)"

definition add_missing :: "(nat \<Rightarrow> bool) \<Rightarrow> hdr_slot \<Rightarrow> string \<Rightarrow> ngx_headers_in \<Rightarrow> int \<times> ngx_headers_in" where
  "add_missing alloc f name hin =
     (if hi_slot hin f \<noteq> None then (NGX_OK, hin)
      else if \<not> alloc (hi_allocs hin) then (NGX_ERROR, took hin)
      else (NGX_OK, (took hin)\<lparr>hi_headers := hi_headers hin @
             [\<lparr>elt_hash = foldl ngx_hash 0 (map ngx_tolower name), elt_key = name, elt_value = [],
               elt_lowcase = map ngx_tolower name\<rparr>]\<rparr>))"

definition headers_done :: "(nat \<Rightarrow> bool) \<Rightarrow> ngx_response \<Rightarrow> int \<times> ngx_response" where
  "headers_done alloc r =
     (case add_missing alloc h_server ''Server'' (rp_in r) of (rc, hin) \<Rightarrow>
        if rc \<noteq> NGX_OK then (NGX_ERROR, r\<lparr>rp_in := hin\<rparr>)
        else case add_missing alloc h_date ''Date'' hin of (rc, hin) \<Rightarrow> (rc, r\<lparr>rp_in := hin\<rparr>))"

lemma scan_bounds: "scan f p cs s = Stopped rc q s' \<Longrightarrow> p \<le> q \<and> q < p + length cs"
  by (induction cs arbitrary: p s) (fastforce split: scan_step.splits)+

lemma header_line_progress:
  "ngx_http_parse_header_line b pos s = (NGX_OK, q, s') \<Longrightarrow> pos < q \<and> q \<le> length b"
  by (auto simp: ngx_http_parse_header_line_def parse_codes Let_def split: scanned.splits if_splits
      dest!: scan_bounds)

function getfile_upstream_process_header ::
  "(nat \<Rightarrow> bool) \<Rightarrow> nat \<Rightarrow> ngx_response \<Rightarrow> (int \<times> ngx_response) option" where
  "getfile_upstream_process_header alloc nb r =
     (case ngx_http_parse_header_line (rp_buf r) (rp_pos r) (rp_hl r) of (rc, pos, hl) \<Rightarrow>
        let r1 = r\<lparr>rp_pos := pos, rp_hl := hl\<rparr> in
        if rc = NGX_OK then
          (case add_header alloc nb (header_elt (rp_buf r1) hl) (rp_in r1) of
             None \<Rightarrow> None
           | Some (rc1, hin) \<Rightarrow>
               if rc1 \<noteq> NGX_OK then Some (NGX_ERROR, r1\<lparr>rp_in := hin\<rparr>)
               else getfile_upstream_process_header alloc nb (r1\<lparr>rp_in := hin\<rparr>))
        else if rc = NGX_HTTP_PARSE_HEADER_DONE then Some (headers_done alloc r1)
        else if rc = NGX_AGAIN then Some (NGX_AGAIN, r1)
        else Some (NGX_HTTP_UPSTREAM_INVALID_HEADER, r1))"
  by pat_completeness auto
termination
  by (relation "measure (\<lambda>(alloc, nb, r). length (rp_buf r) - rp_pos r)")
    (auto dest!: sym [of "(_, _, _)"] header_line_progress)

declare getfile_upstream_process_header.simps [simp del]

definition getfile_process_status_line ::
  "(nat \<Rightarrow> bool) \<Rightarrow> nat \<Rightarrow> ngx_response \<Rightarrow> (int \<times> ngx_response) option" where
  "getfile_process_status_line alloc nb r =
     (case ngx_http_parse_status_line (rp_buf r) (rp_pos r) (rp_sl r) of (rc, pos, sl) \<Rightarrow>
        let r1 = r\<lparr>rp_pos := pos, rp_sl := sl\<rparr> in
        if rc = NGX_AGAIN then Some (NGX_AGAIN, r1)
        else if rc = NGX_ERROR then Some (NGX_OK, r1\<lparr>rp_version_9 := True, rp_state_status := 200\<rparr>)
        else let i = (case st_start sl of None \<Rightarrow> 0 | Some i \<Rightarrow> i);
                 j = (case st_stop sl of None \<Rightarrow> 0 | Some j \<Rightarrow> j);
                 hin = took ((rp_in r)\<lparr>hi_status_n := st_code sl\<rparr>);
                 r2 = r1\<lparr>rp_state_status := st_code sl, rp_in := hin\<rparr> in
          if \<not> alloc (hi_allocs (rp_in r)) then Some (NGX_ERROR, r2)
          else getfile_upstream_process_header alloc nb
                 (r2\<lparr>rp_in := hin\<lparr>hi_status_line := cut (rp_buf r) i j\<rparr>, rp_in_headers := True\<rparr>))"

text \<open>\<open>u->process_header\<close>.\<close>

definition process_header :: "(nat \<Rightarrow> bool) \<Rightarrow> nat \<Rightarrow> ngx_response \<Rightarrow> (int \<times> ngx_response) option" where
  "process_header alloc nb r =
     (if rp_in_headers r then getfile_upstream_process_header alloc nb r
      else getfile_process_status_line alloc nb r)"

section \<open>Reading the answer\<close>

text \<open>The loop of \<open>ngx_http_upstream_process_header\<close> over what \<open>recv\<close> returns: nothing yet (the
  list is used up), the end of the connection (an empty piece) or bytes, as many as fit.\<close>

datatype us_outcome = Us_wait ngx_response | Us_next_error | Us_next_invalid_header | Us_finalize int | Us_headers ngx_response

fun ngx_http_upstream_process_header ::
  "(nat \<Rightarrow> bool) \<Rightarrow> nat \<Rightarrow> nat \<Rightarrow> string list \<Rightarrow> ngx_response \<Rightarrow> us_outcome option" where
  "ngx_http_upstream_process_header alloc nb bsize [] r = Some (Us_wait r)"
| "ngx_http_upstream_process_header alloc nb bsize (c # cs) r =
     (if c = [] then Some Us_next_error
      else do {
        (rc, r1) \<leftarrow> process_header alloc nb (r\<lparr>rp_buf := rp_buf r @ take (bsize - length (rp_buf r)) c\<rparr>);
        if rc = NGX_AGAIN
        then if length (rp_buf r1) = bsize then Some Us_next_invalid_header
             else ngx_http_upstream_process_header alloc nb bsize cs r1
        else if rc = NGX_HTTP_UPSTREAM_INVALID_HEADER then Some Us_next_invalid_header
        else if rc = NGX_ERROR then Some (Us_finalize NGX_HTTP_INTERNAL_SERVER_ERROR)
        else Some (Us_headers r1)
      })"

text \<open>A fresh request: what \<open>ngx_http_upstream_create\<close>, the getfile handler and
  \<open>getfile_upstream_create_request\<close> leave. The registers for header lines, and the version, are
  those the parser of the request from the client left behind.\<close>

definition fresh_response :: "16 word \<Rightarrow> 16 word \<Rightarrow> hl_regs \<Rightarrow> ngx_response" where
  "fresh_response maj mnr hl = \<lparr>rp_buf = [], rp_pos = 0,
     rp_sl = \<lparr>sl_at = sw_start, http_major = maj, http_minor = mnr, st_code = 0, st_count = 0, st_start = None,
              st_stop = None, st_version = 0\<rparr>,
     rp_hl = hl\<lparr>hl_at := hs_start, header_hash := 1\<rparr>,
     rp_in = \<lparr>hi_headers = [], hi_status_n = 0, hi_status_line = [], hi_slot = (\<lambda>_. None), hi_content_length_n = - 1,
              hi_cache_control = [], hi_connection_close = False, hi_chunked = False, hi_cacheable = False,
              hi_limit_rate = 0, hi_charset = None, hi_allocs = 0\<rparr>,
     rp_in_headers = False, rp_version_9 = False, rp_state_status = 0\<rparr>"

section \<open>Scanning in pieces\<close>

lemma scan_append:
  "scan f p (a @ b) s = (case scan f p a s of Again q t \<Rightarrow> scan f q b t | x \<Rightarrow> x)"
  by (induction a arbitrary: p s) (auto split: scan_step.splits)

lemma scan_again: "scan f p a s = Again q t \<Longrightarrow> q = p + length a"
  by (induction a arbitrary: p s) (fastforce split: scan_step.splits)+

lemma scan_cong:
  "(\<And>i c t. p \<le> i \<Longrightarrow> i < p + length cs \<Longrightarrow> f i c t = g i c t) \<Longrightarrow> scan f p cs s = scan g p cs s"
  by (induction cs arbitrary: p s) (auto split: scan_step.splits)

section \<open>The status line is read as the client reads it\<close>

text \<open>The state of the client's parser behind the registers.\<close>

definition sl_rel :: "sl_regs \<Rightarrow> sl_state \<Rightarrow> int \<Rightarrow> nat \<Rightarrow> bool" where
  "sl_rel s q st d \<longleftrightarrow> sl_at s = q \<and> st_code s = of_int st \<and> st_count s = of_nat d \<and>
     d \<le> 3 \<and> (q \<notin> {sw_space_after_status, sw_status_text, sw_almost_done} \<longrightarrow> d < 3)"

lemma count_is_3: "d < 3 \<Longrightarrow> (of_nat d + 1 = (3 :: ulong)) \<longleftrightarrow> d + 1 = 3"
  by (cases d; cases "d - 1"; cases "d - 2") auto

lemma dig_of_int: "48 \<le> ord ch \<Longrightarrow> (dig ch :: ulong) = of_int (int (ord ch) - 48)"
  by (simp add: dig_def of_nat_diff)

lemma sl_step_sim:
  assumes "sl_rel s q st d"
  shows "case sl_step q st d ch of
      Sl_go q' st' d' \<Rightarrow> \<exists>s'. ngx_sl_step p ch s = Go s' \<and> sl_rel s' q' st' d'
    | Sl_done \<Rightarrow> \<exists>s'. ngx_sl_step p ch s = Leave NGX_OK s' \<and> st_code s' = of_int st
    | Sl_fail \<Rightarrow> \<exists>s'. ngx_sl_step p ch s = Leave NGX_ERROR s'"
proof (cases q)
  case sw_status
  with assms count_is_3 [of d] dig_of_int [of ch] show ?thesis
    by (auto simp: sl_rel_def ngx_sl_step_def Let_def sl_goto_def algebra_simps)
qed (use assms in \<open>auto simp: sl_rel_def ngx_sl_step_def sl_goto_def sl_expect_def Let_def\<close>)

lemma sl_scan_sim:
  "sl_rel s q st d \<Longrightarrow>
     (case scan ngx_sl_step p cs s of
        Again p' s' \<Rightarrow> (\<exists>st'. sl_run q st d cs = (- 1, st'))
      | Stopped rc p' s' \<Rightarrow> rc = NGX_OK \<and> (\<exists>st'. sl_run q st d cs = (0, st') \<and> st_code s' = of_int st')
          \<or> rc = NGX_ERROR \<and> (\<exists>st'. sl_run q st d cs = (- 1, st')))"
proof (induction cs arbitrary: p s q st d)
  case (Cons c cs)
  show ?case
  proof (cases "sl_step q st d c")
    case (Sl_go q' st' d')
    with sl_step_sim [OF Cons.prems, where ch = c and p = p] obtain s'
      where s': "ngx_sl_step p c s = Go s'" "sl_rel s' q' st' d'" by auto
    have "sl_run q st d (c # cs) = sl_run q' st' d' cs" by (simp add: Sl_go)
    with Cons.IH [OF s'(2), of "Suc p"] s'(1) show ?thesis
      by (simp del: sl_run.simps split: scanned.splits)
  qed (use sl_step_sim [OF Cons.prems, where ch = c and p = p] in auto)
qed simp

lemma status_line_scan:
  assumes "sl_at s = sw_start" "st_code s = 0" "st_count s = 0"
  shows "(\<exists>q s'. scan ngx_sl_step p cs s = Stopped NGX_OK q s' \<and> st_code s' = of_int st \<and> 0 \<le> st \<and> st \<le> 999)
     \<longleftrightarrow> status_line cs st"
proof -
  have rel: "sl_rel s sw_start 0 0" using assms by (simp add: sl_rel_def)
  have range: "status_line cs x \<Longrightarrow> 0 \<le> x \<and> x \<le> 999" for x
    using code3_range by (auto simp: status_line_def)
  have u: "uint (of_int x :: ulong) = x" if "0 \<le> x \<and> x \<le> 999" for x
    using that by (simp add: uint_word_of_int)
  then have inj: "(of_int x :: ulong) = of_int y \<Longrightarrow> x = y" if "0 \<le> x \<and> x \<le> 999" "0 \<le> y \<and> y \<le> 999" for x y
    using that by metis
  show ?thesis
  proof
    assume "\<exists>q s'. scan ngx_sl_step p cs s = Stopped NGX_OK q s' \<and> st_code s' = of_int st \<and> 0 \<le> st \<and> st \<le> 999"
    with sl_scan_sim [OF rel, where p = p and cs = cs] obtain x where x: "sl_run sw_start 0 0 cs = (0, x)" "(of_int x :: ulong) = of_int st" "0 \<le> st \<and> st \<le> 999"
      by (auto simp: parse_codes)
    then show "status_line cs st" using range inj by (auto simp: status_line_run)
  next
    assume "status_line cs st"
    with sl_scan_sim [OF rel, where p = p and cs = cs] range [of st] show
      "\<exists>q s'. scan ngx_sl_step p cs s = Stopped NGX_OK q s' \<and> st_code s' = of_int st \<and> 0 \<le> st \<and> st \<le> 999"
      by (auto simp: status_line_run [symmetric] split: scanned.splits)
  qed
qed

end
