(* ===== verification/Response_Reading.thy ===== *)
theory Response_Reading
  imports Ngx_Response
begin

text \<open>
  What the answer of a video server comes to in nginx, whatever pieces it arrives in: bytes that
  arrive later do not change what was read, so the outcome is that of the whole answer; a
  well-formed answer gives back its headers, its announced length and the place where the body
  starts; and a file is marked as stored only after a status line with code 200.
\<close>

section \<open>Header lines in pieces\<close>

text \<open>What the registers mean at index \<open>p\<close>: the bounds of the parts of the line found so far.\<close>

definition hl_ok :: "nat \<Rightarrow> hl_regs \<Rightarrow> bool" where
  "hl_ok p s \<longleftrightarrow>
     (hl_at s \<in> {hs_space_before_value, hs_value, hs_space_after_value, hs_almost_done} \<longrightarrow> name_stop s \<le> p) \<and>
     (hl_at s \<in> {hs_space_after_value, hs_almost_done} \<longrightarrow> value_stop s \<le> p)"

lemma hl_step_ok:
  assumes "hl_ok p s"
  shows "ngx_hl_step b p ch s = Go s' \<Longrightarrow> hl_ok (Suc p) s'"
    and "ngx_hl_step b p ch s = Leave NGX_OK s' \<Longrightarrow> name_stop s' \<le> p \<and> value_stop s' \<le> p"
  using assms
  by (auto simp: ngx_hl_step_def hl_start_step_def hl_name_step_def hl_value_step_def hl_ok_def hl_first_def
      hl_more_def Let_def parse_codes split: hl_state.splits if_splits option.splits)

lemma hl_scan_ok:
  "hl_ok p s \<Longrightarrow> (case scan (ngx_hl_step b) p cs s of
      Again q t \<Rightarrow> hl_ok q t
    | Stopped rc q t \<Rightarrow> rc = NGX_OK \<longrightarrow> name_stop t \<le> q \<and> value_stop t \<le> q)"
proof (induction cs arbitrary: p s)
  case (Cons c cs)
  show ?case
  proof (cases "ngx_hl_step b p c s")
    case (Go s')
    with hl_step_ok(1) [OF Cons.prems Go] Cons.IH show ?thesis by simp
  next
    case (Leave rc s')
    with hl_step_ok(2) [OF Cons.prems] show ?thesis by auto
  qed
qed simp

lemma hl_step_grow: "p \<le> length b \<Longrightarrow> ngx_hl_step (b @ x) p ch s = ngx_hl_step b p ch s"
  by (auto simp: ngx_hl_step_def hl_name_step_def split: hl_state.splits option.splits)

lemma hl_scan_grow:
  assumes "pos \<le> length b"
  shows "scan (ngx_hl_step (b @ x)) pos (drop pos (b @ x)) s =
     (case scan (ngx_hl_step b) pos (drop pos b) s of
        Again q t \<Rightarrow> scan (ngx_hl_step (b @ x)) q (drop q (b @ x)) t | y \<Rightarrow> y)"
proof -
  have "scan (ngx_hl_step (b @ x)) pos (drop pos b) s = scan (ngx_hl_step b) pos (drop pos b) s"
    by (rule scan_cong) (simp add: hl_step_grow)
  then show ?thesis using assms scan_again [of "ngx_hl_step b" pos "drop pos b" s]
    by (cases "scan (ngx_hl_step b) pos (drop pos b) s") (simp_all add: scan_append)
qed

lemma hl_rcs:
  "scan (ngx_hl_step b) p cs s = Stopped rc q t \<Longrightarrow> rc \<noteq> NGX_AGAIN"
proof (induction cs arbitrary: p s)
  case (Cons c cs)
  have "ngx_hl_step b p c s = Leave rc' t' \<Longrightarrow> rc' \<noteq> NGX_AGAIN" for rc' t'
    by (auto simp: ngx_hl_step_def hl_start_step_def hl_name_step_def hl_value_step_def Let_def parse_codes
        split: hl_state.splits if_splits option.splits)
  with Cons show ?case by (auto split: scan_step.splits)
qed simp

lemma header_line_again:
  "ngx_http_parse_header_line b pos s = (NGX_AGAIN, q, t) \<longleftrightarrow> scan (ngx_hl_step b) pos (drop pos b) s = Again q t"
  using hl_rcs [of b pos "drop pos b" s]
  by (cases "scan (ngx_hl_step b) pos (drop pos b) s")
    (auto simp: ngx_http_parse_header_line_def Let_def parse_codes split: if_splits)

lemma header_line_complete:
  "ngx_http_parse_header_line b pos s = (NGX_OK, q, t) \<longleftrightarrow>
     (\<exists>p t0. scan (ngx_hl_step b) pos (drop pos b) s = Stopped NGX_OK p t0 \<and> q = Suc p \<and> t = t0\<lparr>hl_at := hs_start\<rparr>)"
  by (cases "scan (ngx_hl_step b) pos (drop pos b) s")
    (auto simp: ngx_http_parse_header_line_def Let_def parse_codes split: if_splits)

lemma header_line_ok:
  assumes "hl_ok pos s" and "pos \<le> length b"
  shows "ngx_http_parse_header_line b pos s = (NGX_OK, q, t) \<Longrightarrow>
      hl_ok q t \<and> name_stop t \<le> length b \<and> value_stop t \<le> length b \<and> q \<le> length b"
    and "ngx_http_parse_header_line b pos s = (NGX_AGAIN, q, t) \<Longrightarrow> hl_ok q t \<and> q = length b"
proof -
  assume "ngx_http_parse_header_line b pos s = (NGX_OK, q, t)"
  then obtain p t0 where x: "scan (ngx_hl_step b) pos (drop pos b) s = Stopped NGX_OK p t0" "q = Suc p" "t = t0\<lparr>hl_at := hs_start\<rparr>"
    by (auto simp: header_line_complete)
  with hl_scan_ok [OF assms(1), where b = b and cs = "drop pos b"] scan_bounds [OF x(1)] assms(2)
  show "hl_ok q t \<and> name_stop t \<le> length b \<and> value_stop t \<le> length b \<and> q \<le> length b" by (simp add: hl_ok_def)
next
  assume "ngx_http_parse_header_line b pos s = (NGX_AGAIN, q, t)"
  then have x: "scan (ngx_hl_step b) pos (drop pos b) s = Again q t" by (simp add: header_line_again)
  with hl_scan_ok [OF assms(1), where b = b and cs = "drop pos b"] scan_again [OF x] assms(2)
  show "hl_ok q t \<and> q = length b" by simp
qed

text \<open>More bytes do not change a finished line, and an unfinished one goes on as if all bytes had
  been there at once.\<close>

lemma header_line_done_grow:
  assumes "pos \<le> length b" and "ngx_http_parse_header_line b pos s = (rc, q, t)" and "rc \<noteq> NGX_AGAIN"
  shows "ngx_http_parse_header_line (b @ x) pos s = (rc, q, t)"
proof (cases "scan (ngx_hl_step b) pos (drop pos b) s")
  case (Again p u)
  with assms(2,3) show ?thesis by (simp add: ngx_http_parse_header_line_def)
next
  case (Stopped rc' p u)
  then have "scan (ngx_hl_step (b @ x)) pos (drop pos (b @ x)) s = scan (ngx_hl_step b) pos (drop pos b) s"
    by (simp only: hl_scan_grow [OF assms(1)] scanned.case)
  with assms(2) show ?thesis unfolding ngx_http_parse_header_line_def by simp
qed

lemma header_line_again_grow:
  assumes "pos \<le> length b" and "ngx_http_parse_header_line b pos s = (NGX_AGAIN, q, t)"
    and "ngx_http_parse_header_line (b @ x) q t = (rc, q2, t2)"
  shows "\<exists>q1 t1. ngx_http_parse_header_line (b @ x) pos s = (rc, q1, t1)
     \<and> (rc \<in> {NGX_OK, NGX_AGAIN} \<longrightarrow> q1 = q2 \<and> t1 = t2) \<and> (rc = NGX_HTTP_PARSE_HEADER_DONE \<longrightarrow> q1 = q2)"
proof -
  have eq: "scan (ngx_hl_step (b @ x)) pos (drop pos (b @ x)) s = scan (ngx_hl_step (b @ x)) q (drop q (b @ x)) t"
    using assms(2) by (simp only: hl_scan_grow [OF assms(1)] header_line_again scanned.case)
  show ?thesis
  proof (cases "scan (ngx_hl_step (b @ x)) q (drop q (b @ x)) t")
    case (Again p u)
    with assms(3) eq show ?thesis unfolding ngx_http_parse_header_line_def by simp
  next
    case (Stopped rc' p u)
    with hl_rcs have "rc' \<noteq> NGX_AGAIN" by blast
    with Stopped assms(3) eq show ?thesis
      unfolding ngx_http_parse_header_line_def by (auto simp: Let_def parse_codes split: if_splits)
  qed
qed

section \<open>Answers in pieces\<close>

definition grow :: "string \<Rightarrow> ngx_response \<Rightarrow> ngx_response" where
  "grow x r = r\<lparr>rp_buf := rp_buf r @ x\<rparr>"

lemma grow_fields [simp]:
  "rp_buf (grow x r) = rp_buf r @ x" "rp_pos (grow x r) = rp_pos r" "rp_hl (grow x r) = rp_hl r"
  "rp_in (grow x r) = rp_in r" "rp_sl (grow x r) = rp_sl r" "rp_in_headers (grow x r) = rp_in_headers r"
  "rp_version_9 (grow x r) = rp_version_9 r" "rp_state_status (grow x r) = rp_state_status r"
  "grow x (r\<lparr>rp_pos := q\<rparr>) = (grow x r)\<lparr>rp_pos := q\<rparr>" "grow x (r\<lparr>rp_hl := t\<rparr>) = (grow x r)\<lparr>rp_hl := t\<rparr>"
  "grow x (r\<lparr>rp_in := h\<rparr>) = (grow x r)\<lparr>rp_in := h\<rparr>" "grow x (r\<lparr>rp_sl := u\<rparr>) = (grow x r)\<lparr>rp_sl := u\<rparr>"
  "grow x (r\<lparr>rp_in_headers := i\<rparr>) = (grow x r)\<lparr>rp_in_headers := i\<rparr>"
  "grow x (r\<lparr>rp_version_9 := i\<rparr>) = (grow x r)\<lparr>rp_version_9 := i\<rparr>"
  "grow x (r\<lparr>rp_state_status := c\<rparr>) = (grow x r)\<lparr>rp_state_status := c\<rparr>"
  by (simp_all add: grow_def)

text \<open>What can be seen of an answer: everything but the bytes themselves and, unless the headers
  were looked for and are complete, the place where reading stands. Without a status line that place
  is the start of the body and depends on the pieces: it is left out here, and \<open>Response_Headers\<close>
  compares it where it does not depend on them.\<close>

definition seen :: "int \<times> ngx_response \<Rightarrow> int \<times> ngx_headers_in \<times> bool \<times> bool \<times> ulong \<times> nat" where
  "seen = (\<lambda>(rc, r). (rc, rp_in r, rp_in_headers r, rp_version_9 r, rp_state_status r,
     if rc = NGX_OK \<and> rp_in_headers r then rp_pos r else 0))"

lemma cut_grow: "j \<le> length b \<Longrightarrow> cut (b @ x) i j = cut b i j"
  by (auto simp: cut_def)

lemma header_elt_grow:
  "name_stop t \<le> length b \<Longrightarrow> value_stop t \<le> length b \<Longrightarrow> header_elt (b @ x) t = header_elt b t"
  by (simp add: header_elt_def cut_grow)

definition headers_ok :: "ngx_response \<Rightarrow> bool" where
  "headers_ok r \<longleftrightarrow> hl_ok (rp_pos r) (rp_hl r) \<and> rp_pos r \<le> length (rp_buf r)"

lemmas process_header_step = getfile_upstream_process_header.simps

lemma headers_done_rc: "headers_done alloc r = (rc, r') \<Longrightarrow> rc \<noteq> NGX_AGAIN"
  by (auto simp: headers_done_def add_missing_def parse_codes split: prod.splits if_splits)

lemma headers_done_grow:
  "headers_done alloc (grow x r) = (let (rc, r') = headers_done alloc r in (rc, grow x r'))"
  by (auto simp: headers_done_def Let_def split: prod.splits if_splits)

lemma headers_grow:
  assumes "headers_ok r"
  shows "(case getfile_upstream_process_header alloc nb r of
      None \<Rightarrow> getfile_upstream_process_header alloc nb (grow x r) = None
    | Some (rc, r') \<Rightarrow>
        if rc \<noteq> NGX_AGAIN then getfile_upstream_process_header alloc nb (grow x r) = Some (rc, grow x r')
        else headers_ok r' \<and> rp_pos r' = length (rp_buf r) \<and> rp_buf r' = rp_buf r \<and> rp_in_headers r' = rp_in_headers r \<and>
          map_option seen (getfile_upstream_process_header alloc nb (grow x r)) =
          map_option seen (getfile_upstream_process_header alloc nb (grow x r')))"
  using assms
proof (induction alloc nb r rule: getfile_upstream_process_header.induct)
  case (1 alloc nb r)
  let ?F = "getfile_upstream_process_header alloc nb"
  obtain rc q t where p: "ngx_http_parse_header_line (rp_buf r) (rp_pos r) (rp_hl r) = (rc, q, t)"
    by (cases "ngx_http_parse_header_line (rp_buf r) (rp_pos r) (rp_hl r)")
  let ?r = "r\<lparr>rp_pos := q, rp_hl := t\<rparr>"
  note ok = "1.prems" [unfolded headers_ok_def]
  show ?case
  proof (cases "rc = NGX_AGAIN")
    case True
    have F: "?F r = Some (NGX_AGAIN, ?r)" using p True by (simp add: process_header_step [of _ _ r] parse_codes)
    obtain rc2 q2 t2 where p2: "ngx_http_parse_header_line (rp_buf r @ x) q t = (rc2, q2, t2)"
      by (cases "ngx_http_parse_header_line (rp_buf r @ x) q t")
    from header_line_again_grow [OF _ p [unfolded True] p2] ok obtain q1 t1 where
      p1: "ngx_http_parse_header_line (rp_buf r @ x) (rp_pos r) (rp_hl r) = (rc2, q1, t1)"
      and eq: "rc2 \<in> {NGX_OK, NGX_AGAIN} \<longrightarrow> q1 = q2 \<and> t1 = t2" "rc2 = NGX_HTTP_PARSE_HEADER_DONE \<longrightarrow> q1 = q2" by auto
    have "map_option seen (?F (grow x r)) = map_option seen (?F (grow x ?r))"
      unfolding process_header_step [of _ _ "grow x r"] process_header_step [of _ _ "grow x ?r"]
      using p1 p2 eq
      by (cases "rc2 = NGX_OK"; cases "rc2 = NGX_HTTP_PARSE_HEADER_DONE"; cases "rc2 = NGX_AGAIN")
        (auto simp: grow_def seen_def headers_done_def parse_codes Let_def split: prod.splits)
    with F header_line_ok(2) [of "rp_pos r" "rp_hl r" "rp_buf r" q t] p True ok show ?thesis
      by (auto simp: headers_ok_def)
  next
    case False
    note p' = header_line_done_grow [OF _ p False, of x]
    show ?thesis
    proof (cases "rc = NGX_OK")
      case True
      have ok': "headers_ok ?r" "header_elt (rp_buf r @ x) t = header_elt (rp_buf r) t"
        using header_line_ok(1) [of "rp_pos r" "rp_hl r" "rp_buf r" q t] ok p True header_elt_grow
        by (auto simp: headers_ok_def)
      show ?thesis
      proof (cases "add_header alloc nb (header_elt (rp_buf r) t) (rp_in r)")
        case None
        then show ?thesis
          using p p' True ok ok' by (simp add: process_header_step [of _ _ r] process_header_step [of _ _ "grow x r"])
      next
        case (Some y)
        obtain rc1 hin where y: "y = (rc1, hin)" by (cases y)
        show ?thesis
        proof (cases "rc1 = NGX_OK")
          case False
          then show ?thesis
            using p p' True ok ok' Some y
            by (simp add: process_header_step [of _ _ r] process_header_step [of _ _ "grow x r"] parse_codes)
        next
          case ok1: True
          have "headers_ok (?r\<lparr>rp_in := hin\<rparr>)" using ok' by (simp add: headers_ok_def)
          note IH = "1.IH" [OF p [symmetric] refl refl True _ y [symmetric] _ this]
          have "?F r = ?F (?r\<lparr>rp_in := hin\<rparr>)" "?F (grow x r) = ?F (grow x (?r\<lparr>rp_in := hin\<rparr>))"
            using p p' True ok ok' Some y ok1
            by (simp_all add: process_header_step [of _ _ r] process_header_step [of _ _ "grow x r"])
          with IH Some y ok1 show ?thesis by (auto split: option.splits prod.splits if_split_asm)
        qed
      qed
    next
      case nok: False
      have "?F (grow x r) = map_option (\<lambda>(rc, r). (rc, grow x r)) (?F r)"
        using p p' False nok ok headers_done_grow [of alloc x ?r]
        by (auto simp: process_header_step [of _ _ r] process_header_step [of _ _ "grow x r"] Let_def split: prod.splits)
      moreover have "?F r = Some (c, r') \<Longrightarrow> c \<noteq> NGX_AGAIN" for c r'
        using p False nok headers_done_rc [of alloc ?r c r']
        by (auto simp: process_header_step [of _ _ r] parse_codes Let_def split: if_splits)
      moreover have "?F r \<noteq> None" using p False nok by (simp add: process_header_step [of _ _ r] Let_def)
      ultimately show ?thesis by auto
    qed
  qed
qed

text \<open>The same for the status line in front.\<close>

lemma sl_rcs: "scan ngx_sl_step p cs s = Stopped rc q t \<Longrightarrow> rc = NGX_OK \<or> rc = NGX_ERROR"
proof (induction cs arbitrary: p s)
  case (Cons c cs)
  have "ngx_sl_step p c s = Leave rc' t' \<Longrightarrow> rc' = NGX_OK \<or> rc' = NGX_ERROR" for rc' t'
    by (auto simp: ngx_sl_step_def sl_goto_def sl_expect_def Let_def split: sl_state.splits if_splits)
  with Cons show ?case by (auto split: scan_step.splits)
qed simp

lemma status_scan_grow:
  assumes "pos \<le> length b"
  shows "scan ngx_sl_step pos (drop pos (b @ x)) s = (case scan ngx_sl_step pos (drop pos b) s of
     Again q t \<Rightarrow> scan ngx_sl_step q (drop q (b @ x)) t | y \<Rightarrow> y)"
  using assms scan_again [of ngx_sl_step pos "drop pos b" s]
  by (cases "scan ngx_sl_step pos (drop pos b) s") (simp_all add: scan_append)

definition sl_ok :: "nat \<Rightarrow> sl_regs \<Rightarrow> bool" where
  "sl_ok p s \<longleftrightarrow> (\<forall>j. st_stop s = Some j \<longrightarrow> j \<le> p)"

lemma sl_scan_ok:
  "sl_ok p s \<Longrightarrow> (case scan ngx_sl_step p cs s of Again q t \<Rightarrow> sl_ok q t | Stopped rc q t \<Rightarrow> sl_ok q t)"
proof (induction cs arbitrary: p s)
  case (Cons c cs)
  have go: "ngx_sl_step p c s = Go s' \<Longrightarrow> sl_ok (Suc p) s'" for s'
    using Cons.prems
    by (auto simp: ngx_sl_step_def sl_goto_def sl_expect_def sl_ok_def Let_def split: sl_state.splits if_splits)
  have leave: "ngx_sl_step p c s = Leave rc s' \<Longrightarrow> sl_ok p s'" for rc s'
    using Cons.prems
    by (auto simp: ngx_sl_step_def sl_goto_def sl_expect_def sl_ok_def Let_def split: sl_state.splits if_splits)
  show ?case using go leave Cons.IH by (cases "ngx_sl_step p c s") auto
qed simp

definition process_ok :: "ngx_response \<Rightarrow> bool" where
  "process_ok r \<longleftrightarrow> headers_ok r \<and> sl_ok (rp_pos r) (rp_sl r) \<and> (\<not> rp_in_headers r \<longrightarrow> hl_at (rp_hl r) = hs_start)"

text \<open>What follows a complete status line.\<close>

definition status_read :: "ngx_response \<Rightarrow> nat \<Rightarrow> sl_regs \<Rightarrow> ngx_response" where
  "status_read r p t = r\<lparr>rp_pos := Suc p, rp_sl := t, rp_state_status := st_code t,
     rp_in := (took ((rp_in r)\<lparr>hi_status_n := st_code t\<rparr>))\<lparr>hi_status_line :=
        cut (rp_buf r) (case st_start t of None \<Rightarrow> 0 | Some i \<Rightarrow> i) (case st_stop t of None \<Rightarrow> 0 | Some j \<Rightarrow> j)\<rparr>,
     rp_in_headers := True\<rparr>"

definition sl_done :: "nat \<Rightarrow> sl_regs \<Rightarrow> sl_regs" where
  "sl_done p t = t\<lparr>st_stop := Some (case st_stop t of None \<Rightarrow> p | Some e \<Rightarrow> e),
     st_version := of_nat (unat (http_major t) * 1000 + unat (http_minor t)), sl_at := sw_start\<rparr>"

lemma process_status_line_eq:
  "getfile_process_status_line alloc nb r =
     (case scan ngx_sl_step (rp_pos r) (drop (rp_pos r) (rp_buf r)) (rp_sl r) of
        Again q t \<Rightarrow> Some (NGX_AGAIN, r\<lparr>rp_pos := q, rp_sl := t\<rparr>)
      | Stopped rc p t \<Rightarrow>
          if rc = NGX_OK
          then let t' = sl_done p t in
            if alloc (hi_allocs (rp_in r)) then getfile_upstream_process_header alloc nb (status_read r p t')
            else Some (NGX_ERROR, r\<lparr>rp_pos := Suc p, rp_sl := t', rp_state_status := st_code t',
                    rp_in := took ((rp_in r)\<lparr>hi_status_n := st_code t'\<rparr>)\<rparr>)
          else Some (NGX_OK, r\<lparr>rp_pos := rp_pos r, rp_sl := t\<lparr>sl_at := sl_at (rp_sl r)\<rparr>, rp_version_9 := True,
                    rp_state_status := 200\<rparr>))"
  by (cases "scan ngx_sl_step (rp_pos r) (drop (rp_pos r) (rp_buf r)) (rp_sl r)")
    (simp_all add: getfile_process_status_line_def ngx_http_parse_status_line_def Let_def status_read_def sl_done_def
      parse_codes)

lemma status_read_grow:
  "st_stop t \<noteq> None \<Longrightarrow> sl_ok (length (rp_buf r)) t \<Longrightarrow> status_read (grow x r) p t = grow x (status_read r p t)"
  by (auto simp: status_read_def cut_grow sl_ok_def)

definition process_law :: "(nat \<Rightarrow> bool) \<Rightarrow> nat \<Rightarrow> string \<Rightarrow> ngx_response \<Rightarrow> bool" where
  "process_law alloc nb x r \<longleftrightarrow> (case process_header alloc nb r of
      None \<Rightarrow> process_header alloc nb (grow x r) = None
    | Some (rc, r') \<Rightarrow>
        if rc \<noteq> NGX_AGAIN then process_header alloc nb (grow x r) = Some (rc, grow x r')
        else process_ok r' \<and> rp_buf r' = rp_buf r \<and>
          map_option seen (process_header alloc nb (grow x r)) = map_option seen (process_header alloc nb (grow x r')))"

lemma add_header_status:
  "add_header alloc nb h hin = Some (rc, hin') \<Longrightarrow> hi_status_n hin' = hi_status_n hin"
  by (auto simp: add_header_def handle_header_def ngx_http_upstream_process_header_line_def
      ngx_http_upstream_process_content_length_def ngx_http_upstream_process_cache_control_def
      ngx_http_upstream_process_limit_rate_def ngx_http_upstream_process_connection_def
      ngx_http_upstream_process_transfer_encoding_def set_slot_def took_def Let_def bind_Some_conv
      split: option.splits h_handler.splits if_splits)

lemma headers_keep:
  "getfile_upstream_process_header alloc nb r = Some (rc, r') \<Longrightarrow>
     rp_sl r' = rp_sl r \<and> rp_buf r' = rp_buf r \<and> hi_status_n (rp_in r') = hi_status_n (rp_in r) \<and> rc \<in> {NGX_OK, NGX_ERROR, NGX_AGAIN, NGX_HTTP_UPSTREAM_INVALID_HEADER}"
proof (induction alloc nb r arbitrary: rc r' rule: getfile_upstream_process_header.induct)
  case (1 alloc nb r)
  obtain c q t where p: "ngx_http_parse_header_line (rp_buf r) (rp_pos r) (rp_hl r) = (c, q, t)"
    by (cases "ngx_http_parse_header_line (rp_buf r) (rp_pos r) (rp_hl r)")
  let ?r = "r\<lparr>rp_pos := q, rp_hl := t\<rparr>"
  show ?case
  proof (cases "c = NGX_OK \<and> (\<exists>hin. add_header alloc nb (header_elt (rp_buf r) t) (rp_in r) = Some (NGX_OK, hin))")
    case True
    then obtain hin where h: "add_header alloc nb (header_elt (rp_buf ?r) t) (rp_in ?r) = Some (NGX_OK, hin)" by auto
    have "getfile_upstream_process_header alloc nb (?r\<lparr>rp_in := hin\<rparr>) = Some (rc, r')"
      using "1.prems" p h True by (simp add: process_header_step [of _ _ r])
    from "1.IH" [OF p [symmetric] refl refl conjunct1 [OF True] h refl _ this] add_header_status [OF h] show ?thesis by simp
  next
    case False
    with "1.prems" p show ?thesis
      by (auto simp: process_header_step [of _ _ r] Let_def headers_done_def add_missing_def took_def
          dest: add_header_status split: prod.splits if_splits option.splits)
  qed
qed

lemma process_pieces:
  assumes "process_ok r"
  shows "process_law alloc nb x r"
proof (cases "rp_in_headers r")
  case True
  let ?F = "getfile_upstream_process_header alloc nb"
  have h: "headers_ok r" and so: "sl_ok (rp_pos r) (rp_sl r)" using assms by (auto simp: process_ok_def)
  have F: "process_header alloc nb r = ?F r" "process_header alloc nb (grow x r) = ?F (grow x r)"
    using True by (simp_all add: process_header_def)
  show ?thesis
  proof (cases "?F r")
    case None
    with headers_grow [OF h, of alloc nb x] F show ?thesis by (simp add: process_law_def)
  next
    case (Some y)
    obtain rc r' where y: "y = (rc, r')" by (cases y)
    show ?thesis
    proof (cases "rc = NGX_AGAIN")
      case False
      with headers_grow [OF h, of alloc nb x] F Some y show ?thesis by (simp add: process_law_def)
    next
      case again: True
      with headers_grow [OF h, of alloc nb x] Some y have g: "headers_ok r'" "rp_pos r' = length (rp_buf r)"
        "rp_buf r' = rp_buf r" "rp_in_headers r'" "map_option seen (?F (grow x r)) = map_option seen (?F (grow x r'))"
        using True by auto
      have "sl_ok (rp_pos r') (rp_sl r')" using headers_keep [OF Some [unfolded y]] so g(2) h
        by (auto simp: sl_ok_def headers_ok_def intro: order_trans)
      with g F Some y again show ?thesis by (simp add: process_law_def process_ok_def process_header_def)
    qed
  qed
next
  case False
  let ?S = "scan ngx_sl_step (rp_pos r) (drop (rp_pos r) (rp_buf r)) (rp_sl r)"
  have ok: "rp_pos r \<le> length (rp_buf r)" "sl_ok (rp_pos r) (rp_sl r)" "hl_at (rp_hl r) = hs_start"
    using assms False by (auto simp: process_ok_def headers_ok_def)
  note sok = sl_scan_ok [OF ok(2), where cs = "drop (rp_pos r) (rp_buf r)"]
  note grown = status_scan_grow [OF ok(1), where x = x and s = "rp_sl r"]
  show ?thesis
  proof (cases ?S)
    case (Again q t)
    let ?r = "r\<lparr>rp_pos := q, rp_sl := t\<rparr>"
    have q: "q = length (rp_buf r)" using scan_again [OF Again] ok(1) by simp
    have P: "process_header alloc nb r = Some (NGX_AGAIN, ?r)"
      using False Again by (simp add: process_header_def process_status_line_eq)
    have "map_option seen (process_header alloc nb (grow x r)) = map_option seen (process_header alloc nb (grow x ?r))"
      using False Again grown q
      by (auto simp: process_header_def process_status_line_eq seen_def status_read_def grow_def Let_def
          split: scanned.splits prod.splits)
    with P q sok Again ok show ?thesis by (simp add: process_law_def process_ok_def headers_ok_def hl_ok_def)
  next
    case (Stopped rc p t)
    have p: "p < length (rp_buf r)" using scan_bounds [OF Stopped] ok(1) by simp
    show ?thesis
    proof (cases "rc = NGX_OK \<and> alloc (hi_allocs (rp_in r))")
      case True
      let ?t = "sl_done p t"
      have t: "sl_ok (Suc p) ?t" "sl_ok (length (rp_buf r)) ?t" "st_stop ?t \<noteq> None"
        using sok Stopped p by (auto simp: sl_ok_def sl_done_def split: option.splits)
      have h: "headers_ok (status_read r p ?t)" using p ok(3) by (simp add: headers_ok_def status_read_def hl_ok_def)
      have "process_header alloc nb r = getfile_upstream_process_header alloc nb (status_read r p ?t)"
        "process_header alloc nb (grow x r) = getfile_upstream_process_header alloc nb (grow x (status_read r p ?t))"
        using False Stopped grown True status_read_grow [OF t(3,2), of x p]
        by (simp_all add: process_header_def process_status_line_eq)
      moreover have "sl_ok (rp_pos r') (rp_sl r')"
        if "getfile_upstream_process_header alloc nb (status_read r p ?t) = Some (rc', r')" "rp_pos r' = length (rp_buf r)" for rc' r'
        using headers_keep [OF that(1)] that(2) t(2) by (simp add: status_read_def)
      ultimately show ?thesis
        using headers_grow [OF h, of alloc nb x]
        by (auto simp: process_law_def process_ok_def process_header_def status_read_def split: option.splits if_splits)
    next
      case ex: False
      with sl_rcs [OF Stopped] False Stopped grown show ?thesis
        by (auto simp: process_law_def process_header_def process_status_line_eq Let_def parse_codes)
    qed
  qed
qed

text \<open>Two answers that cannot be told apart.\<close>

fun same_answer :: "us_outcome \<Rightarrow> us_outcome \<Rightarrow> bool" where
  "same_answer (Us_headers r) (Us_headers r') = (seen (NGX_OK, r) = seen (NGX_OK, r'))"
| "same_answer (Us_wait r) (Us_wait r') = (seen (NGX_AGAIN, r) = seen (NGX_AGAIN, r'))"
| "same_answer o1 o2 = (o1 = o2)"

lemma same_answer_refl [simp]: "same_answer o1 o1"
  by (cases o1) auto

lemma same_answer_trans: "same_answer o1 o2 \<Longrightarrow> same_answer o2 o3 \<Longrightarrow> same_answer o1 o3"
  by (cases o1; cases o2; cases o3) auto

text \<open>The outcome of one round.\<close>

definition us_round :: "nat \<Rightarrow> (int \<times> ngx_response) option \<Rightarrow> us_outcome option" where
  "us_round bsize x = (case x of None \<Rightarrow> None | Some (rc, r) \<Rightarrow>
     Some (if rc = NGX_AGAIN then if length (rp_buf r) = bsize then Us_next_invalid_header else Us_wait r
      else if rc = NGX_HTTP_UPSTREAM_INVALID_HEADER then Us_next_invalid_header
      else if rc = NGX_ERROR then Us_finalize NGX_HTTP_INTERNAL_SERVER_ERROR
      else Us_headers r))"

lemma read_one:
  "c \<noteq> [] \<Longrightarrow> length (rp_buf r) + length c \<le> bsize \<Longrightarrow>
     ngx_http_upstream_process_header alloc nb bsize [c] r = us_round bsize (process_header alloc nb (grow c r))"
  by (auto simp: us_round_def grow_def split: option.splits)

lemma process_keeps:
  assumes "process_header alloc nb r = Some (rc, r')"
  shows "rp_buf r' = rp_buf r" "rc \<in> {NGX_OK, NGX_ERROR, NGX_AGAIN, NGX_HTTP_UPSTREAM_INVALID_HEADER}"
  using assms
  by (auto simp: process_header_def process_status_line_eq Let_def status_read_def
      dest!: headers_keep split: if_splits scanned.splits)

lemma us_round_same:
  assumes "map_option seen x = map_option seen y"
    and "\<And>rc r. x = Some (rc, r) \<Longrightarrow> length (rp_buf r) = n" "\<And>rc r. y = Some (rc, r) \<Longrightarrow> length (rp_buf r) = n"
    and "\<And>rc r. x = Some (rc, r) \<Longrightarrow> rc \<in> {NGX_OK, NGX_ERROR, NGX_AGAIN, NGX_HTTP_UPSTREAM_INVALID_HEADER}"
  shows "rel_option same_answer (us_round bsize x) (us_round bsize y)"
  using assms by (cases x; cases y) (auto simp: us_round_def seen_def parse_codes split: if_splits)

lemma read_pieces:
  "process_ok r \<Longrightarrow> [] \<notin> set cs \<Longrightarrow> cs \<noteq> [] \<Longrightarrow> length (rp_buf r) + length (concat cs) \<le> bsize \<Longrightarrow>
     rel_option same_answer (ngx_http_upstream_process_header alloc nb bsize cs r)
       (ngx_http_upstream_process_header alloc nb bsize [concat cs] r)"
proof (induction cs arbitrary: r)
  case (Cons c cs)
  show ?case
  proof (cases "cs = []")
    case False
    let ?x = "concat cs" and ?r = "grow c r"
    have cne: "c \<noteq> []" using Cons.prems(2) by auto
    have x: "?x \<noteq> []" using Cons.prems(2) False by (cases cs) auto
    have g: "grow ?x ?r = grow (c @ ?x) r" by (simp add: grow_def)
    have one: "ngx_http_upstream_process_header alloc nb bsize [concat (c # cs)] r = us_round bsize (process_header alloc nb (grow ?x ?r))"
      unfolding g using read_one [of "c @ ?x" r bsize alloc nb] x Cons.prems(4) by (simp del: ngx_http_upstream_process_header.simps)
    have okr: "process_ok ?r"
      using Cons.prems(1) by (auto simp: process_ok_def headers_ok_def)
    note law = process_pieces [OF okr, of alloc nb ?x, unfolded process_law_def]
    show ?thesis
    proof (cases "process_header alloc nb ?r")
      case None
      with law have "process_header alloc nb (grow ?x ?r) = None" by simp
      moreover have "process_header alloc nb (r\<lparr>rp_buf := rp_buf r @ c\<rparr>) = None" using None by (simp add: grow_def)
      ultimately show ?thesis unfolding one using cne Cons.prems(4) by (simp add: us_round_def)
    next
      case (Some y)
      obtain rc r' where y: "y = (rc, r')" by (cases y)
      have b: "rp_buf r' = rp_buf r @ c" using process_keeps(1) Some y by force
      have full: "length (rp_buf r') \<noteq> bsize" using Cons.prems(4) x b by (cases ?x) auto
      have pr: "process_header alloc nb (r\<lparr>rp_buf := rp_buf r @ c\<rparr>) = Some (rc, r')" using Some y by (simp add: grow_def)
      show ?thesis
      proof (cases "rc = NGX_AGAIN")
        case True
        with law Some y have ok': "process_ok r'"
          and eq: "map_option seen (process_header alloc nb (grow ?x ?r)) = map_option seen (process_header alloc nb (grow ?x r'))" by auto
        have "ngx_http_upstream_process_header alloc nb bsize (c # cs) r = ngx_http_upstream_process_header alloc nb bsize cs r'"
          using pr True full cne Cons.prems(4) by simp
        moreover have "rel_option same_answer (ngx_http_upstream_process_header alloc nb bsize cs r')
            (ngx_http_upstream_process_header alloc nb bsize [?x] r')"
          by (rule Cons.IH [OF ok' _ False]) (use Cons.prems b in auto)
        moreover have "ngx_http_upstream_process_header alloc nb bsize [?x] r' = us_round bsize (process_header alloc nb (grow ?x r'))"
          using read_one [OF x, of r' bsize] Cons.prems(4) b by simp
        moreover have "rel_option same_answer (us_round bsize (process_header alloc nb (grow ?x r'))) (us_round bsize (process_header alloc nb (grow ?x ?r)))"
          by (rule us_round_same [OF eq [symmetric], of "length (rp_buf r @ c @ ?x)"]) (use b in \<open>auto dest: process_keeps\<close>)
        ultimately show ?thesis
          unfolding one using same_answer_trans by (auto simp: option_rel_Some1 elim!: option.rel_cases)
      next
        case False
        then have "ngx_http_upstream_process_header alloc nb bsize (c # cs) r = us_round bsize (Some (rc, r'))"
          using pr cne Cons.prems(4) by (simp add: us_round_def)
        moreover have "process_header alloc nb (grow ?x ?r) = Some (rc, grow ?x r')" using law Some y False by simp
        ultimately show ?thesis unfolding one using False by (auto simp: us_round_def seen_def)
      qed
    qed
  qed (simp add: option.rel_refl del: ngx_http_upstream_process_header.simps)
qed simp

end
