(* ===== verification/Response_Headers.thy ===== *)
theory Response_Headers
  imports Response_Reading
begin

text \<open>
  A well-formed answer of a video server, written out, and what nginx makes of it: every header with
  its name, its value without the spaces around it and its lower-case name, the announced length,
  and the place where the body starts.
\<close>

section \<open>Written headers\<close>

definition name_ok :: "string \<Rightarrow> bool" where
  "name_ok n \<longleftrightarrow> n \<noteq> [] \<and> (\<forall>c \<in> set n. name_byte c \<noteq> None)"

definition value_ok :: "string \<Rightarrow> bool" where
  "value_ok v \<longleftrightarrow> (\<forall>c \<in> set v. c \<noteq> CR \<and> c \<noteq> LF \<and> c \<noteq> NUL) \<and> (v \<noteq> [] \<longrightarrow> hd v \<noteq> CHR '' '' \<and> last v \<noteq> CHR '' '')"

definition spaces :: "nat \<Rightarrow> string" where "spaces k = replicate k (CHR '' '')"

definition header_line :: "string \<times> nat \<times> string \<times> nat \<Rightarrow> string" where
  "header_line = (\<lambda>(n, i, v, j). n @ CHR '':'' # spaces i @ v @ spaces j @ [CR, LF])"

lemma name_byte_lower: "name_byte c \<noteq> None \<Longrightarrow> name_byte c = Some (ngx_tolower c)"
  by (auto simp: name_byte_def lowcase_def ngx_tolower_def char_class_defs split: option.splits if_splits)

lemma name_byte_not: "name_byte CR = None" "name_byte LF = None" "name_byte NUL = None" "name_byte (CHR '':'') = None"
  by (simp_all add: name_byte_def lowcase_def char_class_defs)

lemma scan_go: "f p c s = Go s' \<Longrightarrow> scan f p (c # cs) s = scan f (Suc p) cs s'"
  by simp

lemma scan_stop: "f p c s = Leave rc s' \<Longrightarrow> scan f p (c # cs) s = Stopped rc p s'"
  by simp

text \<open>The name.\<close>

lemma hl_more_frame [simp]:
  "hl_at (hl_more c s) = hl_at s" "name_start (hl_more c s) = name_start s"
  "length (lowcase_header (hl_more c s)) = length (lowcase_header s)"
  by (simp_all add: hl_more_def)

lemma fold_more_frame [simp]:
  "hl_at (fold hl_more cs s) = hl_at s" "name_start (fold hl_more cs s) = name_start s"
  "length (lowcase_header (fold hl_more cs s)) = length (lowcase_header s)"
  by (induction cs arbitrary: s) auto

lemma scan_name:
  "hl_at s = hs_name \<Longrightarrow> \<forall>c \<in> set n. name_byte c \<noteq> None \<Longrightarrow>
     scan (ngx_hl_step b) p (n @ cs) s = scan (ngx_hl_step b) (p + length n) cs (fold hl_more (map ngx_tolower n) s)"
proof (induction n arbitrary: p s)
  case (Cons c n)
  have "ngx_hl_step b p c s = Go (hl_more (ngx_tolower c) s)"
    using Cons.prems name_byte_lower [of c] by (simp add: ngx_hl_step_def hl_name_step_def)
  with Cons show ?case by (simp add: scan_go)
qed simp

definition named :: "nat \<Rightarrow> string \<Rightarrow> hl_regs \<Rightarrow> hl_regs" where
  "named p n s = fold hl_more (map ngx_tolower (tl n))
     (hl_first (ngx_tolower (hd n)) (s\<lparr>name_start := p, invalid_header := False, hl_at := hs_name\<rparr>))"

lemma scan_first:
  assumes "hl_at s = hs_start" and "name_ok n"
  shows "scan (ngx_hl_step b) p (n @ cs) s = scan (ngx_hl_step b) (p + length n) cs (named p n s)"
proof (cases n)
  case (Cons c m)
  have c: "name_byte c = Some (ngx_tolower c)" "c \<noteq> CR" "c \<noteq> LF"
    using assms(2) Cons name_byte_lower [of c] name_byte_not by (auto simp: name_ok_def)
  have "ngx_hl_step b p c s = Go (hl_first (ngx_tolower c) (s\<lparr>name_start := p, invalid_header := False, hl_at := hs_name\<rparr>))"
    using assms(1) c by (simp add: ngx_hl_step_def hl_start_step_def Let_def)
  then show ?thesis
    using scan_name [of "hl_first (ngx_tolower c) (s\<lparr>name_start := p, invalid_header := False, hl_at := hs_name\<rparr>)" m b "Suc p" cs]
      assms(2) Cons
    by (simp add: scan_go named_def name_ok_def hl_first_def)
qed (use assms(2) in \<open>simp add: name_ok_def\<close>)

lemma foldl_hash: "header_hash (fold hl_more cs s) = foldl ngx_hash (header_hash s) cs"
  by (induction cs arbitrary: s) (auto simp: hl_more_def)

lemma fold_more_index:
  "lowcase_index s < 32 \<Longrightarrow> lowcase_index (fold hl_more cs s) = (lowcase_index s + length cs) mod 32"
proof (induction cs arbitrary: s)
  case (Cons c cs)
  have "lowcase_index (hl_more c s) = (lowcase_index s + 1) mod 32"
    by (simp add: hl_more_def NGX_HTTP_LC_HEADER_LEN_def)
  with Cons.IH [of "hl_more c s"] show ?case by (simp add: mod_add_left_eq)
qed simp

lemma fold_more_bytes:
  "length (lowcase_header s) = 32 \<Longrightarrow> lowcase_index s + length cs < 32 \<Longrightarrow>
     take (lowcase_index s + length cs) (lowcase_header (fold hl_more cs s)) = take (lowcase_index s) (lowcase_header s) @ cs"
proof (induction cs arbitrary: s)
  case (Cons c cs)
  have i: "lowcase_index (hl_more c s) = lowcase_index s + 1"
    using Cons.prems by (simp add: hl_more_def NGX_HTTP_LC_HEADER_LEN_def)
  have "take (lowcase_index s + 1) (lowcase_header (hl_more c s)) = take (lowcase_index s) (lowcase_header s) @ [c]"
    using Cons.prems by (simp add: hl_more_def take_Suc_conv_app_nth)
  with Cons.IH [of "hl_more c s"] Cons.prems i show ?case by simp
qed simp

lemma named_regs:
  assumes n: "name_ok n" and l: "length (lowcase_header s) = 32"
  shows "header_hash (named p n s) = ngx_hash_key_lc n" "hl_at (named p n s) = hs_name" "name_start (named p n s) = p"
    "length (lowcase_header (named p n s)) = 32" "lowcase_index (named p n s) = length n mod 32"
    "length n < 32 \<Longrightarrow> take (length n) (lowcase_header (named p n s)) = map ngx_tolower n"
proof -
  obtain c m where cm: "n = c # m" using n by (cases n) (auto simp: name_ok_def)
  let ?s = "hl_first (ngx_tolower c) (s\<lparr>name_start := p, invalid_header := False, hl_at := hs_name\<rparr>)"
  have s: "lowcase_index ?s = 1" "header_hash ?s = ngx_hash 0 (ngx_tolower c)" "length (lowcase_header ?s) = 32"
    "take 1 (lowcase_header ?s) = [ngx_tolower c]"
    using l by (cases "lowcase_header s"; simp add: hl_first_def)+
  have "foldl ngx_hash k (map ngx_tolower xs) = foldl (\<lambda>k c. ngx_hash k (ngx_tolower c)) k xs" for k xs
    by (induction xs arbitrary: k) auto
  then show "header_hash (named p n s) = ngx_hash_key_lc n"
    using s by (simp add: named_def cm foldl_hash ngx_hash_key_lc_def)
  show "hl_at (named p n s) = hs_name" "name_start (named p n s) = p" "length (lowcase_header (named p n s)) = 32"
    using s by (simp_all add: named_def hl_first_def cm l)
  show "lowcase_index (named p n s) = length n mod 32"
    using fold_more_index [of ?s "map ngx_tolower m"] s by (simp add: named_def cm)
  show "take (length n) (lowcase_header (named p n s)) = map ngx_tolower n" if "length n < 32"
    using fold_more_bytes [of ?s "map ngx_tolower m"] s that by (simp add: named_def cm)
qed

text \<open>The spaces around the value, and the value.\<close>

lemma hl_spaces:
  "hl_at s \<in> {hs_space_before_value, hs_space_after_value} \<Longrightarrow>
     scan (ngx_hl_step b) p (spaces k @ cs) s = scan (ngx_hl_step b) (p + k) cs s"
proof (induction k arbitrary: p)
  case (Suc k)
  have "ngx_hl_step b p (CHR '' '') s = Go s" using Suc.prems by (auto simp: ngx_hl_step_def hl_value_step_def)
  with Suc show ?case by (simp add: spaces_def scan_go)
qed (simp add: spaces_def)

lemma scan_value:
  "hl_at s \<in> {hs_value, hs_space_after_value} \<Longrightarrow> \<forall>c \<in> set v. c \<noteq> CR \<and> c \<noteq> LF \<and> c \<noteq> NUL \<Longrightarrow>
     \<exists>e. scan (ngx_hl_step b) p (v @ cs) s = scan (ngx_hl_step b) (p + length v) cs
       (s\<lparr>value_stop := e, hl_at := if v = [] then hl_at s else if last v = CHR '' '' then hs_space_after_value else hs_value\<rparr>)"
proof (induction v arbitrary: p s)
  case Nil
  show ?case by (rule exI [of _ "value_stop s"]) simp
next
  case (Cons c v)
  let ?q = "if c = CHR '' '' then hs_space_after_value else hs_value"
  have "\<exists>e. ngx_hl_step b p c s = Go (s\<lparr>value_stop := e, hl_at := ?q\<rparr>)"
  proof (cases "hl_at s = hs_value \<and> c = CHR '' ''")
    case True
    then show ?thesis by (intro exI [of _ p]) (simp add: ngx_hl_step_def hl_value_step_def)
  next
    case False
    have c: "c \<noteq> CR" "c \<noteq> LF" "c \<noteq> NUL" using Cons.prems(2) by auto
    from Cons.prems(1) consider "hl_at s = hs_value" | "hl_at s = hs_space_after_value" by auto
    then show ?thesis
      by cases (rule exI [of _ "value_stop s"], use False c in \<open>simp add: ngx_hl_step_def hl_value_step_def\<close>)+
  qed
  then obtain e where e: "ngx_hl_step b p c s = Go (s\<lparr>value_stop := e, hl_at := ?q\<rparr>)" by blast
  let ?t = "s\<lparr>value_stop := e, hl_at := ?q\<rparr>"
  have t: "hl_at ?t \<in> {hs_value, hs_space_after_value}" by simp
  have v: "\<forall>c \<in> set v. c \<noteq> CR \<and> c \<noteq> LF \<and> c \<noteq> NUL" using Cons.prems(2) by simp
  from Cons.IH [OF t v, of "Suc p"] obtain e' where ih: "scan (ngx_hl_step b) (Suc p) (v @ cs) ?t =
      scan (ngx_hl_step b) (Suc p + length v) cs
       (?t\<lparr>value_stop := e', hl_at := if v = [] then hl_at ?t else if last v = CHR '' '' then hs_space_after_value else hs_value\<rparr>)"
    by blast
  have "scan (ngx_hl_step b) p ((c # v) @ cs) s = scan (ngx_hl_step b) (Suc p) (v @ cs) ?t" using e by (simp add: scan_go)
  with ih show ?case by (intro exI [of _ e']) (simp split: if_split_asm)
qed

lemma scan_tail:
  assumes "hl_at s = hs_value"
  shows "scan (ngx_hl_step b) p (spaces j @ CR # LF # cs) s =
     Stopped NGX_OK (Suc (p + j)) (s\<lparr>value_stop := p, hl_at := hs_almost_done\<rparr>)"
proof (cases j)
  case 0
  then show ?thesis using assms by (simp add: spaces_def ngx_hl_step_def hl_value_step_def)
next
  case (Suc k)
  let ?s = "s\<lparr>value_stop := p, hl_at := hs_space_after_value\<rparr>"
  have "scan (ngx_hl_step b) p (spaces j @ CR # LF # cs) s = scan (ngx_hl_step b) (Suc p) (spaces k @ CR # LF # cs) ?s"
    using assms by (simp add: Suc spaces_def ngx_hl_step_def hl_value_step_def)
  also have "\<dots> = scan (ngx_hl_step b) (Suc p + k) (CR # LF # cs) ?s" by (rule hl_spaces) simp
  finally show ?thesis by (simp add: Suc ngx_hl_step_def hl_value_step_def)
qed

lemma scan_value_line:
  assumes "hl_at s = hs_space_before_value" and v: "value_ok v"
  shows "\<exists>vs. scan (ngx_hl_step b) p (spaces i @ v @ spaces j @ CR # LF # cs) s =
      Stopped NGX_OK (Suc (p + i + length v + j)) (s\<lparr>value_start := vs, value_stop := vs + length v, hl_at := hs_almost_done\<rparr>)
    \<and> (v \<noteq> [] \<longrightarrow> vs = p + i)"
proof (cases v)
  case Nil
  have "spaces i @ v @ spaces j = spaces (i + j)" by (simp add: Nil spaces_def replicate_add)
  moreover have "scan (ngx_hl_step b) p (spaces (i + j) @ CR # LF # cs) s = scan (ngx_hl_step b) (p + (i + j)) (CR # LF # cs) s"
    by (rule hl_spaces) (simp add: assms)
  ultimately show ?thesis
    using assms(1) Nil
    by (intro exI [of _ "p + i + j"]) (simp add: ngx_hl_step_def hl_value_step_def add.assoc flip: append_assoc)
next
  case (Cons c w)
  let ?p = "p + i"
  let ?s = "s\<lparr>value_start := ?p, hl_at := hs_value\<rparr>"
  have c: "c \<noteq> CHR '' ''" "c \<noteq> CR" "c \<noteq> LF" "c \<noteq> NUL" and w: "\<forall>c \<in> set w. c \<noteq> CR \<and> c \<noteq> LF \<and> c \<noteq> NUL"
    and l: "last v \<noteq> CHR '' ''" using v Cons by (auto simp: value_ok_def)
  have "scan (ngx_hl_step b) p (spaces i @ v @ spaces j @ CR # LF # cs) s = scan (ngx_hl_step b) ?p (v @ spaces j @ CR # LF # cs) s"
    by (rule hl_spaces) (simp add: assms)
  also have "\<dots> = scan (ngx_hl_step b) (Suc ?p) (w @ spaces j @ CR # LF # cs) ?s"
    using c assms(1) by (simp add: Cons ngx_hl_step_def hl_value_step_def)
  also obtain e where "\<dots> = scan (ngx_hl_step b) (Suc ?p + length w) (spaces j @ CR # LF # cs) (?s\<lparr>value_stop := e, hl_at := hs_value\<rparr>)"
    using scan_value [of ?s w b "Suc ?p" "spaces j @ CR # LF # cs"] w l Cons by (auto split: if_splits)
  also have "\<dots> = Stopped NGX_OK (Suc (Suc ?p + length w + j)) (?s\<lparr>value_stop := e, hl_at := hs_value, value_stop := Suc ?p + length w, hl_at := hs_almost_done\<rparr>)"
    by (rule scan_tail) simp
  finally show ?thesis by (intro exI [of _ ?p]) (simp add: Cons)
qed

text \<open>A whole line.\<close>

lemma scan_header_line:
  assumes s: "hl_at s = hs_start" "length (lowcase_header s) = 32" and n: "name_ok n" and v: "value_ok v"
  shows "\<exists>vs. scan (ngx_hl_step b) p (header_line (n, i, v, j) @ cs) s =
      Stopped NGX_OK (p + length (header_line (n, i, v, j)) - 1)
        ((named p n s)\<lparr>name_stop := p + length n, value_start := vs, value_stop := vs + length v, hl_at := hs_almost_done\<rparr>)
    \<and> (v \<noteq> [] \<longrightarrow> vs = p + length n + 1 + i)"
proof -
  let ?t = "(named p n s)\<lparr>name_stop := p + length n, hl_at := hs_space_before_value\<rparr>"
  have at: "hl_at (named p n s) = hs_name" using named_regs [OF n s(2)] by simp
  have "scan (ngx_hl_step b) p (header_line (n, i, v, j) @ cs) s =
      scan (ngx_hl_step b) (p + length n) (CHR '':'' # spaces i @ v @ spaces j @ CR # LF # cs) (named p n s)"
    using scan_first [OF s(1) n, of b p] by (simp add: header_line_def)
  also have "\<dots> = scan (ngx_hl_step b) (Suc (p + length n)) (spaces i @ v @ spaces j @ CR # LF # cs) ?t"
    using at name_byte_not by (simp add: ngx_hl_step_def hl_name_step_def)
  finally show ?thesis
    using scan_value_line [of ?t v b "Suc (p + length n)" i j cs] v
    by (auto simp: header_line_def spaces_def algebra_simps)
qed

definition elt_of :: "string \<times> string \<Rightarrow> ngx_elt" where
  "elt_of = (\<lambda>(n, v). \<lparr>elt_hash = ngx_hash_key_lc n, elt_key = n, elt_value = v, elt_lowcase = map ngx_tolower n\<rparr>)"

lemma cut_mid: "cut (pre @ s @ rest) (length pre) (length pre + length s) = s"
  by (simp add: cut_def)

lemma parse_written:
  assumes b: "b = pre @ header_line (n, i, v, j) @ rest"
    and s: "hl_at s = hs_start" "length (lowcase_header s) = 32" and n: "name_ok n" and v: "value_ok v"
  shows "\<exists>t. ngx_http_parse_header_line b (length pre) s = (NGX_OK, length pre + length (header_line (n, i, v, j)), t)
     \<and> header_elt b t = elt_of (n, v) \<and> hl_at t = hs_start \<and> length (lowcase_header t) = 32"
proof -
  let ?p = "length pre"
  from scan_header_line [OF s n v, of b ?p i j rest] obtain vs where
    sc: "scan (ngx_hl_step b) ?p (header_line (n, i, v, j) @ rest) s =
      Stopped NGX_OK (?p + length (header_line (n, i, v, j)) - 1)
        ((named ?p n s)\<lparr>name_stop := ?p + length n, value_start := vs, value_stop := vs + length v, hl_at := hs_almost_done\<rparr>)"
    and vs: "v \<noteq> [] \<longrightarrow> vs = ?p + length n + 1 + i" by blast
  let ?t = "(named ?p n s)\<lparr>name_stop := ?p + length n, value_start := vs, value_stop := vs + length v, hl_at := hs_start\<rparr>"
  have pos: "0 < length (header_line (n, i, v, j))" by (simp add: header_line_def)
  have "ngx_http_parse_header_line b ?p s = (NGX_OK, ?p + length (header_line (n, i, v, j)), ?t)"
    using sc pos by (simp add: ngx_http_parse_header_line_def b)
  moreover have "cut b ?p (?p + length n) = n"
    using cut_mid [of pre n] by (simp add: b header_line_def)
  moreover have "cut b vs (vs + length v) = v"
  proof (cases "v = []")
    case False
    with vs cut_mid [of "pre @ n @ CHR '':'' # spaces i" v "spaces j @ [CR, LF] @ rest"] show ?thesis
      by (simp add: b header_line_def spaces_def add.assoc)
  qed (simp add: cut_def)
  moreover have "length n = length n mod 32 \<Longrightarrow> length n < 32" by (metis mod_less_divisor zero_less_numeral)
  ultimately show ?thesis
    using named_regs [OF n s(2), of ?p] by (auto simp: header_elt_def elt_of_def Let_def)
qed

lemma parse_blank:
  assumes b: "b = pre @ CR # LF # rest" and s: "hl_at s = hs_start"
  shows "\<exists>t. ngx_http_parse_header_line b (length pre) s = (NGX_HTTP_PARSE_HEADER_DONE, length pre + 2, t)"
  using s by (simp add: b ngx_http_parse_header_line_def ngx_hl_step_def hl_start_step_def parse_codes Let_def)

section \<open>Known headers\<close>

lemma lower_table:
  "map (\<lambda>(n, h). (map ngx_tolower n, h)) ngx_http_upstream_headers_in = [
     (''status'', process_header_line h_status), (''content-type'', process_header_line h_content_type),
     (''content-length'', process_content_length), (''date'', process_header_line h_date),
     (''last-modified'', process_header_line h_last_modified), (''etag'', process_header_line h_etag),
     (''server'', process_header_line h_server), (''www-authenticate'', process_header_line h_www_authenticate),
     (''location'', process_header_line h_location), (''refresh'', ignore_header_line),
     (''set-cookie'', process_set_cookie), (''content-disposition'', ignore_header_line),
     (''cache-control'', process_cache_control), (''expires'', process_expires),
     (''accept-ranges'', process_header_line h_accept_ranges), (''connection'', process_connection),
     (''keep-alive'', ignore_header_line), (''x-powered-by'', ignore_header_line),
     (''x-accel-expires'', process_accel_expires), (''x-accel-redirect'', process_header_line h_x_accel_redirect),
     (''x-accel-limit-rate'', process_limit_rate), (''x-accel-buffering'', process_buffering),
     (''x-accel-charset'', process_charset), (''transfer-encoding'', process_transfer_encoding),
     (''content-encoding'', process_header_line h_content_encoding)]"
  by code_simp

definition known :: "string \<Rightarrow> h_handler option" where
  "known n = map_of (map (\<lambda>(n, h). (map ngx_tolower n, h)) ngx_http_upstream_headers_in) (map ngx_tolower n)"

lemma find_known:
  "(\<And>m. map ngx_tolower m = k \<Longrightarrow> P m) \<Longrightarrow>
     map_option snd (find (\<lambda>(m, h). P m \<and> map ngx_tolower m = k) T) = map_of (map (\<lambda>(n, h). (map ngx_tolower n, h)) T) k"
  by (induction T) auto

lemma hash_lower: "ngx_hash_key_lc m = foldl ngx_hash 0 (map ngx_tolower m)"
proof -
  have "foldl (\<lambda>k c. ngx_hash k (ngx_tolower c)) x m = foldl ngx_hash x (map ngx_tolower m)" for x
    by (induction m arbitrary: x) auto
  then show ?thesis by (simp add: ngx_hash_key_lc_def)
qed

lemma hash_find_known:
  "ngx_hash_find nb ngx_http_upstream_headers_in (ngx_hash_key_lc n) (map ngx_tolower n) = known n"
  unfolding ngx_hash_find_def known_def by (rule find_known) (simp add: hash_lower)

text \<open>The name as it is compared.\<close>

definition lowered :: "string \<Rightarrow> string" where "lowered n = map ngx_tolower n"

lemma known_iff:
  "known n = Some process_content_length \<longleftrightarrow> lowered n = ''content-length''"
  "known n = Some process_limit_rate \<longleftrightarrow> lowered n = ''x-accel-limit-rate''"
  "known n = Some (process_header_line h_server) \<longleftrightarrow> lowered n = ''server''"
  "known n = Some (process_header_line h_date) \<longleftrightarrow> lowered n = ''date''"
  unfolding known_def lower_table unfolding lowered_def [symmetric] by auto

text \<open>What one header, and a list of them, does when memory is there.\<close>

definition take_header :: "string \<times> string \<Rightarrow> ngx_headers_in \<Rightarrow> ngx_headers_in option" where
  "take_header h hin =
     (let hin1 = (took (took hin))\<lparr>hi_headers := hi_headers hin @ [elt_of h]\<rparr> in
      case known (fst h) of None \<Rightarrow> Some hin1
      | Some handler \<Rightarrow> map_option snd (handle_header (\<lambda>_. True) handler (elt_of h) hin1))"

primrec take_headers :: "(string \<times> string) list \<Rightarrow> ngx_headers_in \<Rightarrow> ngx_headers_in option" where
  "take_headers [] hin = Some hin"
| "take_headers (h # hs) hin = do { hin1 \<leftarrow> take_header h hin; take_headers hs hin1 }"

lemma handle_header_ok: "handle_header (\<lambda>_. True) handler h hin = Some (rc, hin') \<Longrightarrow> rc = NGX_OK"
  by (auto simp: handle_header_def ngx_http_upstream_process_cache_control_def Let_def
      split: h_handler.splits if_splits)

lemma add_header_written:
  "add_header (\<lambda>_. True) nb (elt_of h) hin = map_option (Pair NGX_OK) (take_header h hin)"
proof -
  obtain n v where h: "h = (n, v)" by (cases h)
  have e: "elt_hash (elt_of h) = ngx_hash_key_lc n" "elt_lowcase (elt_of h) = map ngx_tolower n" by (simp_all add: h elt_of_def)
  show ?thesis
  proof (cases "known n")
    case None
    with e show ?thesis by (simp add: add_header_def take_header_def Let_def hash_find_known took_def) (simp add: h)
  next
    case (Some handler)
    let ?hin = "(took (took hin))\<lparr>hi_headers := hi_headers hin @ [elt_of h]\<rparr>"
    have a: "add_header (\<lambda>_. True) nb (elt_of h) hin = handle_header (\<lambda>_. True) handler (elt_of h) ?hin"
      using Some by (simp add: add_header_def Let_def e hash_find_known took_def)
    have t: "take_header h hin = map_option snd (handle_header (\<lambda>_. True) handler (elt_of h) ?hin)"
      using Some by (simp add: take_header_def Let_def h)
    show ?thesis unfolding a t
      by (cases "handle_header (\<lambda>_. True) handler (elt_of h) ?hin") (auto dest: handle_header_ok)
  qed
qed

lemma process_written:
  "rp_buf r = pre @ concat (map header_line hs) @ CR # LF # body \<Longrightarrow> rp_pos r = length pre \<Longrightarrow>
   hl_at (rp_hl r) = hs_start \<Longrightarrow> length (lowcase_header (rp_hl r)) = 32 \<Longrightarrow>
   \<forall>(n, i, v, j) \<in> set hs. name_ok n \<and> value_ok v \<Longrightarrow>
   take_headers (map (\<lambda>(n, i, v, j). (n, v)) hs) (rp_in r) = Some hin \<Longrightarrow>
   \<exists>t. getfile_upstream_process_header (\<lambda>_. True) nb r = Some (headers_done (\<lambda>_. True)
      (r\<lparr>rp_pos := length pre + length (concat (map header_line hs)) + 2, rp_hl := t, rp_in := hin\<rparr>))"
proof (induction hs arbitrary: r pre)
  case Nil
  from parse_blank [of "rp_buf r" pre body "rp_hl r"] Nil obtain t where
    "ngx_http_parse_header_line (rp_buf r) (rp_pos r) (rp_hl r) = (NGX_HTTP_PARSE_HEADER_DONE, length pre + 2, t)" by auto
  then have "getfile_upstream_process_header (\<lambda>_. True) nb r = Some (headers_done (\<lambda>_. True) (r\<lparr>rp_pos := length pre + 2, rp_hl := t\<rparr>))"
    by (simp add: process_header_step [of _ _ r] parse_codes)
  moreover have "r\<lparr>rp_pos := length pre + 2, rp_hl := t\<rparr> = r\<lparr>rp_pos := length pre + 2, rp_hl := t, rp_in := hin\<rparr>"
    using Nil(6) by (cases r) simp
  ultimately have "getfile_upstream_process_header (\<lambda>_. True) nb r =
      Some (headers_done (\<lambda>_. True) (r\<lparr>rp_pos := length pre + 2, rp_hl := t, rp_in := hin\<rparr>))" by (simp only:)
  then show ?case by (intro exI [of _ t]) simp
next
  case (Cons h hs)
  obtain n i v j where h: "h = (n, i, v, j)" by (cases h)
  let ?rest = "concat (map header_line hs) @ CR # LF # body"
  have b: "rp_buf r = pre @ header_line (n, i, v, j) @ ?rest" using Cons.prems(1) by (simp add: h)
  from parse_written [OF b Cons.prems(3,4)] Cons.prems(5) obtain t where
    p: "ngx_http_parse_header_line (rp_buf r) (rp_pos r) (rp_hl r) = (NGX_OK, length pre + length (header_line (n, i, v, j)), t)"
    and e: "header_elt (rp_buf r) t = elt_of (n, v)" and t: "hl_at t = hs_start" "length (lowcase_header t) = 32"
    using Cons.prems(2) by (auto simp: h)
  from Cons.prems(6) obtain hin1 where h1: "take_header (n, v) (rp_in r) = Some hin1"
    and hs: "take_headers (map (\<lambda>(n, i, v, j). (n, v)) hs) hin1 = Some hin" by (auto simp: h bind_Some_conv)
  let ?r = "r\<lparr>rp_pos := length pre + length (header_line (n, i, v, j)), rp_hl := t, rp_in := hin1\<rparr>"
  have step: "getfile_upstream_process_header (\<lambda>_. True) nb r = getfile_upstream_process_header (\<lambda>_. True) nb ?r"
    using p e h1 add_header_written [of nb "(n, v)" "rp_in r"] by (simp add: process_header_step [of _ _ r])
  from Cons.IH [of ?r "pre @ header_line (n, i, v, j)"] Cons.prems(5) b t hs obtain u where
    "getfile_upstream_process_header (\<lambda>_. True) nb ?r = Some (headers_done (\<lambda>_. True)
      (?r\<lparr>rp_pos := length (pre @ header_line (n, i, v, j)) + length (concat (map header_line hs)) + 2, rp_hl := u, rp_in := hin\<rparr>))"
    by auto
  then show ?case by (intro exI [of _ u]) (simp add: step h add.assoc)
qed

section \<open>What the headers come to\<close>

fun announced :: "int \<Rightarrow> (string \<times> string) list \<Rightarrow> int option" where
  "announced k [] = Some k"
| "announced k ((n, v) # hs) =
     (if lowered n = ''content-length'' then ngx_atoof v \<bind> (\<lambda>m. announced m hs) else announced k hs)"

definition has_header :: "string \<Rightarrow> (string \<times> string) list \<Rightarrow> bool" where
  "has_header k hs \<longleftrightarrow> (\<exists>h \<in> set hs. lowered (fst h) = k)"

text \<open>The numbers nginx converts fit.\<close>

definition numbers_fit :: "(string \<times> string) list \<Rightarrow> bool" where
  "numbers_fit hs \<longleftrightarrow> (\<forall>(n, v) \<in> set hs.
     lowered n \<in> {''content-length'', ''x-accel-limit-rate''} \<longrightarrow> ngx_atoof v \<noteq> None)"

lemma took_fields [simp]:
  "hi_headers (took h) = hi_headers h" "hi_slot (took h) = hi_slot h" "hi_content_length_n (took h) = hi_content_length_n h"
  "hi_status_n (took h) = hi_status_n h" "hi_cache_control (took h) = hi_cache_control h" "hi_status_line (took h) = hi_status_line h"
  by (simp_all add: took_def)

lemma handle_header_effect:
  assumes "handle_header (\<lambda>_. True) handler h hin = Some (rc, hin')"
  shows "hi_headers hin' = hi_headers hin" "hi_status_n hin' = hi_status_n hin"
    "hi_slot hin' h_server \<noteq> None \<longleftrightarrow> hi_slot hin h_server \<noteq> None \<or> handler = process_header_line h_server"
    "hi_slot hin' h_date \<noteq> None \<longleftrightarrow> hi_slot hin h_date \<noteq> None \<or> handler = process_header_line h_date"
    "Some (hi_content_length_n hin') = (if handler = process_content_length then ngx_atoof (elt_value h) else Some (hi_content_length_n hin))"
  using assms
  by (auto simp: handle_header_def ngx_http_upstream_process_header_line_def ngx_http_upstream_process_content_length_def
      ngx_http_upstream_process_cache_control_def ngx_http_upstream_process_limit_rate_def
      ngx_http_upstream_process_connection_def ngx_http_upstream_process_transfer_encoding_def set_slot_def Let_def bind_Some_conv
      split: h_handler.splits if_splits)

lemma take_header_effect:
  assumes "take_header (n, v) hin = Some hin'"
  shows "hi_headers hin' = hi_headers hin @ [elt_of (n, v)]" "hi_status_n hin' = hi_status_n hin"
    "hi_slot hin' h_server \<noteq> None \<longleftrightarrow> hi_slot hin h_server \<noteq> None \<or> lowered n = ''server''"
    "hi_slot hin' h_date \<noteq> None \<longleftrightarrow> hi_slot hin h_date \<noteq> None \<or> lowered n = ''date''"
    "Some (hi_content_length_n hin') = (if lowered n = ''content-length'' then ngx_atoof v else Some (hi_content_length_n hin))"
proof -
  let ?hin = "(took (took hin))\<lparr>hi_headers := hi_headers hin @ [elt_of (n, v)]\<rparr>"
  have e: "elt_value (elt_of (n, v)) = v" by (simp add: elt_of_def)
  note K = known_iff(1,3,4) [of n, symmetric]
  have "hi_headers hin' = hi_headers hin @ [elt_of (n, v)] \<and> hi_status_n hin' = hi_status_n hin
    \<and> (hi_slot hin' h_server \<noteq> None \<longleftrightarrow> hi_slot hin h_server \<noteq> None \<or> lowered n = ''server'')
    \<and> (hi_slot hin' h_date \<noteq> None \<longleftrightarrow> hi_slot hin h_date \<noteq> None \<or> lowered n = ''date'')
    \<and> Some (hi_content_length_n hin') = (if lowered n = ''content-length'' then ngx_atoof v else Some (hi_content_length_n hin))"
  proof (cases "known n")
    case None
    with assms have "hin' = ?hin" by (simp add: take_header_def Let_def)
    with None show ?thesis unfolding K by simp
  next
    case (Some handler)
    with assms obtain rc where "handle_header (\<lambda>_. True) handler (elt_of (n, v)) ?hin = Some (rc, hin')"
      by (auto simp: take_header_def Let_def)
    from handle_header_effect [OF this] Some show ?thesis unfolding K by (simp add: e)
  qed
  then show "hi_headers hin' = hi_headers hin @ [elt_of (n, v)]" "hi_status_n hin' = hi_status_n hin"
    "hi_slot hin' h_server \<noteq> None \<longleftrightarrow> hi_slot hin h_server \<noteq> None \<or> lowered n = ''server''"
    "hi_slot hin' h_date \<noteq> None \<longleftrightarrow> hi_slot hin h_date \<noteq> None \<or> lowered n = ''date''"
    "Some (hi_content_length_n hin') = (if lowered n = ''content-length'' then ngx_atoof v else Some (hi_content_length_n hin))"
    by blast+
qed

lemma take_header_total:
  assumes "numbers_fit [(n, v)]"
  shows "take_header (n, v) hin \<noteq> None"
proof (cases "known n")
  case (Some handler)
  have "handle_header (\<lambda>_. True) handler (elt_of (n, v)) h \<noteq> None" for h
    using assms known_iff(1,2) [of n] Some
    by (cases handler) (auto simp: handle_header_def numbers_fit_def elt_of_def ngx_http_upstream_process_content_length_def
        ngx_http_upstream_process_limit_rate_def ngx_atoi_def ngx_atoof_def Let_def split: if_splits)
  with Some show ?thesis by (simp add: take_header_def Let_def)
qed (simp add: take_header_def Let_def)

lemma take_headers_effect:
  "numbers_fit hs \<Longrightarrow> \<exists>hin'. take_headers hs hin = Some hin' \<and> hi_headers hin' = hi_headers hin @ map elt_of hs
     \<and> hi_status_n hin' = hi_status_n hin
     \<and> (hi_slot hin' h_server \<noteq> None \<longleftrightarrow> hi_slot hin h_server \<noteq> None \<or> has_header ''server'' hs)
     \<and> (hi_slot hin' h_date \<noteq> None \<longleftrightarrow> hi_slot hin h_date \<noteq> None \<or> has_header ''date'' hs)
     \<and> announced (hi_content_length_n hin) hs = Some (hi_content_length_n hin')"
proof (induction hs arbitrary: hin)
  case (Cons h hs)
  obtain n v where h: "h = (n, v)" by (cases h)
  from take_header_total [of n v hin] Cons.prems obtain hin1 where t: "take_header (n, v) hin = Some hin1"
    by (auto simp: numbers_fit_def h)
  note T = take_header_effect [OF t]
  from Cons.IH [of hin1] Cons.prems obtain hin' where I: "take_headers hs hin1 = Some hin'"
    "hi_headers hin' = hi_headers hin1 @ map elt_of hs" "hi_status_n hin' = hi_status_n hin1"
    "hi_slot hin' h_server \<noteq> None \<longleftrightarrow> hi_slot hin1 h_server \<noteq> None \<or> has_header ''server'' hs"
    "hi_slot hin' h_date \<noteq> None \<longleftrightarrow> hi_slot hin1 h_date \<noteq> None \<or> has_header ''date'' hs"
    "announced (hi_content_length_n hin1) hs = Some (hi_content_length_n hin')"
    by (auto simp: numbers_fit_def)
  have "announced (hi_content_length_n hin) (h # hs) = Some (hi_content_length_n hin')"
    using T(5) [symmetric] I(6) by (simp add: h split: if_splits)
  then show ?case
    using t I(1-3) T(1,2) I(4,5) T(3,4) by (intro exI [of _ hin']) (auto simp: h has_header_def)
qed (simp add: has_header_def)

section \<open>The whole answer\<close>

definition complete_status :: "string \<Rightarrow> int \<Rightarrow> bool" where
  "complete_status st c \<longleftrightarrow> status_line st c \<and> (\<exists>x. st = x @ [LF] \<and> LF \<notin> set x)"

definition answer_text :: "string \<Rightarrow> (string \<times> nat \<times> string \<times> nat) list \<Rightarrow> string \<Rightarrow> string" where
  "answer_text st hs body = st @ concat (map header_line hs) @ CR # LF # body"

definition header_pairs :: "(string \<times> nat \<times> string \<times> nat) list \<Rightarrow> (string \<times> string) list" where
  "header_pairs hs = map (\<lambda>(n, i, v, j). (n, v)) hs"

definition written_ok :: "(string \<times> nat \<times> string \<times> nat) list \<Rightarrow> bool" where
  "written_ok hs \<longleftrightarrow> (\<forall>(n, i, v, j) \<in> set hs. name_ok n \<and> value_ok v) \<and> numbers_fit (header_pairs hs)"

lemma sl_step_LF:
  "ngx_sl_step p ch s = Go s' \<Longrightarrow> ch \<noteq> LF" "ngx_sl_step p ch s = Leave NGX_OK s' \<Longrightarrow> ch = LF"
  by (auto simp: ngx_sl_step_def sl_goto_def sl_expect_def Let_def parse_codes ord_def split: sl_state.splits if_splits)

lemma scan_to_LF:
  "LF \<notin> set x \<Longrightarrow> scan ngx_sl_step p (x @ LF # rest) s = Stopped NGX_OK q t \<Longrightarrow> q = p + length x"
proof (induction x arbitrary: p s)
  case Nil
  then show ?case using sl_step_LF(1) [of p LF s] by (auto split: scan_step.splits)
next
  case (Cons c x)
  show ?case
  proof (cases "ngx_sl_step p c s")
    case (Go s')
    with Cons.IH [of "Suc p" s'] Cons.prems show ?thesis by simp
  next
    case (Leave rc s')
    with Cons.prems sl_step_LF(2) [of p c s s'] show ?thesis by auto
  qed
qed

lemma status_scanned:
  assumes "complete_status st c" and "sl_at s = sw_start" "st_code s = 0" "st_count s = 0"
  shows "\<exists>t. scan ngx_sl_step 0 (st @ rest) s = Stopped NGX_OK (length st - 1) t \<and> st_code t = of_int c \<and> 0 \<le> c \<and> c \<le> 999 \<and> 0 < length st"
proof -
  from assms(1) obtain x where x: "st = x @ [LF]" "LF \<notin> set x" by (auto simp: complete_status_def)
  from status_line_scan [OF assms(2-4), of 0 st c] assms(1) obtain q t where
    q: "scan ngx_sl_step 0 st s = Stopped NGX_OK q t" "st_code t = of_int c" "0 \<le> c" "c \<le> 999"
    by (auto simp: complete_status_def)
  have "q = length x" using scan_to_LF [OF x(2), of 0 "[]" s q t] q(1) x(1) by simp
  then have "scan ngx_sl_step 0 (st @ rest) s = Stopped NGX_OK (length st - 1) t"
    using q(1) by (simp only: scan_append) (simp add: x(1))
  with q x(1) show ?thesis by auto
qed

lemma answer_processed:
  assumes st: "complete_status st c" and hs: "written_ok hs" and hl: "length (lowcase_header hl) = 32"
  shows "\<exists>r. process_header (\<lambda>_. True) nb (grow (answer_text st hs body) (fresh_response maj mnr hl)) = Some (NGX_OK, r)
     \<and> rp_in_headers r \<and> rp_pos r = length st + length (concat (map header_line hs)) + 2
     \<and> int (unat (hi_status_n (rp_in r))) = c
     \<and> map (\<lambda>h. (elt_key h, elt_value h)) (hi_headers (rp_in r)) = header_pairs hs
          @ (if has_header ''server'' (header_pairs hs) then [] else [(''Server'', [])])
          @ (if has_header ''date'' (header_pairs hs) then [] else [(''Date'', [])])
     \<and> announced (- 1) (header_pairs hs) = Some (hi_content_length_n (rp_in r))"
proof -
  let ?r = "grow (answer_text st hs body) (fresh_response maj mnr hl)"
  have f: "rp_buf ?r = answer_text st hs body" "rp_pos ?r = 0" "\<not> rp_in_headers ?r" "hl_at (rp_hl ?r) = hs_start"
    "length (lowcase_header (rp_hl ?r)) = 32" by (simp_all add: fresh_response_def hl)
  from status_scanned [OF st, of "rp_sl ?r" "concat (map header_line hs) @ CR # LF # body"] obtain t where
    t: "scan ngx_sl_step 0 (answer_text st hs body) (rp_sl ?r) = Stopped NGX_OK (length st - 1) t"
      "st_code t = of_int c" "0 \<le> c" "c \<le> 999" "0 < length st"
    by (auto simp: fresh_response_def answer_text_def)
  let ?s = "status_read ?r (length st - 1) (sl_done (length st - 1) t)"
  have P: "process_header (\<lambda>_. True) nb ?r = getfile_upstream_process_header (\<lambda>_. True) nb ?s"
    using f t(1) by (simp add: process_header_def process_status_line_eq)
  have s: "rp_buf ?s = st @ concat (map header_line hs) @ CR # LF # body" "rp_pos ?s = length st"
    "hl_at (rp_hl ?s) = hs_start" "length (lowcase_header (rp_hl ?s)) = 32"
    "hi_headers (rp_in ?s) = []" "hi_slot (rp_in ?s) = (\<lambda>_. None)" "hi_content_length_n (rp_in ?s) = - 1"
    "hi_status_n (rp_in ?s) = of_int c" "rp_in_headers ?s"
    using f t(2,5) by (simp_all add: status_read_def answer_text_def fresh_response_def sl_done_def)
  from take_headers_effect [of "header_pairs hs" "rp_in ?s"] hs obtain hin where
    h: "take_headers (header_pairs hs) (rp_in ?s) = Some hin" and e: "hi_headers hin = map elt_of (header_pairs hs)"
      "hi_status_n hin = of_int c" "(hi_slot hin h_server \<noteq> None) = has_header ''server'' (header_pairs hs)"
      "(hi_slot hin h_date \<noteq> None) = has_header ''date'' (header_pairs hs)"
      "announced (- 1) (header_pairs hs) = Some (hi_content_length_n hin)"
    using s by (auto simp: written_ok_def)
  from process_written [OF s(1-4) _ h [unfolded header_pairs_def], of nb] hs obtain u where
    G: "getfile_upstream_process_header (\<lambda>_. True) nb ?s = Some (headers_done (\<lambda>_. True)
      (?s\<lparr>rp_pos := length st + length (concat (map header_line hs)) + 2, rp_hl := u, rp_in := hin\<rparr>))"
    by (auto simp: written_ok_def)
  have pairs: "map (\<lambda>h. (elt_key h, elt_value h)) (map elt_of ps) = ps" for ps by (induction ps) (auto simp: elt_of_def)
  have c: "int (unat (of_int c :: ulong)) = c" using t(3,4) by (simp add: uint_word_of_int)
  show ?thesis
    unfolding P G using e pairs s(9) c
    by (auto simp: headers_done_def add_missing_def)
qed

lemma fresh_ok: "process_ok (fresh_response maj mnr hl)"
  by (simp add: process_ok_def headers_ok_def fresh_response_def hl_ok_def sl_ok_def)

text \<open>The pieces a run really used: the last one cut to what fitted.\<close>

lemma read_consumed:
  "ngx_http_upstream_process_header alloc nb bsize cs r = Some (Us_headers r') \<Longrightarrow> length (rp_buf r) < bsize \<Longrightarrow>
     \<exists>ds. ngx_http_upstream_process_header alloc nb bsize ds r = Some (Us_headers r') \<and> ds \<noteq> [] \<and> [] \<notin> set ds
       \<and> length (rp_buf r) + length (concat ds) \<le> bsize \<and> prefix (concat ds) (concat cs)"
proof (induction cs arbitrary: r)
  case (Cons c cs)
  let ?c = "take (bsize - length (rp_buf r)) c"
  from Cons.prems obtain rc r1 where c: "c \<noteq> []" and p: "process_header alloc nb (r\<lparr>rp_buf := rp_buf r @ ?c\<rparr>) = Some (rc, r1)"
    by (auto simp: bind_Some_conv split: if_splits)
  have ne: "?c \<noteq> []" using c Cons.prems(2) by (cases c) auto
  have b: "rp_buf r1 = rp_buf r @ ?c" using process_keeps(1) [OF p] by simp
  show ?case
  proof (cases "rc = NGX_AGAIN")
    case False
    then have "ngx_http_upstream_process_header alloc nb bsize [?c] r = Some (Us_headers r')"
      using Cons.prems(1) p c ne by (simp split: if_splits)
    moreover have "prefix ?c (c @ concat cs)" by (metis prefix_prefix take_is_prefix)
    moreover have "length (rp_buf r) + length ?c \<le> bsize" using Cons.prems(2) by simp
    ultimately show ?thesis using c Cons.prems(2) by (intro exI [of _ "[?c]"]) simp
  next
    case True
    with Cons.prems(1) p c have next1: "length (rp_buf r1) \<noteq> bsize" "ngx_http_upstream_process_header alloc nb bsize cs r1 = Some (Us_headers r')"
      by (auto split: if_splits)
    have room: "length (rp_buf r1) < bsize" using next1(1) b Cons.prems(2) by (auto split: if_splits)
    then have cc: "?c = c" using b Cons.prems(2) by (auto simp: min_def split: if_splits)
    from Cons.IH [OF next1(2) room] obtain ds where ds:
      "ngx_http_upstream_process_header alloc nb bsize ds r1 = Some (Us_headers r')" "ds \<noteq> []" "[] \<notin> set ds"
      "length (rp_buf r1) + length (concat ds) \<le> bsize" "prefix (concat ds) (concat cs)" by blast
    have "ngx_http_upstream_process_header alloc nb bsize (c # ds) r = Some (Us_headers r')"
      using p c cc True next1(1) ds(1) by simp
    with ds c cc b show ?thesis by (intro exI [of _ "c # ds"]) auto
  qed
qed simp

definition demo_hl :: hl_regs where
  "demo_hl = \<lparr>hl_at = hs_start, header_hash = 1, lowcase_index = 0, lowcase_header = replicate 32 NUL, name_start = 0,
     name_stop = 0, value_start = 0, value_stop = 0, invalid_header = False\<rparr>"

lemma status_line_prefix:
  assumes "status_line a c" and "prefix a b"
  shows "status_line b c"
proof -
  obtain x where b: "b = a @ x" using assms(2) by (auto simp: prefix_def)
  let ?s = "rp_sl (fresh_response 0 0 demo_hl)"
  have s: "sl_at ?s = sw_start" "st_code ?s = 0" "st_count ?s = 0" by (simp_all add: fresh_response_def)
  from status_line_scan [OF s, of 0 a c] assms(1) obtain q t where
    "scan ngx_sl_step 0 a ?s = Stopped NGX_OK q t" "st_code t = of_int c" "0 \<le> c" "c \<le> 999" by auto
  then show ?thesis using status_line_scan [OF s, of 0 b c] by (auto simp: b scan_append)
qed

lemma status_of_processed:
  assumes "process_header alloc nb (grow b (fresh_response maj mnr hl)) = Some (rc, r)" and "hi_status_n (rp_in r) = 200"
  shows "status_line b 200"
proof -
  let ?r = "grow b (fresh_response maj mnr hl)"
  have f: "rp_buf ?r = b" "rp_pos ?r = 0" "\<not> rp_in_headers ?r" "hi_status_n (rp_in ?r) = 0"
    "sl_at (rp_sl ?r) = sw_start" "st_code (rp_sl ?r) = 0" "st_count (rp_sl ?r) = 0"
    by (simp_all add: fresh_response_def)
  have e: "getfile_process_status_line alloc nb ?r = Some (rc, r)" using assms(1) f(3) by (simp add: process_header_def)
  have "\<exists>q t. scan ngx_sl_step 0 b (rp_sl ?r) = Stopped NGX_OK q t \<and> st_code t = of_int 200"
  proof (cases "scan ngx_sl_step 0 b (rp_sl ?r)")
    case (Again q t)
    with e f assms(2) show ?thesis by (auto simp: process_status_line_eq)
  next
    case (Stopped c q t)
    show ?thesis
    proof (cases "c = NGX_OK")
      case True
      have "hi_status_n (rp_in r) = st_code t"
        using e f(1,2) Stopped True headers_keep [of alloc nb "status_read ?r q (sl_done q t)" rc r]
        by (auto simp: process_status_line_eq Let_def status_read_def sl_done_def took_def split: if_splits)
      with assms(2) Stopped True show ?thesis by simp
    next
      case False
      with e f Stopped assms(2) show ?thesis by (auto simp: process_status_line_eq)
    qed
  qed
  with status_line_scan [OF f(5-7), of 0 b 200] show ?thesis by auto
qed

lemma answer_read_back:
  assumes "complete_status st c" and "written_ok hs" and "length (lowcase_header hl) = 32"
    and "concat cs = answer_text st hs body" and "[] \<notin> set cs" and "length (concat cs) \<le> bsize"
  shows "\<exists>r. ngx_http_upstream_process_header (\<lambda>_. True) nb bsize cs (fresh_response maj mnr hl) = Some (Us_headers r)
     \<and> int (unat (hi_status_n (rp_in r))) = c
     \<and> map (\<lambda>h. (elt_key h, elt_value h)) (hi_headers (rp_in r)) = header_pairs hs
          @ (if has_header ''server'' (header_pairs hs) then [] else [(''Server'', [])])
          @ (if has_header ''date'' (header_pairs hs) then [] else [(''Date'', [])])
     \<and> announced (- 1) (header_pairs hs) = Some (hi_content_length_n (rp_in r))
     \<and> drop (rp_pos r) (concat cs) = body"
proof -
  let ?f = "fresh_response maj mnr hl" and ?R = "ngx_http_upstream_process_header (\<lambda>_. True) nb bsize"
  have ne: "concat cs \<noteq> []" using assms(4) by (simp add: answer_text_def)
  then have cs: "cs \<noteq> []" by auto
  from answer_processed [OF assms(1-3), of nb body maj mnr] obtain r where
    r: "process_header (\<lambda>_. True) nb (grow (concat cs) ?f) = Some (NGX_OK, r)" "rp_in_headers r"
      "rp_pos r = length st + length (concat (map header_line hs)) + 2" "int (unat (hi_status_n (rp_in r))) = c"
      "map (\<lambda>h. (elt_key h, elt_value h)) (hi_headers (rp_in r)) = header_pairs hs
          @ (if has_header ''server'' (header_pairs hs) then [] else [(''Server'', [])])
          @ (if has_header ''date'' (header_pairs hs) then [] else [(''Date'', [])])"
      "announced (- 1) (header_pairs hs) = Some (hi_content_length_n (rp_in r))"
    unfolding assms(4) by blast
  have buf: "rp_buf ?f = []" by (simp add: fresh_response_def)
  have "?R [concat cs] ?f = Some (Us_headers r)"
    using read_one [OF ne, of ?f bsize "\<lambda>_. True" nb] r(1) assms(6) buf by (simp add: us_round_def parse_codes)
  moreover have "rel_option same_answer (?R cs ?f) (?R [concat cs] ?f)"
    by (rule read_pieces [OF fresh_ok assms(5) cs]) (use assms(6) buf in simp)
  ultimately obtain r' where r': "?R cs ?f = Some (Us_headers r')" "seen (NGX_OK, r') = seen (NGX_OK, r)"
    by (auto simp: option_rel_Some2 elim: same_answer.elims)
  then have "rp_in r' = rp_in r" "rp_pos r' = rp_pos r" using r(2) by (auto simp: seen_def split: if_splits)
  with r' r(3-6) assms(4) show ?thesis by (intro exI [of _ r']) (simp add: answer_text_def)
qed

definition demo_status :: string where "demo_status = ''HTTP/1.0 200 OK'' @ [CR, LF]"

definition demo_headers :: "(string \<times> nat \<times> string \<times> nat) list" where
  "demo_headers = [(''Content-Type'', 1, ''video/mp4'', 0), (''content-LENGTH'', 2, ''42'', 1)]"

lemma demo_complete: "complete_status demo_status 200"
proof -
  have "status_line demo_status 200"
    unfolding status_line_run [symmetric] by (simp add: demo_status_def ord_def)
  moreover have "demo_status = (''HTTP/1.0 200 OK'' @ [CR]) @ [LF]" "LF \<notin> set (''HTTP/1.0 200 OK'' @ [CR])"
    by (simp_all add: demo_status_def)
  ultimately show ?thesis unfolding complete_status_def by blast
qed

lemma demo_written: "written_ok demo_headers"
  by code_simp

lemma demo_answer_length: "length (answer_text demo_status demo_headers ''abc'') = 69"
  by code_simp

lemma demo_announced: "announced (- 1) (header_pairs demo_headers) = Some 42"
  by code_simp

lemma demo_hl_length: "length (lowcase_header demo_hl) = 32"
  by (simp add: demo_hl_def)

lemma demo_pieces:
  "[] \<notin> set [take 20 (answer_text demo_status demo_headers ''abc''), drop 20 (answer_text demo_status demo_headers ''abc'')]"
  using demo_answer_length by (auto simp del: length_0_conv simp flip: length_0_conv)

lemma demo_answer:
  "\<exists>r. ngx_http_upstream_process_header (\<lambda>_. True) 7 4096
       [take 20 (answer_text demo_status demo_headers ''abc''), drop 20 (answer_text demo_status demo_headers ''abc'')]
       (fresh_response 1 1 demo_hl) = Some (Us_headers r)
     \<and> int (unat (hi_status_n (rp_in r))) = 200 \<and> hi_content_length_n (rp_in r) = 42"
  using answer_read_back [OF demo_complete demo_written demo_hl_length, of
      "[take 20 (answer_text demo_status demo_headers ''abc''), drop 20 (answer_text demo_status demo_headers ''abc'')]" "''abc''" 4096 7 1 1]
    demo_announced demo_answer_length demo_pieces by auto

text \<open>An answer whose status line is not refused is read to its headers.\<close>

lemma headers_stay:
  "getfile_upstream_process_header alloc nb r = Some (rc, r') \<Longrightarrow> rp_in_headers r' = rp_in_headers r"
proof (induction alloc nb r arbitrary: rc r' rule: getfile_upstream_process_header.induct)
  case (1 alloc nb r)
  obtain c q t where p: "ngx_http_parse_header_line (rp_buf r) (rp_pos r) (rp_hl r) = (c, q, t)"
    by (cases "ngx_http_parse_header_line (rp_buf r) (rp_pos r) (rp_hl r)")
  let ?r = "r\<lparr>rp_pos := q, rp_hl := t\<rparr>"
  show ?case
  proof (cases "c = NGX_OK \<and> (\<exists>hin. add_header alloc nb (header_elt (rp_buf r) t) (rp_in r) = Some (NGX_OK, hin))")
    case True
    then obtain hin where h: "add_header alloc nb (header_elt (rp_buf ?r) t) (rp_in ?r) = Some (NGX_OK, hin)" by auto
    have "getfile_upstream_process_header alloc nb (?r\<lparr>rp_in := hin\<rparr>) = Some (rc, r')"
      using "1.prems" p h True by (simp add: process_header_step [of _ _ r])
    from "1.IH" [OF p [symmetric] refl refl conjunct1 [OF True] h refl _ this] show ?thesis by simp
  next
    case False
    with "1.prems" p show ?thesis
      by (auto simp: process_header_step [of _ _ r] Let_def headers_done_def split: prod.splits if_splits option.splits)
  qed
qed

lemma headers_found:
  assumes "fst (ngx_http_parse_status_line (rp_buf r) 0 (rp_sl r)) \<noteq> NGX_ERROR" and "rp_pos r = 0" "\<not> rp_in_headers r"
    and "process_header alloc nb r = Some (rc, r')" and "rc \<noteq> NGX_AGAIN" and "rc \<noteq> NGX_ERROR"
  shows "rp_in_headers r'"
proof (cases "scan ngx_sl_step 0 (rp_buf r) (rp_sl r)")
  case (Again q t)
  with assms(2-5) show ?thesis by (auto simp: process_header_def process_status_line_eq)
next
  case (Stopped c p t)
  then have "c = NGX_OK" using sl_rcs [OF Stopped] assms(1) by (auto simp: ngx_http_parse_status_line_def parse_codes)
  with Stopped assms(2-6) headers_stay show ?thesis
    by (auto simp: process_header_def process_status_line_eq Let_def status_read_def split: if_splits dest!: headers_stay)
qed

text \<open>Two results that agree in everything but the bytes in the buffer and, while the answer is not
  complete, the registers of the parsers.\<close>

fun same_result :: "us_outcome \<Rightarrow> us_outcome \<Rightarrow> bool" where
  "same_result (Us_headers r) (Us_headers r') \<longleftrightarrow> rp_in r = rp_in r' \<and> rp_in_headers r = rp_in_headers r'
     \<and> rp_version_9 r = rp_version_9 r' \<and> rp_state_status r = rp_state_status r' \<and> rp_pos r = rp_pos r'"
| "same_result (Us_wait r) (Us_wait r') \<longleftrightarrow> rp_in r = rp_in r' \<and> rp_in_headers r = rp_in_headers r'"
| "same_result o1 o2 = (o1 = o2)"

lemma same_answer_result:
  assumes "rel_option same_answer x y" and "\<And>r. y = Some (Us_headers r) \<Longrightarrow> rp_in_headers r"
  shows "rel_option same_result x y"
proof (cases y)
  case (Some b)
  with assms(1) obtain a where a: "x = Some a" "same_answer a b" by (auto simp: option_rel_Some2)
  with Some assms(2) show ?thesis by (cases a; cases b) (auto simp: seen_def parse_codes split: if_splits)
qed (use assms(1) in simp)

lemma lost_pieces:
  "\<exists>r r'. ngx_http_upstream_process_header alloc nb 4096 [''HT'', ''XX''] (fresh_response maj mnr hl) = Some (Us_headers r)
     \<and> ngx_http_upstream_process_header alloc nb 4096 [''HTXX''] (fresh_response maj mnr hl) = Some (Us_headers r')
     \<and> rp_pos r = 2 \<and> rp_pos r' = 0"
  by (simp add: process_header_def getfile_process_status_line_def ngx_http_parse_status_line_def fresh_response_def
      ngx_sl_step_def sl_goto_def sl_expect_def parse_codes Let_def)

lemma only_ok_marked:
  assumes "ngx_http_upstream_process_header alloc nb bsize cs (fresh_response maj mnr hl) = Some (Us_headers r)"
    and "0 < bsize" and "status_n u = unat (hi_status_n (rp_in r))"
    and "content_length_n u = hi_content_length_n (rp_in r)"
    and "ngx_http_upstream_process_request rq u rl = (u', rl')" and "rl' \<noteq> rl"
  shows "status_line (concat cs) 200 \<and> (hi_content_length_n (rp_in r) = - 1 \<or> temp_offset u = hi_content_length_n (rp_in r))"
proof -
  let ?f = "fresh_response maj mnr hl" and ?R = "ngx_http_upstream_process_header alloc nb bsize"
  have buf: "rp_buf ?f = []" by (simp add: fresh_response_def)
  have d: "download_complete u"
    using assms(5,6) by (auto simp: ngx_http_upstream_process_request_def split: if_splits)
  from read_consumed [OF assms(1)] assms(2) buf obtain ds where ds: "?R ds ?f = Some (Us_headers r)" "ds \<noteq> []" "[] \<notin> set ds"
    "length (concat ds) \<le> bsize" "prefix (concat ds) (concat cs)" by auto
  have ne: "concat ds \<noteq> []" using ds(2,3) by (cases ds) auto
  have "rel_option same_answer (?R ds ?f) (?R [concat ds] ?f)"
    by (rule read_pieces [OF fresh_ok ds(3,2)]) (use ds(4) buf in simp)
  with ds(1) obtain r1 where r1: "?R [concat ds] ?f = Some (Us_headers r1)" "seen (NGX_OK, r) = seen (NGX_OK, r1)"
    by (auto simp: option_rel_Some1 elim: same_answer.elims)
  have code: "hi_status_n (rp_in r1) = 200"
    using d assms(3) r1(2) by (simp add: download_complete_def seen_def word_unat_eq_iff)
  obtain rc where rc: "process_header alloc nb (grow (concat ds) ?f) = Some (rc, r1)"
    using r1(1) read_one [OF ne, of ?f bsize alloc nb] ds(4) buf by (auto simp: us_round_def split: option.splits if_splits)
  from status_of_processed [OF rc code] have "status_line (concat ds) 200" .
  with status_line_prefix [OF _ ds(5)] d assms(4) show ?thesis by (auto simp: download_complete_def)
qed

lemma fail_mark_stored:
  "sc_res_flag_is_stored (ct_common (ctnt (mark_entry sc_res_flag_set_d_fail rq rl) c)) = sc_res_flag_is_stored (ct_common (ctnt rl c))"
  by (auto simp: mark_entry_def upd_defs flag_updates flag_bits flag_exp bit_simps split: option.splits)

section \<open>Properties\<close>

text \<open>C12. A written answer is read back: whatever pieces a well-formed answer arrives in, nginx finds
  its status code, every header with its value in order (and the two it adds when they are missing),
  the length announced by the last \<open>Content-Length\<close>, and the place where the body starts.\<close>

theorem answer_roundtrip:
  assumes "complete_status st c" and "written_ok hs" and "length (lowcase_header hl) = 32"
    and "concat cs = answer_text st hs body" and "[] \<notin> set cs" and "length (concat cs) \<le> bsize"
  shows "\<exists>r. ngx_http_upstream_process_header (\<lambda>_. True) nb bsize cs (fresh_response maj mnr hl) = Some (Us_headers r)
     \<and> int (unat (hi_status_n (rp_in r))) = c
     \<and> map (\<lambda>h. (elt_key h, elt_value h)) (hi_headers (rp_in r)) = header_pairs hs
          @ (if has_header ''server'' (header_pairs hs) then [] else [(''Server'', [])])
          @ (if has_header ''date'' (header_pairs hs) then [] else [(''Date'', [])])
     \<and> announced (- 1) (header_pairs hs) = Some (hi_content_length_n (rp_in r))
     \<and> drop (rp_pos r) (concat cs) = body"
  using assms by (rule answer_read_back)

theorem answer_roundtrip_witness:
  "\<exists>r. ngx_http_upstream_process_header (\<lambda>_. True) 7 4096
       [take 20 (answer_text demo_status demo_headers ''abc''), drop 20 (answer_text demo_status demo_headers ''abc'')]
       (fresh_response 1 1 demo_hl) = Some (Us_headers r)
     \<and> int (unat (hi_status_n (rp_in r))) = 200 \<and> hi_content_length_n (rp_in r) = 42
     \<and> drop (rp_pos r) (answer_text demo_status demo_headers ''abc'') = ''abc''"
proof -
  let ?t = "answer_text demo_status demo_headers ''abc''"
  have cc: "concat [take 20 ?t, drop 20 ?t] = ?t" by simp
  from answer_roundtrip [OF demo_complete demo_written demo_hl_length cc demo_pieces, of 4096 7 1 1] demo_announced
    demo_answer_length cc show ?thesis by auto
qed

text \<open>C15. Only a good answer makes an entry stored: an entry that is stored after the end of a download,
  with both hooks of nginx, and was not before, is so because the bytes received began with a status
  line with code 200 and as many bytes were stored as the last \<open>Content-Length\<close> announced, where it
  announced any. An answer with another code, or without a status line, never makes an entry stored
  (with a body it marks the entry as failed).\<close>

theorem only_ok_stored:
  assumes "ngx_http_upstream_process_header alloc nb bsize cs (fresh_response maj mnr hl) = Some (Us_headers r)"
    and "0 < bsize" and "status_n u = unat (hi_status_n (rp_in r))"
    and "content_length_n u = hi_content_length_n (rp_in r)"
    and "ngx_http_upstream_process_request rq u rl = (u1, rl1)" and "ngx_http_upstream_finalize_request rq u1 rl1 = (u2, rl2)"
    and "\<not> sc_res_flag_is_stored (ct_common (ctnt rl c))" and "sc_res_flag_is_stored (ct_common (ctnt rl2 c))"
  shows "status_line (concat cs) 200 \<and> (hi_content_length_n (rp_in r) = - 1 \<or> temp_offset u = hi_content_length_n (rp_in r))"
proof -
  have "sc_res_flag_is_stored (ct_common (ctnt rl1 c))"
    using assms(6,8) fail_mark_stored by (auto simp: ngx_http_upstream_finalize_request_def Let_def split: if_splits)
  then have "rl1 \<noteq> rl" using assms(7) by auto
  with only_ok_marked [OF assms(1-5)] show ?thesis by blast
qed

theorem only_ok_stored_witness:
  "\<exists>cs r u rl u1 rl1 u2 rl2. ngx_http_upstream_process_header (\<lambda>_. True) 7 4096 cs (fresh_response 1 1 demo_hl) = Some (Us_headers r)
     \<and> ngx_http_upstream_process_request (client_request ''127.0.0.1'' demo_content demo_path) u rl = (u1, rl1)
     \<and> ngx_http_upstream_finalize_request (client_request ''127.0.0.1'' demo_content demo_path) u1 rl1 = (u2, rl2)
     \<and> sc_res_flag_is_stored (ct_common (ctnt rl2 4095)) \<and> status_line (concat cs) 200"
proof -
  obtain cs r where r: "ngx_http_upstream_process_header (\<lambda>_. True) 7 4096 cs (fresh_response 1 1 demo_hl) = Some (Us_headers r)"
    and i: "int (unat (hi_status_n (rp_in r))) = 200" "hi_content_length_n (rp_in r) = 42" using demo_answer by metis
  obtain u where u: "status_n u = unat (hi_status_n (rp_in r))" "content_length_n u = hi_content_length_n (rp_in r)"
    and d: "download_complete u" "us_connection u" "us_store u" "upstream_eof u" "temp_file u"
  proof
    let ?u = "demo_upstream\<lparr>content_length_n := 42, temp_offset := 42\<rparr>"
    show "status_n ?u = unat (hi_status_n (rp_in r))" using i(1) by (simp add: demo_upstream_def flip: of_nat_eq_iff [where 'a = int])
  qed (simp_all add: i(2) download_complete_def demo_upstream_def)
  obtain rl u1 rl1 u2 rl2 where
    p: "ngx_http_upstream_process_request (client_request ''127.0.0.1'' demo_content demo_path) u rl = (u1, rl1)"
      "ngx_http_upstream_finalize_request (client_request ''127.0.0.1'' demo_content demo_path) u1 rl1 = (u2, rl2)"
      "\<not> sc_res_flag_is_stored (ct_common (ctnt rl 4095))" "sc_res_flag_is_stored (ct_common (ctnt rl2 4095))"
    using demo_stored [OF d] by blast
  have "status_line (concat cs) 200" by (rule conjunct1 [OF only_ok_stored [OF r _ u p]]) simp
  with r p show ?thesis by blast
qed

text \<open>C16. Pieces do not matter for an answer that begins like a status line: whatever pieces it arrives
  in, as long as it fits into the buffer, nginx comes to the same result as when all bytes arrive at
  once: it waits, refuses the answer or finds the same status, headers, flags and end of the headers.
  For an answer whose first bytes are refused as a status line this is false: it is passed on as it
  is, and then the bytes of the pieces before the one with the wrong byte are lost.\<close>

theorem answer_pieces:
  assumes "[] \<notin> set cs" and "cs \<noteq> []" and "length (concat cs) \<le> bsize"
  shows "(fst (ngx_http_parse_status_line (concat cs) 0 (rp_sl (fresh_response maj mnr hl))) \<noteq> NGX_ERROR \<longrightarrow>
       rel_option same_result (ngx_http_upstream_process_header alloc nb bsize cs (fresh_response maj mnr hl))
         (ngx_http_upstream_process_header alloc nb bsize [concat cs] (fresh_response maj mnr hl)))
     \<and> (\<exists>r r'. ngx_http_upstream_process_header alloc nb 4096 [''HT'', ''XX''] (fresh_response maj mnr hl) = Some (Us_headers r)
         \<and> ngx_http_upstream_process_header alloc nb 4096 [''HTXX''] (fresh_response maj mnr hl) = Some (Us_headers r')
         \<and> rp_pos r = 2 \<and> rp_pos r' = 0)"
proof (intro conjI impI lost_pieces)
  let ?f = "fresh_response maj mnr hl" and ?R = "ngx_http_upstream_process_header alloc nb bsize"
  assume a: "fst (ngx_http_parse_status_line (concat cs) 0 (rp_sl ?f)) \<noteq> NGX_ERROR"
  have buf: "rp_buf ?f = []" "\<not> rp_in_headers ?f" "rp_pos ?f = 0" by (simp_all add: fresh_response_def)
  have ne: "concat cs \<noteq> []" using assms(1,2) by (cases cs) auto
  have "rp_in_headers r" if "?R [concat cs] ?f = Some (Us_headers r)" for r
  proof -
    have "us_round bsize (process_header alloc nb (grow (concat cs) ?f)) = Some (Us_headers r)"
      using that read_one [OF ne, of ?f bsize alloc nb] assms(3) buf by (simp del: ngx_http_upstream_process_header.simps)
    then obtain rc where rc: "process_header alloc nb (grow (concat cs) ?f) = Some (rc, r)" "rc \<noteq> NGX_AGAIN" "rc \<noteq> NGX_ERROR"
      by (auto simp: us_round_def split: option.splits if_splits)
    show ?thesis by (rule headers_found [OF _ _ _ rc]) (use a buf in \<open>auto simp: grow_def\<close>)
  qed
  moreover have "rel_option same_answer (?R cs ?f) (?R [concat cs] ?f)"
    by (rule read_pieces [OF fresh_ok assms(1,2)]) (use assms(3) buf in simp)
  ultimately show "rel_option same_result (?R cs ?f) (?R [concat cs] ?f)"
    by (rule same_answer_result [rotated])
qed

theorem answer_pieces_witness:
  "rel_option same_result
     (ngx_http_upstream_process_header (\<lambda>_. True) 7 4096 [''HTTP/1.0 2'', ''04 x'', [LF, LF]] (fresh_response 1 1 demo_hl))
     (ngx_http_upstream_process_header (\<lambda>_. True) 7 4096 [''HTTP/1.0 204 x'' @ [LF, LF]] (fresh_response 1 1 demo_hl))"
proof -
  have "fst (ngx_http_parse_status_line (''HTTP/1.0 204 x'' @ [LF, LF]) 0 (rp_sl (fresh_response 1 1 demo_hl))) \<noteq> NGX_ERROR"
    by code_simp
  then show ?thesis
    using answer_pieces [of "[''HTTP/1.0 2'', ''04 x'', [LF, LF]]" 4096 1 1 demo_hl "\<lambda>_. True" 7] by simp
qed

text \<open>Client and nginx agree on status lines: nginx reads a status line with a code from the
  beginning of its buffer exactly when the client's own parser does.\<close>

lemma status_line_agrees:
  "(\<exists>q s. ngx_http_parse_status_line b 0 (rp_sl (fresh_response maj mnr hl)) = (NGX_OK, q, s) \<and> int (unat (st_code s)) = c)
     \<longleftrightarrow> http_parse_status_line b (int (length b)) = (0, Some c)"
proof -
  let ?s = "rp_sl (fresh_response maj mnr hl)"
  have s: "sl_at ?s = sw_start" "st_code ?s = 0" "st_count ?s = 0" by (simp_all add: fresh_response_def)
  have u: "st_code t = of_int c \<and> 0 \<le> c \<and> c \<le> 999 \<longleftrightarrow> int (unat (st_code t)) = c \<and> c \<le> 999" for t :: sl_regs
    by (auto simp: uint_word_of_int)
  have rel: "sl_rel ?s sw_start 0 0" using s by (simp add: sl_rel_def)
  have le: "c \<le> 999" if t: "scan ngx_sl_step 0 b ?s = Stopped NGX_OK q t" "int (unat (st_code t)) = c" for q t
  proof -
    from sl_scan_sim [OF rel, where p = 0 and cs = b] t(1) obtain x where
      x: "sl_run sw_start 0 0 b = (0, x)" "st_code t = of_int x" by (auto simp: parse_codes)
    from x(1) have "0 \<le> x \<and> x \<le> 999" unfolding status_line_run status_line_def using code3_range by blast
    with x(2) t(2) show ?thesis by (auto simp: uint_word_of_int)
  qed
  have "(\<exists>q s. ngx_http_parse_status_line b 0 ?s = (NGX_OK, q, s) \<and> int (unat (st_code s)) = c)
      \<longleftrightarrow> (\<exists>q t. scan ngx_sl_step 0 b ?s = Stopped NGX_OK q t \<and> int (unat (st_code t)) = c)"
    by (cases "scan ngx_sl_step 0 b ?s") (auto simp: ngx_http_parse_status_line_def parse_codes)
  also have "\<dots> \<longleftrightarrow> status_line b c"
    unfolding status_line_scan [OF s, of 0 b c, symmetric] using u le by blast
  also have "\<dots> \<longleftrightarrow> http_parse_status_line b (int (length b)) = (0, Some c)"
    by (rule parse_status_line_grammar [symmetric])
  finally show ?thesis .
qed

end
