(* ===== verification/Ngx_Uri.thy ===== *)
theory Ngx_Uri
  imports Ngx_Response
begin

text \<open>
  How nginx takes a request line apart: \<open>ngx_http_parse_request_line\<close> and
  \<open>ngx_http_parse_complex_uri\<close> of \<^verbatim>\<open>nginx-1.5.13/src/http/ngx_http_parse.c\<close>, and
  \<open>ngx_http_process_request_uri\<close> of \<^verbatim>\<open>ngx_http_request.c\<close>. The parser of the line remembers positions
  in the buffer and whether the URI has to be decoded; a pointer is an index or \<open>None\<close> for NULL. The
  parts compiled for Windows only are left out, and so is \<open>port_end\<close>, which is set and never read. What
  a URI can name is settled in \<open>Ngx_Request\<close>: it has no \<open>..\<close> between two slashes (one at its very end,
  behind the last slash, is left as it stands).
\<close>

section \<open>The request line\<close>

definition NGX_HTTP_PARSE_INVALID_METHOD :: int where "NGX_HTTP_PARSE_INVALID_METHOD = 10"
definition NGX_HTTP_PARSE_INVALID_REQUEST :: int where "NGX_HTTP_PARSE_INVALID_REQUEST = 11"
definition NGX_HTTP_PARSE_INVALID_09_METHOD :: int where "NGX_HTTP_PARSE_INVALID_09_METHOD = 12"
definition NGX_HTTP_UNKNOWN :: nat where "NGX_HTTP_UNKNOWN = 0x0001"
definition NGX_HTTP_GET :: nat where "NGX_HTTP_GET = 0x0002"

lemmas request_codes = NGX_HTTP_PARSE_INVALID_METHOD_def NGX_HTTP_PARSE_INVALID_REQUEST_def
  NGX_HTTP_PARSE_INVALID_09_METHOD_def parse_codes

text \<open>The bit table of the characters that need no attention.\<close>

definition usual_bits :: "32 word list" where
  "usual_bits = [0xffffdbfe, 0x7fff37d6, 0xffffffff, 0xffffffff, 0xffffffff, 0xffffffff, 0xffffffff, 0xffffffff]"

definition usual :: "char \<Rightarrow> bool" where
  "usual ch = bit (usual_bits ! (ord ch div 32)) (ord ch mod 32)"

datatype rl_state =
    rs_start | rs_method | rs_spaces_before_uri | rs_schema | rs_schema_slash | rs_schema_slash_slash
  | rs_host_start | rs_host | rs_host_end | rs_host_ip_literal | rs_port | rs_host_http_09
  | rs_after_slash_in_uri | rs_check_uri | rs_check_uri_http_09 | rs_uri | rs_http_09
  | rs_http_H | rs_http_HT | rs_http_HTT | rs_http_HTTP | rs_first_major_digit | rs_major_digit
  | rs_first_minor_digit | rs_minor_digit | rs_spaces_after_digit | rs_almost_done

record rq_regs =
  rq_at :: rl_state
  rq_method :: nat
  rq_major :: "16 word"
  rq_minor :: "16 word"
  rq_version :: ulong
  request_start :: "nat option"
  request_stop :: "nat option"
  method_stop :: "nat option"
  uri_first :: "nat option"
  uri_stop :: "nat option"
  uri_ext :: "nat option"
  args_start :: "nat option"
  schema_start :: "nat option"
  schema_stop :: "nat option"
  host_start :: "nat option"
  host_stop :: "nat option"
  http_protocol :: "nat option"
  complex_uri :: bool
  quoted_uri :: bool
  plus_in_uri :: bool
  space_in_uri :: bool

text \<open>The methods are told apart by length and then byte by byte.\<close>

definition method_codes :: "(string \<times> nat) list" where
  "method_codes = [(''GET'', 0x0002), (''PUT'', 0x0010), (''POST'', 0x0008), (''COPY'', 0x0080), (''MOVE'', 0x0100),
     (''LOCK'', 0x1000), (''HEAD'', 0x0004), (''MKCOL'', 0x0040), (''PATCH'', 0x4000), (''TRACE'', 0x8000),
     (''DELETE'', 0x0020), (''UNLOCK'', 0x2000), (''OPTIONS'', 0x0200), (''PROPFIND'', 0x0400), (''PROPPATCH'', 0x0800)]"

definition refuse :: "rq_regs \<Rightarrow> rq_regs scan_step" where
  "refuse s = Leave NGX_HTTP_PARSE_INVALID_REQUEST s"

definition rl_goto :: "rl_state \<Rightarrow> rq_regs \<Rightarrow> rq_regs scan_step" where
  "rl_goto q s = Go (s\<lparr>rq_at := q\<rparr>)"

definition rl_expect :: "char \<Rightarrow> rl_state \<Rightarrow> char \<Rightarrow> rq_regs \<Rightarrow> rq_regs scan_step" where
  "rl_expect c q ch s = (if ch = c then rl_goto q s else refuse s)"

definition letter :: "char \<Rightarrow> bool" where
  "letter ch \<longleftrightarrow> isupper ch \<or> islower ch"

definition method_char :: "char \<Rightarrow> bool" where
  "method_char ch \<longleftrightarrow> isupper ch \<or> ch = CHR ''_''"

definition rl_method_step :: "string \<Rightarrow> nat \<Rightarrow> char \<Rightarrow> rq_regs \<Rightarrow> rq_regs scan_step" where
  "rl_method_step b p ch s = (case rq_at s of
      rs_start \<Rightarrow>
        let s1 = s\<lparr>request_start := Some p\<rparr> in
        if ch = CR \<or> ch = LF then Go s1
        else if \<not> method_char ch then Leave NGX_HTTP_PARSE_INVALID_METHOD s1
        else rl_goto rs_method s1
    | _ \<Rightarrow>
        if ch = CHR '' '' then
          let m = the (request_start s);
              s1 = s\<lparr>method_stop := Some (p - 1)\<rparr>
          in rl_goto rs_spaces_before_uri
               (case map_of method_codes (cut b m p) of None \<Rightarrow> s1 | Some c \<Rightarrow> s1\<lparr>rq_method := c\<rparr>)
        else if \<not> method_char ch then Leave NGX_HTTP_PARSE_INVALID_METHOD s
        else Go s)"

definition rl_schema_step :: "nat \<Rightarrow> char \<Rightarrow> rq_regs \<Rightarrow> rq_regs scan_step" where
  "rl_schema_step p ch s = (case rq_at s of
      rs_spaces_before_uri \<Rightarrow>
        if ch = CHR ''/'' then rl_goto rs_after_slash_in_uri (s\<lparr>uri_first := Some p\<rparr>)
        else if letter ch then rl_goto rs_schema (s\<lparr>schema_start := Some p\<rparr>)
        else if ch = CHR '' '' then Go s
        else refuse s
    | rs_schema \<Rightarrow>
        if letter ch then Go s
        else if ch = CHR '':'' then rl_goto rs_schema_slash (s\<lparr>schema_stop := Some p\<rparr>)
        else refuse s
    | rs_schema_slash \<Rightarrow> rl_expect (CHR ''/'') rs_schema_slash_slash ch s
    | _ \<Rightarrow> rl_expect (CHR ''/'') rs_host_start ch s)"

text \<open>After the host, or the port, of an absolute URI without a path the URI is one of the slashes
  of the schema.\<close>

definition slash_of_schema :: "rq_regs \<Rightarrow> rq_regs" where
  "slash_of_schema s = s\<lparr>uri_first := map_option (\<lambda>e. e + 1) (schema_stop s),
     uri_stop := map_option (\<lambda>e. e + 2) (schema_stop s)\<rparr>"

definition rl_host_end :: "nat \<Rightarrow> char \<Rightarrow> rq_regs \<Rightarrow> rq_regs scan_step" where
  "rl_host_end p ch s0 =
     (let s = s0\<lparr>host_stop := Some p\<rparr> in
      if ch = CHR '':'' then rl_goto rs_port s
      else if ch = CHR ''/'' then rl_goto rs_after_slash_in_uri (s\<lparr>uri_first := Some p\<rparr>)
      else if ch = CHR '' '' then rl_goto rs_host_http_09 (slash_of_schema s)
      else refuse s)"

definition rl_host :: "nat \<Rightarrow> char \<Rightarrow> rq_regs \<Rightarrow> rq_regs scan_step" where
  "rl_host p ch s =
     (if letter ch \<or> isdigit ch \<or> ch = CHR ''.'' \<or> ch = CHR ''-'' then Go s else rl_host_end p ch s)"

definition ip_literal_char :: "char \<Rightarrow> bool" where
  "ip_literal_char ch \<longleftrightarrow> isdigit ch \<or> letter ch \<or> ch \<in> set '':-._~!$&()*+,;='' \<or> ord ch = 39"

definition rl_09_step :: "nat \<Rightarrow> char \<Rightarrow> rq_regs \<Rightarrow> rq_regs scan_step \<Rightarrow> rq_regs scan_step" where
  "rl_09_step p ch s other =
     (if ch = CHR '' '' then Go s
      else if ch = CR then rl_goto rs_almost_done (s\<lparr>rq_minor := 9\<rparr>)
      else if ch = LF then Leave NGX_OK (s\<lparr>rq_minor := 9\<rparr>)
      else if ch = CHR ''H'' then rl_goto rs_http_H (s\<lparr>http_protocol := Some p\<rparr>)
      else other)"

definition rl_host_step :: "nat \<Rightarrow> char \<Rightarrow> rq_regs \<Rightarrow> rq_regs scan_step" where
  "rl_host_step p ch s = (case rq_at s of
      rs_host_start \<Rightarrow>
        let s1 = s\<lparr>host_start := Some p\<rparr> in
        if ch = CHR ''['' then rl_goto rs_host_ip_literal s1 else rl_host p ch (s1\<lparr>rq_at := rs_host\<rparr>)
    | rs_host \<Rightarrow> rl_host p ch s
    | rs_host_end \<Rightarrow> rl_host_end p ch s
    | rs_host_ip_literal \<Rightarrow>
        if ip_literal_char ch then Go s
        else if ch = CHR '']'' then rl_goto rs_host_end s
        else refuse s
    | rs_port \<Rightarrow>
        if isdigit ch then Go s
        else if ch = CHR ''/'' then rl_goto rs_after_slash_in_uri (s\<lparr>uri_first := Some p\<rparr>)
        else if ch = CHR '' '' then rl_goto rs_host_http_09 (slash_of_schema s)
        else refuse s
    | _ \<Rightarrow> rl_09_step p ch s (refuse s))"

text \<open>The end of the URI, by a carriage return or a line feed.\<close>

definition uri_line_end :: "nat \<Rightarrow> char \<Rightarrow> rq_regs \<Rightarrow> rq_regs scan_step" where
  "uri_line_end p ch s =
     (let s1 = s\<lparr>uri_stop := Some p, rq_minor := 9\<rparr> in
      if ch = CR then rl_goto rs_almost_done s1 else Leave NGX_OK s1)"

definition rl_after_slash :: "nat \<Rightarrow> char \<Rightarrow> rq_regs \<Rightarrow> rq_regs scan_step" where
  "rl_after_slash p ch s =
     (if usual ch then rl_goto rs_check_uri s
      else if ch = CHR '' '' then rl_goto rs_check_uri_http_09 (s\<lparr>uri_stop := Some p\<rparr>)
      else if ch = CR \<or> ch = LF then uri_line_end p ch s
      else if ch = CHR ''.'' \<or> ch = CHR ''/'' \<or> ch = CHR ''#'' then rl_goto rs_uri (s\<lparr>complex_uri := True\<rparr>)
      else if ch = CHR ''%'' then rl_goto rs_uri (s\<lparr>quoted_uri := True\<rparr>)
      else if ch = CHR ''?'' then rl_goto rs_uri (s\<lparr>args_start := Some (p + 1)\<rparr>)
      else if ch = CHR ''+'' then Go (s\<lparr>plus_in_uri := True\<rparr>)
      else if ch = NUL then refuse s
      else rl_goto rs_check_uri s)"

definition rl_check_uri :: "nat \<Rightarrow> char \<Rightarrow> rq_regs \<Rightarrow> rq_regs scan_step" where
  "rl_check_uri p ch s =
     (if usual ch then Go s
      else if ch = CHR ''/'' then rl_goto rs_after_slash_in_uri (s\<lparr>uri_ext := None\<rparr>)
      else if ch = CHR ''.'' then Go (s\<lparr>uri_ext := Some (p + 1)\<rparr>)
      else if ch = CHR '' '' then rl_goto rs_check_uri_http_09 (s\<lparr>uri_stop := Some p\<rparr>)
      else if ch = CR \<or> ch = LF then uri_line_end p ch s
      else if ch = CHR ''%'' then rl_goto rs_uri (s\<lparr>quoted_uri := True\<rparr>)
      else if ch = CHR ''?'' then rl_goto rs_uri (s\<lparr>args_start := Some (p + 1)\<rparr>)
      else if ch = CHR ''#'' then rl_goto rs_uri (s\<lparr>complex_uri := True\<rparr>)
      else if ch = CHR ''+'' then Go (s\<lparr>plus_in_uri := True\<rparr>)
      else if ch = NUL then refuse s
      else Go s)"

definition rl_uri :: "nat \<Rightarrow> char \<Rightarrow> rq_regs \<Rightarrow> rq_regs scan_step" where
  "rl_uri p ch s =
     (if usual ch then Go s
      else if ch = CHR '' '' then rl_goto rs_http_09 (s\<lparr>uri_stop := Some p\<rparr>)
      else if ch = CR \<or> ch = LF then uri_line_end p ch s
      else if ch = CHR ''#'' then Go (s\<lparr>complex_uri := True\<rparr>)
      else if ch = NUL then refuse s
      else Go s)"

text \<open>A byte that turns out to belong to the URI after a space is looked at again (\<open>p--\<close>).\<close>

definition rl_uri_step :: "nat \<Rightarrow> char \<Rightarrow> rq_regs \<Rightarrow> rq_regs scan_step" where
  "rl_uri_step p ch s = (case rq_at s of
      rs_after_slash_in_uri \<Rightarrow> rl_after_slash p ch s
    | rs_check_uri \<Rightarrow> rl_check_uri p ch s
    | rs_check_uri_http_09 \<Rightarrow> rl_09_step p ch s (rl_check_uri p ch (s\<lparr>space_in_uri := True, rq_at := rs_check_uri\<rparr>))
    | rs_uri \<Rightarrow> rl_uri p ch s
    | _ \<Rightarrow> rl_09_step p ch s (rl_uri p ch (s\<lparr>space_in_uri := True, rq_at := rs_uri\<rparr>)))"

definition rl_version_step :: "nat \<Rightarrow> char \<Rightarrow> rq_regs \<Rightarrow> rq_regs scan_step" where
  "rl_version_step p ch s = (case rq_at s of
      rs_http_H \<Rightarrow> rl_expect (CHR ''T'') rs_http_HT ch s
    | rs_http_HT \<Rightarrow> rl_expect (CHR ''T'') rs_http_HTT ch s
    | rs_http_HTT \<Rightarrow> rl_expect (CHR ''P'') rs_http_HTTP ch s
    | rs_http_HTTP \<Rightarrow> rl_expect (CHR ''/'') rs_first_major_digit ch s
    | rs_first_major_digit \<Rightarrow>
        if ord ch < 49 \<or> 57 < ord ch then refuse s
        else rl_goto rs_major_digit (s\<lparr>rq_major := dig ch\<rparr>)
    | rs_major_digit \<Rightarrow>
        if ch = CHR ''.'' then rl_goto rs_first_minor_digit s
        else if ord ch < 48 \<or> 57 < ord ch then refuse s
        else Go (s\<lparr>rq_major := rq_major s * 10 + dig ch\<rparr>)
    | rs_first_minor_digit \<Rightarrow>
        if ord ch < 48 \<or> 57 < ord ch then refuse s
        else rl_goto rs_minor_digit (s\<lparr>rq_minor := dig ch\<rparr>)
    | rs_minor_digit \<Rightarrow>
        if ch = CR then rl_goto rs_almost_done s
        else if ch = LF then Leave NGX_OK s
        else if ch = CHR '' '' then rl_goto rs_spaces_after_digit s
        else if ord ch < 48 \<or> 57 < ord ch then refuse s
        else Go (s\<lparr>rq_minor := rq_minor s * 10 + dig ch\<rparr>)
    | rs_spaces_after_digit \<Rightarrow>
        if ch = CHR '' '' then Go s
        else if ch = CR then rl_goto rs_almost_done s
        else if ch = LF then Leave NGX_OK s
        else refuse s
    | _ \<Rightarrow>
        let s1 = s\<lparr>request_stop := Some (p - 1)\<rparr> in
        if ch = LF then Leave NGX_OK s1 else refuse s1)"

definition ngx_rl_step :: "string \<Rightarrow> nat \<Rightarrow> char \<Rightarrow> rq_regs \<Rightarrow> rq_regs scan_step" where
  "ngx_rl_step b p ch s =
     (if rq_at s \<in> {rs_start, rs_method} then rl_method_step b p ch s
      else if rq_at s \<in> {rs_spaces_before_uri, rs_schema, rs_schema_slash, rs_schema_slash_slash} then rl_schema_step p ch s
      else if rq_at s \<in> {rs_host_start, rs_host, rs_host_end, rs_host_ip_literal, rs_port, rs_host_http_09} then rl_host_step p ch s
      else if rq_at s \<in> {rs_after_slash_in_uri, rs_check_uri, rs_check_uri_http_09, rs_uri, rs_http_09} then rl_uri_step p ch s
      else rl_version_step p ch s)"

definition ngx_http_parse_request_line :: "string \<Rightarrow> nat \<Rightarrow> rq_regs \<Rightarrow> int \<times> nat \<times> rq_regs" where
  "ngx_http_parse_request_line b pos s = (case scan (ngx_rl_step b) pos (drop pos b) s of
      Again p s' \<Rightarrow> (NGX_AGAIN, p, s')
    | Stopped rc p s' \<Rightarrow>
        if rc = NGX_OK then
          let s1 = s'\<lparr>request_stop := Some (case request_stop s' of None \<Rightarrow> p | Some e \<Rightarrow> e),
                     rq_version := of_nat (unat (rq_major s') * 1000 + unat (rq_minor s')), rq_at := rs_start\<rparr>
          in (if rq_version s1 = 9 \<and> rq_method s1 \<noteq> NGX_HTTP_GET then NGX_HTTP_PARSE_INVALID_09_METHOD else NGX_OK, Suc p, s1)
        else (rc, pos, s'\<lparr>rq_at := rq_at s\<rparr>))"

definition fresh_request :: rq_regs where
  "fresh_request = \<lparr>rq_at = rs_start, rq_method = NGX_HTTP_UNKNOWN, rq_major = 0, rq_minor = 0, rq_version = 0,
     request_start = None, request_stop = None, method_stop = None, uri_first = None, uri_stop = None, uri_ext = None,
     args_start = None, schema_start = None, schema_stop = None, host_start = None, host_stop = None,
     http_protocol = None, complex_uri = False, quoted_uri = False, plus_in_uri = False, space_in_uri = False\<rparr>"

section \<open>URIs that have to be decoded\<close>

text \<open>The URI is copied to a buffer of its own: percent escapes are decoded, \<open>.\<close> and \<open>..\<close> are resolved,
  and slashes in a row become one when \<open>merge_slashes\<close> is set. \<open>cu_out\<close> is what has been written;
  \<open>cu_ext\<close> is an index into it and \<open>cu_args\<close> one into the URI.\<close>

datatype cu_state = cs_usual | cs_slash | cs_dot | cs_dot_dot | cs_quoted | cs_quoted_second

record cu_regs =
  cu_at :: cu_state
  cu_quoted_state :: cu_state
  cu_decoded :: nat
  cu_out :: string
  cu_ext :: "nat option"
  cu_args :: "nat option"
  cu_quoted :: bool
  cu_plus :: bool

definition cu_refuse :: "cu_regs \<Rightarrow> cu_regs scan_step" where
  "cu_refuse s = Leave NGX_HTTP_PARSE_INVALID_REQUEST s"

definition cu_put :: "cu_state \<Rightarrow> char \<Rightarrow> cu_regs \<Rightarrow> cu_regs scan_step" where
  "cu_put q ch s = Go (s\<lparr>cu_at := q, cu_out := cu_out s @ [ch]\<rparr>)"

text \<open>A slash after \<open>..\<close>: the pointer goes back five bytes and from there to the slash before. It must
  not pass the start of the buffer.\<close>

definition cu_back :: "cu_regs \<Rightarrow> cu_regs scan_step" where
  "cu_back s = (let v = dropWhile (\<lambda>c. c \<noteq> CHR ''/'') (rev (take (length (cu_out s) - 4) (cu_out s))) in
     if v = [] then cu_refuse s else Go (s\<lparr>cu_at := cs_slash, cu_out := rev v\<rparr>))"

text \<open>What the four states that copy have in common; \<open>sl\<close> and \<open>dot\<close> are their cases for a slash and for
  a dot.\<close>

definition cu_copy :: "cu_regs scan_step \<Rightarrow> cu_regs scan_step \<Rightarrow> nat \<Rightarrow> char \<Rightarrow> cu_regs \<Rightarrow> cu_regs scan_step" where
  "cu_copy sl dot p ch s =
     (if usual ch then cu_put cs_usual ch s
      else if ch = CHR ''/'' then sl
      else if ch = CHR ''.'' then dot
      else if ch = CHR ''%'' then Go (s\<lparr>cu_quoted_state := cu_at s, cu_at := cs_quoted\<rparr>)
      else if ch = CHR ''?'' then Leave NGX_OK (s\<lparr>cu_args := Some (p + 1)\<rparr>)
      else if ch = CHR ''#'' then Leave NGX_OK s
      else cu_put cs_usual ch (if ch = CHR ''+'' then s\<lparr>cu_plus := True\<rparr> else s))"

definition cu_copy_step :: "bool \<Rightarrow> nat \<Rightarrow> char \<Rightarrow> cu_regs \<Rightarrow> cu_regs scan_step" where
  "cu_copy_step merge_slashes p ch s = (case cu_at s of
      cs_usual \<Rightarrow> cu_copy (cu_put cs_slash ch (s\<lparr>cu_ext := None\<rparr>))
                    (cu_put cs_usual ch (s\<lparr>cu_ext := Some (length (cu_out s) + 1)\<rparr>)) p ch s
    | cs_slash \<Rightarrow> cu_copy (if merge_slashes then Go s else cu_put cs_slash ch s) (cu_put cs_dot ch s) p ch s
    | cs_dot \<Rightarrow> cu_copy (Go (s\<lparr>cu_at := cs_slash, cu_out := butlast (cu_out s)\<rparr>)) (cu_put cs_dot_dot ch s) p ch s
    | _ \<Rightarrow> cu_copy (cu_back s) (cu_put cs_usual ch s) p ch s)"

definition hex_of :: "char \<Rightarrow> nat option" where
  "hex_of ch = (if isdigit ch then Some (ord ch - 48)
     else if 97 \<le> ord (ngx_tolower ch) \<and> ord (ngx_tolower ch) \<le> 102 then Some (ord (ngx_tolower ch) - 87) else None)"

text \<open>After the second digit the decoded byte is looked at in the state the escape was found in, except
  that an escaped percent sign, hash or question mark is copied.\<close>

definition ngx_cu_step :: "bool \<Rightarrow> nat \<Rightarrow> char \<Rightarrow> cu_regs \<Rightarrow> cu_regs scan_step" where
  "ngx_cu_step merge_slashes p ch s = (case cu_at s of
      cs_quoted \<Rightarrow>
        let s1 = s\<lparr>cu_quoted := True\<rparr> in
        (case hex_of ch of None \<Rightarrow> cu_refuse s1 | Some d \<Rightarrow> Go (s1\<lparr>cu_decoded := d, cu_at := cs_quoted_second\<rparr>))
    | cs_quoted_second \<Rightarrow>
        (case hex_of ch of
           None \<Rightarrow> cu_refuse s
         | Some d \<Rightarrow>
             let c = char_of (cu_decoded s * 16 + d) in
             if c = CHR ''%'' \<or> c = CHR ''#'' \<or> c = CHR ''?'' then cu_put cs_usual c s
             else if c = NUL then cu_refuse s
             else cu_copy_step merge_slashes p c
                    (s\<lparr>cu_at := cu_quoted_state s, cu_plus := cu_plus s \<or> c = CHR ''+''\<rparr>))
    | _ \<Rightarrow> cu_copy_step merge_slashes p ch s)"

text \<open>On the text of the URI. The result is the decoded URI, its extension and the arguments: the part
  after a question mark up to a hash, or nothing.\<close>

record uri_parts =
  ru_uri :: string
  ru_args :: "(nat \<times> nat) option"
  ru_exten :: "string option"
  ru_unparsed :: string
  ru_valid_unparsed :: bool
  ru_plus :: bool
  ru_quoted :: bool

definition ngx_http_parse_complex_uri :: "bool \<Rightarrow> string \<Rightarrow> bool \<Rightarrow> bool \<Rightarrow> (int \<times> cu_regs)" where
  "ngx_http_parse_complex_uri merge_slashes t quoted pl =
     (case scan (ngx_cu_step merge_slashes) 0 t
        \<lparr>cu_at = cs_usual, cu_quoted_state = cs_usual, cu_decoded = 0, cu_out = [], cu_ext = None, cu_args = None,
         cu_quoted = quoted, cu_plus = pl\<rparr> of
        Again p s \<Rightarrow> (NGX_OK, s)
      | Stopped rc p s \<Rightarrow> (rc, s))"

section \<open>The parts of a URI\<close>

text \<open>\<open>ngx_http_process_request_uri\<close>: the decoded URI, the arguments as a range of the buffer, the
  extension. The codes stand for a request that is closed with an internal error or refused.\<close>

definition NGX_HTTP_BAD_REQUEST :: int where "NGX_HTTP_BAD_REQUEST = 400"

definition args_range :: "nat option \<Rightarrow> nat \<Rightarrow> (nat \<times> nat) option" where
  "args_range a e = (case a of None \<Rightarrow> None | Some i \<Rightarrow> if i < e then Some (i, e) else None)"

definition ngx_http_process_request_uri :: "bool \<Rightarrow> bool \<Rightarrow> string \<Rightarrow> rq_regs \<Rightarrow> int + uri_parts" where
  "ngx_http_process_request_uri mem merge_slashes b s =
     (let i = the (uri_first s);
          e = the (uri_stop s);
          stop = (case args_start s of Some a \<Rightarrow> a - 1 | None \<Rightarrow> e);
          t = cut b i e
      in if complex_uri s \<or> quoted_uri s then
           if \<not> mem then Inl NGX_HTTP_INTERNAL_SERVER_ERROR
           else case ngx_http_parse_complex_uri merge_slashes t (quoted_uri s) (plus_in_uri s) of (rc, c) \<Rightarrow>
             if rc \<noteq> NGX_OK then Inl NGX_HTTP_BAD_REQUEST
             else Inr \<lparr>ru_uri = cu_out c,
               ru_args = (case cu_args c of
                   None \<Rightarrow> None
                 | Some a \<Rightarrow> if CHR ''#'' \<in> set (drop a t) then Some (i + a, i + a + length (takeWhile (\<lambda>x. x \<noteq> CHR ''#'') (drop a t)))
                             else args_range (Some (i + a)) e),
               ru_exten = map_option (\<lambda>x. drop x (cu_out c)) (cu_ext c),
               ru_unparsed = t, ru_valid_unparsed = (\<not> space_in_uri s), ru_plus = cu_plus c, ru_quoted = cu_quoted c\<rparr>
         else Inr \<lparr>ru_uri = cut b i stop, ru_args = args_range (args_start s) e,
             ru_exten = map_option (\<lambda>x. cut b x stop) (uri_ext s),
             ru_unparsed = t, ru_valid_unparsed = (\<not> space_in_uri s), ru_plus = plus_in_uri s, ru_quoted = quoted_uri s\<rparr>)"

section \<open>Scanning with an invariant\<close>

lemma scan_invariant:
  assumes "\<And>p s. p < length b \<Longrightarrow> I p s \<Longrightarrow> (case f p (b ! p) s of Go s' \<Rightarrow> I (Suc p) s' | Leave rc s' \<Rightarrow> Q rc p s')"
    and "I pos s" and "pos \<le> length b"
  shows "case scan f pos (drop pos b) s of Again p s' \<Rightarrow> I p s' | Stopped rc p s' \<Rightarrow> Q rc p s'"
  using assms(2,3)
proof (induction "drop pos b" arbitrary: pos s)
  case Nil
  from Nil.hyps [symmetric] Nil.prems show ?case by simp
next
  case (Cons c cs)
  from Cons.hyps(2) have p: "pos < length b" "c = b ! pos" "cs = drop (Suc pos) b"
    by (metis drop_eq_Nil list.discI not_le, metis Cons_nth_drop_Suc drop_eq_Nil list.discI list.inject not_le,
        metis Cons_nth_drop_Suc drop_eq_Nil list.discI list.inject not_le)
  show ?case
  proof (cases "f pos c s")
    case (Go s')
    with assms(1) [OF p(1) Cons.prems(1)] p have "I (Suc pos) s'" by simp
    from Cons.hyps(1) [OF p(3) this] p Go show ?thesis by (simp flip: Cons.hyps(2))
  next
    case (Leave rc s')
    with assms(1) [OF p(1) Cons.prems(1)] p show ?thesis by (simp flip: Cons.hyps(2))
  qed
qed

lemma usual_bit:
  "bit (0xffffdbfe :: 32 word) k \<longleftrightarrow> k < 32 \<and> k \<notin> {0, 10, 13}"
  "bit (0x7fff37d6 :: 32 word) k \<longleftrightarrow> k < 32 \<and> k \<notin> {0, 3, 5, 11, 14, 15, 31}"
  "bit (0xffffffff :: 32 word) k \<longleftrightarrow> k < 32"
proof -
  have "(0xffffdbfe :: 32 word) = not (or 1 (or (push_bit 10 1) (push_bit 13 1)))" by simp
  then show "bit (0xffffdbfe :: 32 word) k \<longleftrightarrow> k < 32 \<and> k \<notin> {0, 10, 13}"
    by (simp only: bit_not_iff bit_or_iff bit_push_bit_iff bit_1_iff) auto
  have "(0x7fff37d6 :: 32 word) = not (or 1 (or (push_bit 3 1) (or (push_bit 5 1) (or (push_bit 11 1)
          (or (push_bit 14 1) (or (push_bit 15 1) (push_bit 31 1)))))))" by simp
  then show "bit (0x7fff37d6 :: 32 word) k \<longleftrightarrow> k < 32 \<and> k \<notin> {0, 3, 5, 11, 14, 15, 31}"
    by (simp only: bit_not_iff bit_or_iff bit_push_bit_iff bit_1_iff) auto
  have "(0xffffffff :: 32 word) = not 0" by simp
  then show "bit (0xffffffff :: 32 word) k \<longleftrightarrow> k < 32" by (simp only: bit_not_iff) simp
qed

lemma char_eq_ord: "ch = c \<longleftrightarrow> ord ch = ord c"
  by (simp add: ord_def)

lemma usual_low: "ord ch < 32 \<Longrightarrow> usual ch \<longleftrightarrow> ord ch \<notin> {0, 10, 13}"
proof -
  assume a: "ord ch < 32"
  then have "usual ch \<longleftrightarrow> bit (0xffffdbfe :: 32 word) (ord ch)" by (simp add: usual_def usual_bits_def)
  with a usual_bit(1) [of "ord ch"] show ?thesis by blast
qed

lemma usual_mid: "32 \<le> ord ch \<Longrightarrow> ord ch < 64 \<Longrightarrow> usual ch \<longleftrightarrow> ord ch \<notin> {32, 35, 37, 43, 46, 47, 63}"
proof -
  assume a: "32 \<le> ord ch" "ord ch < 64"
  then have "ord ch div 32 = 1" "ord ch mod 32 = ord ch - 32" by (simp_all add: div_nat_eqI mod_nat_eqI)
  then have "usual ch \<longleftrightarrow> bit (0x7fff37d6 :: 32 word) (ord ch - 32)" by (simp only: usual_def usual_bits_def) simp
  also have "\<dots> \<longleftrightarrow> ord ch - 32 \<notin> {0, 3, 5, 11, 14, 15, 31}" using a usual_bit(2) [of "ord ch - 32"] by linarith
  also have "\<dots> \<longleftrightarrow> ord ch \<notin> {32, 35, 37, 43, 46, 47, 63}" using a by auto
  finally show ?thesis .
qed

lemma usual_high: "64 \<le> ord ch \<Longrightarrow> usual ch"
proof -
  assume a: "64 \<le> ord ch"
  moreover have "ord ch < 256" by (simp add: ord_def)
  ultimately have "ord ch div 32 = 2 \<or> ord ch div 32 = 3 \<or> ord ch div 32 = 4 \<or> ord ch div 32 = 5 \<or> ord ch div 32 = 6 \<or> ord ch div 32 = 7"
    by linarith
  then have "usual_bits ! (ord ch div 32) = 0xffffffff" by (elim disjE) (simp_all add: usual_bits_def)
  with usual_bit(3) [of "ord ch mod 32"] show "usual ch" by (simp add: usual_def)
qed

lemma usual_iff: "usual ch \<longleftrightarrow> ch \<notin> {NUL, LF, CR, CHR '' '', CHR ''#'', CHR ''%'', CHR ''+'', CHR ''.'', CHR ''/'', CHR ''?''}"
proof -
  have "usual ch \<longleftrightarrow> ord ch \<notin> {0, 10, 13, 32, 35, 37, 43, 46, 47, 63}"
  proof -
    consider "ord ch < 32" | "32 \<le> ord ch" "ord ch < 64" | "64 \<le> ord ch" by linarith
    then show ?thesis using usual_low [of ch] usual_mid [of ch] usual_high [of ch] by cases simp_all
  qed
  then show ?thesis unfolding insert_iff empty_iff char_eq_ord [of ch] by (simp add: ord_def)
qed

section \<open>Decoded URIs stay below the root\<close>

text \<open>What has been written never has \<open>..\<close> between two slashes, begins with a slash, and ends as the
  state says. The state behind an escape is the one the escape was found in.\<close>

definition cu_here :: "cu_regs \<Rightarrow> cu_state" where
  "cu_here s = (if cu_at s \<in> {cs_quoted, cs_quoted_second} then cu_quoted_state s else cu_at s)"

definition cu_end :: "cu_state \<Rightarrow> string \<Rightarrow> bool" where
  "cu_end q w = (case q of
      cs_slash \<Rightarrow> take 1 w = ''/''
    | cs_dot \<Rightarrow> take 2 w = ''./''
    | cs_dot_dot \<Rightarrow> take 3 w = ''../''
    | _ \<Rightarrow> take 1 w \<noteq> ''/'' \<and> take 2 w \<noteq> ''./'' \<and> take 3 w \<noteq> ''../'')"

definition cu_ok :: "cu_regs \<Rightarrow> bool" where
  "cu_ok s \<longleftrightarrow> take 1 (cu_out s) = ''/'' \<and> \<not> contains (cu_out s) ''/../'' \<and> cu_here s \<notin> {cs_quoted, cs_quoted_second}
     \<and> cu_end (cu_here s) (rev (cu_out s))"

lemma contains_snoc: "contains (t @ [c]) w \<longleftrightarrow> contains t w \<or> take (length w) (rev (t @ [c])) = rev w" if "w \<noteq> []"
proof -
  have "take (length w) (rev (t @ [c])) = rev w \<longleftrightarrow> (\<exists>a. t @ [c] = a @ w)"
  proof
    assume "take (length w) (rev (t @ [c])) = rev w"
    then have "rev (t @ [c]) = rev w @ drop (length w) (rev (t @ [c]))" by (metis append_take_drop_id)
    then show "\<exists>a. t @ [c] = a @ w" by (metis rev_append rev_rev_ident)
  next
    assume "\<exists>a. t @ [c] = a @ w"
    then obtain a where "rev (t @ [c]) = rev w @ rev a" by (metis rev_append)
    then show "take (length w) (rev (t @ [c])) = rev w" by (simp only:) simp
  qed
  moreover have "contains (t @ [c]) w \<longleftrightarrow> contains t w \<or> (\<exists>a. t @ [c] = a @ w)"
    unfolding contains_iff
  proof
    assume "\<exists>pre post. t @ [c] = pre @ w @ post"
    then obtain pre post where e: "t @ [c] = pre @ w @ post" by blast
    show "(\<exists>pre post. t = pre @ w @ post) \<or> (\<exists>a. t @ [c] = a @ w)"
    proof (cases post rule: rev_cases)
      case Nil with e show ?thesis by auto
    next
      case (snoc q x) with e show ?thesis by (auto simp flip: append_assoc)
    qed
  qed (metis append.assoc append_Nil2)
  ultimately show ?thesis by simp
qed

lemma contains_prefix: "contains a w \<Longrightarrow> prefix a b \<Longrightarrow> contains b w"
  by (auto simp: prefix_def contains_append1)

lemma cu_put_ok:
  assumes "cu_ok s" and "cu_out s1 = cu_out s" and "q \<notin> {cs_quoted, cs_quoted_second}"
    and "cu_end q (ch # rev (cu_out s))" and "ch = CHR ''/'' \<Longrightarrow> take 3 (rev (cu_out s)) \<noteq> ''../''"
  shows "\<exists>s2. cu_put q ch s1 = Go s2 \<and> cu_ok s2"
proof -
  have "take 1 (cu_out s @ [ch]) = ''/''" using assms(1) by (cases "cu_out s") (auto simp: cu_ok_def)
  moreover have "\<not> contains (cu_out s @ [ch]) ''/../''"
    using assms(1,5) by (auto simp: contains_snoc cu_ok_def numeral_3_eq_3)
  ultimately show ?thesis using assms(2-4) by (auto simp: cu_put_def cu_ok_def cu_here_def)
qed

lemma cu_back_cases: "cu_back s = cu_refuse s \<or> (\<exists>s'. cu_back s = Go s')"
  by (simp add: cu_back_def Let_def)

lemma cu_back_ok:
  assumes "cu_ok s" and "cu_back s = Go s'"
  shows "cu_ok s'"
proof -
  let ?n = "length (cu_out s) - 4"
  define v where "v = dropWhile (\<lambda>c. c \<noteq> CHR ''/'') (rev (take ?n (cu_out s)))"
  have v: "v \<noteq> []" "s' = s\<lparr>cu_at := cs_slash, cu_out := rev v\<rparr>"
    using assms(2) by (auto simp: cu_back_def Let_def cu_refuse_def v_def split: if_splits)
  have "hd v = CHR ''/''" using v(1) hd_dropWhile [of "\<lambda>c. c \<noteq> CHR ''/''" "rev (take ?n (cu_out s))"] unfolding v_def by blast
  then have e: "take 1 v = ''/''" using v(1) by (cases v) auto
  have "suffix v (rev (take ?n (cu_out s)))" unfolding v_def by (rule suffix_dropWhile)
  then have p: "prefix (rev v) (cu_out s)" using suffix_to_prefix [of v "rev (take ?n (cu_out s))"] take_is_prefix
    by (metis prefix_order.trans rev_rev_ident)
  then have "take 1 (rev v) = ''/''" using assms(1) v(1) by (cases "rev v") (auto simp: cu_ok_def prefix_def)
  moreover have "\<not> contains (rev v) ''/../''" using assms(1) contains_prefix [OF _ p] by (auto simp: cu_ok_def)
  ultimately show ?thesis using e by (simp add: v(2) cu_ok_def cu_here_def cu_end_def)
qed

lemma cu_copy_ok:
  assumes "cu_ok s" and "cu_at s \<notin> {cs_quoted, cs_quoted_second}"
    and sl: "ch = CHR ''/'' \<Longrightarrow> (\<exists>s'. sl = Go s' \<and> cu_ok s') \<or> (\<exists>s'. sl = cu_refuse s')"
    and dot: "ch = CHR ''.'' \<Longrightarrow> \<exists>s'. dot = Go s' \<and> cu_ok s'"
  shows "case cu_copy sl dot p ch s of Go s' \<Rightarrow> cu_ok s' | Leave rc s' \<Rightarrow> rc = NGX_OK \<longrightarrow> cu_out s' = cu_out s"
proof -
  have put: "\<exists>s2. cu_put cs_usual ch s1 = Go s2 \<and> cu_ok s2" if "ch \<noteq> CHR ''/''" "ch \<noteq> CHR ''.''" "cu_out s1 = cu_out s" for s1
    by (rule cu_put_ok [OF assms(1) that(3)]) (use that in \<open>auto simp: cu_end_def\<close>)
  have q: "cu_ok (s\<lparr>cu_quoted_state := cu_at s, cu_at := cs_quoted\<rparr>)"
    using assms(1,2) by (auto simp: cu_ok_def cu_here_def)
  consider "ch = CHR ''/''" | "ch = CHR ''.''" | "ch = CHR ''%''" | "ch = CHR ''?''" | "ch = CHR ''#''"
    | "ch \<notin> {CHR ''/'', CHR ''.'', CHR ''%'', CHR ''?'', CHR ''#''}" by blast
  then show ?thesis
  proof cases
    case 1 with sl show ?thesis by (auto simp: cu_copy_def usual_iff cu_refuse_def request_codes)
  next
    case 2 with dot show ?thesis by (auto simp: cu_copy_def usual_iff)
  next
    case 3 with q show ?thesis by (simp add: cu_copy_def usual_iff)
  next
    case 4 then show ?thesis by (simp add: cu_copy_def usual_iff)
  next
    case 5 then show ?thesis by (simp add: cu_copy_def usual_iff)
  next
    case 6 with put [of s] put [of "s\<lparr>cu_plus := True\<rparr>"] show ?thesis by (auto simp: cu_copy_def)
  qed
qed

lemma cu_copy_step_ok:
  assumes "cu_ok s" and "cu_at s \<notin> {cs_quoted, cs_quoted_second}"
  shows "case cu_copy_step merge p ch s of Go s' \<Rightarrow> cu_ok s' | Leave rc s' \<Rightarrow> rc = NGX_OK \<longrightarrow> cu_out s' = cu_out s"
proof -
  have e: "cu_end (cu_at s) (rev (cu_out s))" using assms by (auto simp: cu_ok_def cu_here_def)
  note put = cu_put_ok [OF assms(1)]
  show ?thesis
  proof (cases "cu_at s")
    case cs_usual
    show ?thesis unfolding cu_copy_step_def cs_usual cu_state.case
      by (rule cu_copy_ok [OF assms]) (use put e cs_usual in \<open>auto simp: cu_end_def take_Cons'\<close>)
  next
    case cs_slash
    with e obtain w where w: "rev (cu_out s) = CHR ''/'' # w" by (cases "rev (cu_out s)") (auto simp: cu_end_def)
    have "\<exists>s'. cu_put cs_slash (CHR ''/'') s = Go s' \<and> cu_ok s'" "\<exists>s'. cu_put cs_dot (CHR ''.'') s = Go s' \<and> cu_ok s'"
      by (rule put; simp add: w cu_end_def)+
    then show ?thesis unfolding cu_copy_step_def cs_slash cu_state.case
      by (intro cu_copy_ok [OF assms]) (auto simp: assms(1))
  next
    case cs_dot
    with e obtain w where w: "rev (cu_out s) = CHR ''.'' # CHR ''/'' # w"
      by (cases "rev (cu_out s)"; cases "tl (rev (cu_out s))") (auto simp: cu_end_def)
    then have out: "cu_out s = rev w @ ''/.''" by (metis append_Cons append_Nil append_assoc rev.simps(2) rev_rev_ident)
    then have "\<not> contains (rev w @ ''/'') ''/../''"
      using assms(1) contains_append1 [of "rev w @ ''/''" "''/../''" "''.''"] by (auto simp: cu_ok_def)
    moreover have "take 1 (rev w @ ''/'') = ''/''" using assms(1) out by (cases "rev w") (auto simp: cu_ok_def)
    ultimately have "cu_ok (s\<lparr>cu_at := cs_slash, cu_out := butlast (cu_out s)\<rparr>)"
      by (simp add: cu_ok_def cu_here_def cu_end_def out butlast_append)
    moreover have "\<exists>s'. cu_put cs_dot_dot (CHR ''.'') s = Go s' \<and> cu_ok s'" by (rule put) (simp_all add: w cu_end_def)
    ultimately show ?thesis unfolding cu_copy_step_def cs_dot cu_state.case
      by (intro cu_copy_ok [OF assms]) auto
  next
    case cs_dot_dot
    with e obtain w where w: "rev (cu_out s) = CHR ''.'' # CHR ''.'' # CHR ''/'' # w"
      by (cases "rev (cu_out s)"; cases "tl (rev (cu_out s))"; cases "tl (tl (rev (cu_out s)))") (auto simp: cu_end_def)
    have "\<exists>s'. cu_put cs_usual (CHR ''.'') s = Go s' \<and> cu_ok s'" by (rule put) (simp_all add: w cu_end_def)
    moreover have "(\<exists>s'. cu_back s = Go s' \<and> cu_ok s') \<or> (\<exists>s'. cu_back s = cu_refuse s')"
      using cu_back_ok [OF assms(1)] cu_back_cases [of s] by blast
    ultimately show ?thesis unfolding cu_copy_step_def cs_dot_dot cu_state.case
      by (intro cu_copy_ok [OF assms]) auto
  qed (use assms in auto)
qed

lemma ngx_cu_step_ok:
  assumes "cu_ok s"
  shows "case ngx_cu_step merge p ch s of Go s' \<Rightarrow> cu_ok s' | Leave rc s' \<Rightarrow> rc = NGX_OK \<longrightarrow> cu_out s' = cu_out s"
proof -
  consider "cu_at s = cs_quoted" | "cu_at s = cs_quoted_second" | "cu_at s \<notin> {cs_quoted, cs_quoted_second}" by blast
  then show ?thesis
  proof cases
    case 1
    with assms show ?thesis
      by (auto simp: ngx_cu_step_def Let_def cu_refuse_def request_codes cu_ok_def cu_here_def split: option.splits)
  next
    case 2
    have copy: "\<exists>s'. cu_put cs_usual c s = Go s' \<and> cu_ok s'" if "c = CHR ''%'' \<or> c = CHR ''#'' \<or> c = CHR ''?''" for c
      by (rule cu_put_ok [OF assms refl]) (use that in \<open>auto simp: cu_end_def\<close>)
    have again: "case cu_copy_step merge p c (s\<lparr>cu_at := cu_quoted_state s, cu_plus := x\<rparr>) of
        Go s' \<Rightarrow> cu_ok s' | Leave rc s' \<Rightarrow> rc = NGX_OK \<longrightarrow> cu_out s' = cu_out s" for c x
      using cu_copy_step_ok [of "s\<lparr>cu_at := cu_quoted_state s, cu_plus := x\<rparr>" merge p c] assms 2
      by (auto simp: cu_ok_def cu_here_def split: scan_step.splits)
    show ?thesis
    proof (cases "hex_of ch")
      case None
      with 2 show ?thesis by (simp add: ngx_cu_step_def cu_refuse_def request_codes)
    next
      case (Some d)
      define c :: char where "c = char_of (cu_decoded s * 16 + d)"
      have e: "ngx_cu_step merge p ch s = (if c = CHR ''%'' \<or> c = CHR ''#'' \<or> c = CHR ''?'' then cu_put cs_usual c s
          else if c = NUL then cu_refuse s
          else cu_copy_step merge p c (s\<lparr>cu_at := cu_quoted_state s, cu_plus := cu_plus s \<or> c = CHR ''+''\<rparr>))"
        using 2 Some by (simp only: ngx_cu_step_def cu_state.case option.case Let_def c_def)
      consider "c = CHR ''%'' \<or> c = CHR ''#'' \<or> c = CHR ''?''" | "c = NUL"
        | "ngx_cu_step merge p ch s = cu_copy_step merge p c (s\<lparr>cu_at := cu_quoted_state s, cu_plus := cu_plus s \<or> c = CHR ''+''\<rparr>)"
        unfolding e by presburger
      then show ?thesis
      proof cases
        case 1 with copy [OF 1] show ?thesis unfolding e by auto
      next
        case 2 then show ?thesis unfolding e by (simp add: cu_refuse_def request_codes)
      next
        case 3 show ?thesis unfolding 3 by (rule again)
      qed
    qed
  next
    case 3
    then have "ngx_cu_step merge p ch s = cu_copy_step merge p ch s" by (cases "cu_at s") (auto simp: ngx_cu_step_def)
    with cu_copy_step_ok [OF assms 3] show ?thesis by simp
  qed
qed

lemma complex_uri_confined:
  assumes "ngx_http_parse_complex_uri merge t q pl = (NGX_OK, c)" and "take 1 t = ''/''"
  shows "take 1 (cu_out c) = ''/'' \<and> \<not> contains (cu_out c) ''/../''"
proof -
  from assms(2) obtain w where t: "t = CHR ''/'' # w" by (cases t) auto
  define s0 where "s0 = \<lparr>cu_at = cs_slash, cu_quoted_state = cs_usual, cu_decoded = 0, cu_out = ''/'', cu_ext = None, cu_args = None,
         cu_quoted = q, cu_plus = pl\<rparr>"
  have s0: "cu_ok s0"
    by (simp add: cu_ok_def s0_def cu_here_def cu_end_def contains_def)
  have "case scan (ngx_cu_step merge) 1 (drop 1 t) s0 of Again p s' \<Rightarrow> cu_ok s'
      | Stopped rc p s' \<Rightarrow> rc = NGX_OK \<longrightarrow> take 1 (cu_out s') = ''/'' \<and> \<not> contains (cu_out s') ''/../''"
  proof (rule scan_invariant [where I = "\<lambda>p. cu_ok" and Q = "\<lambda>rc p s'. rc = NGX_OK \<longrightarrow> take 1 (cu_out s') = ''/'' \<and> \<not> contains (cu_out s') ''/../''"])
    fix p s assume "cu_ok s"
    with ngx_cu_step_ok [OF this, of merge p "t ! p"]
    show "case ngx_cu_step merge p (t ! p) s of Go s' \<Rightarrow> cu_ok s'
      | Leave rc s' \<Rightarrow> rc = NGX_OK \<longrightarrow> take 1 (cu_out s') = ''/'' \<and> \<not> contains (cu_out s') ''/../''"
      by (auto simp: cu_ok_def split: scan_step.splits)
  qed (use s0 t in auto)
  moreover have "ngx_cu_step merge 0 (CHR ''/'') \<lparr>cu_at = cs_usual, cu_quoted_state = cs_usual, cu_decoded = 0, cu_out = [], cu_ext = None,
      cu_args = None, cu_quoted = q, cu_plus = pl\<rparr> = Go s0"
    by (simp add: ngx_cu_step_def cu_copy_step_def cu_copy_def usual_iff cu_put_def s0_def)
  ultimately show ?thesis
    using assms(1) by (auto simp: ngx_http_parse_complex_uri_def t cu_ok_def split: scanned.splits)
qed

section \<open>URIs that need no decoding\<close>

text \<open>As long as no flag is raised, no dot follows a slash between the start of the URI and the position
  that was reached; the end of the URI, or its question mark, lies behind the first slash.\<close>

definition nodot :: "string \<Rightarrow> nat \<Rightarrow> nat \<Rightarrow> bool" where
  "nodot b i p \<longleftrightarrow> (\<forall>k. i \<le> k \<and> Suc k < p \<and> b ! k = CHR ''/'' \<longrightarrow> b ! Suc k \<noteq> CHR ''.'')"

definition schema_at :: "string \<Rightarrow> nat \<Rightarrow> rq_regs \<Rightarrow> bool" where
  "schema_at b p s \<longleftrightarrow> args_start s = None \<and> (\<exists>e. schema_stop s = Some e \<and> e + 1 < p \<and> b ! (e + 1) = CHR ''/'')"

definition path_at :: "string \<Rightarrow> nat \<Rightarrow> rq_regs \<Rightarrow> bool" where
  "path_at b p s \<longleftrightarrow> args_start s = None \<and> (\<exists>i < p. uri_first s = Some i \<and> b ! i = CHR ''/'' \<and> nodot b i p)"

definition uri_mid :: "string \<Rightarrow> nat \<Rightarrow> rq_regs \<Rightarrow> bool" where
  "uri_mid b p s \<longleftrightarrow> (\<exists>i < p. uri_first s = Some i \<and> b ! i = CHR ''/''
     \<and> (complex_uri s \<or> quoted_uri s \<or> (\<exists>a. args_start s = Some a \<and> i + 1 < a \<and> a \<le> p \<and> nodot b i (a - 1))))"

definition uri_done :: "string \<Rightarrow> nat \<Rightarrow> rq_regs \<Rightarrow> bool" where
  "uri_done b p s \<longleftrightarrow> (\<exists>i e. uri_first s = Some i \<and> uri_stop s = Some e \<and> i < e \<and> e \<le> p \<and> b ! i = CHR ''/''
     \<and> (complex_uri s \<or> quoted_uri s \<or> (case args_start s of
           Some a \<Rightarrow> i + 1 < a \<and> a \<le> p \<and> nodot b i (a - 1)
         | None \<Rightarrow> nodot b i e)))"

definition rl_inv :: "string \<Rightarrow> nat \<Rightarrow> rq_regs \<Rightarrow> bool" where
  "rl_inv b p s = (case rq_at s of
      rs_start \<Rightarrow> args_start s = None
    | rs_method \<Rightarrow> args_start s = None
    | rs_spaces_before_uri \<Rightarrow> args_start s = None
    | rs_schema \<Rightarrow> args_start s = None
    | rs_schema_slash \<Rightarrow> args_start s = None \<and> (\<exists>e. schema_stop s = Some e \<and> e + 1 = p)
    | rs_schema_slash_slash \<Rightarrow> schema_at b p s
    | rs_host_start \<Rightarrow> schema_at b p s
    | rs_host \<Rightarrow> schema_at b p s
    | rs_host_end \<Rightarrow> schema_at b p s
    | rs_host_ip_literal \<Rightarrow> schema_at b p s
    | rs_port \<Rightarrow> schema_at b p s
    | rs_after_slash_in_uri \<Rightarrow> path_at b p s
    | rs_check_uri \<Rightarrow> path_at b p s \<and> b ! (p - 1) \<noteq> CHR ''/''
    | rs_check_uri_http_09 \<Rightarrow> path_at b p s \<and> b ! (p - 1) \<noteq> CHR ''/'' \<and> uri_done b p s
    | rs_uri \<Rightarrow> uri_mid b p s
    | rs_http_09 \<Rightarrow> uri_mid b p s \<and> uri_done b p s
    | _ \<Rightarrow> uri_done b p s)"

lemma nodot_Suc: "nodot b i p \<Longrightarrow> (b ! (p - 1) = CHR ''/'' \<Longrightarrow> b ! p \<noteq> CHR ''.'') \<Longrightarrow> nodot b i (Suc p)"
  unfolding nodot_def by (metis diff_Suc_1 less_Suc_eq)

lemma schema_at_Suc: "schema_at b p s \<Longrightarrow> schema_at b (Suc p) s"
  by (force simp: schema_at_def)

lemma uri_mid_Suc: "uri_mid b p s \<Longrightarrow> uri_mid b (Suc p) s"
  by (fastforce simp: uri_mid_def)

lemma uri_done_Suc: "uri_done b p s \<Longrightarrow> uri_done b (Suc p) s"
  by (fastforce simp: uri_done_def split: option.splits)

lemma path_at_Suc: "path_at b p s \<Longrightarrow> (b ! (p - 1) = CHR ''/'' \<Longrightarrow> b ! p \<noteq> CHR ''.'') \<Longrightarrow> path_at b (Suc p) s"
  unfolding path_at_def using nodot_Suc less_SucI by metis

lemma uri_views:
  "path_at b p s \<Longrightarrow> uri_done b (Suc p) (s\<lparr>uri_stop := Some p\<rparr>)"
  "path_at b p s \<Longrightarrow> uri_mid b (Suc p) (s\<lparr>args_start := Some (Suc p)\<rparr>)"
  "path_at b p s \<Longrightarrow> uri_mid b (Suc p) (s\<lparr>complex_uri := True\<rparr>)"
  "path_at b p s \<Longrightarrow> uri_mid b (Suc p) (s\<lparr>quoted_uri := True\<rparr>)"
  "uri_mid b p s \<Longrightarrow> uri_done b (Suc p) (s\<lparr>uri_stop := Some p\<rparr>)"
  by (fastforce simp: path_at_def uri_mid_def uri_done_def split: option.splits)+

lemmas rl_defs = rl_method_step_def rl_schema_step_def rl_host_step_def rl_uri_step_def rl_version_step_def
  rl_09_step_def rl_host_def rl_host_end_def rl_after_slash_def rl_check_uri_def rl_uri_def uri_line_end_def rl_goto_def
  rl_expect_def refuse_def slash_of_schema_def

text \<open>The invariant does not look at most registers.\<close>

lemma views_frame [simp]:
  "path_at b p (s\<lparr>rq_at := q\<rparr>) = path_at b p s" "path_at b p (s\<lparr>plus_in_uri := x\<rparr>) = path_at b p s"
  "path_at b p (s\<lparr>uri_ext := y\<rparr>) = path_at b p s" "path_at b p (s\<lparr>uri_stop := y\<rparr>) = path_at b p s"
  "path_at b p (s\<lparr>space_in_uri := x\<rparr>) = path_at b p s"
  "uri_mid b p (s\<lparr>rq_at := q\<rparr>) = uri_mid b p s" "uri_mid b p (s\<lparr>space_in_uri := x\<rparr>) = uri_mid b p s"
  "uri_mid b p (s\<lparr>uri_stop := y\<rparr>) = uri_mid b p s"
  "schema_at b p (s\<lparr>rq_at := q\<rparr>) = schema_at b p s" "schema_at b p (s\<lparr>host_start := y\<rparr>) = schema_at b p s"
  "schema_at b p (s\<lparr>host_stop := y\<rparr>) = schema_at b p s"
  "uri_done b p (s\<lparr>rq_at := q\<rparr>) = uri_done b p s" "uri_done b p (s\<lparr>rq_minor := v\<rparr>) = uri_done b p s"
  "uri_done b p (s\<lparr>rq_major := v\<rparr>) = uri_done b p s" "uri_done b p (s\<lparr>http_protocol := y\<rparr>) = uri_done b p s"
  "uri_done b p (s\<lparr>request_stop := y\<rparr>) = uri_done b p s" "uri_done b p (s\<lparr>rq_version := u\<rparr>) = uri_done b p s"
  "uri_done b p (s\<lparr>space_in_uri := x\<rparr>) = uri_done b p s"
  by (simp_all add: path_at_def uri_mid_def schema_at_def uri_done_def)

definition rl_kept :: "string \<Rightarrow> nat \<Rightarrow> rq_regs scan_step \<Rightarrow> bool" where
  "rl_kept b p x = (case x of Go s \<Rightarrow> rl_inv b (Suc p) s | Leave rc s \<Rightarrow> rc = NGX_OK \<longrightarrow> uri_done b (Suc p) s)"

lemma rl_kept_simps [simp]:
  "rl_kept b p (Go s) = rl_inv b (Suc p) s" "rl_kept b p (refuse s)"
  "rl_kept b p (rl_goto q s) = rl_inv b (Suc p) (s\<lparr>rq_at := q\<rparr>)"
  "rl_kept b p (Leave NGX_OK s) = uri_done b (Suc p) s"
  "rl_kept b p (Leave NGX_HTTP_PARSE_INVALID_METHOD s)"
  by (simp_all add: rl_kept_def refuse_def rl_goto_def request_codes)

lemma rl_09_kept:
  "uri_done b p s \<Longrightarrow> rl_inv b (Suc p) s \<or> b ! p \<noteq> CHR '' '' \<Longrightarrow> rl_kept b p other \<Longrightarrow> rl_kept b p (rl_09_step p (b ! p) s other)"
  using uri_done_Suc [of b p s] by (auto simp: rl_09_step_def rl_inv_def)

lemma uri_line_end_kept:
  assumes "path_at b p s \<or> uri_mid b p s"
  shows "rl_kept b p (uri_line_end p c s)"
  using assms uri_views(1,5) [of b p s] by (auto simp: uri_line_end_def rl_inv_def Let_def)

lemma rl_after_slash_kept:
  assumes "path_at b p s" "rq_at s = rs_after_slash_in_uri"
  shows "rl_kept b p (rl_after_slash p (b ! p) s)"
proof -
  note v = uri_views(1-4) [OF assms(1)] path_at_Suc [OF assms(1)] uri_line_end_kept [of b p s]
  show ?thesis unfolding rl_after_slash_def using v assms by (simp add: rl_inv_def usual_iff)
qed

lemma rl_check_uri_kept:
  assumes "path_at b p s" "b ! (p - 1) \<noteq> CHR ''/''" "rq_at s = rs_check_uri"
  shows "rl_kept b p (rl_check_uri p (b ! p) s)"
proof -
  note v = uri_views(1-4) [OF assms(1)] path_at_Suc [OF assms(1)] uri_line_end_kept [of b p s]
  show ?thesis unfolding rl_check_uri_def using v assms by (simp add: rl_inv_def usual_iff)
qed

lemma rl_uri_kept:
  assumes "uri_mid b p s" "rq_at s = rs_uri"
  shows "rl_kept b p (rl_uri p (b ! p) s)"
proof -
  note v = uri_views(5) [OF assms(1)] uri_mid_Suc [OF assms(1)] uri_line_end_kept [of b p s]
  have "uri_mid b (Suc p) (s\<lparr>complex_uri := True\<rparr>)" using v(2) by (auto simp: uri_mid_def)
  with v assms show ?thesis unfolding rl_uri_def by (simp add: rl_inv_def)
qed

lemma schema_views:
  assumes "schema_at b p s"
  shows "uri_done b (Suc p) (slash_of_schema s)" and "b ! p = CHR ''/'' \<Longrightarrow> path_at b (Suc p) (s\<lparr>uri_first := Some p\<rparr>)"
  using assms by (auto simp: schema_at_def uri_done_def path_at_def slash_of_schema_def nodot_def)

lemma rl_host_kept:
  assumes "schema_at b p s"
  shows "rl_kept b p (rl_host_end p (b ! p) s)" and "rq_at s = rs_host \<Longrightarrow> rl_kept b p (rl_host p (b ! p) s)"
proof -
  show "rl_kept b p (rl_host_end p (b ! p) s)"
    using assms schema_at_Suc [OF assms] schema_views [of b p "s\<lparr>host_stop := Some p\<rparr>"]
    by (auto simp: rl_host_end_def rl_inv_def Let_def)
  then show "rq_at s = rs_host \<Longrightarrow> rl_kept b p (rl_host p (b ! p) s)"
    using schema_at_Suc [OF assms] by (auto simp: rl_host_def rl_inv_def)
qed

lemma ngx_rl_step_kept:
  assumes "rl_inv b p s"
  shows "rl_kept b p (ngx_rl_step b p (b ! p) s)"
proof (cases "rq_at s")
  case rs_after_slash_in_uri
  with assms rl_after_slash_kept [of b p s] show ?thesis by (simp add: ngx_rl_step_def rl_uri_step_def rl_inv_def)
next
  case rs_check_uri
  with assms rl_check_uri_kept [of b p s] show ?thesis by (simp add: ngx_rl_step_def rl_uri_step_def rl_inv_def)
next
  case rs_uri
  with assms rl_uri_kept [of b p s] show ?thesis by (simp add: ngx_rl_step_def rl_uri_step_def rl_inv_def)
next
  case rs_check_uri_http_09
  with assms have h: "path_at b p s" "b ! (p - 1) \<noteq> CHR ''/''" "uri_done b p s" by (simp_all add: rl_inv_def)
  have "rl_inv b (Suc p) s \<or> b ! p \<noteq> CHR '' ''"
    using rs_check_uri_http_09 path_at_Suc [OF h(1)] uri_done_Suc [OF h(3)] by (auto simp: rl_inv_def)
  from rl_09_kept [OF h(3) this rl_check_uri_kept [of b p "s\<lparr>space_in_uri := True, rq_at := rs_check_uri\<rparr>"]] h(1,2)
  show ?thesis by (simp add: ngx_rl_step_def rl_uri_step_def rs_check_uri_http_09)
next
  case rs_http_09
  with assms have h: "uri_mid b p s" "uri_done b p s" by (simp_all add: rl_inv_def)
  have "rl_inv b (Suc p) s" using rs_http_09 uri_mid_Suc [OF h(1)] uri_done_Suc [OF h(2)] by (simp add: rl_inv_def)
  with rl_09_kept [OF h(2) _ rl_uri_kept [of b p "s\<lparr>space_in_uri := True, rq_at := rs_uri\<rparr>"]] h(1)
  show ?thesis by (simp add: ngx_rl_step_def rl_uri_step_def rs_http_09)
next
  case rs_host_http_09
  with assms have h: "uri_done b p s" by (simp add: rl_inv_def)
  have "rl_inv b (Suc p) s" using rs_host_http_09 uri_done_Suc [OF h] by (simp add: rl_inv_def)
  with rl_09_kept [OF h, of "refuse s"] show ?thesis by (simp add: ngx_rl_step_def rl_host_step_def rs_host_http_09)
next
  case rs_schema_slash
  with assms show ?thesis by (auto simp: ngx_rl_step_def rl_schema_step_def rl_expect_def rl_inv_def schema_at_def)
next
  case rs_schema_slash_slash
  with assms schema_at_Suc [of b p s] show ?thesis by (auto simp: ngx_rl_step_def rl_schema_step_def rl_expect_def rl_inv_def)
next
  case rs_host_start
  with assms schema_at_Suc [of b p s] rl_host_kept(2) [of b p "s\<lparr>host_start := Some p, rq_at := rs_host\<rparr>"]
  show ?thesis by (simp add: ngx_rl_step_def rl_host_step_def rl_inv_def Let_def)
next
  case rs_host
  with assms rl_host_kept(2) [of b p s] show ?thesis by (simp add: ngx_rl_step_def rl_host_step_def rl_inv_def)
next
  case rs_host_end
  with assms rl_host_kept(1) [of b p s] show ?thesis by (simp add: ngx_rl_step_def rl_host_step_def rl_inv_def)
next
  case rs_host_ip_literal
  with assms schema_at_Suc [of b p s] show ?thesis by (simp add: ngx_rl_step_def rl_host_step_def rl_inv_def)
next
  case rs_port
  with assms schema_at_Suc [of b p s] schema_views [of b p s]
  show ?thesis by (simp add: ngx_rl_step_def rl_host_step_def rl_inv_def)
next
  case rs_spaces_before_uri
  with assms show ?thesis by (auto simp: ngx_rl_step_def rl_schema_step_def rl_inv_def path_at_def nodot_def)
next
  case rs_schema
  with assms show ?thesis by (auto simp: ngx_rl_step_def rl_schema_step_def rl_inv_def)
next
  case rs_start
  with assms show ?thesis by (auto simp: ngx_rl_step_def rl_method_step_def rl_inv_def Let_def)
next
  case rs_method
  with assms show ?thesis by (auto simp: ngx_rl_step_def rl_method_step_def rl_inv_def Let_def split: option.split)
qed (use assms uri_done_Suc [of b p s] in
    \<open>simp_all add: ngx_rl_step_def rl_version_step_def rl_expect_def rl_inv_def Let_def\<close>)

text \<open>The URI of a request line does not lead above the root.\<close>

lemma cut_first: "i < e \<Longrightarrow> e \<le> length b \<Longrightarrow> take 1 (cut b i e) = [b ! i]"
  by (simp add: cut_def take_Suc_conv_app_nth min_def flip: hd_drop_conv_nth)

lemma nodot_confined: 
  assumes "nodot b i e"
  shows "\<not> contains (cut b i e) ''/../''"
proof
  assume "contains (cut b i e) ''/../''"
  then obtain u w where c: "cut b i e = u @ ''/../'' @ w" by (auto simp: contains_iff)
  then have l: "length u + 4 \<le> e - i" "length u + 4 \<le> length (drop i b)"
  proof -
    from arg_cong [OF c, of length] have "min (length b - i) (e - i) = length u + (4 + length w)" by (simp add: cut_def)
    then show "length u + 4 \<le> e - i" "length u + 4 \<le> length (drop i b)" by auto
  qed
  then have n: "b ! (i + k) = cut b i e ! k" if "k < length u + 4" for k using that by (simp add: cut_def)
  have "b ! (i + length u) = CHR ''/''" "b ! (i + Suc (length u)) = CHR ''.''"
    using n [of "length u"] n [of "Suc (length u)"] by (simp_all add: c nth_append)
  with assms l(1) show False by (auto simp: nodot_def)
qed

lemma request_line_done:
  assumes "ngx_http_parse_request_line b 0 fresh_request = (NGX_OK, n, s)"
  shows "uri_done b n s" "n \<le> length b"
proof -
  have i: "rl_inv b 0 fresh_request" by (simp add: rl_inv_def fresh_request_def)
  have "case scan (ngx_rl_step b) 0 (drop 0 b) fresh_request of Again p s' \<Rightarrow> rl_inv b p s'
      | Stopped rc p s' \<Rightarrow> rc = NGX_OK \<longrightarrow> uri_done b (Suc p) s'"
    by (rule scan_invariant [where I = "rl_inv b" and Q = "\<lambda>rc p s'. rc = NGX_OK \<longrightarrow> uri_done b (Suc p) s'"])
      (use ngx_rl_step_kept i in \<open>auto simp: rl_kept_def\<close>)
  with assms show "uri_done b n s"
    by (auto simp: ngx_http_parse_request_line_def request_codes Let_def split: scanned.splits if_splits)
  from assms show "n \<le> length b"
    by (auto simp: ngx_http_parse_request_line_def request_codes Let_def split: scanned.splits if_splits dest!: scan_bounds)
qed

lemma uri_confined:
  assumes "uri_done b n s" and "n \<le> length b" and "ngx_http_process_request_uri mem merge b s = Inr v"
  shows "take 1 (ru_uri v) = ''/'' \<and> \<not> contains (ru_uri v) ''/../''"
proof -
  from assms(1) obtain i e where u: "uri_first s = Some i" "uri_stop s = Some e" "i < e" "e \<le> n" "b ! i = CHR ''/''"
    and d: "complex_uri s \<or> quoted_uri s \<or> (case args_start s of
           Some a \<Rightarrow> i + 1 < a \<and> a \<le> n \<and> nodot b i (a - 1) | None \<Rightarrow> nodot b i e)"
    by (auto simp: uri_done_def)
  show ?thesis
  proof (cases "complex_uri s \<or> quoted_uri s")
    case True
    with assms(3) u obtain c where "ngx_http_parse_complex_uri merge (cut b i e) (quoted_uri s) (plus_in_uri s) = (NGX_OK, c)"
      "ru_uri v = cu_out c"
      by (auto simp: ngx_http_process_request_uri_def Let_def split: if_splits prod.splits)
    with complex_uri_confined [of merge "cut b i e"] cut_first [of i e b] u assms(2) show ?thesis by simp
  next
    case False
    define j where "j = (case args_start s of Some a \<Rightarrow> a - 1 | None \<Rightarrow> e)"
    from False d u assms(2) have j: "i < j" "j \<le> length b" "nodot b i j" by (auto simp: j_def split: option.splits)
    from False assms(3) u have "ru_uri v = cut b i j"
      by (auto simp: ngx_http_process_request_uri_def Let_def j_def)
    with nodot_confined [OF j(3)] cut_first [OF j(1,2)] u(5) show ?thesis by simp
  qed
qed

end
