(* ===== verification/Ngx_Request.thy ===== *)
theory Ngx_Request
  imports Ngx_Uri
begin

text \<open>
  How nginx reads a request line: the loop of \<open>ngx_http_process_request_line\<close> in
  \<^verbatim>\<open>nginx-1.5.13/src/http/ngx_http_request.c\<close>, which parses what has arrived and moves an
  unfinished line to a larger buffer (\<open>ngx_http_alloc_large_header_buffer\<close>) when the first one is full.
  The properties: neither the pieces the bytes arrive in nor the buffers change the result, and a
  request that the client writes reaches the getfile module as the client means it. What follows in
  nginx, the choice of a server for the host of an absolute URI and the reading of the headers, is not
  modelled.
\<close>

section \<open>The buffers\<close>

text \<open>\<open>rq_room\<close> is the capacity of the current buffer; \<open>rq_nbusy\<close> and \<open>rq_nfree\<close> count the large
  buffers of the connection that are in use and that are left over from earlier requests.\<close>

record rq_state =
  rq_buf :: string
  rq_pos :: nat
  rq_room :: nat
  rq_r :: rq_regs
  rq_nbusy :: nat
  rq_nfree :: nat

text \<open>The pointers into a line that has been moved to the start of a buffer; those that are not set are
  not read.\<close>

definition back_by :: "nat \<Rightarrow> nat option \<Rightarrow> nat option" where
  "back_by k = map_option (\<lambda>x. x - k)"

definition moved :: "nat \<Rightarrow> rq_regs \<Rightarrow> rq_regs" where
  "moved k s = s\<lparr>request_start := back_by k (request_start s), request_stop := back_by k (request_stop s),
     method_stop := back_by k (method_stop s), uri_first := back_by k (uri_first s), uri_stop := back_by k (uri_stop s),
     uri_ext := back_by k (uri_ext s), args_start := back_by k (args_start s), schema_start := back_by k (schema_start s),
     schema_stop := back_by k (schema_stop s), host_start := back_by k (host_start s), host_stop := back_by k (host_stop s),
     http_protocol := back_by k (http_protocol s)\<rparr>"

definition ngx_http_alloc_large_header_buffer :: "(nat \<Rightarrow> bool) \<Rightarrow> nat \<Rightarrow> nat \<Rightarrow> rq_state \<Rightarrow> int \<times> rq_state" where
  "ngx_http_alloc_large_header_buffer mem lnum lsize st =
     (if rq_at (rq_r st) = rs_start then (NGX_OK, st\<lparr>rq_buf := [], rq_pos := 0\<rparr>)
      else let old = the (request_start (rq_r st)) in
        if lsize \<le> rq_pos st - old then (NGX_DECLINED, st)
        else if rq_nfree st = 0 \<and> lnum \<le> rq_nbusy st then (NGX_DECLINED, st)
        else if rq_nfree st = 0 \<and> \<not> mem (rq_nbusy st) then (NGX_ERROR, st)
        else (NGX_OK, st\<lparr>rq_buf := cut (rq_buf st) old (rq_pos st), rq_pos := rq_pos st - old, rq_room := lsize,
               rq_r := moved old (rq_r st), rq_nbusy := rq_nbusy st + 1, rq_nfree := rq_nfree st - 1\<rparr>))"

section \<open>The loop\<close>

text \<open>\<open>recv\<close> gives the next piece, as much of it as fits; an empty piece is the end of the connection,
  and no piece means that there is nothing to read yet.\<close>

datatype rq_outcome =
    Rq_wait rq_state | Rq_closed | Rq_bad_request | Rq_too_large | Rq_server_error | Rq_parsed rq_state uri_parts

text \<open>One round of the loop, on the bytes \<open>x\<close> that were read: it ends the loop or goes on.\<close>

definition request_line_round ::
  "(nat \<Rightarrow> bool) \<Rightarrow> nat \<Rightarrow> nat \<Rightarrow> bool \<Rightarrow> bool \<Rightarrow> string \<Rightarrow> rq_state \<Rightarrow> rq_outcome + rq_state" where
  "request_line_round mem lnum lsize umem merge x st =
     (let st1 = st\<lparr>rq_buf := rq_buf st @ x\<rparr> in
      case ngx_http_parse_request_line (rq_buf st1) (rq_pos st1) (rq_r st1) of (rc, pos, r) \<Rightarrow>
        let st2 = st1\<lparr>rq_pos := pos, rq_r := r\<rparr> in
        if rc = NGX_OK then
          Inl (case ngx_http_process_request_uri umem merge (rq_buf st2) r of
             Inl code \<Rightarrow> if code = NGX_HTTP_BAD_REQUEST then Rq_bad_request else Rq_server_error
           | Inr v \<Rightarrow> Rq_parsed st2 v)
        else if rc \<noteq> NGX_AGAIN then Inl Rq_bad_request
        else if pos = rq_room st2 then
          (case ngx_http_alloc_large_header_buffer mem lnum lsize st2 of (rv, st3) \<Rightarrow>
             if rv = NGX_ERROR then Inl Rq_server_error
             else if rv = NGX_DECLINED then Inl Rq_too_large
             else Inr st3)
        else Inr st2)"

definition load :: "string list \<Rightarrow> nat" where
  "load cs = sum_list (map (\<lambda>c. Suc (length c)) cs)"

definition left_over :: "nat \<Rightarrow> string \<Rightarrow> string list \<Rightarrow> string list" where
  "left_over room c cs = (if drop room c = [] then cs else drop room c # cs)"

lemma load_rest: "\<not> (c = [] \<or> room = 0) \<Longrightarrow> load (left_over room c cs) < load (c # cs)"
  by (auto simp: load_def left_over_def)

function ngx_http_process_request_line ::
  "(nat \<Rightarrow> bool) \<Rightarrow> nat \<Rightarrow> nat \<Rightarrow> bool \<Rightarrow> bool \<Rightarrow> string list \<Rightarrow> rq_state \<Rightarrow> rq_outcome" where
  "ngx_http_process_request_line mem lnum lsize umem merge [] st = Rq_wait st"
| "ngx_http_process_request_line mem lnum lsize umem merge (c # cs) st =
     (if c = [] \<or> rq_room st - length (rq_buf st) = 0 then Rq_closed
      else case request_line_round mem lnum lsize umem merge (take (rq_room st - length (rq_buf st)) c) st of
        Inl out \<Rightarrow> out
      | Inr st' \<Rightarrow> ngx_http_process_request_line mem lnum lsize umem merge (left_over (rq_room st - length (rq_buf st)) c cs) st')"
  by pat_completeness auto
termination
  by (relation "measure (\<lambda>(mem, lnum, lsize, umem, merge, cs, st). load cs)")
    (rule wf_measure, unfold in_measure prod.case, rule load_rest)

declare ngx_http_process_request_line.simps [simp del]

definition fresh_state :: "nat \<Rightarrow> nat \<Rightarrow> nat \<Rightarrow> rq_state" where
  "fresh_state room nbusy nfree = \<lparr>rq_buf = [], rq_pos = 0, rq_room = room, rq_r = fresh_request, rq_nbusy = nbusy, rq_nfree = nfree\<rparr>"

section \<open>Moving a line\<close>

text \<open>The registers of the same line at a position \<open>k\<close> further to the front.\<close>

definition pointers :: "rq_regs \<Rightarrow> nat option list" where
  "pointers s = [request_start s, request_stop s, method_stop s, uri_first s, uri_stop s, uri_ext s, args_start s,
     schema_start s, schema_stop s, host_start s, host_stop s, http_protocol s]"

definition after :: "nat \<Rightarrow> nat option \<Rightarrow> bool" where
  "after q y = (case y of None \<Rightarrow> True | Some x \<Rightarrow> q \<le> x)"

definition behind :: "nat \<Rightarrow> nat \<Rightarrow> rq_regs \<Rightarrow> bool" where
  "behind k p s = (case request_start s of
      None \<Rightarrow> False
    | Some q \<Rightarrow> k \<le> q \<and> q < p \<and> list_all (after q) (pointers s))"

lemma after_simps [simp]: "after q None" "after q (Some x) \<longleftrightarrow> q \<le> x"
  by (simp_all add: after_def)

definition same_line :: "nat \<Rightarrow> nat \<Rightarrow> rq_regs \<Rightarrow> rq_regs \<Rightarrow> bool" where
  "same_line k p s' s \<longleftrightarrow> (if rq_at s = rs_start
     then \<exists>x y. s' = fresh_request\<lparr>request_start := x\<rparr> \<and> s = fresh_request\<lparr>request_start := y\<rparr>
     else s' = moved k s \<and> behind k p s)"

definition same_step :: "nat \<Rightarrow> nat \<Rightarrow> rq_regs scan_step \<Rightarrow> rq_regs scan_step \<Rightarrow> bool" where
  "same_step k p x' x = (case x of
      Go s \<Rightarrow> (\<exists>s'. x' = Go s' \<and> same_line k (Suc p) s' s)
    | Leave rc s \<Rightarrow> (\<exists>s'. x' = Leave rc s' \<and> (rc = NGX_OK \<longrightarrow> s' = moved k s \<and> behind k (Suc p) s)))"

lemma cut_drop: "k \<le> i \<Longrightarrow> cut (drop k b) (i - k) (j - k) = cut b i j"
  by (cases "k \<le> j") (auto simp: cut_def)

lemma back_by_simps [simp]: "back_by k None = None" "back_by k (Some x) = Some (x - k)"
  by (simp_all add: back_by_def)

lemma same_step_cases:
  "same_step k p x (Go s) \<longleftrightarrow> (\<exists>s'. x = Go s' \<and> same_line k (Suc p) s' s)"
  "same_step k p (refuse s') (refuse s)"
  "same_step k p (Leave NGX_HTTP_PARSE_INVALID_METHOD s') (Leave NGX_HTTP_PARSE_INVALID_METHOD s)"
  "same_step k p (Leave NGX_OK s') (Leave NGX_OK s) \<longleftrightarrow> s' = moved k s \<and> behind k (Suc p) s"
  by (simp_all add: same_step_def refuse_def request_codes)

lemma same_step_go:
  "rq_at s \<noteq> rs_start \<Longrightarrow> same_step k p (Go s') (Go s) \<longleftrightarrow> s' = moved k s \<and> behind k (Suc p) s"
  "q \<noteq> rs_start \<Longrightarrow> same_step k p (rl_goto q s') (rl_goto q s) \<longleftrightarrow> s'\<lparr>rq_at := q\<rparr> = moved k (s\<lparr>rq_at := q\<rparr>) \<and> behind k (Suc p) (s\<lparr>rq_at := q\<rparr>)"
  by (simp_all add: same_step_def same_line_def rl_goto_def)

lemma rl_start_shift:
  assumes "k \<le> p"
  shows "same_step k p (ngx_rl_step b' (p - k) ch (fresh_request\<lparr>request_start := x\<rparr>))
           (ngx_rl_step b p ch (fresh_request\<lparr>request_start := y\<rparr>))"
proof -
  let ?s = "fresh_request\<lparr>request_start := Some p\<rparr>"
  have "moved k ?s = fresh_request\<lparr>request_start := Some (p - k)\<rparr>" by (simp add: moved_def fresh_request_def)
  moreover have "behind k (Suc p) (?s\<lparr>rq_at := q\<rparr>)" for q using assms by (simp add: behind_def pointers_def fresh_request_def)
  moreover have "same_line k (Suc p) (fresh_request\<lparr>request_start := Some (p - k)\<rparr>) ?s"
    by (auto simp: same_line_def fresh_request_def)
  moreover have "moved k (?s\<lparr>rq_at := q\<rparr>) = (moved k ?s)\<lparr>rq_at := q\<rparr>" for q by (simp add: moved_def)
  moreover have "rq_at fresh_request = rs_start" by (simp add: fresh_request_def)
  ultimately show ?thesis
    by (auto simp: ngx_rl_step_def rl_method_step_def Let_def same_step_cases same_step_go)
qed

lemma moved_sel [simp]:
  "rq_at (moved k s) = rq_at s" "request_start (moved k s) = back_by k (request_start s)"
  "schema_stop (moved k s) = back_by k (schema_stop s)" "rq_major (moved k s) = rq_major s" "rq_minor (moved k s) = rq_minor s"
  "rq_method (moved k s) = rq_method s" "request_stop (moved k s) = back_by k (request_stop s)"
  "uri_first (moved k s) = back_by k (uri_first s)" "uri_stop (moved k s) = back_by k (uri_stop s)" "uri_ext (moved k s) = back_by k (uri_ext s)"
  "args_start (moved k s) = back_by k (args_start s)" "complex_uri (moved k s) = complex_uri s" "quoted_uri (moved k s) = quoted_uri s"
  "plus_in_uri (moved k s) = plus_in_uri s" "space_in_uri (moved k s) = space_in_uri s"
  by (simp_all add: moved_def)

lemma moved_upd [simp]:
  "moved k (s\<lparr>request_start := y\<rparr>) = (moved k s)\<lparr>request_start := back_by k y\<rparr>"
  "moved k (s\<lparr>request_stop := y\<rparr>) = (moved k s)\<lparr>request_stop := back_by k y\<rparr>"
  "moved k (s\<lparr>method_stop := y\<rparr>) = (moved k s)\<lparr>method_stop := back_by k y\<rparr>"
  "moved k (s\<lparr>uri_first := y\<rparr>) = (moved k s)\<lparr>uri_first := back_by k y\<rparr>"
  "moved k (s\<lparr>uri_stop := y\<rparr>) = (moved k s)\<lparr>uri_stop := back_by k y\<rparr>"
  "moved k (s\<lparr>uri_ext := y\<rparr>) = (moved k s)\<lparr>uri_ext := back_by k y\<rparr>"
  "moved k (s\<lparr>args_start := y\<rparr>) = (moved k s)\<lparr>args_start := back_by k y\<rparr>"
  "moved k (s\<lparr>schema_start := y\<rparr>) = (moved k s)\<lparr>schema_start := back_by k y\<rparr>"
  "moved k (s\<lparr>schema_stop := y\<rparr>) = (moved k s)\<lparr>schema_stop := back_by k y\<rparr>"
  "moved k (s\<lparr>host_start := y\<rparr>) = (moved k s)\<lparr>host_start := back_by k y\<rparr>"
  "moved k (s\<lparr>host_stop := y\<rparr>) = (moved k s)\<lparr>host_stop := back_by k y\<rparr>"
  "moved k (s\<lparr>http_protocol := y\<rparr>) = (moved k s)\<lparr>http_protocol := back_by k y\<rparr>"
  "moved k (s\<lparr>rq_at := q\<rparr>) = (moved k s)\<lparr>rq_at := q\<rparr>"
  "moved k (s\<lparr>rq_method := m\<rparr>) = (moved k s)\<lparr>rq_method := m\<rparr>"
  "moved k (s\<lparr>rq_major := w\<rparr>) = (moved k s)\<lparr>rq_major := w\<rparr>"
  "moved k (s\<lparr>rq_minor := w\<rparr>) = (moved k s)\<lparr>rq_minor := w\<rparr>"
  "moved k (s\<lparr>rq_version := v\<rparr>) = (moved k s)\<lparr>rq_version := v\<rparr>"
  "moved k (s\<lparr>complex_uri := b\<rparr>) = (moved k s)\<lparr>complex_uri := b\<rparr>"
  "moved k (s\<lparr>quoted_uri := b\<rparr>) = (moved k s)\<lparr>quoted_uri := b\<rparr>"
  "moved k (s\<lparr>plus_in_uri := b\<rparr>) = (moved k s)\<lparr>plus_in_uri := b\<rparr>"
  "moved k (s\<lparr>space_in_uri := b\<rparr>) = (moved k s)\<lparr>space_in_uri := b\<rparr>"
  by (simp_all add: moved_def)

lemma behind_upd [simp]:
  "behind k p (s\<lparr>rq_at := q\<rparr>) = behind k p s"
  "behind k p (s\<lparr>rq_method := m\<rparr>) = behind k p s"
  "behind k p (s\<lparr>rq_major := w\<rparr>) = behind k p s"
  "behind k p (s\<lparr>rq_minor := w\<rparr>) = behind k p s"
  "behind k p (s\<lparr>rq_version := v\<rparr>) = behind k p s"
  "behind k p (s\<lparr>complex_uri := b\<rparr>) = behind k p s"
  "behind k p (s\<lparr>quoted_uri := b\<rparr>) = behind k p s"
  "behind k p (s\<lparr>plus_in_uri := b\<rparr>) = behind k p s"
  "behind k p (s\<lparr>space_in_uri := b\<rparr>) = behind k p s"
  by (simp_all add: behind_def pointers_def split: option.split)

lemma behind_set [simp]:
  "behind k p s \<Longrightarrow> the (request_start s) \<le> x \<Longrightarrow> behind k p (s\<lparr>request_stop := Some x\<rparr>)"
  "behind k p s \<Longrightarrow> the (request_start s) \<le> x \<Longrightarrow> behind k p (s\<lparr>method_stop := Some x\<rparr>)"
  "behind k p s \<Longrightarrow> the (request_start s) \<le> x \<Longrightarrow> behind k p (s\<lparr>uri_first := Some x\<rparr>)"
  "behind k p s \<Longrightarrow> the (request_start s) \<le> x \<Longrightarrow> behind k p (s\<lparr>uri_stop := Some x\<rparr>)"
  "behind k p s \<Longrightarrow> the (request_start s) \<le> x \<Longrightarrow> behind k p (s\<lparr>uri_ext := Some x\<rparr>)"
  "behind k p s \<Longrightarrow> behind k p (s\<lparr>uri_ext := None\<rparr>)" "behind k p s \<Longrightarrow> behind k p (s\<lparr>uri_first := None\<rparr>)"
  "behind k p s \<Longrightarrow> behind k p (s\<lparr>uri_stop := None\<rparr>)"
  "behind k p s \<Longrightarrow> the (request_start s) \<le> x \<Longrightarrow> behind k p (s\<lparr>args_start := Some x\<rparr>)"
  "behind k p s \<Longrightarrow> the (request_start s) \<le> x \<Longrightarrow> behind k p (s\<lparr>schema_start := Some x\<rparr>)"
  "behind k p s \<Longrightarrow> the (request_start s) \<le> x \<Longrightarrow> behind k p (s\<lparr>schema_stop := Some x\<rparr>)"
  "behind k p s \<Longrightarrow> the (request_start s) \<le> x \<Longrightarrow> behind k p (s\<lparr>host_start := Some x\<rparr>)"
  "behind k p s \<Longrightarrow> the (request_start s) \<le> x \<Longrightarrow> behind k p (s\<lparr>host_stop := Some x\<rparr>)"
  "behind k p s \<Longrightarrow> the (request_start s) \<le> x \<Longrightarrow> behind k p (s\<lparr>http_protocol := Some x\<rparr>)"
  by (simp_all add: behind_def pointers_def split: option.splits)

lemma behindE:
  assumes "behind k p s"
  obtains q where "request_start s = Some q" "k \<le> q" "q < p" "list_all (after q) (pointers s)"
  using assms by (auto simp: behind_def split: option.splits)

lemma behind_after: "behind k p s \<Longrightarrow> y \<in> set (pointers s) \<Longrightarrow> y = Some x \<Longrightarrow> k \<le> x \<and> the (request_start s) \<le> x"
  by (elim behindE) (auto simp: list_all_iff)

lemma behind_Suc: "behind k p s \<Longrightarrow> behind k (Suc p) s"
  by (auto simp: behind_def split: option.splits)

lemma behind_pos: "behind k p s \<Longrightarrow> k < p \<and> the (request_start s) < p"
  by (elim behindE) simp

lemma behind_bounds:
  assumes "behind k p s"
  shows "behind k (Suc p) s" "k \<le> p" "the (request_start s) \<le> p" "the (request_start s) \<le> Suc p" "the (request_start s) \<le> p - Suc 0"
    "p - Suc 0 - k = p - k - Suc 0" "Suc p - k = Suc (p - k)"
  using behind_Suc [OF assms] behind_pos [OF assms] by auto

lemma behind_schema: "behind k p s \<Longrightarrow> schema_stop s = Some e \<Longrightarrow> k \<le> e \<and> the (request_start s) \<le> e"
  by (rule behind_after) (simp_all add: pointers_def)

text \<open>One step of the parser, on a line that was moved.\<close>

lemma rl_09_shift:
  assumes "rq_at s \<noteq> rs_start" and "behind k p s" and "same_step k p x' x"
  shows "same_step k p (rl_09_step (p - k) ch (moved k s) x') (rl_09_step p ch s x)"
  using assms(1,3) behind_bounds [OF assms(2)]
  by (simp add: rl_09_step_def same_step_go same_step_cases(2-4))

lemma uri_line_end_shift:
  assumes "behind k p s"
  shows "same_step k p (uri_line_end (p - k) ch (moved k s)) (uri_line_end p ch s)"
  using behind_bounds [OF assms]
  by (simp add: uri_line_end_def Let_def same_step_go same_step_cases(2-4))

lemma rl_uri_shift:
  assumes "behind k p s" and "rq_at s \<noteq> rs_start"
  shows "same_step k p (rl_after_slash (p - k) ch (moved k s)) (rl_after_slash p ch s)"
    and "same_step k p (rl_check_uri (p - k) ch (moved k s)) (rl_check_uri p ch s)"
    and "same_step k p (rl_uri (p - k) ch (moved k s)) (rl_uri p ch s)"
  using assms(2) behind_bounds [OF assms(1)] uri_line_end_shift [OF assms(1)]
  by (simp_all add: rl_after_slash_def rl_check_uri_def rl_uri_def same_step_go same_step_cases(2-4))

lemma slash_shift:
  assumes "behind k p s"
  shows "behind k p (slash_of_schema s)" "moved k (slash_of_schema s) = slash_of_schema (moved k s)" "rq_at (slash_of_schema s) = rq_at s"
proof -
  show "behind k p (slash_of_schema s)"
  proof (cases "schema_stop s")
    case None
    then show ?thesis using assms by (simp add: slash_of_schema_def)
  next
    case (Some e)
    then have "the (request_start s) \<le> e + 1" "the (request_start s) \<le> e + 2" using behind_schema [OF assms Some] by linarith+
    then show ?thesis using assms Some unfolding slash_of_schema_def option.map(2) Some by (intro behind_set) simp_all
  qed
  show "moved k (slash_of_schema s) = slash_of_schema (moved k s)"
  proof (cases "schema_stop s")
    case None
    then show ?thesis by (simp add: slash_of_schema_def)
  next
    case (Some e)
    then have "e + 1 - k = e - k + 1" "e + 2 - k = e - k + 2" using behind_schema [OF assms Some] by linarith+
    then show ?thesis unfolding slash_of_schema_def moved_upd moved_sel Some back_by_simps option.map(2) by (simp only:)
  qed
qed (simp add: slash_of_schema_def)

lemma rl_host_shift:
  assumes "behind k p s" and "rq_at s \<noteq> rs_start"
  shows "same_step k p (rl_host_end (p - k) ch (moved k s)) (rl_host_end p ch s)"
    and "same_step k p (rl_host (p - k) ch (moved k s)) (rl_host p ch s)"
proof -
  note g = behind_bounds [OF assms(1)]
  show e: "same_step k p (rl_host_end (p - k) ch (moved k s)) (rl_host_end p ch s)"
    using g assms(2) slash_shift [of k "Suc p" "s\<lparr>host_stop := Some p\<rparr>"]
    by (simp add: rl_host_end_def Let_def same_step_go same_step_cases(2-4))
  show "same_step k p (rl_host (p - k) ch (moved k s)) (rl_host p ch s)"
    using e g(1) assms(2) by (simp add: rl_host_def same_step_go)
qed

lemma rl_method_shift:
  assumes "rq_at s = rs_method" and "behind k p s"
  shows "same_step k p (rl_method_step (drop k b) (p - k) ch (moved k s)) (rl_method_step b p ch s)"
proof -
  from assms(2) obtain q where q: "request_start s = Some q" "k \<le> q" "q < p" by (rule behindE)
  then have c: "cut (drop k b) (q - k) (p - k) = cut b q p" "p - k - 1 = p - 1 - k" by (simp_all add: cut_drop)
  show ?thesis using q behind_Suc [OF assms(2)]
    by (auto simp: rl_method_step_def assms(1) c Let_def same_step_go same_step_cases(2-4) split: option.split)
qed

lemma rl_step_shift:
  assumes "rq_at s \<noteq> rs_start" and "behind k p s"
  shows "same_step k p (ngx_rl_step (drop k b) (p - k) ch (moved k s)) (ngx_rl_step b p ch s)"
proof -
  note g = behind_bounds [OF assms(2)]
  note go = same_step_go same_step_cases(2-4)
  note sp = slash_shift [OF g(1)]
  have u: "behind k p (s\<lparr>space_in_uri := True, rq_at := q\<rparr>)" for q using assms(2) by simp
  show ?thesis
  proof (cases "rq_at s")
    case rs_start with assms show ?thesis by simp
  next
    case rs_method with rl_method_shift [OF rs_method assms(2)] show ?thesis by (simp add: ngx_rl_step_def)
  next
    case rs_host_start
    with g rl_host_shift(2) [of k p "s\<lparr>host_start := Some p, rq_at := rs_host\<rparr>" ch] assms(2)
    show ?thesis by (simp add: ngx_rl_step_def rl_host_step_def Let_def go)
  next
    case rs_check_uri_http_09
    with rl_09_shift [OF assms rl_uri_shift(2) [OF u [of rs_check_uri]]] show ?thesis
      by (simp add: ngx_rl_step_def rl_uri_step_def)
  next
    case rs_http_09
    with rl_09_shift [OF assms rl_uri_shift(3) [OF u [of rs_uri]]] show ?thesis
      by (simp add: ngx_rl_step_def rl_uri_step_def)
  next
    case rs_host_http_09
    with rl_09_shift [OF assms, of "refuse (moved k s)" "refuse s"] show ?thesis
      by (simp add: ngx_rl_step_def rl_host_step_def go)
  qed (use g sp rl_host_shift [OF assms(2,1), of ch] rl_uri_shift [OF assms(2,1), of ch] in
      \<open>simp_all add: ngx_rl_step_def rl_schema_step_def rl_host_step_def rl_uri_step_def rl_version_step_def rl_expect_def Let_def go\<close>)
qed

lemma rl_scan_shift:
  assumes "k \<le> p" and "same_line k p s' s"
  shows "case scan (ngx_rl_step b) p cs s of
      Again q t \<Rightarrow> (\<exists>t'. scan (ngx_rl_step (drop k b)) (p - k) cs s' = Again (q - k) t' \<and> same_line k q t' t)
    | Stopped rc q t \<Rightarrow> (\<exists>t'. scan (ngx_rl_step (drop k b)) (p - k) cs s' = Stopped rc (q - k) t'
        \<and> k \<le> q \<and> (rc = NGX_OK \<longrightarrow> t' = moved k t \<and> behind k (Suc q) t))"
  using assms
proof (induction cs arbitrary: p s s')
  case Nil
  then show ?case by auto
next
  case (Cons c cs)
  have "same_step k p (ngx_rl_step (drop k b) (p - k) c s') (ngx_rl_step b p c s)"
  proof (cases "rq_at s = rs_start")
    case True
    with Cons.prems(2) obtain x y where "s' = fresh_request\<lparr>request_start := x\<rparr>" "s = fresh_request\<lparr>request_start := y\<rparr>"
      by (auto simp: same_line_def)
    with rl_start_shift [OF Cons.prems(1)] show ?thesis by simp
  next
    case False
    with Cons.prems(2) rl_step_shift [OF False] show ?thesis by (auto simp: same_line_def)
  qed
  note step = this
  show ?case
  proof (cases "ngx_rl_step b p c s")
    case (Go t)
    with step obtain t' where t: "ngx_rl_step (drop k b) (p - k) c s' = Go t'" "same_line k (Suc p) t' t"
      by (auto simp: same_step_def)
    from t(1) Cons.prems(1) have e: "scan (ngx_rl_step (drop k b)) (p - k) (c # cs) s' = scan (ngx_rl_step (drop k b)) (Suc p - k) cs t'"
      by (simp add: Suc_diff_le)
    have f: "scan (ngx_rl_step b) p (c # cs) s = scan (ngx_rl_step b) (Suc p) cs t" by (simp add: Go)
    show ?thesis unfolding e f by (rule Cons.IH [OF _ t(2)]) (use Cons.prems(1) in simp)
  next
    case (Leave rc t)
    with step Cons.prems(1) show ?thesis by (auto simp: same_step_def)
  qed
qed

text \<open>The parser looks at the bytes before its position only.\<close>

lemma cut_prefix: "p \<le> length b \<Longrightarrow> cut (b @ z) m p = cut b m p"
  by (cases "m \<le> length b") (simp_all add: cut_def)

lemma rl_step_prefix: "p \<le> length b \<Longrightarrow> ngx_rl_step (b @ z) p ch s = ngx_rl_step b p ch s"
  by (simp add: ngx_rl_step_def rl_method_step_def cut_prefix split: rl_state.splits)

lemma rl_scan_prefix: "p + length cs \<le> length b \<Longrightarrow> scan (ngx_rl_step (b @ z)) p cs s = scan (ngx_rl_step b) p cs s"
  by (induction cs arbitrary: p s) (auto simp: rl_step_prefix split: scan_step.split)

text \<open>The parts of a URI are the same text wherever the line is.\<close>

definition parts_back :: "nat \<Rightarrow> uri_parts \<Rightarrow> uri_parts" where
  "parts_back k v = v\<lparr>ru_args := map_option (\<lambda>(i, e). (i - k, e - k)) (ru_args v)\<rparr>"

lemma uri_parts_shift:
  assumes "behind k p s" and "uri_done b n s"
  shows "ngx_http_process_request_uri m g (drop k b) (moved k s) = map_sum id (parts_back k) (ngx_http_process_request_uri m g b s)"
proof -
  from assms(2) obtain i e where u: "uri_first s = Some i" "uri_stop s = Some e" "i < e" by (auto simp: uri_done_def)
  note after = behind_after [OF assms(1)]
  have ik: "k \<le> i" using after [OF _ u(1)] by (simp add: pointers_def)
  have ak: "args_start s = Some a \<Longrightarrow> k \<le> a" "uri_ext s = Some a \<Longrightarrow> k \<le> a" for a
    using after [of "args_start s"] after [of "uri_ext s"] by (simp_all add: pointers_def)
  define stop where "stop = (case args_start s of Some a \<Rightarrow> a - 1 | None \<Rightarrow> e)"
  have st: "(case args_start (moved k s) of None \<Rightarrow> e - k | Some a \<Rightarrow> a - 1) = stop - k"
    by (cases "args_start s") (auto simp: stop_def)
  have c: "cut (drop k b) (i - k) (j - k) = cut b i j" for j using ik by (rule cut_drop)
  have x: "map_option (\<lambda>x. cut (drop k b) x (stop - k)) (back_by k (uri_ext s)) = map_option (\<lambda>x. cut b x stop) (uri_ext s)"
    using ak(2) by (cases "uri_ext s") (auto simp: cut_drop)
  have r: "args_range (back_by k (args_start s)) (e - k) = map_option (\<lambda>(i, e). (i - k, e - k)) (args_range (args_start s) e)"
    using ak(1) by (cases "args_start s") (auto simp: args_range_def)
  show ?thesis
  proof (cases "complex_uri s \<or> quoted_uri s")
    case True
    then show ?thesis using u ik c [of e]
      by (auto simp: ngx_http_process_request_uri_def Let_def parts_back_def args_range_def split: prod.splits option.splits)
  next
    case False
    then show ?thesis using u ik st c [of e] c [of stop] x r
      by (simp add: ngx_http_process_request_uri_def Let_def parts_back_def flip: stop_def)
  qed
qed

section \<open>Pieces and buffers\<close>

text \<open>A state in the middle of a line: the buffer holds the bytes received so far without the first \<open>k\<close>,
  and the registers are those of the same line parsed in one piece.\<close>

definition reading :: "string \<Rightarrow> rq_state \<Rightarrow> bool" where
  "reading w st \<longleftrightarrow> (\<exists>k s. k \<le> length w \<and> rq_buf st = drop k w \<and> rq_pos st = length w - k
     \<and> scan (ngx_rl_step w) 0 w fresh_request = Again (length w) s \<and> same_line k (length w) (rq_r st) s)"

text \<open>What one round makes of the next bytes.\<close>

lemma whole_scan:
  assumes "scan (ngx_rl_step w) 0 w fresh_request = Again (length w) s"
  shows "scan (ngx_rl_step (w @ x)) 0 (w @ x) fresh_request = scan (ngx_rl_step (w @ x)) (length w) x s"
  using assms by (simp add: scan_append rl_scan_prefix)

lemma whole_line:
  "ngx_http_parse_request_line b 0 fresh_request = (case scan (ngx_rl_step b) 0 b fresh_request of
      Again p s \<Rightarrow> (NGX_AGAIN, p, s)
    | Stopped rc p s \<Rightarrow>
        if rc = NGX_OK then
          let s1 = s\<lparr>request_stop := Some (case request_stop s of None \<Rightarrow> p | Some e \<Rightarrow> e),
                     rq_version := of_nat (unat (rq_major s) * 1000 + unat (rq_minor s)), rq_at := rs_start\<rparr>
          in (if rq_version s1 = 9 \<and> rq_method s1 \<noteq> NGX_HTTP_GET then NGX_HTTP_PARSE_INVALID_09_METHOD else NGX_OK, Suc p, s1)
        else (rc, 0, s\<lparr>rq_at := rs_start\<rparr>))"
  by (simp add: ngx_http_parse_request_line_def fresh_request_def split: scanned.split)

text \<open>The codes the parser leaves with.\<close>

definition line_code :: "rq_regs scan_step \<Rightarrow> bool" where
  "line_code x = (case x of Go s \<Rightarrow> True | Leave rc s \<Rightarrow> rc \<noteq> NGX_AGAIN)"

lemma line_code_simps [simp]:
  "line_code (Go s)" "line_code (rl_goto q s)" "line_code (refuse s)" "line_code (Leave NGX_OK s)"
  "line_code (Leave NGX_HTTP_PARSE_INVALID_METHOD s)" "line_code (rl_expect c q ch s)" "line_code (uri_line_end p ch s)"
  by (simp_all add: line_code_def rl_goto_def refuse_def request_codes rl_expect_def uri_line_end_def Let_def)

lemma line_code_parts [simp]:
  "line_code x \<Longrightarrow> line_code (rl_09_step p ch s x)" "line_code (rl_host_end p ch s)" "line_code (rl_host p ch s)"
  "line_code (rl_after_slash p ch s)" "line_code (rl_check_uri p ch s)" "line_code (rl_uri p ch s)"
  by (simp_all add: rl_09_step_def rl_host_end_def rl_host_def rl_after_slash_def rl_check_uri_def rl_uri_def Let_def)

lemma rl_step_code: "line_code (ngx_rl_step b p ch s)"
  by (cases "rq_at s") (simp_all add: ngx_rl_step_def rl_method_step_def rl_schema_step_def rl_version_step_def
      rl_host_step_def rl_uri_step_def Let_def)

lemma rl_scan_code: "scan (ngx_rl_step b) p cs s = Stopped rc q t \<Longrightarrow> rc \<noteq> NGX_AGAIN"
proof (induction cs arbitrary: p s)
  case (Cons c cs)
  with rl_step_code [of b p c s] show ?case by (auto simp: line_code_def split: scan_step.splits)
qed simp

lemma round_parse:
  assumes "reading w st" and "x \<noteq> []"
    and "ngx_http_parse_request_line (w @ x) 0 fresh_request = (rc, n, s)"
  shows "if rc = NGX_AGAIN then \<exists>k s'. n = length (w @ x) \<and> k \<le> length w \<and> rq_buf st = drop k w \<and> rq_pos st = length w - k
        \<and> ngx_http_parse_request_line (rq_buf st @ x) (rq_pos st) (rq_r st) = (NGX_AGAIN, n - k, s') \<and> same_line k n s' s
        \<and> scan (ngx_rl_step (w @ x)) 0 (w @ x) fresh_request = Again n s
      else if rc = NGX_OK then \<exists>k. k \<le> length w \<and> rq_buf st = drop k w \<and> behind k n s
        \<and> ngx_http_parse_request_line (rq_buf st @ x) (rq_pos st) (rq_r st) = (NGX_OK, n - k, moved k s)
      else \<exists>n' s'. ngx_http_parse_request_line (rq_buf st @ x) (rq_pos st) (rq_r st) = (rc, n', s')"
proof -
  from assms(1) obtain k t where k: "k \<le> length w" "rq_buf st = drop k w" "rq_pos st = length w - k"
    and t: "scan (ngx_rl_step w) 0 w fresh_request = Again (length w) t" and l: "same_line k (length w) (rq_r st) t"
    by (auto simp: reading_def)
  have b: "rq_buf st @ x = drop k (w @ x)" "drop (rq_pos st) (rq_buf st @ x) = x" using k by auto
  note W = whole_scan [OF t, of x] and S = rl_scan_shift [OF k(1) l, of "w @ x" x]
  show ?thesis
  proof (cases "scan (ngx_rl_step (w @ x)) (length w) x t")
    case (Again q s2)
    with scan_again [OF Again] W S assms(3) k b show ?thesis
      by (auto simp: whole_line ngx_http_parse_request_line_def request_codes)
  next
    case (Stopped rc2 q s2)
    with S obtain t' where t': "scan (ngx_rl_step (drop k (w @ x))) (length w - k) x (rq_r st) = Stopped rc2 (q - k) t'" "k \<le> q"
      "rc2 = NGX_OK \<longrightarrow> t' = moved k s2 \<and> behind k (Suc q) s2" by auto
    show ?thesis
    proof (cases "rc2 = NGX_OK")
      case True
      with t'(3) have m: "t' = moved k s2" "behind k (Suc q) s2" by simp_all
      have v: "(case request_stop t' of None \<Rightarrow> q - k | Some e \<Rightarrow> e) = (case request_stop s2 of None \<Rightarrow> q | Some e \<Rightarrow> e) - k"
        by (cases "request_stop s2") (simp_all add: m(1))
      have "the (request_start s2) \<le> (case request_stop s2 of None \<Rightarrow> q | Some e \<Rightarrow> e)"
        using behind_after [OF m(2), of "request_stop s2"] behind_pos [OF m(2)] by (simp add: pointers_def split: option.split)
      then show ?thesis
        using assms(3) True t' k b W Stopped m v
        by (auto simp: whole_line ngx_http_parse_request_line_def Let_def request_codes Suc_diff_le split: if_splits)
    next
      case False
      with rl_scan_code [OF Stopped] show ?thesis
        using assms(3) t' k b W Stopped by (auto simp: whole_line ngx_http_parse_request_line_def)
    qed
  qed
qed

text \<open>More bytes behind the line change nothing.\<close>

lemma whole_prefix:
  assumes "ngx_http_parse_request_line (b @ z) 0 fresh_request = (NGX_OK, n, s)"
  shows "if n \<le> length b then ngx_http_parse_request_line b 0 fresh_request = (NGX_OK, n, s)
    else \<exists>t. ngx_http_parse_request_line b 0 fresh_request = (NGX_AGAIN, length b, t)"
proof -
  have S: "scan (ngx_rl_step (b @ z)) 0 (b @ z) fresh_request = (case scan (ngx_rl_step b) 0 b fresh_request of
      Again q t \<Rightarrow> scan (ngx_rl_step (b @ z)) q z t | y \<Rightarrow> y)"
    by (simp add: scan_append rl_scan_prefix)
  show ?thesis
  proof (cases "scan (ngx_rl_step b) 0 b fresh_request")
    case (Again q t)
    with scan_again [OF Again] S have q: "q = length b" "scan (ngx_rl_step (b @ z)) 0 (b @ z) fresh_request = scan (ngx_rl_step (b @ z)) q z t"
      by simp_all
    with assms have "length b < n"
      by (auto simp: whole_line request_codes Let_def split: scanned.splits if_splits dest!: scan_bounds)
    with Again q(1) show ?thesis by (simp add: whole_line)
  next
    case (Stopped rc q t)
    with S assms scan_bounds [OF Stopped] show ?thesis
      by (auto simp: whole_line request_codes Let_def split: if_splits)
  qed
qed

lemma uri_parts_prefix:
  assumes "uri_done b n s" and "n \<le> length b"
  shows "ngx_http_process_request_uri m g (b @ z) s = ngx_http_process_request_uri m g b s"
proof -
  from assms(1) obtain i e where u: "uri_first s = Some i" "uri_stop s = Some e" "e \<le> n"
    and d: "complex_uri s \<or> quoted_uri s \<or> (case args_start s of Some a \<Rightarrow> a \<le> n | None \<Rightarrow> True)"
    by (fastforce simp: uri_done_def split: option.splits)
  from u assms(2) have c: "cut (b @ z) i e = cut b i e" by (simp add: cut_prefix)
  show ?thesis
  proof (cases "complex_uri s \<or> quoted_uri s")
    case True with u c show ?thesis by (simp add: ngx_http_process_request_uri_def)
  next
    case False
    with d u assms(2) have "(case args_start s of Some a \<Rightarrow> a - 1 | None \<Rightarrow> e) \<le> length b" by (auto split: option.splits)
    with False u c show ?thesis by (simp add: ngx_http_process_request_uri_def Let_def cut_prefix)
  qed
qed

section \<open>The whole loop\<close>

lemma reading_fresh: "reading [] (fresh_state room nbusy nfree)"
  by (auto simp: reading_def fresh_state_def same_line_def fresh_request_def)

lemma moved_moved: "k \<le> q \<Longrightarrow> moved (q - k) (moved k s) = moved q s"
proof -
  assume "k \<le> q"
  then have "back_by (q - k) (back_by k y) = back_by q y" for y by (cases y) simp_all
  then show ?thesis by (simp add: moved_def)
qed

lemma alloc_reading:
  assumes "reading w st" and "ngx_http_alloc_large_header_buffer mem lnum lsize st = (NGX_OK, st')" and "0 < rq_room st"
  shows "reading w st'" "length (rq_buf st') < rq_room st'"
proof -
  from assms(1) obtain k s where k: "k \<le> length w" "rq_buf st = drop k w" "rq_pos st = length w - k"
    and s: "scan (ngx_rl_step w) 0 w fresh_request = Again (length w) s" and l: "same_line k (length w) (rq_r st) s"
    by (auto simp: reading_def)
  have "reading w st' \<and> length (rq_buf st') < rq_room st'"
  proof (cases "rq_at s = rs_start")
    case True
    with l obtain x y where xy: "rq_r st = fresh_request\<lparr>request_start := x\<rparr>" "s = fresh_request\<lparr>request_start := y\<rparr>"
      by (auto simp: same_line_def)
    then have st': "st' = st\<lparr>rq_buf := [], rq_pos := 0\<rparr>"
      using assms(2) by (auto simp: ngx_http_alloc_large_header_buffer_def fresh_request_def)
    have "same_line (length w) (length w) (rq_r st) s" using l True by (simp add: same_line_def)
    with s have "reading w st'" unfolding reading_def by (intro exI [of _ "length w"] exI [of _ s]) (simp add: st')
    with assms(3) show ?thesis by (simp add: st')
  next
    case False
    with l have m: "rq_r st = moved k s" and b: "behind k (length w) s" by (simp_all add: same_line_def)
    from b obtain q where q: "request_start s = Some q" "k \<le> q" "q < length w" "list_all (after q) (pointers s)" by (rule behindE)
    have old: "the (request_start (rq_r st)) = q - k" by (simp add: m q)
    have at: "rq_at (rq_r st) \<noteq> rs_start" using False by (simp add: m)
    from assms(2) have lt: "rq_pos st - (q - k) < lsize" and st': "st' = st\<lparr>rq_buf := cut (rq_buf st) (q - k) (rq_pos st),
        rq_pos := rq_pos st - (q - k), rq_room := lsize, rq_r := moved (q - k) (rq_r st), rq_nbusy := rq_nbusy st + 1, rq_nfree := rq_nfree st - 1\<rparr>"
      unfolding ngx_http_alloc_large_header_buffer_def Let_def old if_not_P [OF at] request_codes NGX_DECLINED_def
      by (simp_all split: if_splits)
    have "cut (drop k w) (q - k) (length w - k) = drop q w" using q(2) by (simp add: cut_drop) (simp add: cut_def)
    moreover have "same_line q (length w) (moved q s) s" using False q by (simp add: same_line_def behind_def)
    moreover have "length w - k - (q - k) = length w - q" using q by simp
    ultimately have "reading w st'" unfolding reading_def using s q(3)
      by (intro exI [of _ q] exI [of _ s]) (simp add: st' k m moved_moved [OF q(2)])
    moreover have "length (rq_buf st') < rq_room st'" using lt by (simp add: st' k cut_def)
    ultimately show ?thesis by blast
  qed
  then show "reading w st'" "length (rq_buf st') < rq_room st'" by auto
qed

lemma concat_left_over: "take room c @ concat (left_over room c cs) = c @ concat cs"
  by (simp add: left_over_def)

lemma left_over_ne: "[] \<notin> set cs \<Longrightarrow> [] \<notin> set (left_over room c cs)"
  by (auto simp: left_over_def)

text \<open>Room for a line of \<open>n\<close> bytes: in the current buffer or in a large one.\<close>

definition line_fits :: "(nat \<Rightarrow> bool) \<Rightarrow> nat \<Rightarrow> nat \<Rightarrow> nat \<Rightarrow> rq_state \<Rightarrow> bool" where
  "line_fits mem lnum lsize n st \<longleftrightarrow> n \<le> rq_room st
     \<or> n \<le> lsize \<and> (rq_nfree st \<noteq> 0 \<or> rq_nbusy st < lnum \<and> mem (rq_nbusy st))"

text \<open>The line was parsed as it would have been in one piece; \<open>k\<close> bytes before it have been given up.\<close>

definition parsed_as :: "bool \<Rightarrow> bool \<Rightarrow> string \<Rightarrow> nat \<Rightarrow> rq_regs \<Rightarrow> rq_outcome \<Rightarrow> bool" where
  "parsed_as umem merge w n s out \<longleftrightarrow> (case ngx_http_process_request_uri umem merge w s of
      Inl code \<Rightarrow> out = (if code = NGX_HTTP_BAD_REQUEST then Rq_bad_request else Rq_server_error)
    | Inr v \<Rightarrow> (\<exists>st k m. out = Rq_parsed st (parts_back k v) \<and> n \<le> m \<and> m \<le> length w \<and> rq_buf st = drop k (take m w)
        \<and> rq_pos st = n - k \<and> rq_r st = moved k s \<and> behind k n s))"

lemma round_done:
  assumes "reading w st" and "x \<noteq> []" and "ngx_http_parse_request_line (w @ x @ z) 0 fresh_request = (NGX_OK, n, s)"
    and "n \<le> length (w @ x)"
  shows "\<exists>out. request_line_round mem lnum lsize umem merge x st = Inl out \<and> parsed_as umem merge (w @ x @ z) n s out"
proof -
  from whole_prefix [of "w @ x" z n s] assms(3,4) have p: "ngx_http_parse_request_line (w @ x) 0 fresh_request = (NGX_OK, n, s)" by simp
  from round_parse [OF assms(1,2) p] obtain k where k: "k \<le> length w" "rq_buf st = drop k w" "behind k n s"
    "ngx_http_parse_request_line (rq_buf st @ x) (rq_pos st) (rq_r st) = (NGX_OK, n - k, moved k s)"
    by (auto simp: request_codes)
  note d = request_line_done [OF p]
  have b: "rq_buf st @ x = drop k (w @ x)" using k by simp
  have U: "ngx_http_process_request_uri umem merge (rq_buf st @ x) (moved k s)
      = map_sum id (parts_back k) (ngx_http_process_request_uri umem merge (w @ x @ z) s)"
    unfolding b using uri_parts_shift [OF k(3) d(1)] uri_parts_prefix [OF d, of umem merge z] by simp
  show ?thesis
  proof (cases "ngx_http_process_request_uri umem merge (w @ x @ z) s")
    case (Inl code)
    with U k(4) show ?thesis by (simp add: request_line_round_def parsed_as_def)
  next
    case (Inr v)
    have "\<exists>m. n \<le> m \<and> m \<le> length (w @ x @ z) \<and> rq_buf st @ x = drop k (take m (w @ x @ z))"
      using assms(4) b by (intro exI [of _ "length (w @ x)"]) simp
    with Inr U k show ?thesis by (auto simp: request_line_round_def parsed_as_def)
  qed
qed

lemma round_again_eq:
  assumes "ngx_http_parse_request_line (rq_buf st @ x) (rq_pos st) (rq_r st) = (NGX_AGAIN, p, s)"
    and "st2 = st\<lparr>rq_buf := rq_buf st @ x, rq_pos := p, rq_r := s\<rparr>"
  shows "request_line_round mem lnum lsize umem merge x st = (if rq_pos st2 = rq_room st2 then
      (case ngx_http_alloc_large_header_buffer mem lnum lsize st2 of (rv, st3) \<Rightarrow>
         if rv = NGX_ERROR then Inl Rq_server_error else if rv = NGX_DECLINED then Inl Rq_too_large else Inr st3) else Inr st2)"
  using assms by (simp add: request_line_round_def Let_def request_codes)

lemma round_again:
  assumes "reading w st" and "x \<noteq> []" and "ngx_http_parse_request_line (w @ x @ z) 0 fresh_request = (NGX_OK, n, s)"
    and "length (w @ x) < n" and "length (rq_buf st) + length x \<le> rq_room st" and "line_fits mem lnum lsize n st"
  shows "\<exists>st'. request_line_round mem lnum lsize umem merge x st = Inr st' \<and> reading (w @ x) st'
     \<and> length (rq_buf st') < rq_room st' \<and> line_fits mem lnum lsize n st'"
proof -
  from whole_prefix [of "w @ x" z n s] assms(3,4) obtain t where
    p: "ngx_http_parse_request_line (w @ x) 0 fresh_request = (NGX_AGAIN, length (w @ x), t)" by auto
  from round_parse [OF assms(1,2) p] obtain k s' where k: "k \<le> length w" "rq_buf st = drop k w" "rq_pos st = length w - k"
    and q: "ngx_http_parse_request_line (rq_buf st @ x) (rq_pos st) (rq_r st) = (NGX_AGAIN, length (w @ x) - k, s')"
    and l: "same_line k (length (w @ x)) s' t" and sc: "scan (ngx_rl_step (w @ x)) 0 (w @ x) fresh_request = Again (length (w @ x)) t"
    by auto
  define st2 where "st2 = st\<lparr>rq_buf := rq_buf st @ x, rq_pos := length (w @ x) - k, rq_r := s'\<rparr>"
  have r2: "reading (w @ x) st2"
    unfolding reading_def using k l sc by (intro exI [of _ k] exI [of _ t]) (simp add: st2_def)
  have f2: "line_fits mem lnum lsize n st2" "rq_room st2 = rq_room st" using assms(6) by (simp_all add: line_fits_def st2_def)
  have p2: "rq_pos st2 = length (rq_buf st2)" "rq_pos st2 \<le> rq_room st2" "rq_pos st2 \<le> length (w @ x)"
    using k assms(5) by (simp_all add: st2_def)
  note R = round_again_eq [OF q st2_def, of mem lnum lsize umem merge]
  show ?thesis
  proof (cases "rq_pos st2 = rq_room st2")
    case False
    with R r2 f2 p2 show ?thesis by simp
  next
    case True
    have "\<exists>st3. ngx_http_alloc_large_header_buffer mem lnum lsize st2 = (NGX_OK, st3) \<and> line_fits mem lnum lsize n st3"
    proof -
      have "n \<le> lsize" "rq_nfree st2 \<noteq> 0 \<or> rq_nbusy st2 < lnum \<and> mem (rq_nbusy st2)"
        using f2(1) True p2(3) assms(4) by (auto simp: line_fits_def)
      with p2(3) assms(4) f2(1) show ?thesis by (auto simp: ngx_http_alloc_large_header_buffer_def Let_def line_fits_def)
    qed
    then obtain st3 where a: "ngx_http_alloc_large_header_buffer mem lnum lsize st2 = (NGX_OK, st3)" "line_fits mem lnum lsize n st3" by blast
    have "0 < rq_room st2" using assms(2,5) by (cases x) (auto simp: st2_def)
    from alloc_reading [OF r2 a(1) this] a R True show ?thesis by (auto simp: request_codes NGX_DECLINED_def)
  qed
qed

lemma request_line_loop:
  assumes "reading w st" and "[] \<notin> set cs" and "ngx_http_parse_request_line (w @ concat cs) 0 fresh_request = (NGX_OK, n, s)"
    and "length w < n" and "length (rq_buf st) < rq_room st" and "line_fits mem lnum lsize n st"
  shows "parsed_as umem merge (w @ concat cs) n s (ngx_http_process_request_line mem lnum lsize umem merge cs st)"
  using assms
proof (induction mem lnum lsize umem merge cs st arbitrary: w rule: ngx_http_process_request_line.induct)
  case (1 mem lnum lsize umem merge st)
  with request_line_done(2) [OF "1.prems"(3)] show ?case by simp
next
  case (2 mem lnum lsize umem merge c cs st)
  define room where "room = rq_room st - length (rq_buf st)"
  define x where "x = take room c"
  define z where "z = concat (left_over room c cs)"
  have c: "\<not> (c = [] \<or> room = 0)" "x \<noteq> []" using "2.prems"(2,5) by (auto simp: room_def x_def)
  have xz: "x @ z = c @ concat cs" unfolding x_def z_def by (rule concat_left_over)
  have P: "ngx_http_parse_request_line (w @ x @ z) 0 fresh_request = (NGX_OK, n, s)" using "2.prems"(3) by (simp add: xz)
  have L: "ngx_http_process_request_line mem lnum lsize umem merge (c # cs) st =
      (case request_line_round mem lnum lsize umem merge x st of Inl out \<Rightarrow> out
       | Inr st' \<Rightarrow> ngx_http_process_request_line mem lnum lsize umem merge (left_over room c cs) st')"
    using c(1) unfolding x_def room_def ngx_http_process_request_line.simps(2) by (rule if_not_P)
  show ?case
  proof (cases "n \<le> length (w @ x)")
    case True
    from round_done [OF "2.prems"(1) c(2) P True] obtain out where
      "request_line_round mem lnum lsize umem merge x st = Inl out" "parsed_as umem merge (w @ x @ z) n s out" by blast
    then show ?thesis by (simp add: L xz)
  next
    case False
    have "length (rq_buf st) + length x \<le> rq_room st" using "2.prems"(5) by (simp add: x_def room_def)
    from round_again [OF "2.prems"(1) c(2) P _ this "2.prems"(6)] False obtain st' where
      r: "request_line_round mem lnum lsize umem merge x st = Inr st'" "reading (w @ x) st'"
        "length (rq_buf st') < rq_room st'" "line_fits mem lnum lsize n st'" by auto
    have "parsed_as umem merge ((w @ x) @ concat (left_over room c cs)) n s
        (ngx_http_process_request_line mem lnum lsize umem merge (left_over room c cs) st')"
    proof (rule "2.IH" [folded room_def, folded x_def, OF c(1) r(1) r(2) _ _ _ r(3,4)])
      show "[] \<notin> set (left_over room c cs)" using "2.prems"(2) by (intro left_over_ne) simp
      show "ngx_http_parse_request_line ((w @ x) @ concat (left_over room c cs)) 0 fresh_request = (NGX_OK, n, s)"
        using P by (simp add: z_def)
    qed (use False in simp)
    then show ?thesis using xz by (simp add: L r(1) z_def)
  qed
qed

text \<open>The other direction: a line that the loop has parsed is a line parsed in one piece.\<close>

lemma round_sound:
  assumes "reading w st" and "x \<noteq> []"
  shows "case request_line_round mem lnum lsize umem merge x st of
      Inl (Rq_parsed st' v) \<Rightarrow> (\<exists>n s u. ngx_http_parse_request_line (w @ x) 0 fresh_request = (NGX_OK, n, s)
        \<and> ngx_http_process_request_uri umem merge (w @ x) s = Inr u \<and> ru_uri v = ru_uri u)
    | Inl out \<Rightarrow> True
    | Inr st' \<Rightarrow> reading (w @ x) st'"
proof -
  obtain rc n s where p: "ngx_http_parse_request_line (w @ x) 0 fresh_request = (rc, n, s)" by (metis prod_cases3)
  consider "rc = NGX_OK" | "rc = NGX_AGAIN" | "rc \<noteq> NGX_OK" "rc \<noteq> NGX_AGAIN" by blast
  then show ?thesis
  proof cases
    case 1
    with round_done [OF assms, of "[]" n s mem lnum lsize umem merge] p request_line_done(2) [of "w @ x" n s]
    obtain out where o: "request_line_round mem lnum lsize umem merge x st = Inl out" "parsed_as umem merge (w @ x) n s out" by auto
    then show ?thesis using p 1
      by (auto simp: parsed_as_def parts_back_def split: rq_outcome.split sum.splits)
  next
    case 2
    from round_parse [OF assms p] 2 obtain k s' where k: "k \<le> length w" "rq_buf st = drop k w" "rq_pos st = length w - k"
      "n = length (w @ x)"
      and q: "ngx_http_parse_request_line (rq_buf st @ x) (rq_pos st) (rq_r st) = (NGX_AGAIN, n - k, s')"
      and l: "same_line k n s' s" and sc: "scan (ngx_rl_step (w @ x)) 0 (w @ x) fresh_request = Again n s"
      by auto
    define st2 where "st2 = st\<lparr>rq_buf := rq_buf st @ x, rq_pos := n - k, rq_r := s'\<rparr>"
    have r2: "reading (w @ x) st2"
      unfolding reading_def using k l sc by (intro exI [of _ k] exI [of _ s]) (simp add: st2_def)
    have room: "0 < rq_room st2" if "rq_pos st2 = rq_room st2" using that k assms(2) by (cases x) (auto simp: st2_def)
    obtain rv st3 where a: "ngx_http_alloc_large_header_buffer mem lnum lsize st2 = (rv, st3)" by (cases "ngx_http_alloc_large_header_buffer mem lnum lsize st2")
    have rv: "rv \<in> {NGX_OK, NGX_ERROR, NGX_DECLINED}"
      using a by (auto simp: ngx_http_alloc_large_header_buffer_def Let_def split: if_splits)
    note R = round_again_eq [OF q st2_def, of mem lnum lsize umem merge]
    from rv alloc_reading(1) [OF r2, of mem lnum lsize st3] a room r2 show ?thesis unfolding R a prod.case by auto
  next
    case 3
    with round_parse [OF assms p] show ?thesis by (auto simp: request_line_round_def Let_def split: sum.split)
  qed
qed

lemma request_line_sound:
  assumes "ngx_http_process_request_line mem lnum lsize umem merge cs st = Rq_parsed st' v" and "reading w st"
  shows "\<exists>b n s u. prefix b (w @ concat cs) \<and> ngx_http_parse_request_line b 0 fresh_request = (NGX_OK, n, s)
    \<and> ngx_http_process_request_uri umem merge b s = Inr u \<and> ru_uri v = ru_uri u"
  using assms
proof (induction mem lnum lsize umem merge cs st arbitrary: w rule: ngx_http_process_request_line.induct)
  case (1 mem lnum lsize umem merge st)
  then show ?case by (simp add: ngx_http_process_request_line.simps)
next
  case (2 mem lnum lsize umem merge c cs st)
  define room where "room = rq_room st - length (rq_buf st)"
  define x where "x = take room c"
  have c: "\<not> (c = [] \<or> room = 0)"
    using "2.prems"(1) unfolding ngx_http_process_request_line.simps(2) room_def by (auto split: if_splits)
  then have x: "x \<noteq> []" by (auto simp: x_def)
  have L: "(case request_line_round mem lnum lsize umem merge x st of Inl out \<Rightarrow> out
       | Inr st' \<Rightarrow> ngx_http_process_request_line mem lnum lsize umem merge (left_over room c cs) st') = Rq_parsed st' v"
    using c "2.prems"(1) unfolding x_def room_def ngx_http_process_request_line.simps(2) by (simp only: if_not_P if_False)
  have xz: "x @ concat (left_over room c cs) = c @ concat cs" unfolding x_def by (rule concat_left_over)
  note sound = round_sound [OF "2.prems"(2) x, where mem = mem and lnum = lnum and lsize = lsize and umem = umem and merge = merge]
  show ?case
  proof (cases "request_line_round mem lnum lsize umem merge x st")
    case (Inl out)
    with L sound obtain n s u where "ngx_http_parse_request_line (w @ x) 0 fresh_request = (NGX_OK, n, s)"
      "ngx_http_process_request_uri umem merge (w @ x) s = Inr u" "ru_uri v = ru_uri u" by auto
    moreover have "prefix (w @ x) (w @ concat (c # cs))" by (simp flip: xz)
    ultimately show ?thesis by blast
  next
    case (Inr st1)
    with L sound "2.IH" [folded room_def, folded x_def, OF c Inr, of "w @ x"] show ?thesis by (simp add: xz)
  qed
qed

section \<open>The requests of the client\<close>

text \<open>The bytes that neither end the arguments nor change how they are read.\<close>

definition arg_char :: "char \<Rightarrow> bool" where
  "arg_char c \<longleftrightarrow> c \<notin> {NUL, LF, CR, CHR '' '', CHR ''#''}"

lemma rl_uri_run:
  "list_all arg_char a \<Longrightarrow> rq_at s = rs_uri \<Longrightarrow> scan (ngx_rl_step b) p (a @ t) s = scan (ngx_rl_step b) (p + length a) t s"
  by (induction a arbitrary: p) (auto simp: ngx_rl_step_def rl_uri_step_def rl_uri_def arg_char_def)

definition at_args :: rq_regs where
  "at_args = fresh_request\<lparr>rq_at := rs_uri, rq_method := NGX_HTTP_GET, request_start := Some 0, method_stop := Some 2,
     uri_first := Some 4, args_start := Some 13\<rparr>"

lemma client_line_start:
  "scan (ngx_rl_step (ngx_get_1 @ t)) 0 (ngx_get_1 @ t) fresh_request = scan (ngx_rl_step (ngx_get_1 @ t)) 13 t at_args"
  by (simp add: ngx_get_1_def ngx_rl_step_def rl_method_step_def rl_schema_step_def rl_uri_step_def rl_after_slash_def
      rl_check_uri_def rl_goto_def usual_iff method_char_def char_class_defs method_codes_def cut_def at_args_def
      fresh_request_def NGX_HTTP_GET_def eval_nat_numeral)

definition client_regs :: "string \<Rightarrow> rq_regs" where
  "client_regs a = at_args\<lparr>rq_at := rs_start, rq_major := 1, rq_minor := 1, rq_version := 1001, uri_stop := Some (13 + length a),
     http_protocol := Some (14 + length a), request_stop := Some (22 + length a)\<rparr>"

lemma client_line_stop:
  "scan (ngx_rl_step b) p ('' HTTP/1.1'' @ CR # LF # z) at_args = Stopped NGX_OK (p + 10)
     (at_args\<lparr>rq_at := rs_almost_done, rq_major := 1, rq_minor := 1, uri_stop := Some p, http_protocol := Some (p + 1), request_stop := Some (p + 9)\<rparr>)"
  by (simp add: ngx_rl_step_def rl_uri_step_def rl_uri_def rl_09_step_def rl_version_step_def rl_expect_def rl_goto_def
      usual_iff dig_def ord_def at_args_def fresh_request_def)

lemma client_line:
  assumes "list_all arg_char a"
  shows "ngx_http_parse_request_line (ngx_get_1 @ a @ '' HTTP/1.1'' @ CR # LF # z) 0 fresh_request = (NGX_OK, 24 + length a, client_regs a)"
proof -
  let ?t = "'' HTTP/1.1'' @ CR # LF # z"
  have "rq_at at_args = rs_uri" by (simp add: at_args_def)
  then have "scan (ngx_rl_step (ngx_get_1 @ a @ ?t)) 0 (ngx_get_1 @ a @ ?t) fresh_request
      = scan (ngx_rl_step (ngx_get_1 @ a @ ?t)) (13 + length a) ?t at_args"
    by (simp only: client_line_start rl_uri_run [OF assms])
  also note client_line_stop
  finally have e: "scan (ngx_rl_step (ngx_get_1 @ a @ ?t)) 0 (ngx_get_1 @ a @ ?t) fresh_request = Stopped NGX_OK (13 + length a + 10)
      (at_args\<lparr>rq_at := rs_almost_done, rq_major := 1, rq_minor := 1, uri_stop := Some (13 + length a),
        http_protocol := Some (13 + length a + 1), request_stop := Some (13 + length a + 9)\<rparr>)" .
  show ?thesis unfolding whole_line e
    by (simp add: client_regs_def at_args_def fresh_request_def request_codes NGX_HTTP_GET_def)
qed

lemma client_parts:
  assumes "a \<noteq> []"
  shows "ngx_http_process_request_uri umem merge (ngx_get_1 @ a @ t) (client_regs a) = Inr \<lparr>ru_uri = ''/getfile'',
     ru_args = Some (13, 13 + length a), ru_exten = None, ru_unparsed = ''/getfile?'' @ a, ru_valid_unparsed = True,
     ru_plus = False, ru_quoted = False\<rparr>"
proof -
  have "cut (ngx_get_1 @ a @ t) 4 (13 + length a) = ''/getfile?'' @ a"
    by (simp add: cut_def ngx_get_1_def eval_nat_numeral)
  moreover have "cut (ngx_get_1 @ a @ t) 4 12 = ''/getfile''" by (simp add: cut_def ngx_get_1_def)
  ultimately show ?thesis
    using assms by (simp add: ngx_http_process_request_uri_def client_regs_def at_args_def fresh_request_def Let_def args_range_def)
qed

text \<open>What the module is called with: the arguments, and the bytes that follow them in the buffer.\<close>

definition getfile_request :: "rq_state \<Rightarrow> uri_parts \<Rightarrow> ngx_request" where
  "getfile_request st v = (case ru_args v of
      None \<Rightarrow> \<lparr>ngx_args = [], ngx_rest = rq_buf st, ngx_is_getfile = False\<rparr>
    | Some (i, e) \<Rightarrow> \<lparr>ngx_args = cut (rq_buf st) i e, ngx_rest = drop e (rq_buf st), ngx_is_getfile = False\<rparr>)"

lemma getfile_request_args:
  assumes "rq_buf st = drop k (take m w)" and "ru_args v = Some (i, e)" and "k \<le> i" "i \<le> e" "e \<le> m"
  shows "ngx_args (getfile_request st (parts_back k v)) = cut w i e"
proof -
  have "cut (take m w) i e = cut w i e" using assms(4,5) by (simp add: cut_def drop_take min_def)
  with assms show ?thesis by (simp add: getfile_request_def parts_back_def cut_drop)
qed

section \<open>Properties\<close>

text \<open>C10. Neither the pieces nor the buffers matter: whatever pieces the bytes of a request line arrive in,
  and whether or not the line is moved to a large buffer on the way, nginx comes to the result that
  parsing the line in one piece gives, with the registers of that parse moved by the number of bytes
  given up before the line, provided that the line fits into the buffer or a large one is to be had.
  Lines that the parser of the line refuses are not spoken of; a URI that is refused afterwards is.\<close>

theorem request_line_pieces:
  assumes "[] \<notin> set cs" and "ngx_http_parse_request_line (concat cs) 0 fresh_request = (NGX_OK, n, s)" and "0 < room"
    and "n \<le> room \<or> n \<le> lsize \<and> (nfree \<noteq> 0 \<or> nbusy < lnum \<and> mem nbusy)"
  shows "case ngx_http_process_request_uri umem merge (concat cs) s of
      Inl code \<Rightarrow> ngx_http_process_request_line mem lnum lsize umem merge cs (fresh_state room nbusy nfree)
        = (if code = NGX_HTTP_BAD_REQUEST then Rq_bad_request else Rq_server_error)
    | Inr v \<Rightarrow> (\<exists>st k m. ngx_http_process_request_line mem lnum lsize umem merge cs (fresh_state room nbusy nfree) = Rq_parsed st (parts_back k v)
        \<and> n \<le> m \<and> m \<le> length (concat cs) \<and> rq_buf st = drop k (take m (concat cs)) \<and> rq_pos st = n - k \<and> rq_r st = moved k s)"
proof -
  have "0 < n" using assms(2) by (auto simp: ngx_http_parse_request_line_def Let_def request_codes split: scanned.splits if_splits)
  then have "parsed_as umem merge ([] @ concat cs) n s (ngx_http_process_request_line mem lnum lsize umem merge cs (fresh_state room nbusy nfree))"
    by (intro request_line_loop [OF reading_fresh]) (use assms in \<open>auto simp: fresh_state_def line_fits_def\<close>)
  then show ?thesis by (auto simp: parsed_as_def split: sum.split_asm)
qed

theorem request_line_pieces_witness:
  "\<exists>st v. ngx_http_process_request_line (\<lambda>_. True) 4 64 True True [ngx_get_1, ''x HTTP/1.1'' @ [CR, LF]] (fresh_state 5 0 0) = Rq_parsed st v
     \<and> rq_method (rq_r st) = NGX_HTTP_GET \<and> ru_uri v = ''/getfile''"
proof -
  let ?cs = "[ngx_get_1, ''x HTTP/1.1'' @ [CR, LF]]"
  have c: "concat ?cs = ngx_get_1 @ ''x'' @ '' HTTP/1.1'' @ CR # LF # []" by simp
  have l: "ngx_http_parse_request_line (concat ?cs) 0 fresh_request = (NGX_OK, 25, client_regs ''x'')"
    unfolding c by (subst client_line) (simp_all add: arg_char_def)
  have u: "ngx_http_process_request_uri True True (concat ?cs) (client_regs ''x'') = Inr \<lparr>ru_uri = ''/getfile'',
     ru_args = Some (13, 14), ru_exten = None, ru_unparsed = ''/getfile?x'', ru_valid_unparsed = True, ru_plus = False, ru_quoted = False\<rparr>"
    unfolding c by (subst client_parts) simp_all
  have "[] \<notin> set ?cs" by (simp add: ngx_get_1_def)
  from request_line_pieces [OF this l, of 5 64 0 0 4 "\<lambda>_. True" True True] show ?thesis
    unfolding u sum.case by (auto simp: parts_back_def client_regs_def at_args_def)
qed

text \<open>C9. No way out of the root: whatever a client sends, in whatever pieces, the URI that nginx goes on
  with begins with a slash and has no \<open>..\<close> between two slashes.\<close>

theorem request_uri_confined:
  assumes "ngx_http_process_request_line mem lnum lsize umem merge cs (fresh_state room nbusy nfree) = Rq_parsed st v"
  shows "take 1 (ru_uri v) = ''/'' \<and> \<not> contains (ru_uri v) ''/../''"
proof -
  from request_line_sound [OF assms reading_fresh] obtain b n s u where
    "ngx_http_parse_request_line b 0 fresh_request = (NGX_OK, n, s)" "ngx_http_process_request_uri umem merge b s = Inr u"
    "ru_uri v = ru_uri u" by blast
  with uri_confined [OF request_line_done] show ?thesis by simp
qed

theorem request_uri_confined_witness:
  "\<exists>st v. ngx_http_process_request_line (\<lambda>_. True) 4 64 True True [''GET /a/../b HTTP/1.1'' @ [CR, LF]] (fresh_state 64 0 0) = Rq_parsed st v
     \<and> ru_uri v = ''/b'' \<and> \<not> contains ''/b'' ''/../''"
proof -
  have "case ngx_http_process_request_line (\<lambda>_. True) 4 64 True True [''GET /a/../b HTTP/1.1'' @ [CR, LF]] (fresh_state 64 0 0) of
      Rq_parsed st v \<Rightarrow> ru_uri v = ''/b'' | _ \<Rightarrow> False"
    by code_simp
  then obtain st v where "ngx_http_process_request_line (\<lambda>_. True) 4 64 True True [''GET /a/../b HTTP/1.1'' @ [CR, LF]] (fresh_state 64 0 0) = Rq_parsed st v"
    "ru_uri v = ''/b''" by (auto split: rq_outcome.splits)
  with request_uri_confined [OF this(1)] show ?thesis by simp
qed

text \<open>C8. What the client asks for is what the video server is asked for. Let the host of a URL be an IP
  address, the local path be of a supported type, and neither hold a byte that ends a URI. When the
  request the client builds arrives at nginx, in whatever pieces, and fits its buffers, nginx finds a
  GET of \<open>/getfile\<close>; the module takes it, connects to the address and sends a request that is the URI of
  the file with the host in its Host header, exactly as long as the buffer made for it.\<close>

theorem fetch_forwarded:
  assumes "dotted_quad h" and "uri = h @ ''/'' @ p" and "list_all arg_char uri" "list_all arg_char lp" "is_cstr ip"
    and "suffix_is lp t" and "t \<in> {''flv'', ''mp4'', ''mov'', ''zip'', ''gif'', ''png'', ''jpg'', ''ico''}" and "3 \<le> length lp"
    and "length uri + 11 + length lp < BUFLEN_L"
    and "sc_ngx_build_get ip uri lp [] len = (0, b)" and "concat cs = cstr b" and "[] \<notin> set cs"
    and "0 < room" and "length (cstr b) \<le> room \<or> length (cstr b) \<le> lsize \<and> (nfree \<noteq> 0 \<or> nbusy < lnum \<and> mem nbusy)"
    and "ctx_ok sv" "upstream_ok sv" "pipe_ok sv" "resolved_ok sv"
  shows "\<exists>st v r. ngx_http_process_request_line mem lnum lsize umem merge cs (fresh_state room nbusy nfree) = Rq_parsed st v
     \<and> rq_method (rq_r st) = NGX_HTTP_GET \<and> ru_uri v = ''/getfile'' \<and> r = getfile_request st v
     \<and> ngx_http_getfile_handler sv r = Some (NGX_DONE, Some (ByAddr h), r\<lparr>ngx_is_getfile := True\<rparr>)
     \<and> getfile_upstream_create_request True True junk h r
         = Some (''GET /'' @ p @ (if strchr uri (CHR ''?'') \<noteq> None then ''&'' else ''?'') @ ''localpath='' @ lp
             @ query_line_2 @ h @ query_line_3)"
proof -
  let ?a = "uri @ (if strchr uri (CHR ''?'') \<noteq> None then ''&'' else ''?'') @ localpath_tag @ lp"
  let ?z = "''Host: '' @ ip @ ngx_get_3"
  have c: "is_cstr uri" "is_cstr lp" using assms(3,4) by (auto simp: is_cstr_def list_all_iff arg_char_def)
  have a: "list_all arg_char ?a" "?a \<noteq> []" using assms(2-4) by (auto simp: localpath_tag_def arg_char_def)
  have b: "concat cs = ngx_get_1 @ ?a @ '' HTTP/1.1'' @ CR # LF # ?z"
    using client_request_sent [OF assms(10,5) c] assms(11)
    by (simp add: args_mem_def client_request_def ngx_get_2_def crlf_def)
  note line = client_line [OF a(1), of ?z, folded b] and parts = client_parts [OF a(2), of _ _ "'' HTTP/1.1'' @ CR # LF # ?z", folded b]
  have n: "24 + length ?a \<le> length (concat cs)" unfolding b by (simp add: ngx_get_1_def)
  have "parsed_as umem merge ([] @ concat cs) (24 + length ?a) (client_regs ?a)
      (ngx_http_process_request_line mem lnum lsize umem merge cs (fresh_state room nbusy nfree))"
    by (rule request_line_loop [OF reading_fresh])
      (use assms(11-14) line n in \<open>auto simp: fresh_state_def line_fits_def\<close>)
  then obtain st k m where L: "ngx_http_process_request_line mem lnum lsize umem merge cs (fresh_state room nbusy nfree)
        = Rq_parsed st (parts_back k \<lparr>ru_uri = ''/getfile'', ru_args = Some (13, 13 + length ?a), ru_exten = None,
            ru_unparsed = ''/getfile?'' @ ?a, ru_valid_unparsed = True, ru_plus = False, ru_quoted = False\<rparr>)"
    and m: "24 + length ?a \<le> m" "rq_buf st = drop k (take m (concat cs))" "rq_r st = moved k (client_regs ?a)"
      "behind k (24 + length ?a) (client_regs ?a)"
    using parts by (auto simp: parsed_as_def)
  have k: "k \<le> 0" using behind_after [OF m(4), of "request_start (client_regs ?a)" 0]
    by (simp add: pointers_def client_regs_def at_args_def)
  let ?r = "getfile_request st (parts_back k \<lparr>ru_uri = ''/getfile'', ru_args = Some (13, 13 + length ?a), ru_exten = None,
      ru_unparsed = ''/getfile?'' @ ?a, ru_valid_unparsed = True, ru_plus = False, ru_quoted = False\<rparr>)"
  have "cut (concat cs) 13 (13 + length ?a) = ?a" unfolding b by (simp add: cut_def ngx_get_1_def)
  then have "ngx_args ?r = ?a"
    using getfile_request_args [OF m(2) uri_parts.select_convs(2)] k m(1) by simp
  from getfile_forwards [OF assms(1,2) c assms(6-9) this assms(15-18)] L m(3) show ?thesis
    by (simp add: parts_back_def client_regs_def at_args_def)
qed

theorem fetch_forwarded_witness:
  "\<exists>b st v r. sc_ngx_build_get ''127.0.0.1'' demo_content demo_path [] BUFFER_LEN = (0, b)
     \<and> ngx_http_process_request_line (\<lambda>_. True) 4 8192 True True (map (\<lambda>c. [c]) (cstr b)) (fresh_state 1024 0 0) = Rq_parsed st v
     \<and> r = getfile_request st v
     \<and> ngx_http_getfile_handler \<lparr>ctx_ok = True, upstream_ok = True, pipe_ok = True, resolved_ok = True\<rparr> r
         = Some (NGX_DONE, Some (ByAddr ''1.2.3.4''), r\<lparr>ngx_is_getfile := True\<rparr>)"
proof -
  have q: "dotted_quad ''1.2.3.4''"
    unfolding dotted_quad_def
    by (intro exI [of _ "''1''"] exI [of _ "''2''"] exI [of _ "''3''"] exI [of _ "''4''"])
      (simp add: octet_def dec_val_def char_class_defs)
  obtain b where b: "sc_ngx_build_get ''127.0.0.1'' demo_content demo_path [] BUFFER_LEN = (0, b)"
    by (simp add: sc_ngx_build_get_def Let_def demo_content_def demo_path_def hc_limits ngx_get_pattern_len_def ngx_get_1_def
        ngx_get_2_def ngx_get_3_def crlf_def)
  have u: "demo_content = ''1.2.3.4'' @ ''/'' @ ''youku/657F3/030008-A.mp4''" by (simp add: demo_content_def)
  have c: "list_all arg_char demo_content" "list_all arg_char demo_path" "is_cstr ''127.0.0.1''"
    by (simp_all add: demo_content_def demo_path_def arg_char_def)
  have s: "suffix_is demo_path ''mp4''" "3 \<le> length demo_path" "length demo_content + 11 + length demo_path < BUFLEN_L"
    by (simp_all add: suffix_is_def demo_path_def demo_content_def getfile_limits)
  have "is_cstr demo_content" "is_cstr demo_path" by (simp_all add: demo_content_def demo_path_def)
  from client_request_sent [OF b c(3) this] have l: "length (cstr b) \<le> 1024"
    by (simp add: args_mem_def client_request_def demo_content_def demo_path_def localpath_tag_def ngx_get_1_def ngx_get_2_def
        ngx_get_3_def crlf_def)
  have cs: "concat (map (\<lambda>c. [c]) (cstr b)) = cstr b" "[] \<notin> set (map (\<lambda>c. [c]) (cstr b))" by (induction "cstr b") auto
  from fetch_forwarded [OF q u c s(1) _ s(2,3) b cs, of 1024 8192 0 0 4 "\<lambda>_. True"
      "\<lparr>ctx_ok = True, upstream_ok = True, pipe_ok = True, resolved_ok = True\<rparr>" True True "[]"] l b
  show ?thesis by auto
qed

end
