(* ===== verification/Ngx_Time.thy ===== *)
theory Ngx_Time
  imports Getfile_Module "HOL-Library.Monad_Syntax"
begin

text \<open>
  The date of a \<open>Last-Modified\<close> line: \<open>ngx_http_parse_time\<close> of \<^verbatim>\<open>ngx_http_parse_time.c\<close>, which
  gives a stored file its time. It reads three formats and turns the date into seconds by a closed
  formula. The reference is a calendar that counts days one after the other from 1 January 1970.
  A position of the text is the rest of the text from there; the routine makes sure that enough
  bytes are left before it reads them.
\<close>

section \<open>Reading the text\<close>

datatype time_fmt = Rfc822 | Rfc850 | Isoc

definition require :: "bool \<Rightarrow> unit option" where
  "require b = (if b then Some () else None)"

definition digit_at :: "string \<Rightarrow> nat \<Rightarrow> nat option" where
  "digit_at p i = (if isdigit (byte_at p i) then Some (ord (byte_at p i) - 48) else None)"

definition two_digits :: "string \<Rightarrow> nat option" where
  "two_digits p = do { a \<leftarrow> digit_at p 0; b \<leftarrow> digit_at p 1; Some (a * 10 + b) }"

definition four_digits :: "string \<Rightarrow> nat option" where
  "four_digits p = do { a \<leftarrow> digit_at p 0; b \<leftarrow> digit_at p 1; c \<leftarrow> digit_at p 2; d \<leftarrow> digit_at p 3;
     Some (a * 1000 + b * 100 + c * 10 + d) }"

text \<open>The name of the day is skipped up to a comma or a blank; a blank means the format of
  \<open>asctime\<close>.\<close>

definition skip_day :: "string \<Rightarrow> bool \<times> string" where
  "skip_day value = (let q = dropWhile (\<lambda>c. c \<noteq> CHR '','' \<and> c \<noteq> CHR '' '') value in
     (q \<noteq> [] \<and> hd q = CHR '' '', dropWhile (\<lambda>c. c = CHR '' '') (drop 1 q)))"

text \<open>The day of the month and the sign behind it, which tells the two other formats apart.\<close>

definition time_day :: "bool \<Rightarrow> string \<Rightarrow> (time_fmt \<times> nat \<times> string) option" where
  "time_day isoc p = (if isoc then Some (Isoc, 0, p) else do {
     day \<leftarrow> two_digits p;
     let p = drop 2 p;
     if byte_at p 0 = CHR '' '' then do { _ \<leftarrow> require (18 \<le> length p); Some (Rfc822, day, drop 1 p) }
     else do { _ \<leftarrow> require (byte_at p 0 = CHR ''-''); Some (Rfc850, day, drop 1 p) } })"

definition time_month :: "string \<Rightarrow> nat option" where
  "time_month p =
     (if byte_at p 0 = CHR ''J'' then Some (if byte_at p 1 = CHR ''a'' then 0 else if byte_at p 2 = CHR ''n'' then 5 else 6)
      else if byte_at p 0 = CHR ''F'' then Some 1
      else if byte_at p 0 = CHR ''M'' then Some (if byte_at p 2 = CHR ''r'' then 2 else 4)
      else if byte_at p 0 = CHR ''A'' then Some (if byte_at p 1 = CHR ''p'' then 3 else 7)
      else if byte_at p 0 = CHR ''S'' then Some 8
      else if byte_at p 0 = CHR ''O'' then Some 9
      else if byte_at p 0 = CHR ''N'' then Some 10
      else if byte_at p 0 = CHR ''D'' then Some 11 else None)"

text \<open>What stands between the month and the time of day: the year, or the day for \<open>asctime\<close>.\<close>

definition time_year :: "time_fmt \<Rightarrow> nat \<Rightarrow> string \<Rightarrow> (nat \<times> nat \<times> string) option" where
  "time_year fmt day p = (case fmt of
     Rfc822 \<Rightarrow> do { year \<leftarrow> four_digits p; Some (day, year, drop 4 p) }
   | Rfc850 \<Rightarrow> do { year \<leftarrow> two_digits p; Some (day, year + (if year < 70 then 2000 else 1900), drop 2 p) }
   | Isoc \<Rightarrow> do {
       let p = (if byte_at p 0 = CHR '' '' then drop 1 p else p);
       day \<leftarrow> digit_at p 0;
       let p = drop 1 p;
       (day, p) \<leftarrow> (if byte_at p 0 \<noteq> CHR '' '' then do { b \<leftarrow> digit_at p 0; Some (day * 10 + b, drop 1 p) }
                    else Some (day, p));
       _ \<leftarrow> require (14 \<le> length p);
       Some (day, 0, p) })"

text \<open>A blank and the time of day.\<close>

definition time_clock :: "string \<Rightarrow> (nat \<times> nat \<times> nat \<times> string) option" where
  "time_clock p = do {
     _ \<leftarrow> require (byte_at p 0 = CHR '' '');
     hour \<leftarrow> two_digits (drop 1 p);
     _ \<leftarrow> require (byte_at p 3 = CHR '':'');
     mi \<leftarrow> two_digits (drop 4 p);
     _ \<leftarrow> require (byte_at p 6 = CHR '':'');
     sec \<leftarrow> two_digits (drop 7 p);
     Some (hour, mi, sec, drop 7 p) }"

definition mday :: "nat list" where
  "mday = [31, 28, 31, 30, 31, 30, 31, 31, 30, 31, 30, 31]"

text \<open>Gauss' formula, with the year from March to February and in the unsigned numbers of the code.\<close>

definition time_seconds :: "nat \<Rightarrow> nat \<Rightarrow> nat \<Rightarrow> nat \<Rightarrow> nat \<Rightarrow> nat \<Rightarrow> int" where
  "time_seconds year month day hour mi sec =
     (let m = (if month \<le> 1 then month + 11 else month - 1);
          y = (if month \<le> 1 then of_nat year - 1 else of_nat year) :: 64 word
      in sint ((365 * y + y div 4 - y div 100 + y div 400 + of_nat (367 * m div 12) - 30 + of_nat day - 1 - 719527 + 31 + 28)
               * 86400 + of_nat hour * 3600 + of_nat mi * 60 + of_nat sec))"

definition parse_time :: "string \<Rightarrow> int option" where
  "parse_time value = do {
     let (isoc, p) = skip_day value;
     _ \<leftarrow> require (18 \<le> length p);
     (fmt, day, p) \<leftarrow> time_day isoc p;
     month \<leftarrow> time_month p;
     let p = drop 3 p;
     _ \<leftarrow> require ((fmt = Rfc822 \<longrightarrow> byte_at p 0 = CHR '' '') \<and> (fmt = Rfc850 \<longrightarrow> byte_at p 0 = CHR ''-''));
     (day, year, p) \<leftarrow> time_year fmt day (drop 1 p);
     (hour, mi, sec, p) \<leftarrow> time_clock p;
     year \<leftarrow> (if fmt = Isoc then do { _ \<leftarrow> require (byte_at p 2 = CHR '' ''); four_digits (drop 3 p) } else Some year);
     _ \<leftarrow> require (hour \<le> 23 \<and> mi \<le> 59 \<and> sec \<le> 59);
     _ \<leftarrow> require (if day = 29 \<and> month = 1 then year mod 4 = 0 \<and> (year mod 100 = 0 \<longrightarrow> year mod 400 = 0)
                   else day \<le> mday ! month);
     Some (time_seconds year month day hour mi sec) }"

definition ngx_http_parse_time :: "string \<Rightarrow> int" where
  "ngx_http_parse_time value = (case parse_time value of None \<Rightarrow> NGX_ERROR | Some t \<Rightarrow> t)"

section \<open>The calendar\<close>

type_synonym date = "nat \<times> nat \<times> nat"

definition leap :: "nat \<Rightarrow> bool" where
  "leap y \<longleftrightarrow> y mod 4 = 0 \<and> (y mod 100 \<noteq> 0 \<or> y mod 400 = 0)"

definition month_days :: "nat \<Rightarrow> nat \<Rightarrow> nat" where
  "month_days y m = (if m = 1 \<and> leap y then 29 else mday ! m)"

fun next_day :: "date \<Rightarrow> date" where
  "next_day (y, m, d) =
     (if d < month_days y m then (y, m, d + 1) else if m < 11 then (y, m + 1, 1) else (y + 1, 0, 1))"

definition date_of :: "nat \<Rightarrow> date" where
  "date_of n = (next_day ^^ n) (1970, 0, 1)"

definition month_name :: "nat \<Rightarrow> string" where
  "month_name m = [''Jan'', ''Feb'', ''Mar'', ''Apr'', ''May'', ''Jun'', ''Jul'', ''Aug'', ''Sep'', ''Oct'', ''Nov'', ''Dec''] ! m"

definition dd :: "nat \<Rightarrow> string" where
  "dd n = [digit_char (n div 10), digit_char (n mod 10)]"

text \<open>A date in one of the three formats; the name of the day is any word.\<close>

definition http_date :: "time_fmt \<Rightarrow> string \<Rightarrow> date \<Rightarrow> nat \<Rightarrow> nat \<Rightarrow> nat \<Rightarrow> string" where
  "http_date fmt w x h mi s = (case x of (y, m, d) \<Rightarrow>
     let clock = '' '' @ dd h @ '':'' @ dd mi @ '':'' @ dd s; yyyy = dd (y div 100) @ dd (y mod 100) in
     case fmt of
       Rfc822 \<Rightarrow> w @ '', '' @ dd d @ '' '' @ month_name m @ '' '' @ yyyy @ clock @ '' GMT''
     | Rfc850 \<Rightarrow> w @ '', '' @ dd d @ ''-'' @ month_name m @ ''-'' @ dd (y mod 100) @ clock @ '' GMT''
     | Isoc \<Rightarrow> w @ '' '' @ month_name m @ '' '' @ (if d < 10 then '' '' @ [digit_char d] else dd d) @ clock @ '' '' @ yyyy)"

section \<open>The formula counts days\<close>

definition day_number :: "date \<Rightarrow> int" where
  "day_number x = (case x of (y, m, d) \<Rightarrow>
     let m' = (if m \<le> 1 then m + 11 else m - 1); y' = (if m \<le> 1 then y - 1 else y) in
     int (365 * y' + y' div 4 + y' div 400 + 367 * m' div 12 + d) - int (y' div 100) - 719499)"

definition date_ok :: "date \<Rightarrow> bool" where
  "date_ok x \<longleftrightarrow> (case x of (y, m, d) \<Rightarrow> 1970 \<le> y \<and> m < 12 \<and> 1 \<le> d \<and> d \<le> month_days y m)"

lemma month_cases:
  assumes "m < (12 :: nat)"
  obtains "m = 0" | "m = 1" | "m = 2" | "m = 3" | "m = 4" | "m = 5" | "m = 6" | "m = 7" | "m = 8" | "m = 9" | "m = 10" | "m = 11"
proof -
  have "m \<in> set [0..<12]" using assms by simp
  with that show thesis by (auto simp: upt_rec)
qed

lemma month_days_le: "m < 12 \<Longrightarrow> month_days y m \<le> 31"
  by (erule month_cases) (simp_all add: month_days_def mday_def)

lemma leap_gains:
  "int (Suc y div 4) - int (Suc y div 100) + int (Suc y div 400) =
     int (y div 4) - int (y div 100) + int (y div 400) + (if leap (Suc y) then 1 else 0)"
proof -
  have "Suc y mod 100 = 0" "Suc y mod 4 = 0" if "Suc y mod 400 = 0"
    using that mod_mod_cancel [of 100 400 "Suc y"] mod_mod_cancel [of 4 400 "Suc y"] by simp_all
  moreover have "Suc y mod 4 = 0" if "Suc y mod 100 = 0"
    using that mod_mod_cancel [of 4 100 "Suc y"] by simp
  ultimately show ?thesis unfolding div_Suc leap_def by auto
qed

lemma day_number_next:
  assumes "date_ok x"
  shows "day_number (next_day x) = day_number x + 1" and "date_ok (next_day x)"
proof -
  obtain y m d where x: "x = (y, m, d)" by (cases x)
  have y: "1970 \<le> y" and m: "m < 12" and d: "1 \<le> d" "d \<le> month_days y m" using assms by (simp_all add: date_ok_def x)
  obtain z where z: "y = Suc z" using y by (cases y) auto
  show "date_ok (next_day x)"
    using y m d by (rule_tac month_cases [OF m]) (auto simp: x date_ok_def month_days_def mday_def)
  show "day_number (next_day x) = day_number x + 1"
  proof (cases "d < month_days y m")
    case True
    then show ?thesis by (simp add: x day_number_def Let_def)
  next
    case False
    with d have d': "d = month_days y m" by simp
    show ?thesis
      by (rule month_cases [OF m]; use False in \<open>simp add: x day_number_def Let_def d' month_days_def mday_def\<close>)
        (use leap_gains [of z] in \<open>simp_all add: z split: if_splits\<close>)
  qed
qed

lemma date_of_ok: "date_ok (date_of n) \<and> day_number (date_of n) = int n"
proof (induction n)
  case 0
  show ?case by (simp add: date_of_def date_ok_def day_number_def month_days_def mday_def)
next
  case (Suc n)
  then show ?case using day_number_next [of "date_of n"] by (simp add: date_of_def)
qed

lemma date_of_Suc: "date_of (Suc n) = next_day (date_of n)"
  by (simp add: date_of_def)

lemma next_days: "d + k \<le> month_days y m \<Longrightarrow> (next_day ^^ k) (y, m, d) = (y, m, d + k)"
  by (induction k) simp_all

lemma word_div_nat:
  assumes "k < 10000" and "b = 4 \<or> b = 100 \<or> b = 400"
  shows "(of_nat k :: 64 word) div of_nat b = of_nat (k div b)"
proof -
  have "unat (of_nat k :: 64 word) = k" "unat (of_nat b :: 64 word) = b"
    using assms by (auto simp: unsigned_of_nat take_bit_nat_eq_self)
  moreover have "k div b < 2 ^ 64" by (rule le_less_trans [OF div_le_dividend]) (use assms(1) in simp)
  ultimately show ?thesis
    by (simp add: word_unat_eq_iff unat_div unsigned_of_nat take_bit_nat_eq_self)
qed

lemma sint_of_int_small:
  assumes "- (2 ^ 63) \<le> z" "z < 2 ^ 63"
  shows "sint (of_int z :: 64 word) = z"
  using assms by (simp add: signed_of_int signed_take_bit_int_eq_self)

lemma time_seconds_days:
  assumes "date_ok (y, m, d)" "y < 10000" "h < 24" "mi < 60" "s < 60"
  shows "time_seconds y m d h mi s = day_number (y, m, d) * 86400 + int (h * 3600 + mi * 60 + s)"
proof -
  let ?m = "if m \<le> 1 then m + 11 else m - 1" and ?y = "if m \<le> 1 then y - 1 else y"
  let ?z = "day_number (y, m, d) * 86400 + int (h * 3600 + mi * 60 + s)"
  have ok: "1970 \<le> y" "m < 12" "d \<le> 31"
    using assms(1) month_days_le [of m y] by (auto simp: date_ok_def)
  have y: "?y < 10000" using assms(2) by auto
  have w: "(if m \<le> 1 then of_nat y - 1 else of_nat y) = (of_nat ?y :: 64 word)" using ok(1) by (simp add: of_nat_diff)
  have q: "(of_nat ?y :: 64 word) div 4 = of_nat (?y div 4)" "(of_nat ?y :: 64 word) div 100 = of_nat (?y div 100)"
    "(of_nat ?y :: 64 word) div 400 = of_nat (?y div 400)"
    using word_div_nat [OF y, of 4] word_div_nat [OF y, of 100] word_div_nat [OF y, of 400] by simp_all
  have "time_seconds y m d h mi s = sint (of_int ?z :: 64 word)"
    unfolding time_seconds_def Let_def w q day_number_def prod.case
    by (rule arg_cong [where f = sint]) (simp del: of_nat_div add: algebra_simps)
  moreover have "sint (of_int ?z :: 64 word) = ?z"
  proof -
    have "?y div 4 \<le> ?y" "?y div 100 \<le> ?y" "?y div 400 \<le> ?y" "367 * ?m div 12 \<le> 367 * 12" using ok(2) by auto
    then have "- 10000000 \<le> day_number (y, m, d)" "day_number (y, m, d) \<le> 10000000"
      using y ok(3) unfolding day_number_def prod.case Let_def by linarith+
    then have "- (2 ^ 63) \<le> ?z" "?z < 2 ^ 63" using assms(3-5) by auto
    then show ?thesis by (rule sint_of_int_small)
  qed
  ultimately show ?thesis by simp
qed

section \<open>The parts of a date are read back\<close>

lemma byte_at_Cons [simp]:
  "byte_at (c # p) 0 = c" "byte_at (c # p) (Suc i) = byte_at p i" "byte_at (c # p) (numeral k) = byte_at p (pred_numeral k)"
  by (simp_all add: byte_at_def numeral_eq_Suc)

lemma digit_at_char:
  "byte_at p i = digit_char n \<Longrightarrow> n < 10 \<Longrightarrow> digit_at p i = Some n"
  by (simp add: digit_at_def isdigit_digit_char ord_digit_char)

lemma digit_char_neq: "n < 10 \<Longrightarrow> digit_char n \<noteq> CHR '' '' \<and> digit_char n \<noteq> CHR '':''"
  using isdigit_digit_char [of n] by (auto simp: isdigit_def ord_def)

lemma two_digits_dd [simp]: "n < 100 \<Longrightarrow> two_digits (dd n @ r) = Some n"
  by (simp add: two_digits_def dd_def digit_at_char [of _ _ "n div 10"] digit_at_char [of _ _ "n mod 10"])

lemma four_digits_dd [simp]: "y < 10000 \<Longrightarrow> four_digits (dd (y div 100) @ dd (y mod 100) @ r) = Some y"
proof -
  assume y: "y < 10000"
  let ?p = "dd (y div 100) @ dd (y mod 100) @ r"
  have "digit_at ?p 0 = Some (y div 100 div 10)" "digit_at ?p 1 = Some (y div 100 mod 10)"
    "digit_at ?p 2 = Some (y mod 100 div 10)" "digit_at ?p 3 = Some (y mod 100 mod 10)"
    using y by (auto simp: dd_def intro!: digit_at_char)
  moreover have "y div 100 div 10 * 1000 + y div 100 mod 10 * 100 + y mod 100 div 10 * 10 + y mod 100 mod 10 = y"
    using div_mult_mod_eq [of "y div 100" 10] div_mult_mod_eq [of "y mod 100" 10] div_mult_mod_eq [of y 100] by linarith
  ultimately show ?thesis by (simp add: four_digits_def)
qed

lemma dd_hd: "n < 100 \<Longrightarrow> \<exists>c r. dd n = [c, r] \<and> isdigit c \<and> isdigit r"
  by (simp add: dd_def isdigit_digit_char)

lemma length_dd [simp]: "length (dd n) = 2" "drop 2 (dd n @ r) = r" "drop 4 (dd n @ dd k @ r) = r"
  by (simp_all add: dd_def)

lemma time_month_name:
  assumes "m < 12"
  shows "time_month (month_name m @ r) = Some m" "length (month_name m) = 3" "drop 3 (month_name m @ r) = r"
    "drop 4 (month_name m @ c # r) = r" "month_name m \<noteq> []" "hd (month_name m) \<noteq> CHR '' ''"
  by (rule month_cases [OF assms]; simp add: month_name_def time_month_def; fail)+

lemma time_clock_dd:
  assumes "h < 24" "mi < 60" "s < 60"
  shows "time_clock ('' '' @ dd h @ '':'' @ dd mi @ '':'' @ dd s @ r) = Some (h, mi, s, dd s @ r)"
proof -
  let ?p = "'' '' @ dd h @ '':'' @ dd mi @ '':'' @ dd s @ r"
  have "byte_at ?p 0 = CHR '' ''" "byte_at ?p 3 = CHR '':''" "byte_at ?p 6 = CHR '':''"
    "drop 1 ?p = dd h @ '':'' @ dd mi @ '':'' @ dd s @ r" "drop 4 ?p = dd mi @ '':'' @ dd s @ r" "drop 7 ?p = dd s @ r"
    by (simp_all add: dd_def)
  moreover have "two_digits (dd h @ '':'' @ dd mi @ '':'' @ dd s @ r) = Some h" "two_digits (dd mi @ '':'' @ dd s @ r) = Some mi"
    "two_digits (dd s @ r) = Some s" using assms by simp_all
  ultimately show ?thesis by (simp add: time_clock_def require_def)
qed

definition day_word :: "string \<Rightarrow> bool" where
  "day_word w \<longleftrightarrow> (\<forall>c \<in> set w. c \<noteq> CHR '','' \<and> c \<noteq> CHR '' '')"

lemma skip_day_word:
  assumes "day_word w" and "r \<noteq> []" "hd r \<noteq> CHR '' ''"
  shows "skip_day (w @ '', '' @ r) = (False, r)" "skip_day (w @ '' '' @ r) = (True, r)"
proof -
  have "dropWhile (\<lambda>c. c \<noteq> CHR '','' \<and> c \<noteq> CHR '' '') (w @ x) = dropWhile (\<lambda>c. c \<noteq> CHR '','' \<and> c \<noteq> CHR '' '') x" for x
    using assms(1) by (simp add: day_word_def dropWhile_append2)
  moreover have "dropWhile (\<lambda>c. c = CHR '' '') r = r" using assms(2,3) by (cases r) auto
  ultimately show "skip_day (w @ '', '' @ r) = (False, r)" "skip_day (w @ '' '' @ r) = (True, r)"
    by (simp_all add: skip_day_def)
qed

text \<open>The checks at the end accept the dates of the calendar.\<close>

lemma date_accepted:
  assumes "date_ok (y, m, d)"
  shows "if d = 29 \<and> m = 1 then y mod 4 = 0 \<and> (y mod 100 = 0 \<longrightarrow> y mod 400 = 0) else d \<le> mday ! m"
  using assms by (auto simp: date_ok_def month_days_def leap_def mday_def split: if_splits)

lemma two_digit_year:
  assumes "1970 \<le> y" "y < (2070 :: nat)"
  shows "y mod 100 + (if y mod 100 < 70 then 2000 else 1900) = y"
proof (cases "y < 2000")
  case True
  define k where "k = y - 1900"
  have k: "y = 19 * 100 + k" "70 \<le> k" "k < 100" using True assms(1) by (simp_all add: k_def)
  show ?thesis unfolding k(1) mod_mult_self3 using k(2,3) by simp
next
  case False
  define k where "k = y - 2000"
  have k: "y = 20 * 100 + k" "k < 70" using False assms(2) by (simp_all add: k_def)
  show ?thesis unfolding k(1) mod_mult_self3 using k(2) by simp
qed

lemma parse_rfc:
  assumes ok: "date_ok (y, m, d)" "y < 10000" "h < 24" "mi < 60" "s < 60" and w: "day_word w"
  shows "parse_time (http_date Rfc822 w (y, m, d) h mi s) = Some (time_seconds y m d h mi s)"
    and "y < 2070 \<Longrightarrow> parse_time (http_date Rfc850 w (y, m, d) h mi s) = Some (time_seconds y m d h mi s)"
proof -
  have m: "m < 12" and d: "d < 100" using ok(1) month_days_le [of m y] by (auto simp: date_ok_def)
  obtain a b where ab: "dd d = [a, b]" "isdigit a" "isdigit b" using dd_hd [OF d] by blast
  have blank: "a \<noteq> CHR '' ''" using ab(2) by (auto simp: isdigit_def ord_def)
  note name = time_month_name [OF m] and clk = time_clock_dd [OF ok(3-5)]
  let ?g = "'' '' @ dd h @ '':'' @ dd mi @ '':'' @ dd s @ '' GMT''"
  let ?y = "dd (y div 100) @ dd (y mod 100) @ ?g" and ?y' = "dd (y mod 100) @ ?g"
  let ?p = "dd d @ '' '' @ month_name m @ '' '' @ ?y" and ?q = "dd d @ ''-'' @ month_name m @ ''-'' @ ?y'"
  have skip: "skip_day (w @ '', '' @ ?p) = (False, ?p)" "skip_day (w @ '', '' @ ?q) = (False, ?q)"
    using skip_day_word(1) [OF w] blank by (simp_all add: ab)
  have day: "time_day False ?p = Some (Rfc822, d, month_name m @ '' '' @ ?y)"
    "time_day False ?q = Some (Rfc850, d, month_name m @ ''-'' @ ?y')"
    using d name(2) by (simp_all add: time_day_def require_def)
  have len: "18 \<le> length ?p" "18 \<le> length ?q" using name(2) by simp_all
  have yr: "time_year Rfc822 d ?y = Some (d, y, ?g)" using ok(2) by (simp add: time_year_def)
  have acc: "h \<le> 23 \<and> mi \<le> 59 \<and> s \<le> 59" using ok(3-5) by simp
  have "parse_time (w @ '', '' @ ?p) = Some (time_seconds y m d h mi s)"
    unfolding parse_time_def skip Let_def prod.case
    using len(1) yr acc day(1) date_accepted [OF ok(1)] clk [of "'' GMT''"] by (simp add: require_def name)
  then show "parse_time (http_date Rfc822 w (y, m, d) h mi s) = Some (time_seconds y m d h mi s)"
    by (simp add: http_date_def)
  assume y: "y < 2070"
  have "y mod 100 + (if y mod 100 < 70 then 2000 else 1900) = y"
    using ok(1) y two_digit_year [of y] by (simp add: date_ok_def)
  then have yr': "time_year Rfc850 d ?y' = Some (d, y, ?g)" by (simp add: time_year_def)
  have "parse_time (w @ '', '' @ ?q) = Some (time_seconds y m d h mi s)"
    unfolding parse_time_def skip Let_def prod.case
    using len(2) yr' acc day(2) date_accepted [OF ok(1)] clk [of "'' GMT''"] by (simp add: require_def name)
  then show "parse_time (http_date Rfc850 w (y, m, d) h mi s) = Some (time_seconds y m d h mi s)"
    by (simp add: http_date_def)
qed

lemma parse_isoc:
  assumes ok: "date_ok (y, m, d)" "y < 10000" "h < 24" "mi < 60" "s < 60" and w: "day_word w"
  shows "parse_time (http_date Isoc w (y, m, d) h mi s) = Some (time_seconds y m d h mi s)"
proof -
  have m: "m < 12" and d: "d < 100" using ok(1) month_days_le [of m y] by (auto simp: date_ok_def)
  note name = time_month_name [OF m] and clk = time_clock_dd [OF ok(3-5)]
  let ?y = "dd (y div 100) @ dd (y mod 100)"
  let ?g = "'' '' @ dd h @ '':'' @ dd mi @ '':'' @ dd s @ '' '' @ ?y"
  let ?d = "(if d < 10 then '' '' @ [digit_char d] else dd d) @ ?g"
  let ?p = "month_name m @ '' '' @ ?d"
  have skip: "skip_day (w @ '' '' @ ?p) = (True, ?p)"
    by (rule skip_day_word(2) [OF w]) (use name(5,6) in auto)
  have len: "18 \<le> length ?p" using name(2) by simp
  have yr: "time_year Isoc 0 ?d = Some (d, 0, ?g)"
  proof (cases "d < 10")
    case True
    then show ?thesis using digit_at_char [of "digit_char d # ?g" 0 d] by (simp add: time_year_def require_def)
  next
    case False
    let ?a = "digit_char (d div 10)" and ?b = "digit_char (d mod 10)"
    have "d div 10 < 10" using d by simp
    then have "?a \<noteq> CHR '' ''" "?b \<noteq> CHR '' ''" "digit_at (?a # ?b # ?g) 0 = Some (d div 10)" "digit_at (?b # ?g) 0 = Some (d mod 10)"
      using digit_char_neq [of "d div 10"] digit_char_neq [of "d mod 10"] by (auto intro!: digit_at_char)
    with False show ?thesis by (simp add: time_year_def require_def dd_def)
  qed
  have "four_digits ?y = Some y" using four_digits_dd [OF ok(2), of "[]"] by simp
  moreover have "byte_at (dd s @ '' '' @ ?y) 2 = CHR '' ''" "drop 3 (dd s @ '' '' @ ?y) = ?y" by (simp_all add: dd_def)
  moreover have "h \<le> 23 \<and> mi \<le> 59 \<and> s \<le> 59" using ok(3-5) by simp
  ultimately have "parse_time (w @ '' '' @ ?p) = Some (time_seconds y m d h mi s)"
    unfolding parse_time_def skip Let_def prod.case
    using len yr date_accepted [OF ok(1)] clk [of "'' '' @ ?y"] by (simp add: require_def name time_day_def)
  then show ?thesis by (simp add: http_date_def)
qed

section \<open>Properties\<close>

text \<open>C30. The time a stored file is given is the one its server announced. A date that is n days after
  1 January 1970 in a calendar that counts the days one by one, written in any of the three formats
  of HTTP, is read as 86400 n seconds and the seconds of the day; the format with a year of two
  digits covers 1970 to 2069, the others all years up to 9999.\<close>

theorem parse_time_calendar:
  assumes "fst (date_of n) < (if fmt = Rfc850 then 2070 else 10000)"
    and "h < 24" "mi < 60" "s < 60" and "day_word w"
  shows "ngx_http_parse_time (http_date fmt w (date_of n) h mi s) = int (86400 * n + 3600 * h + 60 * mi + s)"
proof -
  obtain y m d where x: "date_of n = (y, m, d)" by (cases "date_of n")
  have ok: "date_ok (y, m, d)" and n: "day_number (y, m, d) = int n" using date_of_ok [of n] by (simp_all add: x)
  have y: "y < 10000" "fmt = Rfc850 \<Longrightarrow> y < 2070" using assms(1) by (auto simp: x split: if_splits)
  have "parse_time (http_date fmt w (y, m, d) h mi s) = Some (time_seconds y m d h mi s)"
    using parse_rfc [OF ok y(1) assms(2-5)] parse_isoc [OF ok y(1) assms(2-5)] y(2) by (cases fmt) auto
  then show ?thesis
    using time_seconds_days [OF ok y(1) assms(2-4)] n by (simp add: x ngx_http_parse_time_def)
qed

theorem parse_time_calendar_witness:
  "ngx_http_parse_time ''Sun, 01 Mar 1970 08:49:37 GMT'' = 86400 * 59 + 31777"
proof -
  have "date_of 30 = (1970, 0, 31)" using next_days [of 1 30 1970 0] by (simp add: date_of_def month_days_def mday_def)
  then have "date_of 31 = (1970, 1, 1)" using date_of_Suc [of 30] by (simp add: month_days_def mday_def)
  then have "date_of (27 + 31) = (1970, 1, 28)"
    using next_days [of 1 27 1970 1] unfolding date_of_def funpow_add by (simp add: month_days_def mday_def)
  then have "date_of 58 = (1970, 1, 28)" by simp
  then have "date_of 59 = (1970, 2, 1)" using date_of_Suc [of 58] by (simp add: month_days_def mday_def leap_def)
  then show ?thesis
    using parse_time_calendar [of 59 Rfc822 8 49 37 "''Sun''"]
    by (simp add: http_date_def day_word_def dd_def digit_char_def month_name_def char_of_def bit_0)
qed

end
