(* ===== verification/Ngx_Store.thy ===== *)
theory Ngx_Store
  imports Ngx_Hooks Ngx_Time
begin

text \<open>
  How a download gets its place on the disk: \<open>ngx_http_upstream_store\<close> of
  \<^verbatim>\<open>ngx_http_upstream.c\<close> and what it calls of \<^verbatim>\<open>ngx_file.c\<close>: the temporary file of an answer without
  a body, the rename to the final name, the directories on the way to it, and the copy when the two
  lie on different devices. The body of an answer has been written to a temporary file before.

  The file system is a map from names to files. Every system call first takes the next of the answers
  of the kernel, an endless sequence: it is granted, refused with an error number, or (reading and
  writing) done in part only. So a theorem over every sequence covers every way in which the calls
  can fail, for ever if need be. What a granted call does is written out here.
\<close>

section \<open>The file system\<close>

datatype verdict = Granted | Refused nat | Partly nat

text \<open>The time of a file is \<open>None\<close> until a program sets it.\<close>

record stored_file =
  fl_data :: string
  fl_mode :: nat
  fl_time :: "int option"

text \<open>Next to the files: the directories made, the answers to come, and the two numbers of nginx from
  which the names of temporary files come.\<close>

record fworld =
  fw_files :: "string \<Rightarrow> stored_file option"
  fw_dirs :: "(string \<times> nat) list"
  fw_verdicts :: "nat \<Rightarrow> verdict"
  fw_number :: nat
  fw_random :: nat

definition NGX_ENOENT :: nat where "NGX_ENOENT = 2"
definition NGX_EACCES :: nat where "NGX_EACCES = 13"
definition NGX_EEXIST :: nat where "NGX_EEXIST = 17"
definition NGX_EXDEV :: nat where "NGX_EXDEV = 18"

lemmas errno_defs = NGX_ENOENT_def NGX_EACCES_def NGX_EEXIST_def NGX_EXDEV_def

definition sys_verdict :: "fworld \<Rightarrow> verdict \<times> fworld" where
  "sys_verdict w = (fw_verdicts w 0, w\<lparr>fw_verdicts := (\<lambda>i. fw_verdicts w (Suc i))\<rparr>)"

text \<open>A call returns \<open>None\<close>, or the error number.\<close>

definition sys_call :: "(fworld \<Rightarrow> nat option \<times> fworld) \<Rightarrow> fworld \<Rightarrow> nat option \<times> fworld" where
  "sys_call f w = (case sys_verdict w of (v, w1) \<Rightarrow> (case v of Refused e \<Rightarrow> (Some e, w1) | _ \<Rightarrow> f w1))"

definition set_file :: "string \<Rightarrow> stored_file option \<Rightarrow> fworld \<Rightarrow> fworld" where
  "set_file n x w = w\<lparr>fw_files := (fw_files w)(n := x)\<rparr>"

definition with_file :: "string \<Rightarrow> (stored_file \<Rightarrow> fworld \<Rightarrow> fworld) \<Rightarrow> fworld \<Rightarrow> nat option \<times> fworld" where
  "with_file n f = sys_call (\<lambda>w. case fw_files w n of None \<Rightarrow> (Some NGX_ENOENT, w) | Some x \<Rightarrow> (None, f x w))"

definition sys_chmod :: "string \<Rightarrow> nat \<Rightarrow> fworld \<Rightarrow> nat option \<times> fworld" where
  "sys_chmod n a = with_file n (\<lambda>x. set_file n (Some (x\<lparr>fl_mode := a\<rparr>)))"

definition sys_unlink :: "string \<Rightarrow> fworld \<Rightarrow> nat option \<times> fworld" where
  "sys_unlink n = with_file n (\<lambda>x. set_file n None)"

definition sys_rename :: "string \<Rightarrow> string \<Rightarrow> fworld \<Rightarrow> nat option \<times> fworld" where
  "sys_rename a b = with_file a (\<lambda>x w. set_file b (Some x) (set_file a None w))"

definition sys_mkdir :: "string \<Rightarrow> nat \<Rightarrow> fworld \<Rightarrow> nat option \<times> fworld" where
  "sys_mkdir d a = sys_call (\<lambda>w. (None, w\<lparr>fw_dirs := fw_dirs w @ [(d, a)]\<rparr>))"

definition sys_open_read :: "string \<Rightarrow> fworld \<Rightarrow> nat option \<times> fworld" where
  "sys_open_read n = with_file n (\<lambda>x w. w)"

definition empty_file :: "nat \<Rightarrow> stored_file" where
  "empty_file a = \<lparr>fl_data = [], fl_mode = a, fl_time = None\<rparr>"

text \<open>Opening for writing makes a file if there is none and keeps the bytes of one that is there.\<close>

definition sys_open_write :: "string \<Rightarrow> nat \<Rightarrow> fworld \<Rightarrow> nat option \<times> fworld" where
  "sys_open_write n a = sys_call (\<lambda>w. (None, if fw_files w n = None then set_file n (Some (empty_file a)) w else w))"

definition sys_open_excl :: "string \<Rightarrow> nat \<Rightarrow> fworld \<Rightarrow> nat option \<times> fworld" where
  "sys_open_excl n a = sys_call (\<lambda>w. if fw_files w n = None then (None, set_file n (Some (empty_file a)) w) else (Some NGX_EEXIST, w))"

definition file_data :: "fworld \<Rightarrow> string \<Rightarrow> string" where
  "file_data w n = (case fw_files w n of None \<Rightarrow> [] | Some x \<Rightarrow> fl_data x)"

definition sys_fstat :: "string \<Rightarrow> fworld \<Rightarrow> nat option \<times> fworld" where
  "sys_fstat n w = (case with_file n (\<lambda>x w. w) w of (e, w1) \<Rightarrow> (if e = None then Some (length (file_data w1 n)) else None, w1))"

definition sys_read :: "string \<Rightarrow> nat \<Rightarrow> nat \<Rightarrow> fworld \<Rightarrow> string option \<times> fworld" where
  "sys_read n pos len w = (case sys_verdict w of (v, w1) \<Rightarrow>
     let d = take len (drop pos (file_data w1 n)) in
     (case v of Granted \<Rightarrow> Some d | Refused e \<Rightarrow> None | Partly k \<Rightarrow> Some (take k d), w1))"

definition write_at :: "string \<Rightarrow> nat \<Rightarrow> string \<Rightarrow> fworld \<Rightarrow> fworld" where
  "write_at n pos d w = (case fw_files w n of None \<Rightarrow> w
     | Some x \<Rightarrow> set_file n (Some (x\<lparr>fl_data := put_bytes (fl_data x) pos d, fl_time := None\<rparr>)) w)"

definition sys_write :: "string \<Rightarrow> nat \<Rightarrow> string \<Rightarrow> fworld \<Rightarrow> nat option \<times> fworld" where
  "sys_write n pos d w = (case sys_verdict w of (v, w1) \<Rightarrow>
     (case v of Granted \<Rightarrow> (Some (length d), write_at n pos d w1) | Refused e \<Rightarrow> (None, w1)
      | Partly k \<Rightarrow> (Some (length (take k d)), write_at n pos (take k d) w1)))"

definition sys_close :: "fworld \<Rightarrow> fworld" where
  "sys_close w = snd (sys_call (\<lambda>w. (None, w)) w)"

definition sys_alloc :: "fworld \<Rightarrow> bool \<times> fworld" where
  "sys_alloc w = (case sys_call (\<lambda>w. (None, w)) w of (e, w1) \<Rightarrow> (e = None, w1))"

section \<open>Routines of nginx on files\<close>

definition ngx_set_file_time :: "string \<Rightarrow> int \<Rightarrow> fworld \<Rightarrow> int \<times> fworld" where
  "ngx_set_file_time n s w =
     (case with_file n (\<lambda>x. set_file n (Some (x\<lparr>fl_time := Some s\<rparr>))) w of (e, w1) \<Rightarrow> (if e = None then NGX_OK else NGX_ERROR, w1))"

text \<open>The access bits of a directory: who may read may also search. The bits of an access are below 512.\<close>

unbundle bit_operations_syntax

definition ngx_dir_access :: "nat \<Rightarrow> nat" where
  "ngx_dir_access a = a OR drop_bit 2 (a AND 0x124)"

text \<open>Every directory on the way is made, from the left. One that exists is fine; a refused access is
  kept as the result, but the loop goes on; a directory that exists clears it again.\<close>

fun create_dirs :: "string \<Rightarrow> string \<Rightarrow> nat \<Rightarrow> nat \<Rightarrow> fworld \<Rightarrow> nat \<times> fworld" where
  "create_dirs pre [] a err w = (err, w)"
| "create_dirs pre (c # cs) a err w =
     (if c \<noteq> CHR ''/'' then create_dirs (pre @ [c]) cs a err w
      else case sys_mkdir pre a w of (res, w1) \<Rightarrow>
        (case res of
           None \<Rightarrow> create_dirs (pre @ [c]) cs a err w1
         | Some e \<Rightarrow> if e = NGX_EEXIST then create_dirs (pre @ [c]) cs a 0 w1
                     else if e = NGX_EACCES then create_dirs (pre @ [c]) cs a e w1
                     else (e, w1)))"

definition ngx_create_full_path :: "string \<Rightarrow> nat \<Rightarrow> fworld \<Rightarrow> nat \<times> fworld" where
  "ngx_create_full_path dir a w = create_dirs (take 1 dir) (drop 1 dir) a 0 w"

definition ngx_next_temp_number :: "bool \<Rightarrow> fworld \<Rightarrow> nat \<times> fworld" where
  "ngx_next_temp_number collision w =
     (let n = (fw_number w + (if collision then fw_random w else 1)) mod 2 ^ 64 in (n, w\<lparr>fw_number := n\<rparr>))"

text \<open>\<open>%010uD\<close> of a number cut to 32 bits.\<close>

definition fmt_010u :: "nat \<Rightarrow> string" where
  "fmt_010u n = (let ds = map digit_char (base_digits 10 (n mod 2 ^ 32)) in replicate (10 - length ds) (CHR ''0'') @ ds)"

record ngx_copy =
  cf_size :: int
  cf_buf_size :: nat
  cf_access :: nat
  cf_time :: int

text \<open>The copy in pieces of at most \<open>len\<close> bytes; both files are at the same offset. The buffer is never
  empty when bytes are left (\<open>len = 0\<close> only ends the recursion).\<close>

function copy_loop :: "string \<Rightarrow> string \<Rightarrow> nat \<Rightarrow> nat \<Rightarrow> nat \<Rightarrow> fworld \<Rightarrow> bool \<times> fworld" where
  "copy_loop from to pos left len w =
     (if left = 0 \<or> len = 0 then (True, w)
      else let l = min len left in
        (case sys_read from pos l w of
           (None, w1) \<Rightarrow> (False, w1)
         | (Some d, w1) \<Rightarrow>
             if length d \<noteq> l then (False, w1)
             else (case sys_write to pos d w1 of
                 (None, w2) \<Rightarrow> (False, w2)
               | (Some n, w2) \<Rightarrow> if n \<noteq> l then (False, w2) else copy_loop from to (pos + l) (left - l) l w2)))"
  by pat_completeness auto

termination
  by (relation "measure (\<lambda>(from, to, pos, left, len, w). left)") auto

declare copy_loop.simps [simp del]

definition copy_opened :: "ngx_copy \<Rightarrow> string \<Rightarrow> string \<Rightarrow> nat \<Rightarrow> nat \<Rightarrow> fworld \<Rightarrow> int \<times> fworld" where
  "copy_opened cf from to left len w =
     (case copy_loop from to 0 left len w of (ok, w1) \<Rightarrow>
        (case (if \<not> ok then (NGX_ERROR, w1) else if cf_time cf \<noteq> - 1 then ngx_set_file_time to (cf_time cf) w1 else (NGX_OK, w1)) of
           (rc, w2) \<Rightarrow> (rc, sys_close (sys_close w2))))"

definition ngx_copy_file :: "string \<Rightarrow> string \<Rightarrow> ngx_copy \<Rightarrow> fworld \<Rightarrow> int \<times> fworld" where
  "ngx_copy_file from to cf w =
     (case sys_open_read from w of (e, w1) \<Rightarrow>
      if e \<noteq> None then (NGX_ERROR, w1)
      else case (if cf_size cf \<noteq> - 1 then (Some (nat (cf_size cf)), w1) else sys_fstat from w1) of
        (None, w2) \<Rightarrow> (NGX_ERROR, sys_close w2)
      | (Some left, w2) \<Rightarrow>
          let len = min (if cf_buf_size cf \<noteq> 0 then cf_buf_size cf else 65536) left in
          (case sys_alloc w2 of (got, w3) \<Rightarrow>
           if \<not> got then (NGX_ERROR, sys_close w3)
           else case sys_open_write to (cf_access cf) w3 of (e, w4) \<Rightarrow>
             if e \<noteq> None then (NGX_ERROR, sys_close w4)
             else copy_opened cf from to left len w4))"

section \<open>Temporary files\<close>

text \<open>The directory of temporary files and the lengths of the parts of a number that name the
  directories below it; the first 0 ends them. The room for these names in \<open>path->len\<close> is their sum
  with one slash for each (\<open>ngx_conf_set_path_slot\<close>).\<close>

record ngx_path =
  path_name :: string
  path_level :: "nat list"

text \<open>The directories of a number, each name a part of the digits taken from their end.\<close>

fun path_dirs :: "string \<Rightarrow> nat list \<Rightarrow> string \<Rightarrow> string list" where
  "path_dirs pre [] ds = []"
| "path_dirs pre (l # ls) ds =
     (if l = 0 then [] else
      let q = pre @ ''/'' @ drop (length ds - l) ds in q # path_dirs q ls (take (length ds - l) ds))"

definition ngx_create_hashed_filename :: "ngx_path \<Rightarrow> string \<Rightarrow> string" where
  "ngx_create_hashed_filename path ds = last (path_name path # path_dirs (path_name path) (path_level path) ds) @ ''/'' @ ds"

fun create_levels :: "string list \<Rightarrow> fworld \<Rightarrow> int \<times> fworld" where
  "create_levels [] w = (NGX_OK, w)"
| "create_levels (d # ds) w = (case sys_mkdir d 0x1C0 w of (res, w1) \<Rightarrow>
     if res \<noteq> None \<and> res \<noteq> Some NGX_EEXIST then (NGX_ERROR, w1) else create_levels ds w1)"

definition ngx_create_path :: "ngx_path \<Rightarrow> string \<Rightarrow> fworld \<Rightarrow> int \<times> fworld" where
  "ngx_create_path path ds w = create_levels (path_dirs (path_name path) (path_level path) ds) w"

definition ngx_open_tempfile :: "string \<Rightarrow> bool \<Rightarrow> nat \<Rightarrow> fworld \<Rightarrow> nat option \<times> fworld" where
  "ngx_open_tempfile n persistent a w =
     (case sys_open_excl n (if a \<noteq> 0 then a else 0x180) w of (e, w1) \<Rightarrow>
        (e, if e = None \<and> \<not> persistent then snd (sys_unlink n w1) else w1))"

text \<open>The loop that looks for a free name, with a bound on its rounds: \<open>None\<close> when they do not suffice.\<close>

fun temp_loop :: "nat \<Rightarrow> ngx_path \<Rightarrow> bool \<Rightarrow> nat \<Rightarrow> nat \<Rightarrow> fworld \<Rightarrow> ((int \<times> string) \<times> fworld) option" where
  "temp_loop 0 path persistent a n w = None"
| "temp_loop (Suc fuel) path persistent a n w =
     (let ds = fmt_010u n; name = ngx_create_hashed_filename path ds in
      case ngx_open_tempfile name persistent a w of
        (None, w1) \<Rightarrow> Some ((NGX_OK, name), w1)
      | (Some e, w1) \<Rightarrow>
          if e = NGX_EEXIST
          then (case ngx_next_temp_number True w1 of (n', w2) \<Rightarrow> temp_loop fuel path persistent a n' w2)
          else if hd (path_level path @ [0]) = 0 \<or> e \<noteq> NGX_ENOENT then Some ((NGX_ERROR, name), w1)
          else (case ngx_create_path path ds w1 of (rc, w2) \<Rightarrow>
            if rc = NGX_ERROR then Some ((NGX_ERROR, name), w2) else temp_loop fuel path persistent a n w2))"

definition ngx_create_temp_file :: "nat \<Rightarrow> ngx_path \<Rightarrow> bool \<Rightarrow> nat \<Rightarrow> fworld \<Rightarrow> ((int \<times> string) \<times> fworld) option" where
  "ngx_create_temp_file fuel path persistent a w =
     (case sys_alloc w of (got, w1) \<Rightarrow>
      if \<not> got then Some ((NGX_ERROR, []), w1)
      else case ngx_next_temp_number False w1 of (n, w2) \<Rightarrow>
        (case sys_alloc w2 of (got, w3) \<Rightarrow>
         if \<not> got then Some ((NGX_ERROR, []), w3) else temp_loop fuel path persistent a n w3))"

section \<open>The move to the final name\<close>

record ngx_ext_rename =
  ext_access :: nat
  ext_path_access :: nat
  ext_time :: int
  ext_create_path :: bool
  ext_delete_file :: bool

text \<open>The label \<open>failed\<close>.\<close>

definition ext_failed :: "string \<Rightarrow> ngx_ext_rename \<Rightarrow> fworld \<Rightarrow> int \<times> fworld" where
  "ext_failed src ext w = (NGX_ERROR, if ext_delete_file ext then snd (sys_unlink src w) else w)"

text \<open>The name of the copy: as many bytes of the target as its length field says, a dot and a number.
  The field need not be the length of the text; behind a shorter text stands its terminator, which
  then ends the name.\<close>

definition copy_name :: "string \<Rightarrow> nat \<Rightarrow> nat \<Rightarrow> string" where
  "copy_name to to_len n = cstr (take to_len (to @ [NUL]) @ ''.'' @ fmt_010u n)"

text \<open>The source lies on another device: it is copied next to the target, and the copy is renamed.\<close>

definition ext_copy :: "string \<Rightarrow> string \<Rightarrow> nat \<Rightarrow> ngx_ext_rename \<Rightarrow> fworld \<Rightarrow> int \<times> fworld" where
  "ext_copy src to to_len ext w =
     (case sys_alloc w of (got, w1) \<Rightarrow>
      if \<not> got then (NGX_ERROR, w1)
      else case ngx_next_temp_number False w1 of (n, w2) \<Rightarrow>
        let name = copy_name to to_len n in
        (case ngx_copy_file src name \<lparr>cf_size = - 1, cf_buf_size = 0, cf_access = ext_access ext, cf_time = ext_time ext\<rparr> w2 of (rc, w3) \<Rightarrow>
         if rc \<noteq> NGX_OK then ext_failed src ext w3
         else case sys_rename name to w3 of (e, w4) \<Rightarrow>
           if e = None then (case sys_unlink src w4 of (e, w5) \<Rightarrow> (if e = None then NGX_OK else NGX_ERROR, w5))
           else ext_failed src ext (snd (sys_unlink name w4))))"

definition ext_moved :: "string \<Rightarrow> string \<Rightarrow> nat \<Rightarrow> ngx_ext_rename \<Rightarrow> fworld \<Rightarrow> int \<times> fworld" where
  "ext_moved src to to_len ext w =
     (case sys_rename src to w of (res, w1) \<Rightarrow>
      (case res of
         None \<Rightarrow> (NGX_OK, w1)
       | Some err \<Rightarrow>
           if err = NGX_ENOENT then
             (if \<not> ext_create_path ext then ext_failed src ext w1
              else case ngx_create_full_path to (ngx_dir_access (ext_path_access ext)) w1 of (err, w2) \<Rightarrow>
                if err \<noteq> 0 then ext_failed src ext w2
                else case sys_rename src to w2 of (res, w3) \<Rightarrow>
                  (case res of
                     None \<Rightarrow> (NGX_OK, w3)
                   | Some err \<Rightarrow> if err = NGX_EXDEV then ext_copy src to to_len ext w3 else ext_failed src ext w3))
           else if err = NGX_EXDEV then ext_copy src to to_len ext w1 else ext_failed src ext w1))"

definition ngx_ext_rename_file :: "string \<Rightarrow> string \<Rightarrow> nat \<Rightarrow> ngx_ext_rename \<Rightarrow> fworld \<Rightarrow> int \<times> fworld" where
  "ngx_ext_rename_file src to to_len ext w =
     (case (if ext_access ext \<noteq> 0 then sys_chmod src (ext_access ext) w else (None, w)) of (e, w1) \<Rightarrow>
      if e \<noteq> None then ext_failed src ext w1
      else case (if ext_time ext \<noteq> - 1 then ngx_set_file_time src (ext_time ext) w1 else (NGX_OK, w1)) of (rc, w2) \<Rightarrow>
        if rc \<noteq> NGX_OK then ext_failed src ext w2 else ext_moved src to to_len ext w2)"

section \<open>Storing a download\<close>

text \<open>What the routine reads of the configuration and of the answer. The name of the file comes from
  the request (\<open>store on\<close>, no script).\<close>

record store_env =
  store_access :: nat
  store_temp_path :: ngx_path
  store_root :: string
  store_uri :: string
  store_temp :: "string option"
  store_last_modified :: "string option"

definition store_ext :: "store_env \<Rightarrow> ngx_ext_rename" where
  "store_ext env = \<lparr>ext_access = store_access env, ext_path_access = store_access env,
     ext_time = (case store_last_modified env of None \<Rightarrow> - 1 | Some v \<Rightarrow> ngx_http_parse_time v),
     ext_create_path = True, ext_delete_file = True\<rparr>"

text \<open>An answer without a body has no temporary file yet; its access field is 0. The result of the move
  is not looked at.\<close>

definition ngx_http_upstream_store :: "nat \<Rightarrow> store_env \<Rightarrow> ngx_request \<Rightarrow> fworld \<Rightarrow> fworld option" where
  "ngx_http_upstream_store fuel env r w =
     (case ngx_http_map_uri_to_path (store_root env) (store_uri env) r of (alloc, path) \<Rightarrow>
      case store_temp env of
        Some tmp \<Rightarrow> Some (snd (ngx_ext_rename_file tmp path (alloc - 1) (store_ext env) w))
      | None \<Rightarrow>
          (case sys_alloc w of (got, w1) \<Rightarrow>
           if \<not> got then Some w1
           else map_option (\<lambda>((rc, tmp), w2).
             if rc \<noteq> NGX_OK then w2 else snd (ngx_ext_rename_file tmp path (alloc - 1) (store_ext env) w2))
             (ngx_create_temp_file fuel (store_temp_path env) True 0 w1)))"

text \<open>The end of a download with the store before it, as \<open>ngx_http_upstream_process_request\<close> has them.\<close>

definition store_due :: "ngx_upstream \<Rightarrow> bool" where
  "store_due u \<longleftrightarrow> us_connection u \<and> us_store u \<and> (upstream_eof u \<or> upstream_done u) \<and> download_complete u"

definition end_of_download ::
  "nat \<Rightarrow> store_env \<Rightarrow> ngx_request \<Rightarrow> ngx_upstream \<Rightarrow> sc_res_list \<Rightarrow> fworld \<Rightarrow> ((ngx_upstream \<times> sc_res_list) \<times> fworld) option" where
  "end_of_download fuel env r u rl w =
     map_option (\<lambda>w1. (ngx_http_upstream_process_request r u rl, w1))
       (if store_due u then ngx_http_upstream_store fuel env r w else Some w)"

section \<open>What the calls do to the files\<close>

text \<open>The files and the counter for names, which is all that matters of a world for what follows.\<close>

definition disk :: "fworld \<Rightarrow> (string \<Rightarrow> stored_file option) \<times> nat" where
  "disk w = (fw_files w, fw_number w)"

lemma disk_eqD: "disk w = disk v \<Longrightarrow> fw_files w = fw_files v \<and> fw_number w = fw_number v"
  by (simp add: disk_def)

lemma disk_refl: "\<exists>f. disk w = ((fw_files w)(n := f), fw_number w)"
  by (rule exI [of _ "fw_files w n"]) (simp add: disk_def)

lemma disk_set_file: "disk (set_file n x w) = ((fw_files w)(n := x), fw_number w)"
  by (simp add: disk_def set_file_def)

lemma disk_verdict: "sys_verdict w = (v, w') \<Longrightarrow> disk w' = disk w"
  by (auto simp: sys_verdict_def disk_def)

lemma sys_call_cases:
  assumes "sys_call f w = (e, w')"
  obtains (refused) "e \<noteq> None" "disk w' = disk w" | (granted) w1 where "disk w1 = disk w" "f w1 = (e, w')"
proof -
  obtain v w1 where v: "sys_verdict w = (v, w1)" by fastforce
  with assms disk_verdict [OF v] that show thesis by (cases v) (auto simp: sys_call_def)
qed

lemma with_file_cases:
  assumes "with_file n f w = (e, w')"
  obtains (refused) "e \<noteq> None" "disk w' = disk w"
    | (granted) w1 x where "e = None" "disk w1 = disk w" "fw_files w n = Some x" "w' = f x w1"
  using assms unfolding with_file_def
proof (cases rule: sys_call_cases)
  case refused
  with that(1) show thesis .
next
  case (granted w1)
  then show thesis using that disk_eqD [OF granted(1)] by (auto split: option.splits)
qed

lemma sys_chmod_files:
  assumes "sys_chmod n a w = (e, w')"
  shows "if e = None then \<exists>x. fw_files w n = Some x \<and> disk w' = ((fw_files w)(n \<mapsto> x\<lparr>fl_mode := a\<rparr>), fw_number w)
    else disk w' = disk w"
  using assms unfolding sys_chmod_def
  by (cases rule: with_file_cases) (auto simp: disk_set_file dest!: disk_eqD)

lemma ngx_set_file_time_files:
  assumes "ngx_set_file_time n s w = (rc, w')"
  shows "if rc = NGX_OK then \<exists>x. fw_files w n = Some x \<and> disk w' = ((fw_files w)(n \<mapsto> x\<lparr>fl_time := Some s\<rparr>), fw_number w)
    else disk w' = disk w"
proof -
  obtain e where e: "with_file n (\<lambda>x. set_file n (Some (x\<lparr>fl_time := Some s\<rparr>))) w = (e, w')" "rc = (if e = None then NGX_OK else NGX_ERROR)"
    using assms by (auto simp: ngx_set_file_time_def split: prod.splits)
  from e(1) show ?thesis
    by (cases rule: with_file_cases) (use e(2) in \<open>auto simp: disk_set_file NGX_OK_def NGX_ERROR_def dest!: disk_eqD\<close>)
qed

lemma sys_unlink_files:
  assumes "sys_unlink n w = (e, w')"
  shows "disk w' = (if e = None then ((fw_files w)(n := None), fw_number w) else disk w)"
  using assms unfolding sys_unlink_def
  by (cases rule: with_file_cases) (auto simp: disk_set_file dest!: disk_eqD)

lemma sys_rename_files:
  assumes "sys_rename a b w = (e, w')"
  shows "if e = None then \<exists>x. fw_files w a = Some x \<and> disk w' = ((fw_files w)(a := None, b \<mapsto> x), fw_number w) else disk w' = disk w"
  using assms unfolding sys_rename_def
  by (cases rule: with_file_cases) (auto simp: set_file_def disk_def)

lemma sys_mkdir_files: "sys_mkdir d a w = (e, w') \<Longrightarrow> disk w' = disk w"
  unfolding sys_mkdir_def by (erule sys_call_cases) (auto simp: disk_def)

lemma create_dirs_files: "create_dirs pre cs a err w = (e, w') \<Longrightarrow> disk w' = disk w"
  by (induction pre cs a err w rule: create_dirs.induct) (auto split: if_splits prod.splits option.splits dest!: sys_mkdir_files)

lemma create_levels_files: "create_levels ds w = (rc, w') \<Longrightarrow> disk w' = disk w"
  by (induction ds w rule: create_levels.induct) (auto split: if_splits prod.splits dest!: sys_mkdir_files)

lemma sys_alloc_files: "sys_alloc w = (got, w') \<Longrightarrow> disk w' = disk w"
  by (auto simp: sys_alloc_def split: prod.splits elim: sys_call_cases)

lemma sys_close_files [simp]: "disk (sys_close w) = disk w"
  by (cases "sys_call (\<lambda>w. (None, w)) w") (auto simp: sys_close_def elim: sys_call_cases)

lemma sys_open_read_files: "sys_open_read n w = (e, w') \<Longrightarrow> disk w' = disk w"
  unfolding sys_open_read_def by (erule with_file_cases) auto

lemma file_data_disk: "disk w = disk v \<Longrightarrow> file_data w n = file_data v n"
  by (auto simp: file_data_def dest!: disk_eqD)

lemma sys_fstat_files:
  assumes "sys_fstat n w = (k, w')"
  shows "disk w' = disk w \<and> (k = None \<or> k = Some (length (file_data w n)))"
proof -
  obtain e where e: "with_file n (\<lambda>x w. w) w = (e, w')" "k = (if e = None then Some (length (file_data w' n)) else None)"
    using assms by (auto simp: sys_fstat_def split: prod.splits)
  from e(1) have "disk w' = disk w" by (rule with_file_cases) auto
  with e(2) file_data_disk [OF this] show ?thesis by auto
qed

lemma sys_open_write_files:
  assumes "sys_open_write n a w = (e, w')"
  shows "disk w' = (if e = None \<and> fw_files w n = None then ((fw_files w)(n \<mapsto> empty_file a), fw_number w) else disk w)"
  using assms unfolding sys_open_write_def
  by (cases rule: sys_call_cases) (auto simp: disk_set_file split: if_splits dest!: disk_eqD)

lemma take_all_of: "length (take k (take n xs)) = n \<Longrightarrow> take k (take n xs) = take n xs"
  by (rule take_all) simp

lemma sys_read_files:
  assumes "sys_read n pos len w = (r, w')"
  shows "disk w' = disk w" and "r = Some d \<Longrightarrow> length d = len \<Longrightarrow> d = take len (drop pos (file_data w n))"
proof -
  obtain v where v: "sys_verdict w = (v, w')" using assms by (auto simp: sys_read_def Let_def split: prod.splits)
  show "disk w' = disk w" by (rule disk_verdict [OF v])
  from file_data_disk [OF this, of n]
  have "\<exists>k. d = take k (take len (drop pos (file_data w n)))" if "r = Some d"
    using assms v that by (cases v) (auto simp: sys_read_def Let_def simp del: take_take intro: exI [of _ len])
  then show "r = Some d \<Longrightarrow> length d = len \<Longrightarrow> d = take len (drop pos (file_data w n))"
    using take_all_of by metis
qed


section \<open>The copy is complete\<close>

lemma write_at_files: "disk (write_at n pos d w) =
   (case fw_files w n of None \<Rightarrow> disk w
    | Some x \<Rightarrow> ((fw_files w)(n \<mapsto> x\<lparr>fl_data := put_bytes (fl_data x) pos d, fl_time := None\<rparr>), fw_number w))"
  by (simp add: write_at_def disk_set_file split: option.splits)

lemma write_at_disk: "disk w = disk v \<Longrightarrow> disk (write_at n pos d w) = disk (write_at n pos d v)"
  using disk_eqD [of w v] by (cases "fw_files v n") (simp_all add: write_at_files)

lemma sys_write_files:
  assumes "sys_write n pos d w = (r, w')"
  shows "\<exists>f. disk w' = ((fw_files w)(n := f), fw_number w)"
    and "r = Some (length d) \<Longrightarrow> disk w' = disk (write_at n pos d w)"
proof -
  obtain v w1 where v: "sys_verdict w = (v, w1)" by fastforce
  note same = write_at_disk [OF disk_verdict [OF v]]
  have some: "\<exists>f. disk (write_at n pos x w) = ((fw_files w)(n := f), fw_number w)" for x
    unfolding write_at_files using disk_refl [of w n] by (cases "fw_files w n") auto
  have idem: "\<exists>f. disk w1 = ((fw_files w)(n := f), fw_number w)"
    unfolding disk_verdict [OF v] by (rule disk_refl)
  show "\<exists>f. disk w' = ((fw_files w)(n := f), fw_number w)"
    using assms v same some idem by (cases v) (auto simp: sys_write_def)
  show "r = Some (length d) \<Longrightarrow> disk w' = disk (write_at n pos d w)"
    using assms v same by (cases v) (auto simp: sys_write_def min_def split: if_splits)
qed

text \<open>One round of the loop: it stops with an error, or a full piece has been moved.\<close>

lemma copy_round:
  assumes run: "copy_loop src to pos left len w = (ok, w')" and pos: "0 < left" "0 < len" and l: "l = min len left"
  obtains (stopped) f where "\<not> ok" "disk w' = ((fw_files w)(to := f), fw_number w)"
    | (moved) d w2 where "d = take l (drop pos (file_data w src))" "length d = l" "disk w2 = disk (write_at to pos d w)"
        "copy_loop src to (pos + l) (left - l) l w2 = (ok, w')"
proof -
  obtain r w1 where r: "sys_read src pos l w = (r, w1)" by fastforce
  note d1 = sys_read_files(1) [OF r]
  show thesis
  proof (cases "\<exists>d. r = Some d \<and> length d = l")
    case True
    then obtain d where d: "r = Some d" "length d = l" by blast
    obtain n w2 where wr: "sys_write to pos d w1 = (n, w2)" by fastforce
    have step: "copy_loop src to pos left len w = (if n \<noteq> Some l then (False, w2) else copy_loop src to (pos + l) (left - l) l w2)"
      using pos l r d wr by (subst copy_loop.simps) (simp add: Let_def split: option.splits)
    show thesis
    proof (cases "n = Some l")
      case True
      show thesis
        by (rule moved [OF sys_read_files(2) [OF r d] d(2)])
          (use True run step sys_write_files(2) [OF wr] d(2) write_at_disk [OF d1] in auto)
    next
      case False
      obtain f where "disk w2 = ((fw_files w)(to := f), fw_number w)"
        using sys_write_files(1) [OF wr] disk_eqD [OF d1] by auto
      with False run step stopped show thesis by auto
    qed
  next
    case False
    with pos l r have "copy_loop src to pos left len w = (False, w1)"
      by (subst copy_loop.simps) (auto simp: Let_def split: option.splits)
    with run have "\<not> ok" "w' = w1" by simp_all
    with disk_refl [of w to] d1 stopped show thesis by auto
  qed
qed

text \<open>A run of the loop changes the target only, and when it succeeds the target is the source.\<close>

lemma copy_loop_frame:
  "copy_loop src to pos left len w = (ok, w') \<Longrightarrow> \<exists>f. disk w' = ((fw_files w)(to := f), fw_number w)"
proof (induction left arbitrary: pos len w rule: less_induct)
  case (less left)
  show ?case
  proof (cases "left = 0 \<or> len = 0")
    case True
    with less.prems have "w' = w" by (auto simp: copy_loop.simps)
    with disk_refl [of w to] show ?thesis by blast
  next
    case False
    then have pos: "0 < left" "0 < len" by simp_all
    show ?thesis
    proof (cases rule: copy_round [OF less.prems pos refl])
      case (2 d w2)
      have "\<exists>f. disk w2 = ((fw_files w)(to := f), fw_number w)"
        using 2(3) disk_refl [of w to] by (auto simp: write_at_files split: option.splits)
      moreover have "\<exists>f. disk w' = ((fw_files w2)(to := f), fw_number w2)"
        by (rule less.IH [OF _ 2(4)]) (use pos in simp)
      ultimately obtain f g where "disk w2 = ((fw_files w)(to := f), fw_number w)" "disk w' = ((fw_files w2)(to := g), fw_number w2)" by blast
      then show ?thesis by (intro exI [of _ g]) (simp add: disk_def fun_eq_iff)
    qed blast
  qed
qed

lemma put_bytes_end: "put_bytes b (length b) d = b @ d"
  by (simp add: put_bytes_def)

lemma copy_loop_complete:
  assumes "src \<noteq> to"
  shows "copy_loop src to pos left len w = (True, w') \<Longrightarrow> 0 < len \<or> left = 0 \<Longrightarrow> fw_files w to = Some y \<Longrightarrow>
     fl_data y = take pos (file_data w src) \<Longrightarrow> length (file_data w src) = pos + left \<Longrightarrow>
     \<exists>t. disk w' = ((fw_files w)(to \<mapsto> y\<lparr>fl_data := file_data w src, fl_time := t\<rparr>), fw_number w)"
proof (induction left arbitrary: pos len w y rule: less_induct)
  case (less left)
  show ?case
  proof (cases "left = 0")
    case True
    with less.prems have "w' = w" "y = y\<lparr>fl_data := file_data w src, fl_time := fl_time y\<rparr>"
      by (simp_all add: copy_loop.simps)
    with less.prems(3) show ?thesis by (intro exI [of _ "fl_time y"]) (simp add: disk_def fun_upd_idem)
  next
    case False
    with less.prems(2) have pos: "0 < left" "0 < len" by simp_all
    let ?l = "min len left" and ?D = "file_data w src"
    show ?thesis
    proof (cases rule: copy_round [OF less.prems(1) pos refl])
      case (2 d w2)
      let ?y = "y\<lparr>fl_data := take (pos + ?l) ?D, fl_time := None\<rparr>"
      have len: "length (fl_data y) = pos" using less.prems(4,5) by simp
      have "put_bytes (fl_data y) pos d = take (pos + ?l) ?D"
        using put_bytes_end [of "fl_data y" d] len 2(1) less.prems(4) by (simp add: take_add)
      then have d2: "disk w2 = ((fw_files w)(to \<mapsto> ?y), fw_number w)" using 2(3) less.prems(3) by (simp add: write_at_files)
      then have f2: "fw_files w2 to = Some ?y" "file_data w2 src = ?D" using assms by (simp_all add: disk_def file_data_def)
      have "\<exists>t. disk w' = ((fw_files w2)(to \<mapsto> ?y\<lparr>fl_data := file_data w2 src, fl_time := t\<rparr>), fw_number w2)"
        by (rule less.IH [OF _ 2(4)]) (use pos f2 less.prems(5) in auto)
      then obtain t where "disk w' = ((fw_files w2)(to \<mapsto> ?y\<lparr>fl_data := file_data w2 src, fl_time := t\<rparr>), fw_number w2)" by blast
      with d2 f2(2) show ?thesis by (intro exI [of _ t]) (simp add: disk_def fun_eq_iff)
    qed simp
  qed
qed

definition copied :: "ngx_copy \<Rightarrow> stored_file \<Rightarrow> stored_file \<Rightarrow> bool" where
  "copied cf x y \<longleftrightarrow> fl_data y = fl_data x \<and> fl_mode y = cf_access cf \<and> (cf_time cf \<noteq> - 1 \<longrightarrow> fl_time y = Some (cf_time cf))"

lemma copy_opened_files:
  assumes run: "copy_opened cf src to left len w = (rc, w')" and ne: "src \<noteq> to" and x: "fw_files w src = Some x"
    and y: "fw_files w to = Some (empty_file (cf_access cf))" and left: "left = length (fl_data x)" and len: "0 < len \<or> left = 0"
  shows "\<exists>f. disk w' = ((fw_files w)(to := f), fw_number w) \<and> (rc = NGX_OK \<longrightarrow> (\<exists>y. f = Some y \<and> copied cf x y))"
proof -
  obtain ok w1 where l: "copy_loop src to 0 left len w = (ok, w1)" by fastforce
  have D: "file_data w src = fl_data x" using x by (simp add: file_data_def)
  show ?thesis
  proof (cases ok)
    case False
    then have "disk w' = disk w1" "rc \<noteq> NGX_OK" using run l by (auto simp: copy_opened_def NGX_OK_def NGX_ERROR_def)
    with copy_loop_frame [OF l] show ?thesis by auto
  next
    case True
    obtain t where w1: "disk w1 = ((fw_files w)(to \<mapsto> (empty_file (cf_access cf))\<lparr>fl_data := fl_data x, fl_time := t\<rparr>), fw_number w)"
      using copy_loop_complete [OF ne, of 0 left len w w1 "empty_file (cf_access cf)"] l True len y left D by (auto simp: empty_file_def)
    show ?thesis
    proof (cases "cf_time cf = - 1")
      case True
      then have "disk w' = disk w1" using run l \<open>ok\<close> by (auto simp: copy_opened_def)
      with w1 True show ?thesis by (auto simp: copied_def empty_file_def)
    next
      case False
      obtain w2 where st: "ngx_set_file_time to (cf_time cf) w1 = (rc, w2)" and w': "disk w' = disk w2"
        using run l \<open>ok\<close> False by (auto simp: copy_opened_def split: prod.splits)
      show ?thesis using ngx_set_file_time_files [OF st] w1 w'
        by (auto simp: disk_def copied_def empty_file_def split: if_splits)
    qed
  qed
qed

lemma ngx_copy_file_files:
  assumes run: "ngx_copy_file src to cf w = (rc, w')" and ne: "src \<noteq> to" and x: "fw_files w src = Some x"
    and new: "fw_files w to = None" and cf: "cf_size cf = - 1"
  shows "\<exists>f. disk w' = ((fw_files w)(to := f), fw_number w) \<and> (rc = NGX_OK \<longrightarrow> (\<exists>y. f = Some y \<and> copied cf x y))"
proof -
  have stop: ?thesis if "disk w' = disk w" "rc = NGX_ERROR"
    using that disk_refl [of w to] by (auto simp: NGX_OK_def NGX_ERROR_def)
  obtain e1 w1 where o1: "sys_open_read src w = (e1, w1)" by fastforce
  obtain k w2 where o2: "sys_fstat src w1 = (k, w2)" by fastforce
  obtain got w3 where o3: "sys_alloc w2 = (got, w3)" by fastforce
  obtain e4 w4 where o4: "sys_open_write to (cf_access cf) w3 = (e4, w4)" by fastforce
  have d: "disk w1 = disk w" "disk w2 = disk w" "disk w3 = disk w"
    using sys_open_read_files [OF o1] sys_fstat_files [OF o2] sys_alloc_files [OF o3] by simp_all
  have k: "k = None \<or> k = Some (length (fl_data x))"
    using sys_fstat_files [OF o2] file_data_disk [OF d(1), of src] x by (simp add: file_data_def)
  have d4: "disk w4 = (if e4 = None then ((fw_files w)(to \<mapsto> empty_file (cf_access cf)), fw_number w) else disk w)"
    using sys_open_write_files [OF o4] disk_eqD [OF d(3)] d(3) new by simp
  show ?thesis
  proof (cases "e1 = None \<and> k \<noteq> None \<and> got \<and> e4 = None")
    case False
    then have "disk w' = disk w" "rc = NGX_ERROR"
      using run o1 o2 o3 o4 cf d d4 by (auto simp: ngx_copy_file_def Let_def split: option.splits if_splits)
    with stop show ?thesis by blast
  next
    case True
    let ?n = "length (fl_data x)"
    have "copy_opened cf src to ?n (min (if cf_buf_size cf \<noteq> 0 then cf_buf_size cf else 65536) ?n) w4 = (rc, w')"
      using True k run o1 o2 o3 o4 cf by (auto simp: ngx_copy_file_def Let_def)
    moreover have f4: "fw_files w4 = (fw_files w)(to \<mapsto> empty_file (cf_access cf))" "fw_number w4 = fw_number w"
      using d4 True by (simp_all add: disk_def)
    ultimately show ?thesis using copy_opened_files [of cf src to ?n _ w4 rc w' x] ne x by auto
  qed
qed

section \<open>The target is never a part of a file\<close>

text \<open>The file \<open>y\<close> is the finished form of \<open>x\<close>: its bytes, with the access and the time asked for.\<close>

definition delivered :: "ngx_ext_rename \<Rightarrow> stored_file \<Rightarrow> stored_file \<Rightarrow> bool" where
  "delivered ext x y \<longleftrightarrow> fl_data y = fl_data x \<and> (ext_access ext \<noteq> 0 \<longrightarrow> fl_mode y = ext_access ext)
     \<and> (ext_time ext \<noteq> - 1 \<longrightarrow> fl_time y = Some (ext_time ext))"

text \<open>What may be found after a move from \<open>src\<close> to \<open>to\<close> with \<open>name\<close> for a copy.\<close>

definition move_outcome ::
  "string \<Rightarrow> string \<Rightarrow> string \<Rightarrow> ngx_ext_rename \<Rightarrow> stored_file \<Rightarrow> fworld \<Rightarrow> int \<Rightarrow> fworld \<Rightarrow> bool" where
  "move_outcome src to name ext x w rc w' \<longleftrightarrow>
     (\<forall>n. n \<notin> {src, to, name} \<longrightarrow> fw_files w' n = fw_files w n)
     \<and> (fw_files w' to = fw_files w to \<or> (\<exists>y. fw_files w' to = Some y \<and> delivered ext x y))
     \<and> (rc = NGX_OK \<longrightarrow> fw_files w' src = None \<and> fw_files w' name = None \<and> (\<exists>y. fw_files w' to = Some y \<and> delivered ext x y))
     \<and> (rc = NGX_OK \<or> rc = NGX_ERROR)"

lemma OK_ERROR: "NGX_OK \<noteq> NGX_ERROR"
  by (simp add: NGX_OK_def NGX_ERROR_def)

lemma ext_failed_outcome:
  assumes "ext_failed src ext v = (rc, w')" and "src \<noteq> to"
    and "\<forall>n. n \<notin> {src, to, name} \<longrightarrow> fw_files v n = fw_files w n" and "fw_files v to = fw_files w to"
  shows "move_outcome src to name ext x w rc w'"
proof -
  obtain e v' where u: "sys_unlink src v = (e, v')" by fastforce
  have "fw_files w' n = fw_files v n" if "n \<noteq> src" for n
    using assms(1) sys_unlink_files [OF u] u that by (auto simp: ext_failed_def disk_def split: if_splits)
  moreover have "rc = NGX_ERROR" using assms(1) by (simp add: ext_failed_def)
  ultimately show ?thesis using assms(2-4) OK_ERROR by (auto simp: move_outcome_def)
qed

lemma ext_copy_outcome:
  assumes run: "ext_copy src to to_len ext w = (rc, w')" and ne: "src \<noteq> to" and x: "fw_files w src = Some x'"
    and name: "name = copy_name to to_len ((fw_number w + 1) mod 2 ^ 64)" "name \<noteq> to" "fw_files w name = None"
    and del: "delivered ext x x'"
  shows "move_outcome src to name ext x w rc w'"
proof -
  let ?cf = "\<lparr>cf_size = - 1, cf_buf_size = 0, cf_access = ext_access ext, cf_time = ext_time ext\<rparr>"
  have sn: "src \<noteq> name" using x name(3) by auto
  obtain got w1 where o1: "sys_alloc w = (got, w1)" by fastforce
  define w2 where "w2 = w1\<lparr>fw_number := (fw_number w + 1) mod 2 ^ 64\<rparr>"
  obtain rc3 w3 where o3: "ngx_copy_file src name ?cf w2 = (rc3, w3)" by fastforce
  obtain e4 w4 where o4: "sys_rename name to w3 = (e4, w4)" by fastforce
  obtain e5 w5 where o5: "sys_unlink src w4 = (e5, w5)" by fastforce
  obtain e6 w6 where o6: "sys_unlink name w4 = (e6, w6)" by fastforce
  have d1: "fw_files w1 = fw_files w" "fw_number w1 = fw_number w" using disk_eqD [OF sys_alloc_files [OF o1]] by simp_all
  have f2: "fw_files w2 = fw_files w" by (simp add: w2_def d1)
  have nt: "ngx_next_temp_number False w1 = ((fw_number w + 1) mod 2 ^ 64, w2)"
    by (simp add: ngx_next_temp_number_def w2_def d1 Let_def)
  obtain f where f3: "fw_files w3 = (fw_files w)(name := f)" and c: "rc3 = NGX_OK \<Longrightarrow> \<exists>y. f = Some y \<and> copied ?cf x' y"
    using ngx_copy_file_files [OF o3 sn, of x'] x name(3) f2 by (auto simp: disk_def)
  have full: "delivered ext x y" if "copied ?cf x' y" for y
    using that del by (auto simp: delivered_def copied_def)
  consider "\<not> got" | "got" "rc3 \<noteq> NGX_OK" | "got" "rc3 = NGX_OK" "e4 = None" | "got" "rc3 = NGX_OK" "e4 \<noteq> None" by blast
  then show ?thesis
  proof cases
    case 1
    then have "rc = NGX_ERROR" "w' = w1" using run o1 by (simp_all add: ext_copy_def)
    then show ?thesis using d1 OK_ERROR by (auto simp: move_outcome_def)
  next
    case 2
    then have "ext_failed src ext w3 = (rc, w')" using run o1 nt o3 name(1) by (simp add: ext_copy_def Let_def)
    then show ?thesis by (rule ext_failed_outcome [OF _ ne]) (use f3 name(2) in auto)
  next
    case 3
    then obtain y where y: "f = Some y" "delivered ext x y" using c full by blast
    have "rc = (if e5 = None then NGX_OK else NGX_ERROR)" "w' = w5"
      using run o1 nt o3 name(1) 3 o4 o5 by (simp_all add: ext_copy_def Let_def)
    moreover have "fw_files w4 = (fw_files w)(name := None, to \<mapsto> y)"
      using sys_rename_files [OF o4] 3 f3 y by (auto simp: disk_def)
    moreover have "fw_files w5 = (if e5 = None then (fw_files w4)(src := None) else fw_files w4)"
      using sys_unlink_files [OF o5] by (auto simp: disk_def split: if_splits)
    ultimately show ?thesis using ne name(2) y(2) OK_ERROR by (auto simp: move_outcome_def)
  next
    case 4
    then have "ext_failed src ext w6 = (rc, w')" using run o1 nt o3 name(1) o4 o6 by (auto simp: ext_copy_def Let_def)
    moreover have "fw_files w4 = fw_files w3" using sys_rename_files [OF o4] 4 by (simp add: disk_def)
    moreover have "fw_files w6 n = fw_files w4 n" if "n \<noteq> name" for n
      using sys_unlink_files [OF o6] that by (auto simp: disk_def split: if_splits)
    ultimately show ?thesis using f3 name(2) by (intro ext_failed_outcome [OF _ ne, of ext w6]) auto
  qed
qed

text \<open>The outcome depends on the files and the counter only.\<close>

lemma move_outcome_disk: "disk v = disk w \<Longrightarrow> move_outcome src to name ext x v rc w' = move_outcome src to name ext x w rc w'"
  by (auto simp: move_outcome_def dest!: disk_eqD)

lemma rename_outcome:
  assumes ren: "sys_rename src to v = (res, v1)" and v: "disk v = disk w" and ne: "src \<noteq> to" and x: "fw_files w src = Some x'"
    and name: "name = copy_name to to_len ((fw_number w + 1) mod 2 ^ 64)" "name \<noteq> to" "fw_files w name = None"
    and del: "delivered ext x x'"
  shows "res = None \<Longrightarrow> move_outcome src to name ext x w NGX_OK v1" and "res = Some e \<Longrightarrow> disk v1 = disk w"
    and "res = Some e \<Longrightarrow> (if b then ext_copy src to to_len ext v1 else ext_failed src ext v1) = (rc, w') \<Longrightarrow>
      move_outcome src to name ext x w rc w'"
proof -
  note fv = disk_eqD [OF v]
  show "res = None \<Longrightarrow> move_outcome src to name ext x w NGX_OK v1"
    using sys_rename_files [OF ren] fv ne x name(2,3) del by (auto simp: move_outcome_def disk_def)
  show "res = Some e \<Longrightarrow> disk v1 = disk w" using sys_rename_files [OF ren] v by simp
  then have f1: "fw_files v1 = fw_files w" "fw_number v1 = fw_number w" "disk v1 = disk w" if "res = Some e"
    using that disk_eqD [of v1 w] by simp_all
  show "move_outcome src to name ext x w rc w'"
    if "res = Some e" "(if b then ext_copy src to to_len ext v1 else ext_failed src ext v1) = (rc, w')"
  proof (cases b)
    case True
    with that(2) have "ext_copy src to to_len ext v1 = (rc, w')" by simp
    then have "move_outcome src to name ext x v1 rc w'"
      by (rule ext_copy_outcome [OF _ ne _ _ name(2) _ del]) (use f1 [OF that(1)] x name in auto)
    with move_outcome_disk f1(3) [OF that(1)] show ?thesis by blast
  next
    case False
    with that(2) have "ext_failed src ext v1 = (rc, w')" by simp
    then show ?thesis by (rule ext_failed_outcome [OF _ ne]) (use f1 [OF that(1)] in auto)
  qed
qed

lemma ext_moved_outcome:
  assumes run: "ext_moved src to to_len ext w = (rc, w')" and ne: "src \<noteq> to" and x: "fw_files w src = Some x'"
    and name: "name = copy_name to to_len ((fw_number w + 1) mod 2 ^ 64)" "name \<noteq> to" "fw_files w name = None"
    and del: "delivered ext x x'"
  shows "move_outcome src to name ext x w rc w'"
proof -
  obtain res1 w1 where o1: "sys_rename src to w = (res1, w1)" by fastforce
  obtain err w2 where o2: "ngx_create_full_path to (ngx_dir_access (ext_path_access ext)) w1 = (err, w2)" by fastforce
  obtain res3 w3 where o3: "sys_rename src to w2 = (res3, w3)" by fastforce
  note first = rename_outcome [OF o1 refl ne x name del]
  note failed = ext_failed_outcome [OF _ ne]
  show ?thesis
  proof (cases res1)
    case None
    with first(1) run o1 show ?thesis by (simp add: ext_moved_def)
  next
    case (Some e)
    note d1 = first(2) [OF Some]
    have d2: "disk w2 = disk w" using d1 create_dirs_files o2 [unfolded ngx_create_full_path_def] by metis
    note second = rename_outcome [OF o3 d2 ne x name del]
    consider "e \<noteq> NGX_ENOENT" | "e = NGX_ENOENT" "\<not> ext_create_path ext" | "e = NGX_ENOENT" "ext_create_path ext" "err \<noteq> 0"
      | "e = NGX_ENOENT" "ext_create_path ext" "err = 0" by blast
    then show ?thesis
    proof cases
      case 1
      then show ?thesis using run o1 Some by (intro first(3) [OF Some, of "e = NGX_EXDEV"]) (simp add: ext_moved_def)
    next
      case 2
      then show ?thesis using run o1 Some by (intro first(3) [OF Some, of False]) (simp add: ext_moved_def)
    next
      case 3
      then have "ext_failed src ext w2 = (rc, w')" using run o1 Some o2 by (simp add: ext_moved_def)
      then show ?thesis by (rule failed) (use disk_eqD [OF d2] in auto)
    next
      case 4
      show ?thesis
      proof (cases res3)
        case None
        with 4 second(1) run o1 Some o2 o3 show ?thesis by (simp add: ext_moved_def)
      next
        case (Some e3)
        then show ?thesis using 4 run o1 \<open>res1 = Some e\<close> o2 o3
          by (intro second(3) [OF Some, of "e3 = NGX_EXDEV"]) (simp add: ext_moved_def)
      qed
    qed
  qed
qed

lemma ext_rename_outcome:
  assumes run: "ngx_ext_rename_file src to to_len ext w = (rc, w')" and ne: "src \<noteq> to" and x: "fw_files w src = Some x"
    and name: "name = copy_name to to_len ((fw_number w + 1) mod 2 ^ 64)" "name \<noteq> to" "fw_files w name = None"
  shows "move_outcome src to name ext x w rc w'"
proof -
  obtain e w1 where o1: "(if ext_access ext \<noteq> 0 then sys_chmod src (ext_access ext) w else (None, w)) = (e, w1)" by fastforce
  obtain rc2 w2 where o2: "(if ext_time ext \<noteq> - 1 then ngx_set_file_time src (ext_time ext) w1 else (NGX_OK, w1)) = (rc2, w2)" by fastforce
  have d1: "\<exists>y. disk w1 = ((fw_files w)(src \<mapsto> y), fw_number w) \<and> fl_data y = fl_data x
      \<and> (e = None \<longrightarrow> ext_access ext \<noteq> 0 \<longrightarrow> fl_mode y = ext_access ext)"
  proof (cases "ext_access ext \<noteq> 0 \<and> e = None")
    case True
    then show ?thesis using o1 x sys_chmod_files [of src "ext_access ext" w e w1] by auto
  next
    case False
    then have "disk w1 = disk w" using o1 sys_chmod_files [of src "ext_access ext" w e w1] by (auto split: if_splits)
    moreover have "disk w = ((fw_files w)(src \<mapsto> x), fw_number w)" using x by (simp add: disk_def fun_upd_idem)
    ultimately show ?thesis using False by (intro exI [of _ x]) auto
  qed
  then obtain y where y: "fw_files w1 = (fw_files w)(src \<mapsto> y)" "fw_number w1 = fw_number w" "fl_data y = fl_data x"
    "e = None \<longrightarrow> ext_access ext \<noteq> 0 \<longrightarrow> fl_mode y = ext_access ext" by (auto simp: disk_def)
  have d2: "\<exists>z. disk w2 = ((fw_files w)(src \<mapsto> z), fw_number w) \<and> (e = None \<longrightarrow> rc2 = NGX_OK \<longrightarrow> delivered ext x z)"
    using o2 y ngx_set_file_time_files [of src "ext_time ext" w1 rc2 w2]
    by (cases "ext_time ext = - 1"; cases "rc2 = NGX_OK") (auto simp: disk_def delivered_def)
  then obtain z where z: "fw_files w2 = (fw_files w)(src \<mapsto> z)" "fw_number w2 = fw_number w"
    "e = None \<longrightarrow> rc2 = NGX_OK \<longrightarrow> delivered ext x z" by (auto simp: disk_def)
  consider "e \<noteq> None" | "e = None" "rc2 \<noteq> NGX_OK" | "e = None" "rc2 = NGX_OK" by blast
  then show ?thesis
  proof cases
    case 1
    then have "ext_failed src ext w1 = (rc, w')" using run o1 by (auto simp: ngx_ext_rename_file_def)
    then show ?thesis by (rule ext_failed_outcome [OF _ ne]) (use y(1) ne in auto)
  next
    case 2
    then have "ext_failed src ext w2 = (rc, w')" using run o1 o2 by (auto simp: ngx_ext_rename_file_def)
    then show ?thesis by (rule ext_failed_outcome [OF _ ne]) (use z(1) ne in auto)
  next
    case 3
    then have "ext_moved src to to_len ext w2 = (rc, w')" using run o1 o2 by (auto simp: ngx_ext_rename_file_def)
    then have "move_outcome src to name ext x w2 rc w'"
      by (rule ext_moved_outcome [OF _ ne _ _ name(2), where x' = z]) (use z 3 x name in auto)
    then show ?thesis using z(1) ne by (auto simp: move_outcome_def)
  qed
qed

section \<open>A new temporary file\<close>

text \<open>The access of a temporary file.\<close>

definition tmp_access :: "nat \<Rightarrow> nat" where
  "tmp_access a = (if a \<noteq> 0 then a else 0x180)"

definition one_new_file :: "nat \<Rightarrow> int \<times> string \<Rightarrow> fworld \<Rightarrow> fworld \<Rightarrow> bool" where
  "one_new_file a r w w' \<longleftrightarrow> (if fst r = NGX_OK
     then fw_files w (snd r) = None \<and> fw_files w' = (fw_files w)(snd r \<mapsto> empty_file (tmp_access a))
     else fw_files w' = fw_files w)"

lemma one_new_cong: "fw_files v = fw_files w \<Longrightarrow> one_new_file a r v w' = one_new_file a r w w'"
  by (simp add: one_new_file_def)

lemma one_new_error: "fw_files v = fw_files w \<Longrightarrow> one_new_file a (NGX_ERROR, nm) w v"
  using OK_ERROR by (simp add: one_new_file_def)

lemma ngx_open_tempfile_new:
  assumes "ngx_open_tempfile n True a w = (e, w')"
  shows "if e = None then fw_files w n = None \<and> fw_files w' = (fw_files w)(n \<mapsto> empty_file (tmp_access a))
    else fw_files w' = fw_files w"
proof -
  have "sys_open_excl n (tmp_access a) w = (e, w')"
    using assms unfolding ngx_open_tempfile_def tmp_access_def [symmetric] by (auto split: prod.splits)
  then show ?thesis
    unfolding sys_open_excl_def
    by (cases rule: sys_call_cases) (auto simp: set_file_def disk_def split: if_splits)
qed

lemma temp_loop_step:
  assumes "temp_loop (Suc fuel) path True a n w = Some (r, w')"
  obtains (again) n' v where "temp_loop fuel path True a n' v = Some (r, w')" "fw_files v = fw_files w"
    | (ended) "one_new_file a r w w'"
proof -
  let ?ds = "fmt_010u n" and ?nm = "ngx_create_hashed_filename path (fmt_010u n)"
  obtain e w1 where o: "ngx_open_tempfile ?nm True a w = (e, w1)" by fastforce
  obtain n2 w2 where o2: "ngx_next_temp_number True w1 = (n2, w2)" by fastforce
  obtain rc3 w3 where o3: "ngx_create_path path ?ds w1 = (rc3, w3)" by fastforce
  note new = ngx_open_tempfile_new [OF o] and step = assms [unfolded temp_loop.simps Let_def o prod.case]
  show thesis
  proof (cases e)
    case None
    with new step have "one_new_file a r w w'" by (auto simp: one_new_file_def)
    then show thesis by (rule ended)
  next
    case (Some k)
    with new have f1: "fw_files w1 = fw_files w" by simp
    have f2: "fw_files w2 = fw_files w" using o2 f1 by (auto simp: ngx_next_temp_number_def Let_def)
    have f3: "fw_files w3 = fw_files w" using create_levels_files [OF o3 [unfolded ngx_create_path_def]] f1 by (simp add: disk_def)
    from step [unfolded Some option.case o2 o3 prod.case] show thesis
      using again [OF _ f2] again [OF _ f3] ended one_new_error [OF f1] one_new_error [OF f3] by (auto split: if_splits)
  qed
qed

lemma temp_loop_new: "temp_loop fuel path True a n w = Some (r, w') \<Longrightarrow> one_new_file a r w w'"
proof (induction fuel arbitrary: n w)
  case (Suc fuel)
  from Suc.prems show ?case
    by (cases rule: temp_loop_step) (use Suc.IH one_new_cong in blast)+
qed simp

lemma create_temp_new:
  assumes "ngx_create_temp_file fuel path True a w = Some (r, w')"
  shows "one_new_file a r w w'"
proof -
  obtain g1 w1 where o1: "sys_alloc w = (g1, w1)" by fastforce
  obtain n w2 where o2: "ngx_next_temp_number False w1 = (n, w2)" by fastforce
  obtain g3 w3 where o3: "sys_alloc w2 = (g3, w3)" by fastforce
  have w1: "fw_files w1 = fw_files w" using disk_eqD [OF sys_alloc_files [OF o1]] by simp
  have w3: "fw_files w3 = fw_files w" using disk_eqD [OF sys_alloc_files [OF o3]] w1 o2 by (auto simp: ngx_next_temp_number_def Let_def)
  note step = assms [unfolded ngx_create_temp_file_def o1 o2 o3 prod.case]
  consider "r = (NGX_ERROR, [])" "w' = w1" | "r = (NGX_ERROR, [])" "w' = w3" | "temp_loop fuel path True a n w3 = Some (r, w')"
    using step by (cases g1; cases g3) auto
  then show ?thesis
  proof cases
    case 1
    then show ?thesis using one_new_error [OF w1] by simp
  next
    case 2
    then show ?thesis using one_new_error [OF w3] by simp
  next
    case 3
    from temp_loop_new [OF this] show ?thesis unfolding one_new_cong [OF w3] .
  qed
qed

text \<open>The name for a number, and the name of round \<open>i\<close> when every round before found its name taken.\<close>

definition num_name :: "ngx_path \<Rightarrow> nat \<Rightarrow> string" where
  "num_name path x = ngx_create_hashed_filename path (fmt_010u (x mod 2 ^ 64))"

definition temp_name :: "ngx_path \<Rightarrow> fworld \<Rightarrow> nat \<Rightarrow> string" where
  "temp_name path w i = num_name path (fw_number w + 1 + i * fw_random w)"

section \<open>Without errors of the kernel\<close>

lemma sys_call_granted: "fw_verdicts w = (\<lambda>_. Granted) \<Longrightarrow> sys_call f w = f w"
  by (cases w) (simp add: sys_call_def sys_verdict_def)

lemma open_tempfile_granted:
  assumes "fw_verdicts w = (\<lambda>_. Granted)"
  shows "ngx_open_tempfile n True a w = (if fw_files w n = None
     then (None, set_file n (Some (empty_file (tmp_access a))) w) else (Some NGX_EEXIST, w))"
  unfolding ngx_open_tempfile_def tmp_access_def [symmetric] by (simp add: sys_open_excl_def sys_call_granted [OF assms])

definition numbered :: "nat \<Rightarrow> fworld \<Rightarrow> fworld" where
  "numbered x w = w\<lparr>fw_number := x mod 2 ^ 64\<rparr>"

lemma numbered_fields [simp]:
  "fw_files (numbered x w) = fw_files w" "fw_verdicts (numbered x w) = fw_verdicts w" "fw_random (numbered x w) = fw_random w"
  "numbered y (numbered x w) = numbered y w"
  by (simp_all add: numbered_def)

lemma next_number: "ngx_next_temp_number True (numbered x w) = ((x + fw_random w) mod 2 ^ 64, numbered (x + fw_random w) w)"
  by (simp add: ngx_next_temp_number_def Let_def numbered_def mod_add_left_eq)

lemma temp_loop_free:
  assumes "fw_verdicts w = (\<lambda>_. Granted)" and "fw_files w (num_name path x) = None"
  shows "temp_loop (Suc fuel) path True a (x mod 2 ^ 64) (numbered x w) =
     Some ((NGX_OK, num_name path x), set_file (num_name path x) (Some (empty_file (tmp_access a))) (numbered x w))"
  using assms unfolding temp_loop.simps Let_def num_name_def [symmetric] by (simp add: open_tempfile_granted)

lemma temp_loop_taken:
  assumes "fw_verdicts w = (\<lambda>_. Granted)" and "fw_files w (num_name path x) \<noteq> None"
  shows "temp_loop (Suc fuel) path True a (x mod 2 ^ 64) (numbered x w) =
     temp_loop fuel path True a ((x + fw_random w) mod 2 ^ 64) (numbered (x + fw_random w) w)"
  using assms unfolding temp_loop.simps Let_def num_name_def [symmetric] by (simp only: open_tempfile_granted numbered_fields) (simp add: next_number)

lemma temp_loop_finds:
  assumes "fw_verdicts w = (\<lambda>_. Granted)" and "fw_files w (num_name path (x + k * fw_random w)) = None" and "k < fuel"
    and "\<forall>i < k. fw_files w (num_name path (x + i * fw_random w)) \<noteq> None"
  shows "\<exists>w'. temp_loop fuel path True a (x mod 2 ^ 64) (numbered x w) = Some ((NGX_OK, num_name path (x + k * fw_random w)), w')
     \<and> fw_files w' = (fw_files w)(num_name path (x + k * fw_random w) \<mapsto> empty_file (tmp_access a))"
  using assms(2-4)
proof (induction k arbitrary: x fuel)
  case 0
  then obtain f where f: "fuel = Suc f" by (cases fuel) auto
  from 0 temp_loop_free [OF assms(1), of path x f a] show ?case unfolding f by (auto simp: set_file_def)
next
  case (Suc k)
  then obtain f where f: "fuel = Suc f" "k < f" by (cases fuel) auto
  have x: "x + fw_random w + i * fw_random w = x + Suc i * fw_random w" for i by simp
  have "fw_files w (num_name path x) \<noteq> None" using Suc.prems(3) by (metis add.right_neutral mult_zero_left zero_less_Suc)
  from temp_loop_taken [OF assms(1) this, of f a] have
    "temp_loop fuel path True a (x mod 2 ^ 64) (numbered x w) =
       temp_loop f path True a ((x + fw_random w) mod 2 ^ 64) (numbered (x + fw_random w) w)" unfolding f .
  moreover have "\<forall>i < k. fw_files w (num_name path (x + fw_random w + i * fw_random w)) \<noteq> None"
    unfolding x using Suc.prems(3) by (meson Suc_less_eq)
  ultimately show ?case using Suc.IH [of "x + fw_random w" f, unfolded x, OF Suc.prems(1) f(2)] by (simp only: x)
qed

lemma temp_loop_stuck:
  assumes "fw_verdicts w = (\<lambda>_. Granted)" and "\<forall>i. fw_files w (num_name path (x + i * fw_random w)) \<noteq> None"
  shows "temp_loop fuel path True a (x mod 2 ^ 64) (numbered x w) = None"
  using assms(2)
proof (induction fuel arbitrary: x)
  case (Suc fuel)
  have x: "x + fw_random w + i * fw_random w = x + Suc i * fw_random w" for i by simp
  have "fw_files w (num_name path x) \<noteq> None" using Suc.prems by (metis add.right_neutral mult_zero_left)
  moreover have "\<forall>i. fw_files w (num_name path (x + fw_random w + i * fw_random w)) \<noteq> None" unfolding x using Suc.prems by blast
  ultimately show ?case using temp_loop_taken [OF assms(1), of path x fuel a] Suc.IH [of "x + fw_random w"] by simp
qed simp

lemma create_temp_granted:
  assumes "fw_verdicts w = (\<lambda>_. Granted)"
  shows "ngx_create_temp_file fuel path True a w = temp_loop fuel path True a ((fw_number w + 1) mod 2 ^ 64) (numbered (fw_number w + 1) w)"
proof -
  have al: "sys_alloc v = (True, v)" if "fw_verdicts v = (\<lambda>_. Granted)" for v by (simp add: sys_alloc_def sys_call_granted [OF that])
  have "ngx_next_temp_number False w = ((fw_number w + 1) mod 2 ^ 64, numbered (fw_number w + 1) w)"
    by (simp add: ngx_next_temp_number_def numbered_def Let_def)
  then show ?thesis unfolding ngx_create_temp_file_def al [OF assms] prod.case using al [of "numbered (fw_number w + 1) w"] assms by simp
qed

lemma with_file_granted: "fw_verdicts w = (\<lambda>_. Granted) \<Longrightarrow> fw_files w n = Some x \<Longrightarrow> with_file n f w = (None, f x w)"
  by (simp add: with_file_def sys_call_granted)

definition finished :: "ngx_ext_rename \<Rightarrow> stored_file \<Rightarrow> stored_file" where
  "finished ext x = x\<lparr>fl_mode := (if ext_access ext \<noteq> 0 then ext_access ext else fl_mode x),
     fl_time := (if ext_time ext \<noteq> - 1 then Some (ext_time ext) else fl_time x)\<rparr>"

lemma ext_rename_granted:
  assumes v: "fw_verdicts w = (\<lambda>_. Granted)" and x: "fw_files w src = Some x"
  shows "fst (ngx_ext_rename_file src to to_len ext w) = NGX_OK"
    and "fw_files (snd (ngx_ext_rename_file src to to_len ext w)) = (fw_files w)(src := None, to \<mapsto> finished ext x)"
proof -
  let ?x1 = "x\<lparr>fl_mode := (if ext_access ext \<noteq> 0 then ext_access ext else fl_mode x)\<rparr>"
  define w1 where "w1 = set_file src (Some ?x1) w"
  define w2 where "w2 = set_file src (Some (finished ext x)) w"
  have idem: "set_file src (Some x) w = w" "set_file src (Some ?x1) w1 = w1" using x by (simp_all add: set_file_def w1_def fun_upd_idem)
  have s1: "(if ext_access ext \<noteq> 0 then sys_chmod src (ext_access ext) w else (None, w)) = (None, w1)"
    using v x idem(1) by (simp add: sys_chmod_def with_file_granted w1_def)
  have w1: "fw_verdicts w1 = (\<lambda>_. Granted)" "fw_files w1 src = Some ?x1" using v by (simp_all add: w1_def set_file_def)
  have s2: "(if ext_time ext \<noteq> - 1 then ngx_set_file_time src (ext_time ext) w1 else (NGX_OK, w1)) = (NGX_OK, w2)"
    using w1 idem(2) by (auto simp: ngx_set_file_time_def with_file_granted finished_def w2_def w1_def set_file_def)
  have w2: "fw_verdicts w2 = (\<lambda>_. Granted)" "fw_files w2 src = Some (finished ext x)" using v by (simp_all add: w2_def set_file_def)
  have "ngx_ext_rename_file src to to_len ext w = (NGX_OK, set_file to (Some (finished ext x)) (set_file src None w2))"
    using s1 s2 w2 by (simp add: ngx_ext_rename_file_def ext_moved_def sys_rename_def with_file_granted)
  then show "fst (ngx_ext_rename_file src to to_len ext w) = NGX_OK"
    "fw_files (snd (ngx_ext_rename_file src to to_len ext w)) = (fw_files w)(src := None, to \<mapsto> finished ext x)"
    by (simp_all add: w2_def set_file_def)
qed

lemma client_store_path:
  assumes "is_cstr ip" "is_cstr uri" "is_cstr lp" and "\<not> contains uri localpath_tag" and "length lp < SC_RES_LOCAL_PATH_MAX_LEN"
  shows "ngx_http_map_uri_to_path (butlast SC_NGX_ROOT_PATH) ''/getfile'' (client_request ip uri lp) =
    (length SC_NGX_ROOT_PATH + 8, SC_NGX_ROOT_PATH @ lp)"
proof -
  have "ngx_is_getfile (client_request ip uri lp)" by (simp add: client_request_def)
  then show ?thesis using client_request_path [OF assms] assms(5)
    by (simp add: ngx_http_map_uri_to_path_def path_alloc_def SC_NGX_ROOT_PATH_def hc_limits)
qed

section \<open>Properties\<close>

text \<open>C14. Nobody sees a part of a file. Whatever the kernel answers to the calls, after the move of a
  temporary file the final name holds what it held before, or the whole file with the access and the
  time asked for, also when the file had to be copied from another device; no other file is touched.
  After a success the file is there, and the temporary file and the copy are gone. This needs that the
  name of the copy is free and not the final name; for a target whose length field exceeds its text it
  is the final name, and then the copy writes to it directly.\<close>

theorem store_atomic:
  assumes "ngx_ext_rename_file src to to_len ext w = (rc, w')" and "src \<noteq> to" and "fw_files w src = Some x"
    and "name = copy_name to to_len ((fw_number w + 1) mod 2 ^ 64)" "name \<noteq> to" "fw_files w name = None"
  shows "(\<forall>n. n \<notin> {src, to, name} \<longrightarrow> fw_files w' n = fw_files w n)
     \<and> (fw_files w' to = fw_files w to \<or> (\<exists>y. fw_files w' to = Some y \<and> delivered ext x y))
     \<and> (rc = NGX_OK \<longrightarrow> fw_files w' src = None \<and> fw_files w' name = None \<and> (\<exists>y. fw_files w' to = Some y \<and> delivered ext x y))
     \<and> (rc = NGX_OK \<or> rc = NGX_ERROR)"
  using ext_rename_outcome [OF assms] unfolding move_outcome_def .

text \<open>A file of five bytes on another device, and a kernel that refuses the first rename for that reason.\<close>

definition demo_tmp :: string where "demo_tmp = ''/tmp/1''"

definition demo_world :: "verdict list \<Rightarrow> fworld" where
  "demo_world vs = \<lparr>fw_files = [demo_tmp \<mapsto> \<lparr>fl_data = ''hello'', fl_mode = 0, fl_time = None\<rparr>], fw_dirs = [],
     fw_verdicts = (\<lambda>i. if i < length vs then vs ! i else Granted), fw_number = 0, fw_random = 7\<rparr>"

definition demo_ext :: ngx_ext_rename where
  "demo_ext = \<lparr>ext_access = 0x180, ext_path_access = 0x180, ext_time = 784111777, ext_create_path = True, ext_delete_file = True\<rparr>"

lemma demo_number: "fmt_010u (Suc 0) = ''0000000001''"
proof -
  have "fmt_010u (Suc 0) = replicate 9 (CHR ''0'') @ [digit_char 1]" by (simp add: fmt_010u_def base_digits_single Let_def)
  moreover have "digit_char 1 = CHR ''1''" by (simp add: digit_char_def char_of_def bit_0)
  moreover have "replicate 9 (CHR ''0'') = ''000000000''" by (simp add: numeral_eq_Suc)
  ultimately show ?thesis by simp
qed

lemma demo_number_2: "fmt_010u 2 = ''0000000002''"
proof -
  have "fmt_010u 2 = replicate 9 (CHR ''0'') @ [digit_char 2]" by (simp add: fmt_010u_def base_digits_single Let_def)
  moreover have "digit_char 2 = CHR ''2''" by (simp add: digit_char_def char_of_def bit_0 bit_simps)
  moreover have "replicate 9 (CHR ''0'') = ''000000000''" by (simp add: numeral_eq_Suc)
  ultimately show ?thesis by simp
qed

theorem store_atomic_witness:
  "\<exists>rc w'. ngx_ext_rename_file demo_tmp ''/srv/a.mp4'' 10 demo_ext (demo_world [Granted, Granted, Refused 18]) = (rc, w')
     \<and> (fw_files w' ''/srv/a.mp4'' = None \<or> (\<exists>y. fw_files w' ''/srv/a.mp4'' = Some y \<and> fl_data y = ''hello''))"
proof -
  let ?w = "demo_world [Granted, Granted, Refused 18]"
  obtain rc w' where run: "ngx_ext_rename_file demo_tmp ''/srv/a.mp4'' 10 demo_ext ?w = (rc, w')" by fastforce
  have n: "copy_name ''/srv/a.mp4'' 10 ((fw_number ?w + 1) mod 2 ^ 64) = ''/srv/a.mp4.0000000001''"
    by (simp add: copy_name_def demo_number demo_world_def)
  show ?thesis
    using store_atomic [OF run _ _ n [symmetric], of "\<lparr>fl_data = ''hello'', fl_mode = 0, fl_time = None\<rparr>"] run
    by (auto simp: demo_world_def demo_tmp_def delivered_def)
qed

text \<open>C31. An answer without a body gets a file that was not there before. Whatever the kernel answers to
  the calls, when the search for a name returns, it has made no file and reports an error, or exactly
  one, empty and under a name that was free. When the calls are granted, the names follow the counter
  (its next value, then steps of its random increment) and the file gets the first of them that is
  free, after one round for every taken name before it. The loop has no other end: if every name it
  comes to is taken it returns after no number of rounds.\<close>

theorem temp_file_new:
  "(\<forall>rc nm w'. ngx_create_temp_file fuel path True a w = Some ((rc, nm), w') \<longrightarrow>
      (if rc = NGX_OK then fw_files w nm = None \<and> fw_files w' = (fw_files w)(nm \<mapsto> empty_file (tmp_access a))
       else fw_files w' = fw_files w))
   \<and> (fw_verdicts w = (\<lambda>_. Granted) \<longrightarrow>
      (\<forall>k < fuel. (\<forall>i < k. fw_files w (temp_name path w i) \<noteq> None) \<longrightarrow> fw_files w (temp_name path w k) = None \<longrightarrow>
         (\<exists>w'. ngx_create_temp_file fuel path True a w = Some ((NGX_OK, temp_name path w k), w')
            \<and> fw_files w' = (fw_files w)(temp_name path w k \<mapsto> empty_file (tmp_access a)))))
   \<and> (fw_verdicts w = (\<lambda>_. Granted) \<longrightarrow> (\<forall>i. fw_files w (temp_name path w i) \<noteq> None) \<longrightarrow>
      ngx_create_temp_file fuel path True a w = None)"
proof (intro conjI allI impI)
  fix rc nm w' assume "ngx_create_temp_file fuel path True a w = Some ((rc, nm), w')"
  from create_temp_new [OF this] show "if rc = NGX_OK then fw_files w nm = None \<and>
      fw_files w' = (fw_files w)(nm \<mapsto> empty_file (tmp_access a)) else fw_files w' = fw_files w"
    unfolding one_new_file_def fst_conv snd_conv .
next
  fix k assume g: "fw_verdicts w = (\<lambda>_. Granted)" and k: "k < fuel" "\<forall>i < k. fw_files w (temp_name path w i) \<noteq> None"
    "fw_files w (temp_name path w k) = None"
  show "\<exists>w'. ngx_create_temp_file fuel path True a w = Some ((NGX_OK, temp_name path w k), w')
      \<and> fw_files w' = (fw_files w)(temp_name path w k \<mapsto> empty_file (tmp_access a))"
    unfolding create_temp_granted [OF g] temp_name_def
    by (rule temp_loop_finds [OF g k(3,1,2) [unfolded temp_name_def]])
next
  assume g: "fw_verdicts w = (\<lambda>_. Granted)" and t: "\<forall>i. fw_files w (temp_name path w i) \<noteq> None"
  show "ngx_create_temp_file fuel path True a w = None"
    unfolding create_temp_granted [OF g] by (rule temp_loop_stuck [OF g t [unfolded temp_name_def]])
qed

text \<open>A counter at 0 with increment 1, and a directory in which the first name is taken.\<close>

definition demo_taken :: fworld where
  "demo_taken = \<lparr>fw_files = [''/var/0000000001'' \<mapsto> empty_file 0], fw_dirs = [], fw_verdicts = (\<lambda>_. Granted), fw_number = 0, fw_random = 1\<rparr>"

theorem temp_file_new_witness:
  "\<exists>w'. ngx_create_temp_file 2 \<lparr>path_name = ''/var'', path_level = [0]\<rparr> True 0 demo_taken = Some ((NGX_OK, ''/var/0000000002''), w')
     \<and> fw_files w' ''/var/0000000002'' = Some (empty_file 0x180) \<and> fw_files w' ''/var/0000000001'' = Some (empty_file 0)"
proof -
  let ?p = "\<lparr>path_name = ''/var'', path_level = [0]\<rparr>"
  have n: "temp_name ?p demo_taken 0 = ''/var/0000000001''" "temp_name ?p demo_taken 1 = ''/var/0000000002''"
    by (simp_all add: temp_name_def num_name_def demo_taken_def ngx_create_hashed_filename_def demo_number demo_number_2 numeral_2_eq_2 [symmetric])
  have "\<forall>i < 1. fw_files demo_taken (temp_name ?p demo_taken i) \<noteq> None" "fw_files demo_taken (temp_name ?p demo_taken 1) = None"
    unfolding less_one using n by (simp_all add: demo_taken_def)
  with temp_file_new [of 2 ?p 0 demo_taken, THEN conjunct2, THEN conjunct1, rule_format, of 1] obtain w' where
    "ngx_create_temp_file 2 ?p True 0 demo_taken = Some ((NGX_OK, temp_name ?p demo_taken 1), w')"
    "fw_files w' = (fw_files demo_taken)(temp_name ?p demo_taken 1 \<mapsto> empty_file (tmp_access 0))"
    by (auto simp: demo_taken_def)
  with n show ?thesis by (simp add: demo_taken_def tmp_access_def)
qed

text \<open>C13. A complete download is found where the client looks for it. For a request the client built, the
  end of the download marks the entry as stored; when every call is granted the file now has the local
  path of the entry under the root of the server, with the bytes of the temporary file, the configured
  access and the time of the \<open>Last-Modified\<close> line, the temporary file is gone and every other file is
  as before. But the entry is marked as stored whatever the calls return, since nothing looks at the
  result of the move; and the text of the name fits its allocation only for paths of at most seven
  characters, since the allocation is made for the URI \<open>/getfile\<close> and not for the path.\<close>

theorem stored_on_disk:
  assumes "is_cstr ip" "is_cstr uri" "is_cstr lp" and "\<not> contains uri localpath_tag" and "length lp < SC_RES_LOCAL_PATH_MAX_LEN"
    and "r = client_request ip uri lp" and "store_root env = butlast SC_NGX_ROOT_PATH" "store_uri env = ''/getfile''"
    and "store_temp env = Some tmp" and "fw_files w tmp = Some x" and "fw_verdicts w = (\<lambda>_. Granted)" and "store_due u"
  shows "(\<exists>w1. end_of_download fuel env r u rl w = Some ((u\<lparr>us_store := False\<rparr>, mark_entry sc_res_flag_set_stored r rl), w1)
       \<and> fw_files w1 = (fw_files w)(tmp := None, SC_NGX_ROOT_PATH @ lp \<mapsto> finished (store_ext env) x))
     \<and> (\<exists>w2. end_of_download fuel env r u rl (w\<lparr>fw_verdicts := vs\<rparr>) =
       Some ((u\<lparr>us_store := False\<rparr>, mark_entry sc_res_flag_set_stored r rl), w2))
     \<and> ((case ngx_http_map_uri_to_path (store_root env) (store_uri env) r of (alloc, path) \<Rightarrow> length path + 1 \<le> alloc) \<longleftrightarrow> length lp \<le> 7)"
proof -
  note path = client_store_path [OF assms(1-5)]
  have pr: "ngx_http_upstream_process_request r u rl = (u\<lparr>us_store := False\<rparr>, mark_entry sc_res_flag_set_stored r rl)"
    using assms(12) by (simp add: ngx_http_upstream_process_request_def store_due_def)
  have st: "ngx_http_upstream_store fuel env r v =
      Some (snd (ngx_ext_rename_file tmp (SC_NGX_ROOT_PATH @ lp) (7 + length SC_NGX_ROOT_PATH) (store_ext env) v))" for v
    using path assms(6-9) by (simp add: ngx_http_upstream_store_def)
  have "\<exists>w1. end_of_download fuel env r u rl w = Some ((u\<lparr>us_store := False\<rparr>, mark_entry sc_res_flag_set_stored r rl), w1)
       \<and> fw_files w1 = (fw_files w)(tmp := None, SC_NGX_ROOT_PATH @ lp \<mapsto> finished (store_ext env) x)"
    using ext_rename_granted(2) [OF assms(11,10)] assms(12) by (simp add: end_of_download_def st pr)
  moreover have "\<exists>w2. end_of_download fuel env r u rl (w\<lparr>fw_verdicts := vs\<rparr>) =
       Some ((u\<lparr>us_store := False\<rparr>, mark_entry sc_res_flag_set_stored r rl), w2)"
    using assms(12) by (simp add: end_of_download_def st pr)
  moreover have "(case ngx_http_map_uri_to_path (store_root env) (store_uri env) r of (alloc, path) \<Rightarrow> length path + 1 \<le> alloc) \<longleftrightarrow> length lp \<le> 7"
    using path assms(6-8) by simp
  ultimately show ?thesis by blast
qed

definition demo_env :: store_env where
  "demo_env = \<lparr>store_access = 0x180, store_temp_path = \<lparr>path_name = ''/var'', path_level = [1, 2, 0]\<rparr>,
     store_root = butlast SC_NGX_ROOT_PATH, store_uri = ''/getfile'', store_temp = Some demo_tmp,
     store_last_modified = Some ''Sun, 01 Mar 1970 08:49:37 GMT''\<rparr>"

theorem stored_on_disk_witness:
  "\<forall>rl. \<exists>w1. end_of_download 1 demo_env (client_request ''127.0.0.1'' demo_content demo_path) demo_upstream rl (demo_world []) =
      Some ((demo_upstream\<lparr>us_store := False\<rparr>, mark_entry sc_res_flag_set_stored (client_request ''127.0.0.1'' demo_content demo_path) rl), w1)
     \<and> (\<exists>y. fw_files w1 (SC_NGX_ROOT_PATH @ demo_path) = Some y \<and> fl_data y = ''hello'' \<and> fl_mode y = 0x180)"
proof
  fix rl
  have h: "is_cstr ''127.0.0.1''" "is_cstr demo_content" "is_cstr demo_path" "\<not> contains demo_content localpath_tag"
    "length demo_path < SC_RES_LOCAL_PATH_MAX_LEN" by (simp_all add: demo_content_def demo_path_def localpath_tag_def contains_def hc_limits)
  have e: "store_root demo_env = butlast SC_NGX_ROOT_PATH" "store_uri demo_env = ''/getfile''" "store_temp demo_env = Some demo_tmp"
    by (simp_all add: demo_env_def)
  have w: "fw_files (demo_world []) demo_tmp = Some \<lparr>fl_data = ''hello'', fl_mode = 0, fl_time = None\<rparr>" "fw_verdicts (demo_world []) = (\<lambda>_. Granted)"
    by (simp_all add: demo_world_def)
  have u: "store_due demo_upstream" by (simp add: store_due_def demo_upstream_def download_complete_def)
  show "\<exists>w1. end_of_download 1 demo_env (client_request ''127.0.0.1'' demo_content demo_path) demo_upstream rl (demo_world []) =
      Some ((demo_upstream\<lparr>us_store := False\<rparr>, mark_entry sc_res_flag_set_stored (client_request ''127.0.0.1'' demo_content demo_path) rl), w1)
     \<and> (\<exists>y. fw_files w1 (SC_NGX_ROOT_PATH @ demo_path) = Some y \<and> fl_data y = ''hello'' \<and> fl_mode y = 0x180)"
  proof -
    obtain w1 where "end_of_download 1 demo_env (client_request ''127.0.0.1'' demo_content demo_path) demo_upstream rl (demo_world []) =
      Some ((demo_upstream\<lparr>us_store := False\<rparr>, mark_entry sc_res_flag_set_stored (client_request ''127.0.0.1'' demo_content demo_path) rl), w1)"
      "fw_files w1 (SC_NGX_ROOT_PATH @ demo_path) = Some (finished (store_ext demo_env) \<lparr>fl_data = ''hello'', fl_mode = 0, fl_time = None\<rparr>)"
      using stored_on_disk [OF h refl e w u, where fuel = 1 and rl = rl and vs = "\<lambda>_. Granted"] by fastforce
    then show ?thesis by (auto simp: finished_def store_ext_def demo_env_def)
  qed
qed

end
