(* ===== verification/Spec2Isabelle.thy ===== *)
theory Spec2Isabelle
  imports Client_Run Vf_Advert Catalog Response_Headers Ngx_Request Ngx_Store
begin

text \<open>
  A verification of the hot cache: a cache for videos behind a router.

  \<^bold>\<open>The program.\<close> Three parties work together. The \<^emph>\<open>Snooping module\<close> (not in the repository) watches
  the HTTP traffic of a network and sends the URLs of videos to the client. The \<^emph>\<open>snooping client\<close>
  (\<^verbatim>\<open>src/hot_cache\<close>) finds out which files make up a video, has nginx download them, keeps a list of
  all of them in a shared memory segment, and tells the Snooping module which URLs are cached.
  \<^emph>\<open>nginx\<close>, with the module \<^verbatim>\<open>src/ngx_http_getfile_module\<close> and some code added to
  \<^verbatim>\<open>src/nginx-1.5.13\<close>, fetches the files, marks them in the shared list, and serves them.

  The client's list has management entries (an \<open>origin\<close>, a page to parse; a \<open>normal\<close> entry, a
  single URL; a \<open>ctrl_ld\<close> entry, the loader of the files found on disk) and content entries, the
  files, which are the children of a management entry. Both live in arrays whose free slots are
  chained through the field that holds the identifier of a used slot. Flags in a content entry drive
  the work: \<open>I_FAIL\<close> (nginx could not be asked), \<open>D_FAIL\<close> (nginx could not download), \<open>STORED\<close>
  (nginx has stored the file) and \<open>NOTIFY\<close> (the Snooping module has been told).

  \<^bold>\<open>The theories.\<close> Paths are below \<^verbatim>\<open>src/hot_cache\<close> unless they say otherwise.

  \<^item> \<open>HC_Prelude\<close>, \<open>C_String\<close>, \<open>Os_World\<close>: machine types, buffers and C strings, the functions of the
    C library that the program uses, and the system calls as a record of functions over an arbitrary
    world, with an instance that answers from a script.
  \<^item> \<open>Res_Types\<close>: the limits, result codes, enums, structs and flag macros of \<^verbatim>\<open>include/\<close>. The flag
    laws say which update changes which flag.
  \<^item> \<open>Res_Url\<close>: the functions on URLs and local paths of \<^verbatim>\<open>sc_resource.c\<close>, \<^verbatim>\<open>sc_youku.c\<close> and
    \<^verbatim>\<open>sc_sohu.c\<close>. Round trips between URL and path, confinement of the paths, canonical origins, bounds.
  \<^item> \<open>Res_Pool\<close>: the segment and the two free lists, with machine addresses. A locale states the
    contract of a pool (what taking and giving back a slot does to the chain of free slots); it is
    interpreted on both pools.
  \<^item> \<open>Res_List\<close>, \<open>Res_Inv\<close>: adding, finding, merging and deleting entries, and the invariant \<open>res_inv\<close>
    of the list: the free chains are the free slots, every used content entry is on exactly one chain
    of children, whose length its parent counts, and the fields of used entries are well formed. Every
    operation keeps it and none faults under it.
  \<^item> \<open>Catalog\<close>: what the list promises, without slots and links: a catalog of groups and contents with
    marks, as a machine that serves requests. A locale for refinements (an invariant, an abstraction
    and one obligation for each request give that runs are simulated) is interpreted on the list.
  \<^item> \<open>Net_Util\<close>, \<open>Http_Session\<close>: connecting with retries, the status-line automaton (shown equal to a
    grammar), JSON escapes; the requests to nginx (\<^verbatim>\<open>sc_ngx.c\<close>) and to the sites. No descriptor leaks.
  \<^item> \<open>Snooping_Wire\<close>: the packets of \<^verbatim>\<open>include/http-snooping.h\<close> byte by byte, and the requests to the
    Snooping module (\<^verbatim>\<open>sc_snooping.c\<close>).
  \<^item> \<open>Sohu_Lib\<close>, \<open>Youku_Fileid\<close>, \<open>Youku_Request\<close>, \<open>Youku_Playlist\<close>: the protocols of the two sites
    (\<^verbatim>\<open>sohu/\<close>, \<^verbatim>\<open>youku/\<close>): m3u8 lists and redirects, the seeded alphabet and the file ids, the
    request URLs, the parser of playlists.
  \<^item> \<open>Client_State\<close>: the state of the client (the list, the two loaders, the world), its invariant
    \<open>sc_inv\<close> and the relation \<open>sc_evolves C\<close>: management entries stay as they are, and of the
    content entries of origins and downloads only those in \<open>C\<close> may change, in their flags, never from
    stored to not stored nor from announced to not announced.
  \<^item> \<open>Site_Client\<close>: from an origin to its content entries and the download of each; \<open>Vf_Advert\<close>: the
    advertisement list of Youku, whose call in \<open>main\<close> is compiled out.
  \<^item> \<open>Res_Process\<close>, \<open>Notify_Pass\<close>: the thread that walks over the list, retries and announces; the
    visits of a pass (\<open>pass_visits\<close>) say for each entry what was asked of nginx or told to the Snooping module.
  \<^item> \<open>Evolution\<close>: a locale for activities that keep a contract (an invariant and a reflexive and
    transitive relation), with runs of them; interpreted on \<open>sc_evolves\<close>.
  \<^item> \<open>Local_Data\<close>: the files on disk at the start (\<^verbatim>\<open>sc_localdata.c\<close>, \<^verbatim>\<open>util/os_util.c\<close>).
  \<^item> \<open>Snooping_Serve\<close>: the server and its handlers for PARSE and DOWN requests.
  \<^item> \<open>Getfile_Module\<close>: the nginx module that fetches a file. \<open>Ngx_Hooks\<close>: the code added to
    \<^verbatim>\<open>ngx_http_upstream.c\<close>, \<^verbatim>\<open>ngx_http_core_module.c\<close> and \<^verbatim>\<open>nginx.c\<close>, which attaches the list, names the
    stored file and marks its entry. \<open>Flv_Seek\<close>: the FLV module with the seek by time added to it.
  \<^item> \<open>Ngx_Response\<close>: how nginx reads the answer of a video server for the getfile module: its parsers of
    the status line and of header lines (\<^verbatim>\<open>ngx_http_parse.c\<close>), the two callbacks of the module, the
    handlers of the known headers and the reading loop (\<^verbatim>\<open>ngx_http_upstream.c\<close>). \<open>Response_Reading\<close>:
    the pieces an answer arrives in do not matter. \<open>Response_Headers\<close>: a written answer is read back.
  \<^item> \<open>Ngx_Uri\<close>: the parser of request lines and the decoding of URIs (\<^verbatim>\<open>ngx_http_parse.c\<close>); the URI of a
    request has no \<open>..\<close> between two slashes, though one may stand at its end. \<open>Ngx_Request\<close>: the loop that reads a request line, with the move to a large buffer
    (\<^verbatim>\<open>ngx_http_request.c\<close>); pieces and buffers do not matter, and a request of the client is followed byte
    by byte into the getfile module.
  \<^item> \<open>Ngx_Time\<close>: the date of a \<open>Last-Modified\<close> line (\<^verbatim>\<open>ngx_http_parse_time.c\<close>), shown equal to a calendar that
    counts days. \<open>Ngx_Store\<close>: the move of a downloaded file to its final name (\<^verbatim>\<open>ngx_http_upstream.c\<close>,
    \<^verbatim>\<open>ngx_file.c\<close>), over a file system whose calls may be refused or done in part in any order and for ever; the final
    name never holds a part of a file.
  \<^item> \<open>Client_Run\<close>: \<open>main\<close>, and the run of the whole: a step is a round of the server, a pass of the
    list thread, or the end of a download in nginx.

  \<^bold>\<open>What is shown.\<close> The properties are numbered C1, C2, \<dots> in the theories, in the order of their
  weight. C1 to C8 span the components: every run keeps the list sound and loses no entry of an
  origin or a download; a complete download is announced, an incomplete one is asked for again once
  bytes had arrived; the Youku files on disk are announced after a cold start, each video once;
  requests are recorded once; nginx marks the right entry and asks the video server for
  what the client asked for. The others state what the single components promise; among them are the
  reading of a request and of an answer by nginx, in any pieces, the storing of the file, and the
  refinement of the catalog by the list.

  \<^bold>\<open>Conventions.\<close> A function whose C code can read or write outside an object, or convert a number out
  of range, has an \<open>option\<close> as its result, and \<open>None\<close> is that fault; the error codes of the program
  are values. A buffer is the list of its bytes and an implicit zero fill. Uninitialised memory is a
  parameter (\<open>junk\<close>). Pointers to list entries are indices; the addresses that the program stores in
  identifiers are kept. A property about a call that may fault has the hypothesis that it comes back,
  and says so; where the code cannot fault this is proved (C1 for the start, C3, C6, and
  \<open>list_operations_safe\<close> for the list).

  \<^bold>\<open>Bounds.\<close> Loops along a chain of children take the number of content slots as their fuel
  (\<open>SC_RES_INFO_NUM_MAX_CTNT\<close>): a chain of a sound list is not longer, so the fuel is never used up,
  and a longer one would be a cycle. The endless loops of the server and of the thread are taken for
  an arbitrary number of rounds. The search for the name of a temporary file has a bound on its rounds
  as an argument (\<open>temp_file_new\<close> says after how many rounds it returns when the calls are granted, and
  that it never does when every name is taken). All other loops are structural or have a measure.

  \<^bold>\<open>Assumptions about the outside.\<close> They are named: \<open>os_recv_ok\<close> and \<open>os_recvfrom_ok\<close> (a receive
  delivers what it says), \<open>os_recv_ends\<close> (an answer does not fill the buffer to its last byte),
  \<open>fd_table\<close> (which descriptors system calls open, and that a close of an open one closes just that), \<open>snoop_acks\<close> (the Snooping module
  acknowledges), \<open>os_shmat_ok\<close> (where a segment can be attached), \<open>ftw_ok\<close> (the paths that \<open>ftw\<close>
  reports). Each has an instance in a witness.

  \<^bold>\<open>Parameters of nginx.\<close> The size of the header buffer (\<open>bsize\<close>, \<open>room\<close>), the size and number of the
  large buffers (\<open>lsize\<close>, \<open>lnum\<close>), the number of buckets of the table of known headers (\<open>nb\<close>) and the
  success of each allocation (\<open>alloc\<close> and \<open>mem\<close>, asked in the order the allocations are made) are arguments.

  \<^bold>\<open>Not modelled.\<close> nginx itself, apart from the code above (among what lies between: the event loop,
  the pipe that writes the body of an answer to the temporary file, the pools); a store path given by a
  script; other processes that change the same files during a move; the static tables that register the
  getfile module; one condition added to the MP4 module; logging; \<open>yk_debug_streams_all\<close>, which
  prints, and \<open>randomB\<close> and \<open>randomFT\<close> of \<^verbatim>\<open>youku/yk_getfileid.c\<close>, which \<open>ranom8T\<close> calls without using
  what they return; the build files. The steps of the three activities are taken as a whole: the program has no lock, as a comment
  in \<open>main\<close> says, and the interleaving of single memory accesses is not modelled.
\<close>

end
